(* ===== verification/Prelude.thy ===== *)
theory Prelude
  imports
    Complex_Main
    "HOL-Library.AList"
    "HOL-Library.Char_ord"
    "HOL-Library.List_Lexorder"
    "HOL-Library.Product_Lexorder"
    "HOL-Library.Multiset"
begin

section \<open>What every component shares\<close>

text \<open>
  The vocabulary of the whole development: volume ids and keys are Python strings, compared
  as Python compares them (lexicographically, by code point); a duration or an instant is a
  real number; a number the code may set to \<^verbatim>\<open>math.inf\<close> is an \<open>ext\<close>; every raise is a value of
  \<open>py_error\<close>, carried by a result \<open>'a res\<close>; a Python dict is an association list, since the
  program iterates dicts and the insertion order then shows (\<open>AList.update\<close> overwrites in
  place and appends a new key at the end, as \<^verbatim>\<open>d[k] = v\<close> does).
\<close>

type_synonym vid = string
type_synonym key = string
type_synonym time = real

named_theorems res_simps \<open>equations of the result monad\<close>
named_theorems dict_simps \<open>lookups in a dict after an operation on it\<close>

subsection \<open>Errors as values\<close>

datatype py_error =
    ValueError | KeyError | TypeError | RuntimeError | IndexError
  | AssertionError | AttributeError | ZeroDivisionError | StorageFull | NotImplementedError

type_synonym 'a res = "py_error + 'a"

definition bindr :: "'a res \<Rightarrow> ('a \<Rightarrow> 'b res) \<Rightarrow> 'b res" where
  "bindr m f = (case m of Inl e \<Rightarrow> Inl e | Inr x \<Rightarrow> f x)"

lemma bindr_Inl [simp, res_simps]: "bindr (Inl e) f = Inl e"
  by (simp add: bindr_def)

lemma bindr_Inr [simp, res_simps]: "bindr (Inr x) f = f x"
  by (simp add: bindr_def)

lemma bindr_eq_Inr_iff [res_simps]:
  "bindr m f = Inr y \<longleftrightarrow> (\<exists>x. m = Inr x \<and> f x = Inr y)"
  by (cases m) auto

lemma bindr_split: "P (bindr m f) \<longleftrightarrow> (\<forall>e. m = Inl e \<longrightarrow> P (Inl e)) \<and> (\<forall>x. m = Inr x \<longrightarrow> P (f x))"
  by (cases m) auto

lemma bindr_cong [fundef_cong]:
  "m = m' \<Longrightarrow> (\<And>x. m' = Inr x \<Longrightarrow> f x = g x) \<Longrightarrow> bindr m f = bindr m' g"
  by (cases m') auto

fun res_map :: "('a \<Rightarrow> 'b res) \<Rightarrow> 'a list \<Rightarrow> 'b list res" where
  "res_map f [] = Inr []"
| "res_map f (x # xs) = bindr (f x) (\<lambda>y. bindr (res_map f xs) (\<lambda>ys. Inr (y # ys)))"

lemma res_map_Inr_iff:
  "res_map f xs = Inr ys \<longleftrightarrow> list_all2 (\<lambda>x y. f x = Inr y) xs ys"
  by (induction xs arbitrary: ys) (auto simp: res_simps list_all2_Cons1)

lemma res_map_length: "res_map f xs = Inr ys \<Longrightarrow> length ys = length xs"
  by (auto simp: res_map_Inr_iff dest: list_all2_lengthD)

lemma res_map_total: "(\<And>x. x \<in> set xs \<Longrightarrow> f x = Inr (g x)) \<Longrightarrow> res_map f xs = Inr (map g xs)"
  by (induction xs) auto

lemma res_map_pure [simp]: "res_map (\<lambda>x. Inr (g x)) xs = Inr (map g xs)"
  by (simp add: res_map_total)

text \<open>A loop over a list whose body may raise.\<close>

fun res_fold :: "('a \<Rightarrow> 's \<Rightarrow> 's res) \<Rightarrow> 'a list \<Rightarrow> 's \<Rightarrow> 's res" where
  "res_fold f [] s = Inr s"
| "res_fold f (x # xs) s = bindr (f x s) (res_fold f xs)"

text \<open>A Python float that may be \<^verbatim>\<open>math.inf\<close>: a bandwidth, a capacity, an SLO limit.\<close>

datatype ext = Fin real | Inf

fun at_most :: "real \<Rightarrow> ext \<Rightarrow> bool" where
  "at_most x (Fin l) = (x \<le> l)"
| "at_most x Inf = True"

text \<open>\<^verbatim>\<open>x / y\<close> on floats: zero raises, infinity gives zero.\<close>

fun fdiv :: "real \<Rightarrow> ext \<Rightarrow> real res" where
  "fdiv x (Fin y) = (if y = 0 then Inl ZeroDivisionError else Inr (x / y))"
| "fdiv x Inf = Inr 0"

fun pos_ext :: "ext \<Rightarrow> bool" where
  "pos_ext (Fin y) = (0 < y)"
| "pos_ext Inf = True"

lemma at_most_trans: "x \<le> y \<Longrightarrow> at_most y l \<Longrightarrow> at_most x l"
  by (cases l) auto

lemma fdiv_pos: "pos_ext b \<Longrightarrow> 0 \<le> x \<Longrightarrow> \<exists>q. fdiv x b = Inr q \<and> 0 \<le> q"
  by (cases b) auto

lemma fdiv_mono: "pos_ext b \<Longrightarrow> x \<le> y \<Longrightarrow> fdiv x b = Inr p \<Longrightarrow> fdiv y b = Inr q \<Longrightarrow> p \<le> q"
  by (cases b) (auto simp: divide_right_mono split: if_splits)

subsection \<open>Dicts\<close>

text \<open>\<^verbatim>\<open>d.get(k, v)\<close>, \<^verbatim>\<open>d[k]\<close> and \<^verbatim>\<open>k in d\<close>.\<close>

definition dget :: "('k \<times> 'v) list \<Rightarrow> 'k \<Rightarrow> 'v \<Rightarrow> 'v" where
  "dget d k v = (case map_of d k of None \<Rightarrow> v | Some w \<Rightarrow> w)"

definition dindex :: "('k \<times> 'v) list \<Rightarrow> 'k \<Rightarrow> 'v res" where
  "dindex d k = (case map_of d k of None \<Rightarrow> Inl KeyError | Some w \<Rightarrow> Inr w)"

abbreviation dkeys :: "('k \<times> 'v) list \<Rightarrow> 'k list" where
  "dkeys d \<equiv> map fst d"

abbreviation dwf :: "('k \<times> 'v) list \<Rightarrow> bool" where
  "dwf d \<equiv> distinct (map fst d)"

lemma map_of_update [simp, dict_simps]:
  "map_of (AList.update k v d) k' = (if k' = k then Some v else map_of d k')"
  by (simp add: update_conv)

lemma map_of_delete [simp, dict_simps]:
  "map_of (AList.delete k d) k' = (if k' = k then None else map_of d k')"
  by (simp add: delete_conv)

lemma dget_update [simp, dict_simps]:
  "dget (AList.update k v d) k' w = (if k' = k then v else dget d k' w)"
  by (simp add: dget_def)

lemma dget_delete [simp, dict_simps]:
  "dget (AList.delete k d) k' w = (if k' = k then w else dget d k' w)"
  by (simp add: dget_def)

lemma dget_Nil [simp]: "dget [] k v = v"
  by (simp add: dget_def)

lemma dget_Cons [simp]: "dget ((a, b) # d) k v = (if k = a then b else dget d k v)"
  by (simp add: dget_def)

lemma dwf_update [simp, intro]: "dwf d \<Longrightarrow> dwf (AList.update k v d)"
  by (rule distinct_update)

lemma dwf_delete [simp, intro]: "dwf d \<Longrightarrow> dwf (AList.delete k d)"
  by (simp add: distinct_delete)

lemma dkeys_update: "set (dkeys (AList.update k v d)) = insert k (set (dkeys d))"
  by (simp add: dom_update)

lemma dkeys_delete: "set (dkeys (AList.delete k d)) = set (dkeys d) - {k}"
  by (induction d) auto

lemma set_update_subset: "set (AList.update k v d) \<subseteq> insert (k, v) (set d)"
  by (induction d) auto

lemma map_of_key_in: "map_of d k = Some v \<Longrightarrow> k \<in> set (dkeys d)"
  by (force dest: map_of_SomeD)

lemma map_of_None_iff: "map_of d k = None \<longleftrightarrow> k \<notin> set (dkeys d)"
  by (simp add: map_of_eq_None_iff)

text \<open>A comprehension \<^verbatim>\<open>{k: f(k) for k in ks}\<close> over distinct keys.\<close>

definition dict_over :: "('k \<Rightarrow> 'v) \<Rightarrow> 'k list \<Rightarrow> ('k \<times> 'v) list" where
  "dict_over f ks = map (\<lambda>k. (k, f k)) ks"

lemma dkeys_dict_over [simp]: "dkeys (dict_over f ks) = ks"
  by (simp add: dict_over_def comp_def)

lemma map_of_dict_over [simp, dict_simps]:
  "map_of (dict_over f ks) k = (if k \<in> set ks then Some (f k) else None)"
  by (induction ks) (auto simp: dict_over_def)

text \<open>\<^verbatim>\<open>dict(pairs)\<close>: a key stands where it first appears and holds what came last.\<close>

definition dict_of :: "('k \<times> 'v) list \<Rightarrow> ('k \<times> 'v) list" where
  "dict_of ps = fold (\<lambda>(k, v). AList.update k v) ps []"

lemma update_append_absent:
  "k \<notin> set (dkeys d) \<Longrightarrow> AList.update k v d = d @ [(k, v)]"
  by (induction d) auto

lemma fold_update_distinct:
  "distinct (dkeys d @ dkeys ps) \<Longrightarrow> fold (\<lambda>(k, v). AList.update k v) ps d = d @ ps"
proof (induction ps arbitrary: d)
  case (Cons p ps)
  obtain k v where p: "p = (k, v)" by (cases p)
  with Cons.prems have "AList.update k v d = d @ [(k, v)]"
    by (auto intro: update_append_absent)
  with Cons.IH [of "d @ [(k, v)]"] Cons.prems p show ?case by auto
qed simp

lemma dict_of_distinct: "distinct (dkeys ps) \<Longrightarrow> dict_of ps = ps"
  by (simp add: dict_of_def fold_update_distinct)

lemma dwf_dict_of [simp]: "dwf (dict_of ps)"
proof -
  have "dwf d \<Longrightarrow> dwf (fold (\<lambda>(k, v). AList.update k v) ps d)" for d
    by (induction ps arbitrary: d) (auto simp: distinct_update)
  then show ?thesis by (simp add: dict_of_def)
qed

lemma dkeys_dict_of [simp]: "fst ` set (dict_of ps) = fst ` set ps"
proof -
  have "fst ` set (fold (\<lambda>(k, v). AList.update k v) ps d) = fst ` set d \<union> fst ` set ps" for d
  proof (induction ps arbitrary: d)
    case (Cons p ps)
    have "fst ` set (AList.update k v d) = insert k (fst ` set d)" for k v
      using dom_update [of k v d] by simp
    with Cons show ?case by (cases p) simp
  qed simp
  then show ?thesis by (simp add: dict_of_def)
qed

text \<open>The sum over a dict's values: what an operation on the dict does to it.\<close>

definition dsum :: "('k \<times> 'v::ab_group_add) list \<Rightarrow> 'v" where
  "dsum d = sum_list (map snd d)"

lemma dsum_Nil [simp]: "dsum [] = 0"
  by (simp add: dsum_def)

lemma dsum_update: "dwf d \<Longrightarrow> dsum (AList.update k v d) = dsum d + v - dget d k 0"
  by (induction d) (auto simp: dsum_def dget_def map_of_None_iff algebra_simps split: option.splits)

lemma delete_absent: "k \<notin> set (dkeys d) \<Longrightarrow> AList.delete k d = d"
  by (induction d) auto

lemma delete_update_absent: "k \<notin> set (dkeys d) \<Longrightarrow> AList.delete k (AList.update k v d) = d"
  by (induction d) (auto intro: delete_absent)

lemma dsum_delete: "dwf d \<Longrightarrow> dsum (AList.delete k d) = dsum d - dget d k 0"
proof (induction d)
  case Nil
  then show ?case by simp
next
  case (Cons p d)
  obtain a b where p: "p = (a, b)" by (cases p)
  show ?case
  proof (cases "k = a")
    case True
    with Cons.prems p have "AList.delete k d = d" by (auto intro: delete_absent)
    with True p show ?thesis by (simp add: dsum_def)
  next
    case False
    with Cons p show ?thesis by (simp add: dsum_def)
  qed
qed

subsection \<open>Lists\<close>

text \<open>
  \<^verbatim>\<open>min(xs, key=f)\<close> answers with the first of the least elements, and raises on an empty
  sequence; it is the front of \<^verbatim>\<open>sorted(xs, key=f)\<close>, which is stable.
\<close>

fun min_key :: "('a \<Rightarrow> 'k::linorder) \<Rightarrow> 'a list \<Rightarrow> 'a option" where
  "min_key f [] = None"
| "min_key f (x # xs) =
     (case min_key f xs of None \<Rightarrow> Some x | Some y \<Rightarrow> Some (if f x \<le> f y then x else y))"

lemma min_key_None_iff [simp]: "min_key f xs = None \<longleftrightarrow> xs = []"
  by (cases xs) (auto split: option.splits)

lemma insort_key_hd:
  "hd (insort_key f x ys) = (if ys = [] \<or> f x \<le> f (hd ys) then x else hd ys)"
  by (cases ys) auto

lemma min_key_sort: "xs \<noteq> [] \<Longrightarrow> min_key f xs = Some (hd (sort_key f xs))"
proof (induction xs)
  case Nil
  then show ?case by simp
next
  case (Cons x xs)
  show ?case
  proof (cases "xs = []")
    case True
    then show ?thesis by simp
  next
    case False
    then have "sort_key f xs \<noteq> []"
      by (metis length_0_conv length_sort)
    with Cons False show ?thesis
      by (simp add: insort_key_hd)
  qed
qed

lemma min_key_in: "min_key f xs = Some m \<Longrightarrow> m \<in> set xs"
  by (induction xs arbitrary: m) (auto split: option.splits if_splits)

lemma min_key_le: "min_key f xs = Some m \<Longrightarrow> x \<in> set xs \<Longrightarrow> f m \<le> f x"
proof (induction xs arbitrary: m)
  case Nil
  then show ?case by simp
next
  case (Cons y ys)
  show ?case
  proof (cases "min_key f ys")
    case None
    with Cons.prems show ?thesis by simp
  next
    case (Some z)
    note z = Cons.IH [OF Some]
    show ?thesis
    proof (cases "f y \<le> f z")
      case True
      with Cons.prems Some show ?thesis by (auto dest: z intro: order_trans)
    next
      case False
      with Cons.prems Some show ?thesis by (auto dest: z)
    qed
  qed
qed

text \<open>\<^verbatim>\<open>tuple(dict.fromkeys(xs))\<close>: each element once, where it first stands.\<close>

fun uniq :: "'a list \<Rightarrow> 'a list" where
  "uniq [] = []"
| "uniq (x # xs) = x # uniq (filter (\<lambda>y. y \<noteq> x) xs)"

lemma set_uniq [simp]: "set (uniq xs) = set xs"
  by (induction xs rule: uniq.induct) auto

lemma distinct_uniq [simp]: "distinct (uniq xs)"
  by (induction xs rule: uniq.induct) auto

lemma uniq_distinct: "distinct xs \<Longrightarrow> uniq xs = xs"
proof (induction xs rule: uniq.induct)
  case 1
  then show ?case by simp
next
  case (2 x xs)
  then have "filter (\<lambda>y. y \<noteq> x) xs = xs"
    by (auto simp: filter_id_conv)
  with 2 show ?case by simp
qed

lemma hd_uniq [simp]: "xs \<noteq> [] \<Longrightarrow> hd (uniq xs) = hd xs"
  by (cases xs) auto

end
