(* ===== verification/EventLoop.thy ===== *)
theory EventLoop
  imports Prelude
begin

section \<open>The two event engines\<close>

text \<open>
  \<^verbatim>\<open>sim_common/engine.py\<close> (callbacks on a \<^verbatim>\<open>(time, seq)\<close> heap, and one-shot promises) and the
  core of \<^verbatim>\<open>sim_common/async_engine.py\<close> (the virtual-clock \<^verbatim>\<open>asyncio\<close> loop). Both keep their
  timers on a \<^verbatim>\<open>heapq\<close> ordered by \<^verbatim>\<open>(time, seq)\<close>. What they use of a heap is the locale
  \<open>timer_heap\<close>: a bag of timers from which the least leaves first.
\<close>

subsection \<open>What a heap promises\<close>

locale timer_heap =
  fixes push :: "'e \<Rightarrow> 'q \<Rightarrow> 'q"
    and pop :: "'q \<Rightarrow> ('e \<times> 'q) option"
    and contents :: "'q \<Rightarrow> 'e multiset"
    and invar :: "'q \<Rightarrow> bool"
    and rank :: "'e \<Rightarrow> 'k::linorder"
  assumes contents_push: "contents (push e q) = add_mset e (contents q)"
    and invar_push: "invar q \<Longrightarrow> invar (push e q)"
    and pop_None: "pop q = None \<longleftrightarrow> contents q = {#}"
    and pop_contents: "pop q = Some (e, q') \<Longrightarrow> contents q = add_mset e (contents q')"
    and pop_least: "invar q \<Longrightarrow> pop q = Some (e, q') \<Longrightarrow> x \<in># contents q' \<Longrightarrow> rank e \<le> rank x"
    and invar_pop: "invar q \<Longrightarrow> pop q = Some (e, q') \<Longrightarrow> invar q'"
begin

lemma pop_member: "pop q = Some (e, q') \<Longrightarrow> e \<in># contents q"
  by (simp add: pop_contents)

lemma pop_subset: "pop q = Some (e, q') \<Longrightarrow> x \<in># contents q' \<Longrightarrow> x \<in># contents q"
  by (simp add: pop_contents)

lemma pop_size: "pop q = Some (e, q') \<Longrightarrow> size (contents q) = Suc (size (contents q'))"
  by (simp add: pop_contents)

lemma pop_min: "invar q \<Longrightarrow> pop q = Some (e, q') \<Longrightarrow> x \<in># contents q \<Longrightarrow> rank e \<le> rank x"
  by (auto simp: pop_contents intro: pop_least)

lemma push_keeps: "(\<forall>x \<in># contents q. P x) \<Longrightarrow> P e \<Longrightarrow> \<forall>x \<in># contents (push e q). P x"
  by (simp add: contents_push)

lemma pop_keeps: "pop q = Some (e, q') \<Longrightarrow> (\<forall>x \<in># contents q. P x) \<Longrightarrow> (\<forall>x \<in># contents q'. P x)"
  by (simp add: pop_contents)

end

text \<open>
  The model's heap: the timers as a list in \<^verbatim>\<open>(time, seq)\<close> order. A heap's array layout is not
  observable through \<^verbatim>\<open>heappush\<close> and \<^verbatim>\<open>heappop\<close>, and no two timers share a seq, so the order
  they leave in is the whole of what the program sees.
\<close>

fun heappush :: "('e \<Rightarrow> 'k::linorder) \<Rightarrow> 'e \<Rightarrow> 'e list \<Rightarrow> 'e list" where
  "heappush rank e q = insort_key rank e q"

fun heappop :: "'e list \<Rightarrow> ('e \<times> 'e list) option" where
  "heappop [] = None"
| "heappop (e # q) = Some (e, q)"

lemma heap_laws: "timer_heap (heappush rank) heappop mset (\<lambda>q. sorted (map rank q)) rank"
proof
  fix e e' :: 'a and q q' x
  show "mset (heappush rank e q) = add_mset e (mset q)" by simp
  show "sorted (map rank q) \<Longrightarrow> sorted (map rank (heappush rank e q))"
    by (simp add: sorted_insort_key)
  show "(heappop q = None) = (mset q = {#})" by (cases q) auto
  show "heappop q = Some (e, q') \<Longrightarrow> mset q = add_mset e (mset q')" by (cases q) auto
  show "sorted (map rank q) \<Longrightarrow> heappop q = Some (e, q') \<Longrightarrow> x \<in># mset q' \<Longrightarrow> rank e \<le> rank x"
    by (cases q) auto
  show "sorted (map rank q) \<Longrightarrow> heappop q = Some (e, q') \<Longrightarrow> sorted (map rank q')"
    by (cases q) auto
qed

subsection \<open>Sim: callbacks on a heap\<close>

text \<open>
  A callback is a closure. What the engine sees of it is the calls of \<^verbatim>\<open>schedule\<close> it makes, so a
  program gives each callback a body: a function of the application's own state that updates
  it and lists those calls in order (delay, callback, label).
\<close>

type_synonym 'c event = "time \<times> nat \<times> 'c \<times> string"
type_synonym ('c, 's) body = "'c \<Rightarrow> time \<Rightarrow> 's \<Rightarrow> 's \<times> (time \<times> 'c \<times> string) list"

record 'c sim =
  sim_now :: time
  sim_heap :: "'c event list"
  sim_seq :: nat

definition sim_init :: "'c sim" where
  "sim_init = \<lparr>sim_now = 0, sim_heap = [], sim_seq = 0\<rparr>"

fun event_rank :: "'c event \<Rightarrow> time \<times> nat" where
  "event_rank (t, n, _, _) = (t, n)"

definition schedule :: "'c sim \<Rightarrow> time \<Rightarrow> 'c \<Rightarrow> string \<Rightarrow> (nat \<times> 'c sim) res" where
  "schedule s delay cb label =
     (if delay < 0 then Inl AssertionError
      else Inr (sim_seq s,
        s\<lparr>sim_seq := sim_seq s + 1,
          sim_heap := heappush event_rank (sim_now s + delay, sim_seq s, cb, label) (sim_heap s)\<rparr>))"

fun schedule_all :: "'c sim \<Rightarrow> (time \<times> 'c \<times> string) list \<Rightarrow> 'c sim res" where
  "schedule_all s [] = Inr s"
| "schedule_all s ((d, cb, l) # calls) =
     bindr (schedule s d cb l) (\<lambda>(_, s'). schedule_all s' calls)"

text \<open>One turn of the loop of \<^verbatim>\<open>run\<close>: pop, move the clock, call back.\<close>

definition sim_fire :: "('c, 's) body \<Rightarrow> 'c event \<Rightarrow> 'c event list \<Rightarrow> 'c sim \<Rightarrow> 's \<Rightarrow> ('s \<times> 'c sim) res" where
  "sim_fire body e h s app =
     (case e of (t, n, cb, l) \<Rightarrow>
        case body cb t app of (app', calls) \<Rightarrow>
          bindr (schedule_all (s\<lparr>sim_now := t, sim_heap := h\<rparr>) calls) (\<lambda>s'. Inr (app', s')))"

text \<open>
  \<^verbatim>\<open>run\<close> stops when the heap is empty, which a program that keeps scheduling never reaches:
  \<open>None\<close> is a run that has not stopped within its fuel. The list is what has fired, in order.
\<close>

fun sim_run :: "('c, 's) body \<Rightarrow> nat \<Rightarrow> 'c sim \<Rightarrow> 's \<Rightarrow> ('s \<times> 'c sim \<times> (time \<times> nat) list) res option" where
  "sim_run body fuel s app =
     (case heappop (sim_heap s) of
        None \<Rightarrow> Some (Inr (app, s, []))
      | Some (e, h) \<Rightarrow>
          (case fuel of
             0 \<Rightarrow> None
           | Suc fuel' \<Rightarrow>
               (case sim_fire body e h s app of
                  Inl err \<Rightarrow> Some (Inl err)
                | Inr (app', s') \<Rightarrow>
                    map_option (\<lambda>r. bindr r (\<lambda>(a, z, fired). Inr (a, z, event_rank e # fired)))
                      (sim_run body fuel' s' app'))))"

declare sim_run.simps [simp del]

interpretation sim_queue: timer_heap "heappush event_rank" heappop mset
  "\<lambda>q. sorted (map event_rank q)" event_rank
  by (rule heap_laws)

text \<open>
  The invariant: the heap is in order, nothing on it is due before now, and every seq on it
  has been handed out, once.
\<close>

abbreviation event_seq :: "'c event \<Rightarrow> nat" where
  "event_seq e \<equiv> fst (snd e)"

definition sim_inv :: "'c sim \<Rightarrow> bool" where
  "sim_inv s \<longleftrightarrow>
     sorted (map event_rank (sim_heap s)) \<and>
     distinct (map event_seq (sim_heap s)) \<and>
     (\<forall>e \<in># mset (sim_heap s). sim_now s \<le> fst e \<and> event_seq e < sim_seq s)"

lemma sim_inv_init [simp]: "sim_inv sim_init"
  by (simp add: sim_inv_def sim_init_def)

lemma distinct_map_insort:
  "distinct (map f (insort_key r x xs)) \<longleftrightarrow> f x \<notin> f ` set xs \<and> distinct (map f xs)"
proof -
  have "mset (map f (insort_key r x xs)) = mset (map f (x # xs))" by simp
  then have "distinct (map f (insort_key r x xs)) = distinct (map f (x # xs))"
    by (rule mset_eq_imp_distinct_iff)
  then show ?thesis by simp
qed

lemma schedule_inv:
  assumes "sim_inv s" "schedule s d cb l = Inr (n, s')"
  shows "sim_inv s'" and "sim_now s' = sim_now s" and "sim_seq s \<le> sim_seq s'"
proof -
  from assms(2) have d: "0 \<le> d" and s': "s' = s\<lparr>sim_seq := sim_seq s + 1,
      sim_heap := heappush event_rank (sim_now s + d, sim_seq s, cb, l) (sim_heap s)\<rparr>"
    by (auto simp: schedule_def split: if_splits)
  have "sorted (map event_rank (sim_heap s'))"
    using assms(1) by (simp add: s' sim_inv_def sim_queue.invar_push del: heappush.simps)
  moreover have "distinct (map event_seq (sim_heap s'))"
    using assms(1) by (auto simp: s' sim_inv_def distinct_map_insort)
  moreover have "\<forall>e \<in># mset (sim_heap s'). sim_now s \<le> fst e \<and> event_seq e < sim_seq s + 1"
    unfolding s' using assms(1) d
    by (simp add: sim_inv_def sim_queue.contents_push less_Suc_eq del: heappush.simps)
  ultimately show "sim_inv s'" "sim_now s' = sim_now s" "sim_seq s \<le> sim_seq s'"
    by (simp_all add: sim_inv_def s')
qed

lemma schedule_heap:
  "schedule s d cb l = Inr (n, s') \<Longrightarrow> e \<in># mset (sim_heap s') \<Longrightarrow>
     e \<in># mset (sim_heap s) \<or> (sim_now s \<le> fst e \<and> event_seq e = sim_seq s)"
  by (auto simp: schedule_def set_insort_key split: if_splits)

lemma schedule_all_inv:
  "sim_inv s \<Longrightarrow> schedule_all s calls = Inr s' \<Longrightarrow>
     sim_inv s' \<and> sim_now s' = sim_now s \<and> sim_seq s \<le> sim_seq s' \<and>
     (\<forall>e \<in># mset (sim_heap s'). e \<in># mset (sim_heap s) \<or> (sim_now s \<le> fst e \<and> sim_seq s \<le> event_seq e))"
proof (induction s calls rule: schedule_all.induct)
  case (1 s)
  then show ?case by simp
next
  case (2 s d cb l calls)
  from "2.prems"(2) obtain n s1 where s1: "schedule s d cb l = Inr (n, s1)"
    and rest: "schedule_all s1 calls = Inr s'"
    by (auto simp: res_simps)
  note step = schedule_inv [OF "2.prems"(1) s1]
  from "2.IH" [OF s1 refl step(1) rest]
  have ih: "sim_inv s'" "sim_now s' = sim_now s1" "sim_seq s1 \<le> sim_seq s'"
    "\<forall>e \<in># mset (sim_heap s'). e \<in># mset (sim_heap s1) \<or> (sim_now s1 \<le> fst e \<and> sim_seq s1 \<le> event_seq e)"
    by blast+
  have "e \<in># mset (sim_heap s) \<or> (sim_now s \<le> fst e \<and> sim_seq s \<le> event_seq e)"
    if "e \<in># mset (sim_heap s')" for e
    using ih(4) that schedule_heap [OF s1, of e] step by fastforce
  with ih step show ?case by auto
qed

text \<open>
  Firing the least event keeps the invariant, and leaves only events that come after it in
  the \<^verbatim>\<open>(time, seq)\<close> order.
\<close>

lemma sim_fire_inv:
  assumes inv: "sim_inv s" and pop: "heappop (sim_heap s) = Some (e, h)"
    and fire: "sim_fire body e h s app = Inr (app', s')"
  shows "sim_inv s'" and "sim_now s' = fst e" and "sim_now s \<le> sim_now s'"
    and "x \<in># mset (sim_heap s') \<Longrightarrow> event_rank e < event_rank x"
proof -
  obtain t n cb l where e: "e = (t, n, cb, l)" by (cases e)
  from fire e obtain calls where calls: "schedule_all (s\<lparr>sim_now := t, sim_heap := h\<rparr>) calls = Inr s'"
    by (auto simp: sim_fire_def res_simps split: prod.splits)
  have heap: "sim_heap s = e # h" using pop by (cases "sim_heap s") auto
  have t: "sim_now s \<le> t" and n: "n < sim_seq s" using inv heap e by (auto simp: sim_inv_def)
  have later: "event_rank e < event_rank x" if "x \<in> set h" for x
    using inv heap that by (cases x) (force simp: sim_inv_def e less_prod_def less_eq_prod_def)
  have mid: "sim_inv (s\<lparr>sim_now := t, sim_heap := h\<rparr>)"
    using inv heap e by (auto simp: sim_inv_def less_prod_def less_eq_prod_def)
  note all = schedule_all_inv [OF mid calls]
  show "sim_inv s'" "sim_now s' = fst e" "sim_now s \<le> sim_now s'"
    using all e t by auto
  show "event_rank e < event_rank x" if "x \<in># mset (sim_heap s')"
  proof -
    obtain a b c d where x: "x = (a, b, c, d)" by (cases x)
    from all that have "x \<in> set h \<or> (t \<le> a \<and> sim_seq s \<le> b)" by (auto simp: x)
    then show ?thesis using later [of x] n by (auto simp: e x less_prod_def)
  qed
qed

text \<open>The result of a run that has stopped, one turn at a time.\<close>

lemma sim_run_done: "sim_heap s = [] \<Longrightarrow> sim_run body fuel s app = Some (Inr (app, s, []))"
  by (simp add: sim_run.simps)

lemma sim_run_turn:
  assumes "sim_run body fuel s app = Some (Inr (a, z, fired))" and "sim_heap s \<noteq> []"
  obtains e h fuel' app' s' fired' where
    "heappop (sim_heap s) = Some (e, h)" "fuel = Suc fuel'"
    "sim_fire body e h s app = Inr (app', s')"
    "sim_run body fuel' s' app' = Some (Inr (a, z, fired'))" "fired = event_rank e # fired'"
proof -
  obtain e h where eh: "heappop (sim_heap s) = Some (e, h)"
    using assms(2) by (cases "sim_heap s") auto
  obtain fuel' where f: "fuel = Suc fuel'"
    using assms(1) eh by (cases fuel) (auto simp: sim_run.simps)
  obtain app' s' where fire: "sim_fire body e h s app = Inr (app', s')"
    using assms(1) eh f by (cases "sim_fire body e h s app") (auto simp: sim_run.simps)
  from assms(1) eh f fire obtain r where
    r: "sim_run body fuel' s' app' = Some r" "bindr r (\<lambda>(a, z, fired). Inr (a, z, event_rank e # fired)) = Inr (a, z, fired)"
    by (auto simp: sim_run.simps [of body "Suc fuel'"])
  then obtain fired' where "r = Inr (a, z, fired')" "fired = event_rank e # fired'"
    by (auto simp: res_simps)
  with that eh f fire r show thesis by blast
qed

lemma sim_run_after:
  "sim_run body fuel s app = Some (Inr (a, z, fired)) \<Longrightarrow> sim_inv s \<Longrightarrow>
     (\<And>x. x \<in> set (sim_heap s) \<Longrightarrow> r < event_rank x) \<Longrightarrow> f \<in> set fired \<Longrightarrow> r < f"
proof (induction fuel arbitrary: s app fired r)
  case 0
  then show ?case by (auto simp: sim_run.simps split: option.splits)
next
  case (Suc fuel)
  have "sim_heap s \<noteq> []" using Suc.prems(1,4) by (auto simp: sim_run_done)
  from sim_run_turn [OF Suc.prems(1) this] obtain e h app' s' fired' where
    e: "heappop (sim_heap s) = Some (e, h)" "sim_fire body e h s app = Inr (app', s')"
    and run: "sim_run body fuel s' app' = Some (Inr (a, z, fired'))" and fired: "fired = event_rank e # fired'"
    by (metis nat.inject)
  have re: "r < event_rank e"
    using Suc.prems(3) sim_queue.pop_member [OF e(1)] by simp
  note inv = sim_fire_inv [OF Suc.prems(2) e]
  have "r < f" if "f \<in> set fired'"
    using Suc.IH [OF run inv(1) _ that, of "event_rank e"] inv(4) re by fastforce
  with Suc.prems(4) fired re show ?case by auto
qed

text \<open>A run that returns has fired its events in strictly increasing \<^verbatim>\<open>(time, seq)\<close>
  order, ends with an empty heap, and never moved the clock back.\<close>

theorem sim_run_ordered:
  "sim_run body fuel s app = Some (Inr (a, z, fired)) \<Longrightarrow> sim_inv s \<Longrightarrow>
     sorted_wrt (<) fired \<and> sim_heap z = [] \<and> sim_now s \<le> sim_now z"
proof (induction fuel arbitrary: s app fired)
  case 0
  then show ?case by (cases "sim_heap s") (auto simp: sim_run.simps)
next
  case (Suc fuel)
  show ?case
  proof (cases "sim_heap s = []")
    case True
    with Suc.prems(1) show ?thesis by (auto simp: sim_run_done)
  next
    case False
    from sim_run_turn [OF Suc.prems(1) this] obtain e h app' s' fired' where
      e: "heappop (sim_heap s) = Some (e, h)" "sim_fire body e h s app = Inr (app', s')"
      and run: "sim_run body fuel s' app' = Some (Inr (a, z, fired'))" and fired: "fired = event_rank e # fired'"
      by (metis nat.inject)
    note inv = sim_fire_inv [OF Suc.prems(2) e]
    have "event_rank e < f" if "f \<in> set fired'" for f
      using sim_run_after [OF run inv(1) _ that] inv(4) by simp
    with Suc.IH [OF run inv(1)] inv(3) fired show ?thesis by auto
  qed
qed

text \<open>A program's weight: a natural number for each callback, summed over what is pending.\<close>

abbreviation heap_weight :: "('c \<Rightarrow> nat) \<Rightarrow> 'c event list \<Rightarrow> nat" where
  "heap_weight wt h \<equiv> sum_list (map (\<lambda>(_, _, cb, _). wt cb) h)"

abbreviation calls_weight :: "('c \<Rightarrow> nat) \<Rightarrow> (time \<times> 'c \<times> string) list \<Rightarrow> nat" where
  "calls_weight wt calls \<equiv> sum_list (map (\<lambda>(_, cb, _). wt cb) calls)"

lemma sum_list_insort: "sum_list (map f (insort_key r x xs)) = f x + sum_list (map f xs :: nat list)"
  by (induction xs) auto

lemma schedule_all_weight:
  "schedule_all s calls = Inr s' \<Longrightarrow>
     heap_weight wt (sim_heap s') = heap_weight wt (sim_heap s) + calls_weight wt calls"
  by (induction s calls arbitrary: s' rule: schedule_all.induct)
    (auto simp: res_simps schedule_def sum_list_insort split: if_splits)

text \<open>A program whose callbacks schedule only lighter work stops, and the weight of
  what is on the heap is enough fuel for it.\<close>

theorem sim_run_stops:
  assumes light: "\<And>cb t a. calls_weight wt (snd (body cb t a)) < wt cb"
  shows "heap_weight wt (sim_heap s) \<le> fuel \<Longrightarrow> \<exists>r. sim_run body fuel s app = Some r"
proof (induction fuel arbitrary: s app)
  case 0
  have "sim_heap s = []"
  proof (cases "sim_heap s")
    case (Cons e h)
    with 0 light [of "fst (snd (snd e))" "fst e" app] show ?thesis by (auto split: prod.splits)
  qed simp
  then show ?case by (simp add: sim_run_done)
next
  case (Suc fuel)
  show ?case
  proof (cases "sim_heap s")
    case Nil
    then show ?thesis by (simp add: sim_run_done)
  next
    case (Cons e h)
    obtain t n cb l where e: "e = (t, n, cb, l)" by (cases e)
    show ?thesis
    proof (cases "sim_fire body e h s app")
      case (Inl err)
      with Cons show ?thesis by (simp add: sim_run.simps)
    next
      case (Inr r)
      obtain app' s' where r: "r = (app', s')" by (cases r)
      from Inr e r have calls:
        "schedule_all (s\<lparr>sim_now := t, sim_heap := h\<rparr>) (snd (body cb t app)) = Inr s'"
        by (auto simp: sim_fire_def res_simps split: prod.splits)
      have "heap_weight wt (sim_heap s') \<le> fuel"
        using schedule_all_weight [OF calls, of wt] light [of cb t app] Suc.prems Cons e by simp
      from Suc.IH [OF this, of app'] Inr r Cons show ?thesis
        by (auto simp: sim_run.simps [of body "Suc fuel"])
    qed
  qed
qed

subsection \<open>Promises\<close>

record 'c promise =
  pr_resolved :: bool
  pr_cbs :: "'c list"

definition promise_init :: "'c promise" where
  "promise_init = \<lparr>pr_resolved = False, pr_cbs = []\<rparr>"

definition add_callback :: "'c promise \<Rightarrow> 'c sim \<Rightarrow> 'c \<Rightarrow> ('c promise \<times> 'c sim) res" where
  "add_callback p s cb =
     (if pr_resolved p then bindr (schedule s 0 cb []) (\<lambda>(_, s'). Inr (p, s'))
      else Inr (p\<lparr>pr_cbs := pr_cbs p @ [cb]\<rparr>, s))"

definition resolve :: "'c promise \<Rightarrow> 'c sim \<Rightarrow> ('c promise \<times> 'c sim) res" where
  "resolve p s =
     (if pr_resolved p then Inr (p, s)
      else bindr (schedule_all s (map (\<lambda>cb. (0, cb, [])) (pr_cbs p)))
        (\<lambda>s'. Inr (\<lparr>pr_resolved = True, pr_cbs = []\<rparr>, s')))"

lemma schedule_all_now: "\<exists>s'. schedule_all s (map (\<lambda>cb. (0, cb, [])) cbs) = Inr s'"
  by (induction cbs arbitrary: s) (auto simp: schedule_def)

lemma schedule_all_append:
  "schedule_all s (xs @ ys) = bindr (schedule_all s xs) (\<lambda>s'. schedule_all s' ys)"
proof (induction xs arbitrary: s)
  case (Cons x xs)
  then show ?case by (cases x) (auto simp: bindr_def split: sum.splits)
qed simp

lemma resolve_total: "\<exists>p' s'. resolve p s = Inr (p', s') \<and> pr_resolved p'"
proof -
  obtain s' where "schedule_all s (map (\<lambda>cb. (0, cb, [])) (pr_cbs p)) = Inr s'"
    using schedule_all_now by blast
  then show ?thesis by (auto simp: resolve_def)
qed

text \<open>Registering a callback before or after the promise resolves schedules the same
  callbacks, in the same order, at the same instant: a waiter cannot miss the resolution.\<close>

theorem promise_no_lost_callback:
  assumes "\<not> pr_resolved p"
  shows "bindr (add_callback p s cb) (\<lambda>(p', s'). resolve p' s') =
         bindr (resolve p s) (\<lambda>(p', s'). add_callback p' s' cb)"
proof -
  obtain s1 where "schedule_all s (map (\<lambda>cb. (0, cb, [])) (pr_cbs p)) = Inr s1"
    using schedule_all_now by blast
  with assms show ?thesis
    by (simp add: add_callback_def resolve_def schedule_all_append)
      (simp add: schedule_def)
qed

subsection \<open>The theorems at work\<close>

text \<open>A countdown: callback \<open>n\<close> schedules callback \<open>n - 1\<close> a second later, down to zero.\<close>

fun countdown :: "(nat, nat) body" where
  "countdown n t a = (a + 1, if n = 0 then [] else [(1, n - 1, ''tick'')])"

definition countdown_start :: "nat sim" where
  "countdown_start = \<lparr>sim_now = 0, sim_heap = [(1, 0, 1, ''a''), (1, 1, 0, ''b'')], sim_seq = 2\<rparr>"

lemma countdown_run:
  "sim_run countdown 3 countdown_start 0 =
     Some (Inr (3, \<lparr>sim_now = 2, sim_heap = [], sim_seq = 3\<rparr>, [(1, 0), (1, 1), (2, 2)]))"
  by (simp add: countdown_start_def sim_run.simps sim_fire_def schedule_def eval_nat_numeral
      less_eq_prod_def)

lemma sim_run_ordered_witness:
  "sorted_wrt (<) [(1::time, 0::nat), (1, 1), (2, 2)] \<and> sim_now countdown_start \<le> 2"
  using sim_run_ordered [OF countdown_run] by (simp add: countdown_start_def sim_inv_def less_eq_prod_def)

lemma sim_run_stops_witness:
  "\<exists>r. sim_run countdown 5 countdown_start 0 = Some r"
  by (rule sim_run_stops [where wt = Suc]) (auto simp: countdown_start_def)

lemma promise_no_lost_callback_witness:
  "bindr (add_callback promise_init countdown_start 7) (\<lambda>(p', s'). resolve p' s') =
     bindr (resolve promise_init countdown_start) (\<lambda>(p', s'). add_callback p' s' 7)"
  by (rule promise_no_lost_callback) (simp add: promise_init_def)

end
