(* ===== verification/AsyncLoop.thy ===== *)
theory AsyncLoop
  imports EventLoop
begin

section \<open>The virtual-clock asyncio loop\<close>

text \<open>
  \<^verbatim>\<open>sim_common/async_engine.py\<close>: \<^verbatim>\<open>AsyncEngine\<close> overrides \<^verbatim>\<open>call_at\<close>, \<^verbatim>\<open>create_task\<close> and
  \<^verbatim>\<open>_run_once\<close> of \<^verbatim>\<open>asyncio.BaseEventLoop\<close>. A handle is a callback with an identity, since
  cancelling it anywhere is seen on the ready queue and on the schedule alike. Running a handle
  makes it issue calls back into the loop, in order; which ones is the program's (\<open>handle_body\<close>).
  The random shuffle of a tick is the argument \<open>rng\<close> (\<^verbatim>\<open>random.Random.shuffle\<close>), \<open>None\<close> for FIFO.
\<close>

record 'c handle =
  h_id :: nat
  h_cb :: 'c

record 'c seq_timer = "'c handle" +
  t_when :: time
  t_seq :: nat

datatype 'c loop_call =
    CallSoon 'c
  | CallAt time 'c
  | CancelHandle nat
  | StopLoop

datatype loop_event =
    Advance time
  | CreateTask string
  | TaskEnded string string

record 'c loop =
  l_clock :: time
  l_ready :: "'c handle list"
  l_scheduled :: "'c seq_timer list"
  l_cancelled :: "nat list"
  l_timer_cancelled_count :: int
  l_stopping :: bool
  l_next_id :: nat
  l_timer_seq :: nat
  l_task_seq :: nat
  l_tracing :: bool
  l_trace :: "(time \<times> loop_event) list"

definition loop_init :: "bool \<Rightarrow> 'c loop" where
  "loop_init tracing =
     \<lparr>l_clock = 0, l_ready = [], l_scheduled = [], l_cancelled = [], l_timer_cancelled_count = 0,
      l_stopping = False, l_next_id = 0, l_timer_seq = 0, l_task_seq = 0,
      l_tracing = tracing, l_trace = []\<rparr>"

fun sort_key_timer :: "'c seq_timer \<Rightarrow> time \<times> nat" where
  "sort_key_timer t = (t_when t, t_seq t)"

definition cancelled :: "'c loop \<Rightarrow> nat \<Rightarrow> bool" where
  "cancelled l i \<longleftrightarrow> i \<in> set (l_cancelled l)"

definition loop_record :: "loop_event \<Rightarrow> 'c loop \<Rightarrow> 'c loop" where
  "loop_record ev l = (if l_tracing l then l\<lparr>l_trace := l_trace l @ [(l_clock l, ev)]\<rparr> else l)"

definition call_at :: "time \<Rightarrow> 'c \<Rightarrow> 'c loop \<Rightarrow> 'c loop" where
  "call_at when cb l =
     l\<lparr>l_scheduled := heappush sort_key_timer
          \<lparr>h_id = l_next_id l, h_cb = cb, t_when = when, t_seq = l_timer_seq l\<rparr> (l_scheduled l),
       l_timer_seq := l_timer_seq l + 1,
       l_next_id := l_next_id l + 1\<rparr>"

definition call_soon :: "'c \<Rightarrow> 'c loop \<Rightarrow> 'c loop" where
  "call_soon cb l =
     l\<lparr>l_ready := l_ready l @ [\<lparr>h_id = l_next_id l, h_cb = cb\<rparr>], l_next_id := l_next_id l + 1\<rparr>"

text \<open>Cancelling a handle marks it, and counts it when it is still on the schedule.\<close>

definition cancel_handle :: "nat \<Rightarrow> 'c loop \<Rightarrow> 'c loop" where
  "cancel_handle i l =
     (if cancelled l i then l
      else l\<lparr>l_cancelled := i # l_cancelled l,
             l_timer_cancelled_count := l_timer_cancelled_count l +
               (if i \<in> h_id ` set (l_scheduled l) then 1 else 0)\<rparr>)"

definition task_name :: "string option \<Rightarrow> (nat \<Rightarrow> string) \<Rightarrow> 'c loop \<Rightarrow> string \<times> 'c loop" where
  "task_name name auto_name l =
     (case name of
        Some n \<Rightarrow> (n, l)
      | None \<Rightarrow> (auto_name (l_task_seq l + 1), l\<lparr>l_task_seq := l_task_seq l + 1\<rparr>))"

definition create_task :: "'c \<Rightarrow> string option \<Rightarrow> (nat \<Rightarrow> string) \<Rightarrow> 'c loop \<Rightarrow> string \<times> 'c loop" where
  "create_task cb name auto_name l =
     (let (n, l1) = task_name name auto_name l
      in (n, loop_record (CreateTask n) (call_soon cb l1)))"

fun do_call :: "'c loop_call \<Rightarrow> 'c loop \<Rightarrow> 'c loop" where
  "do_call (CallSoon cb) l = call_soon cb l"
| "do_call (CallAt when cb) l = call_at when cb l"
| "do_call (CancelHandle i) l = cancel_handle i l"
| "do_call StopLoop l = l\<lparr>l_stopping := True\<rparr>"

type_synonym ('c, 's) handle_body = "'c \<Rightarrow> time \<Rightarrow> 's \<Rightarrow> 's \<times> 'c loop_call list"

subsection \<open>One tick\<close>

text \<open>Step 1 of \<^verbatim>\<open>_run_once\<close>: drop cancelled timers at the head of the schedule.\<close>

fun drop_cancelled :: "nat list \<Rightarrow> 'c seq_timer list \<Rightarrow> 'c seq_timer list" where
  "drop_cancelled cs [] = []"
| "drop_cancelled cs (t # ts) = (if h_id t \<in> set cs then drop_cancelled cs ts else t # ts)"

definition drop_step :: "'c loop \<Rightarrow> 'c loop" where
  "drop_step l =
     (let kept = drop_cancelled (l_cancelled l) (l_scheduled l)
      in l\<lparr>l_scheduled := kept,
           l_timer_cancelled_count := l_timer_cancelled_count l -
             int (length (l_scheduled l) - length kept)\<rparr>)"

text \<open>Step 2: with nothing ready, jump to the earliest pending timer, or fail loudly.\<close>

definition advance_step :: "'c loop \<Rightarrow> 'c loop res" where
  "advance_step l =
     (if l_ready l = [] \<and> \<not> l_stopping l then
        (case l_scheduled l of
           [] \<Rightarrow> Inl RuntimeError
         | t # _ \<Rightarrow>
             Inr (if l_clock l < t_when t
                  then loop_record (Advance (t_when t - l_clock l)) (l\<lparr>l_clock := t_when t\<rparr>)
                  else l))
      else Inr l)"

text \<open>Step 3: every timer now due moves to the ready queue, in schedule order.\<close>

definition due_step :: "'c loop \<Rightarrow> 'c loop" where
  "due_step l =
     l\<lparr>l_ready := l_ready l @
         map (\<lambda>t. \<lparr>h_id = h_id t, h_cb = h_cb t\<rparr>) (takeWhile (\<lambda>t. t_when t \<le> l_clock l) (l_scheduled l)),
       l_scheduled := dropWhile (\<lambda>t. t_when t \<le> l_clock l) (l_scheduled l)\<rparr>"

text \<open>Step 4: run exactly the handles that were ready, skipping those cancelled meanwhile.\<close>

definition run_handle :: "('c, 's) handle_body \<Rightarrow> 'c handle \<Rightarrow> 'c loop \<times> 's \<Rightarrow> 'c loop \<times> 's" where
  "run_handle body h ls =
     (case ls of (l, app) \<Rightarrow>
        if cancelled l (h_id h) then (l, app)
        else case body (h_cb h) (l_clock l) app of (app', calls) \<Rightarrow> (fold do_call calls l, app'))"

definition drain_order :: "(nat list \<Rightarrow> nat list) option \<Rightarrow> 'c handle list \<Rightarrow> 'c handle list" where
  "drain_order rng batch =
     (let order = [0..<length batch]
      in map ((!) batch) (case rng of None \<Rightarrow> order | Some shuffle \<Rightarrow> shuffle order))"

definition drain_step ::
  "(nat list \<Rightarrow> nat list) option \<Rightarrow> ('c, 's) handle_body \<Rightarrow> 'c loop \<Rightarrow> 's \<Rightarrow> 'c loop \<times> 's" where
  "drain_step rng body l app =
     fold (run_handle body) (drain_order rng (l_ready l)) (l\<lparr>l_ready := []\<rparr>, app)"

definition run_once ::
  "(nat list \<Rightarrow> nat list) option \<Rightarrow> ('c, 's) handle_body \<Rightarrow> 'c loop \<Rightarrow> 's \<Rightarrow> ('c loop \<times> 's) res" where
  "run_once rng body l app =
     bindr (advance_step (drop_step l)) (\<lambda>l'. Inr (drain_step rng body (due_step l') app))"

subsection \<open>The schedule is a heap on the sort key\<close>

interpretation schedule_queue: timer_heap "heappush sort_key_timer" heappop mset
  "\<lambda>q. sorted (map sort_key_timer q)" sort_key_timer
  by (rule heap_laws)

definition loop_inv :: "'c loop \<Rightarrow> bool" where
  "loop_inv l \<longleftrightarrow>
     sorted (map sort_key_timer (l_scheduled l)) \<and>
     distinct (map h_id (l_scheduled l)) \<and>
     (\<forall>t \<in># mset (l_scheduled l). t_seq t < l_timer_seq l \<and> h_id t < l_next_id l) \<and>
     (\<forall>h \<in> set (l_ready l). h_id h < l_next_id l)"

lemma loop_inv_init [simp]: "loop_inv (loop_init tr)"
  by (simp add: loop_inv_def loop_init_def)

lemma loop_record_simps [simp]:
  "l_clock (loop_record ev l) = l_clock l" "l_ready (loop_record ev l) = l_ready l"
  "l_scheduled (loop_record ev l) = l_scheduled l" "l_next_id (loop_record ev l) = l_next_id l"
  "l_timer_seq (loop_record ev l) = l_timer_seq l" "l_cancelled (loop_record ev l) = l_cancelled l"
  "l_stopping (loop_record ev l) = l_stopping l" "l_tracing (loop_record ev l) = l_tracing l"
  by (simp_all add: loop_record_def)

lemma call_at_inv:
  assumes "loop_inv l"
  shows "loop_inv (call_at when cb l)"
proof -
  have "sorted (map sort_key_timer (l_scheduled (call_at when cb l)))"
    using assms by (simp add: call_at_def loop_inv_def schedule_queue.invar_push
        del: heappush.simps sort_key_timer.simps)
  moreover have "distinct (map h_id (l_scheduled (call_at when cb l)))"
    using assms by (force simp: call_at_def loop_inv_def distinct_map_insort)
  ultimately show ?thesis
    using assms by (auto simp: call_at_def loop_inv_def set_insort_key less_Suc_eq)
qed

lemma call_soon_inv: "loop_inv l \<Longrightarrow> loop_inv (call_soon cb l)"
  by (auto simp: call_soon_def loop_inv_def less_Suc_eq)

lemma cancel_handle_inv: "loop_inv l \<Longrightarrow> loop_inv (cancel_handle i l)"
  by (simp add: cancel_handle_def loop_inv_def)

lemma do_call_inv: "loop_inv l \<Longrightarrow> loop_inv (do_call c l)"
  by (cases c) (simp_all add: call_at_inv call_soon_inv cancel_handle_inv, simp add: loop_inv_def)

lemma do_call_clock [simp]: "l_clock (do_call c l) = l_clock l"
  by (cases c) (simp_all add: call_at_def call_soon_def cancel_handle_def)

lemma fold_calls_inv: "loop_inv l \<Longrightarrow> loop_inv (fold do_call cs l)"
  by (induction cs arbitrary: l) (auto intro: do_call_inv)

lemma fold_calls_clock [simp]: "l_clock (fold do_call cs l) = l_clock l"
  by (induction cs arbitrary: l) auto

lemma drop_cancelled_dropWhile: "drop_cancelled cs ts = dropWhile (\<lambda>t. h_id t \<in> set cs) ts"
  by (induction ts) auto

lemma dropWhile_inv:
  assumes "loop_inv l"
  shows "loop_inv (l\<lparr>l_scheduled := dropWhile P (l_scheduled l)\<rparr>)"
proof -
  have sub: "x \<in> set (l_scheduled l)" if "x \<in> set (dropWhile P (l_scheduled l))" for x
    using that by (rule set_dropWhileD)
  moreover have "sorted (map sort_key_timer (dropWhile P (l_scheduled l)))"
    and "distinct (map h_id (dropWhile P (l_scheduled l)))"
    using assms takeWhile_dropWhile_id [of P "l_scheduled l"]
    by (metis loop_inv_def map_append sorted_append, metis distinct_append loop_inv_def map_append)
  ultimately show ?thesis using assms by (auto simp: loop_inv_def)
qed

lemma drop_step_inv: "loop_inv l \<Longrightarrow> loop_inv (drop_step l)"
  using dropWhile_inv [of l]
  by (simp add: drop_step_def drop_cancelled_dropWhile Let_def loop_inv_def)

lemma drop_step_simps [simp]:
  "l_clock (drop_step l) = l_clock l" "l_ready (drop_step l) = l_ready l"
  "l_stopping (drop_step l) = l_stopping l" "l_cancelled (drop_step l) = l_cancelled l"
  "l_scheduled (drop_step l) = dropWhile (\<lambda>t. cancelled l (h_id t)) (l_scheduled l)"
  by (simp_all add: drop_step_def Let_def drop_cancelled_dropWhile cancelled_def)

lemma advance_step_inv: "loop_inv l \<Longrightarrow> advance_step l = Inr l' \<Longrightarrow> loop_inv l'"
  by (auto simp: advance_step_def loop_inv_def split: if_splits list.splits)

lemma advance_step_clock: "advance_step l = Inr l' \<Longrightarrow> l_clock l \<le> l_clock l'"
  by (auto simp: advance_step_def split: if_splits list.splits)

lemma due_step_inv:
  assumes "loop_inv l"
  shows "loop_inv (due_step l)"
proof -
  have "\<forall>t \<in> set (takeWhile (\<lambda>t. t_when t \<le> l_clock l) (l_scheduled l)). h_id t < l_next_id l"
    using assms by (auto simp: loop_inv_def dest: set_takeWhileD)
  with dropWhile_inv [OF assms, of "\<lambda>t. t_when t \<le> l_clock l"] assms show ?thesis
    by (auto simp: due_step_def loop_inv_def)
qed

lemma due_step_clock [simp]: "l_clock (due_step l) = l_clock l"
  by (simp add: due_step_def)

lemma sorted_dropWhile_later:
  "sorted (map sort_key_timer ts) \<Longrightarrow> t \<in> set (dropWhile (\<lambda>t. t_when t \<le> c) ts) \<Longrightarrow> c < t_when t"
  by (induction ts) (auto simp: less_eq_prod_def split: if_splits)

text \<open>What is left on the schedule after a tick's third step is not due yet.\<close>

lemma due_step_later:
  "loop_inv l \<Longrightarrow> t \<in> set (l_scheduled (due_step l)) \<Longrightarrow> l_clock l < t_when t"
  by (auto simp: due_step_def loop_inv_def intro: sorted_dropWhile_later)

lemma run_handle_inv:
  "loop_inv (fst ls) \<Longrightarrow> loop_inv (fst (run_handle body h ls))"
  by (auto simp: run_handle_def fold_calls_inv split: prod.splits)

lemma run_handle_clock [simp]: "l_clock (fst (run_handle body h ls)) = l_clock (fst ls)"
  by (auto simp: run_handle_def split: prod.splits)

lemma fold_run_inv:
  "loop_inv (fst ls) \<Longrightarrow> loop_inv (fst (fold (run_handle body) hs ls))"
proof (induction hs arbitrary: ls)
  case (Cons h hs)
  show ?case using Cons.IH [OF run_handle_inv [OF Cons.prems]] by simp
qed simp

lemma fold_run_clock [simp]: "l_clock (fst (fold (run_handle body) hs ls)) = l_clock (fst ls)"
  by (induction hs arbitrary: ls) auto

lemma drain_step_inv: "loop_inv l \<Longrightarrow> loop_inv (fst (drain_step rng body l app))"
  unfolding drain_step_def by (rule fold_run_inv) (simp add: loop_inv_def)

lemma drain_step_clock [simp]: "l_clock (fst (drain_step rng body l app)) = l_clock l"
  by (simp add: drain_step_def)

subsection \<open>What a tick guarantees\<close>

lemma run_once_inv: "loop_inv l \<Longrightarrow> run_once rng body l app = Inr (l', app') \<Longrightarrow> loop_inv l'"
  by (auto simp: run_once_def res_simps)
    (metis advance_step_inv drain_step_inv drop_step_inv due_step_inv fst_conv)

lemma run_once_clock: "run_once rng body l app = Inr (l', app') \<Longrightarrow> l_clock l \<le> l_clock l'"
  by (auto simp: run_once_def res_simps)
    (metis advance_step_clock drain_step_clock drop_step_simps(1) due_step_clock fst_conv)

text \<open>A tick raises exactly when the loop is deadlocked: nothing is ready, it is not
  stopping, and every timer still on the schedule is cancelled.\<close>

theorem run_once_deadlock:
  "run_once rng body l app = Inl e \<longleftrightarrow>
     e = RuntimeError \<and> l_ready l = [] \<and> \<not> l_stopping l \<and>
     (\<forall>t \<in> set (l_scheduled l). cancelled l (h_id t))"
  by (auto simp: run_once_def bindr_def advance_step_def dropWhile_eq_Nil_conv
      split: sum.splits list.splits if_splits)
    (metis (full_types) dropWhile_eq_Nil_conv list.distinct(1))+

text \<open>The clock moves only when nothing is ready, and then exactly to the earliest timer
  that is not cancelled.\<close>

theorem advance_earliest:
  assumes inv: "loop_inv l" and adv: "advance_step (drop_step l) = Inr l'"
    and moved: "l_clock l' \<noteq> l_clock l"
  shows "l_ready l = [] \<and>
    (\<exists>t \<in> set (l_scheduled l). \<not> cancelled l (h_id t) \<and> l_clock l' = t_when t \<and>
       (\<forall>u \<in> set (l_scheduled l). \<not> cancelled l (h_id u) \<longrightarrow> t_when t \<le> t_when u))"
proof -
  from adv moved obtain t ts where ts: "dropWhile (\<lambda>t. cancelled l (h_id t)) (l_scheduled l) = t # ts"
    and idle: "l_ready l = []" and clock: "l_clock l' = t_when t"
    by (auto simp: advance_step_def split: if_splits list.splits)
  have live: "\<not> cancelled l (h_id t)" and t: "t \<in> set (l_scheduled l)"
    using ts by (metis dropWhile_eq_Cons_conv, metis list.set_intros(1) set_dropWhileD)
  have "t_when t \<le> t_when u" if u: "u \<in> set (l_scheduled l)" "\<not> cancelled l (h_id u)" for u
  proof -
    have "u \<in> set (t # ts)"
      using u ts by (metis Un_iff set_append set_takeWhileD takeWhile_dropWhile_id)
    moreover have "sorted (map sort_key_timer (t # ts))"
      using drop_step_inv [OF inv] ts by (simp add: loop_inv_def)
    ultimately show ?thesis by (auto simp: less_eq_prod_def)
  qed
  with idle live t clock show ?thesis by blast
qed

lemma drain_order_fifo [simp]: "drain_order None batch = batch"
  by (simp add: drain_order_def map_nth)

lemma drain_order_shuffle:
  assumes "\<And>xs. mset (shuffle xs) = mset xs"
  shows "mset (drain_order (Some shuffle) batch) = mset batch"
proof -
  have "mset (drain_order (Some shuffle) batch) = image_mset ((!) batch) (mset (shuffle [0..<length batch]))"
    by (simp add: drain_order_def)
  also have "\<dots> = mset (map ((!) batch) [0..<length batch])"
    unfolding assms by simp
  finally show ?thesis by (simp add: map_nth)
qed

text \<open>
  Timers due together run in the order they were scheduled: the \<^verbatim>\<open>seq\<close> tiebreak.
\<close>

lemma due_in_schedule_order:
  assumes "loop_inv l"
  shows "sorted (map sort_key_timer (takeWhile (\<lambda>t. t_when t \<le> l_clock l) (l_scheduled l)))"
  using assms takeWhile_dropWhile_id [of "\<lambda>t. t_when t \<le> l_clock l" "l_scheduled l"]
  by (metis loop_inv_def map_append sorted_append)

subsection \<open>The theorems at work\<close>

definition two_timers :: "nat loop" where
  "two_timers = cancel_handle 1 (call_at 3 8 (call_at 2 7 (call_at 5 6 (loop_init False))))"

lemmas two_timers_eval = two_timers_def cancel_handle_def call_at_def loop_init_def cancelled_def
  less_eq_prod_def

lemma two_timers_inv: "loop_inv two_timers"
  unfolding two_timers_def by (intro cancel_handle_inv call_at_inv loop_inv_init)

lemma run_once_deadlock_witness:
  "run_once None (\<lambda>cb t a. (a, [])) (cancel_handle 0 (cancel_handle 2 two_timers)) () = Inl RuntimeError"
  by (subst run_once_deadlock) (simp add: two_timers_eval)

lemma two_timers_advance:
  "advance_step (drop_step two_timers) = Inr ((drop_step two_timers)\<lparr>l_clock := 3\<rparr>)"
  by (simp add: two_timers_eval advance_step_def drop_step_def loop_record_def)

lemma advance_earliest_witness:
  "l_ready two_timers = [] \<and>
   (\<exists>t \<in> set (l_scheduled two_timers). \<not> cancelled two_timers (h_id t) \<and> t_when t = 3)"
  using advance_earliest [OF two_timers_inv two_timers_advance]
  by (force simp: two_timers_eval)

end
