(* ===== verification/TraceLog.thy ===== *)
theory TraceLog
  imports Prelude "HOL-Library.Word" "HOL-Library.Sublist"
begin

section \<open>The run's trace, its hash chain, and where two runs part\<close>

text \<open>
  \<^verbatim>\<open>sim_common/trace.py\<close> and \<^verbatim>\<open>sim_common/diverge.py\<close>. Bytes are 8-bit words, text is a string of
  code points below 256 encoded as UTF-8. BLAKE2b (\<open>H\<close>), \<^verbatim>\<open>repr(float)\<close> (\<open>rp\<close>) and the
  three-decimal formatting of a float (\<open>fixed3\<close>) are arguments. What the theorems ask of them is
  what the module relies on: \<open>rp\<close> is lossless and holds no separator, and the runs compared do not
  hash two different inputs to one digest.
\<close>

type_synonym bytes = "8 word list"
type_synonym trace_event = "time \<times> string \<times> string"

subsection \<open>The chain\<close>

definition ascii :: "string \<Rightarrow> bytes" where
  "ascii s = map of_char s"

text \<open>\<^verbatim>\<open>str.encode("utf-8")\<close> of one code point.\<close>

definition utf8_char :: "char \<Rightarrow> bytes" where
  "utf8_char c =
     (let n = of_char c :: nat
      in if n < 128 then [word_of_nat n] else [word_of_nat (192 + n div 64), word_of_nat (128 + n mod 64)])"

definition utf8 :: "string \<Rightarrow> bytes" where
  "utf8 s = concat (map utf8_char s)"

definition chain_seed :: bytes where
  "chain_seed = ascii ''toso-sim-trace-chain-v1''"

definition sep_byte :: "8 word" where
  "sep_byte = 31"

definition fold_input :: "(time \<Rightarrow> bytes) \<Rightarrow> bytes \<Rightarrow> trace_event \<Rightarrow> bytes" where
  "fold_input rp prev e =
     (case e of (now, kind, msg) \<Rightarrow> prev @ rp now @ [sep_byte] @ utf8 kind @ [sep_byte] @ utf8 msg)"

definition fold_event :: "(bytes \<Rightarrow> bytes) \<Rightarrow> (time \<Rightarrow> bytes) \<Rightarrow> bytes \<Rightarrow> trace_event \<Rightarrow> bytes" where
  "fold_event H rp prev e = H (fold_input rp prev e)"

primrec chain_from :: "(bytes \<Rightarrow> bytes) \<Rightarrow> (time \<Rightarrow> bytes) \<Rightarrow> bytes \<Rightarrow> trace_event list \<Rightarrow> bytes list" where
  "chain_from H rp h [] = []"
| "chain_from H rp h (e # es) = (let h' = fold_event H rp h e in h' # chain_from H rp h' es)"

definition chain_digests :: "(bytes \<Rightarrow> bytes) \<Rightarrow> (time \<Rightarrow> bytes) \<Rightarrow> trace_event list \<Rightarrow> bytes list" where
  "chain_digests H rp es = chain_from H rp chain_seed es"

definition fold_all :: "(bytes \<Rightarrow> bytes) \<Rightarrow> (time \<Rightarrow> bytes) \<Rightarrow> trace_event list \<Rightarrow> bytes" where
  "fold_all H rp es = foldl (fold_event H rp) chain_seed es"

text \<open>\<^verbatim>\<open>bytes.hex()\<close>.\<close>

definition hex_digit :: "nat \<Rightarrow> char" where
  "hex_digit n = ''0123456789abcdef'' ! n"

definition hex :: "bytes \<Rightarrow> string" where
  "hex bs = concat (map (\<lambda>b. [hex_digit (unat b div 16), hex_digit (unat b mod 16)]) bs)"

definition fingerprint_of :: "(bytes \<Rightarrow> bytes) \<Rightarrow> (time \<Rightarrow> bytes) \<Rightarrow> trace_event list \<Rightarrow> string" where
  "fingerprint_of H rp es = hex (fold_all H rp es)"

subsection \<open>The recorder\<close>

record trace =
  tr_events :: "trace_event list"
  time_width :: nat
  kind_width :: nat
  hash_chain :: bool
  enabled :: bool
  chain :: bytes

definition trace_init :: "(bytes \<Rightarrow> bytes) \<Rightarrow> (time \<Rightarrow> bytes) \<Rightarrow> trace_event list \<Rightarrow> nat \<Rightarrow> nat \<Rightarrow> bool \<Rightarrow> bool \<Rightarrow> trace" where
  "trace_init H rp es tw kw hashing on =
     \<lparr>tr_events = es, time_width = tw, kind_width = kw, hash_chain = hashing, enabled = on,
      chain = (if hashing then foldl (fold_event H rp) chain_seed es else chain_seed)\<rparr>"

definition trace_record :: "(bytes \<Rightarrow> bytes) \<Rightarrow> (time \<Rightarrow> bytes) \<Rightarrow> trace_event \<Rightarrow> trace \<Rightarrow> trace" where
  "trace_record H rp e tr =
     (if \<not> enabled tr then tr
      else let tr' = tr\<lparr>tr_events := tr_events tr @ [e]\<rparr>
           in if hash_chain tr then tr'\<lparr>chain := fold_event H rp (chain tr) e\<rparr> else tr')"

definition fingerprint :: "(bytes \<Rightarrow> bytes) \<Rightarrow> (time \<Rightarrow> bytes) \<Rightarrow> trace \<Rightarrow> string" where
  "fingerprint H rp tr = (if hash_chain tr then hex (chain tr) else hex (fold_all H rp (tr_events tr)))"

text \<open>\<^verbatim>\<open>f"{s:w}"\<close> pads a number on the left, \<^verbatim>\<open>f"{s:<w}"\<close> pads on the right.\<close>

definition rjust :: "nat \<Rightarrow> string \<Rightarrow> string" where
  "rjust w s = List.replicate (w - length s) CHR '' '' @ s"

definition ljust :: "nat \<Rightarrow> string \<Rightarrow> string" where
  "ljust w s = s @ List.replicate (w - length s) CHR '' ''"

definition render_lines :: "(time \<Rightarrow> string) \<Rightarrow> trace \<Rightarrow> string list" where
  "render_lines fixed3 tr =
     map (\<lambda>(t, kind, msg). ''t='' @ rjust (time_width tr) (fixed3 t) @ ''  '' @ ljust (kind_width tr) kind
            @ '' '' @ msg) (tr_events tr)"

text \<open>\<^verbatim>\<open>"\n".join(lines)\<close>.\<close>

fun join_lines :: "string list \<Rightarrow> string" where
  "join_lines [] = []"
| "join_lines [l] = l"
| "join_lines (l # ls) = l @ [CHR 0x0A] @ join_lines ls"

definition render :: "(time \<Rightarrow> string) \<Rightarrow> trace \<Rightarrow> string" where
  "render fixed3 tr = join_lines (render_lines fixed3 tr)"

subsection \<open>Where two runs part\<close>

record divergence =
  dv_index :: nat
  a_event :: "trace_event option"
  b_event :: "trace_event option"
  dv_context :: "trace_event list"

text \<open>\<^verbatim>\<open>es[i] if i < len(es) else None\<close>.\<close>

definition event_at :: "trace_event list \<Rightarrow> nat \<Rightarrow> trace_event option" where
  "event_at es i = (if i < length es then Some (es ! i) else None)"

fun first_mismatch :: "bytes list \<Rightarrow> bytes list \<Rightarrow> nat option" where
  "first_mismatch (x # xs) (y # ys) = (if x \<noteq> y then Some 0 else map_option Suc (first_mismatch xs ys))"
| "first_mismatch [] ys = None"
| "first_mismatch (x # xs) [] = None"

definition divergence_at :: "trace_event list \<Rightarrow> trace_event list \<Rightarrow> nat \<Rightarrow> nat \<Rightarrow> divergence" where
  "divergence_at ea eb context_len idx =
     \<lparr>dv_index = idx, a_event = event_at ea idx, b_event = event_at eb idx,
      dv_context = drop (idx - context_len) (take idx ea)\<rparr>"

definition first_divergence ::
  "(bytes \<Rightarrow> bytes) \<Rightarrow> (time \<Rightarrow> bytes) \<Rightarrow> trace_event list \<Rightarrow> trace_event list \<Rightarrow> nat \<Rightarrow> divergence option" where
  "first_divergence H rp ea eb context_len =
     (let ca = chain_digests H rp ea; cb = chain_digests H rp eb
      in case first_mismatch ca cb of
           Some idx \<Rightarrow> Some (divergence_at ea eb context_len idx)
         | None \<Rightarrow> if length ea = length eb then None
                   else Some (divergence_at ea eb context_len (min (length ca) (length cb))))"

definition fmt_event :: "(time \<Rightarrow> string) \<Rightarrow> trace_event option \<Rightarrow> string" where
  "fmt_event fixed3 ev =
     (case ev of
        None \<Rightarrow> ''<none: run ended here>''
      | Some (t, kind, msg) \<Rightarrow> ''t='' @ ljust 8 (fixed3 t) @ '' '' @ ljust 6 kind @ '' '' @ msg)"

definition describe :: "(time \<Rightarrow> string) \<Rightarrow> (nat \<Rightarrow> string) \<Rightarrow> divergence \<Rightarrow> string" where
  "describe fixed3 show_nat d =
     join_lines
       ([''first divergence at event #'' @ show_nat (dv_index d)] @
        (if dv_context d \<noteq> []
         then ''  common prefix (last shared events):'' #
              map (\<lambda>e. ''    '' @ fmt_event fixed3 (Some e)) (dv_context d)
         else []) @
        [''  run A #'' @ show_nat (dv_index d) @ '': '' @ fmt_event fixed3 (a_event d),
         ''  run B #'' @ show_nat (dv_index d) @ '': '' @ fmt_event fixed3 (b_event d)])"

subsection \<open>The encoding is injective\<close>

lemma of_char_less: "(of_char c :: nat) < 256"
  by (metis mod_less_divisor of_char_mod_256 zero_less_numeral)

lemma byte_eq: "m < 256 \<Longrightarrow> n < 256 \<Longrightarrow> (word_of_nat m :: 8 word) = word_of_nat n \<longleftrightarrow> m = n"
  by (simp add: word_of_nat_eq_iff take_bit_eq_mod)

lemma utf8_char_cases:
  obtains (one) "(of_char c :: nat) < 128" "utf8_char c = [word_of_nat (of_char c)]"
  | (two) "128 \<le> (of_char c :: nat)"
      "utf8_char c = [word_of_nat (192 + of_char c div 64), word_of_nat (128 + of_char c mod 64)]"
  by (cases "(of_char c :: nat) < 128") (auto simp: utf8_char_def Let_def)

lemma two_bytes_less: "(n :: nat) < 256 \<Longrightarrow> 192 + n div 64 < 256" "128 + (n :: nat) mod 64 < 256"
proof -
  show "192 + n div 64 < 256" if "n < 256" using that by linarith
  have "n mod 64 < 64" by simp
  then show "128 + n mod 64 < 256" by linarith
qed

lemma utf8_char_prefix_free:
  "utf8_char c @ xs = utf8_char d @ ys \<Longrightarrow> c = d \<and> xs = ys"
proof -
  assume eq: "utf8_char c @ xs = utf8_char d @ ys"
  let ?m = "of_char c :: nat" and ?n = "of_char d :: nat"
  note less = of_char_less [of c] of_char_less [of d]
  note two = two_bytes_less(1) [OF less(1)] two_bytes_less(1) [OF less(2)] two_bytes_less(2) [of ?m] two_bytes_less(2) [of ?n]
  show ?thesis
  proof (cases rule: utf8_char_cases [of c])
    case one: one
    show ?thesis
    proof (cases rule: utf8_char_cases [of d])
      case one
      with \<open>utf8_char c = _\<close> eq less show ?thesis by (simp add: byte_eq)
    next
      case two
      with one eq have "(word_of_nat ?m :: 8 word) = word_of_nat (192 + ?n div 64)" by simp
      with less two_bytes_less(1) [OF less(2)] have "?m = 192 + ?n div 64" by (simp only: byte_eq)
      with one(1) show ?thesis by linarith
    qed
  next
    case t: two
    show ?thesis
    proof (cases rule: utf8_char_cases [of d])
      case one
      with t eq have "(word_of_nat (192 + ?m div 64) :: 8 word) = word_of_nat ?n" by simp
      with less two_bytes_less(1) [OF less(1)] have "192 + ?m div 64 = ?n" by (simp only: byte_eq)
      with one(1) show ?thesis by linarith
    next
      case two
      with t eq have "(word_of_nat (192 + ?m div 64) :: 8 word) = word_of_nat (192 + ?n div 64)"
        "(word_of_nat (128 + ?m mod 64) :: 8 word) = word_of_nat (128 + ?n mod 64)" "xs = ys" by simp_all
      with \<open>192 + ?m div 64 < 256\<close> \<open>192 + ?n div 64 < 256\<close> \<open>128 + ?m mod 64 < 256\<close> \<open>128 + ?n mod 64 < 256\<close>
      have "192 + ?m div 64 = 192 + ?n div 64" "128 + ?m mod 64 = 128 + ?n mod 64"
        by (simp_all only: byte_eq)
      then have "?m = ?n" by (metis add_left_cancel div_mod_decomp)
      with \<open>xs = ys\<close> show ?thesis by simp
    qed
  qed
qed

lemma utf8_inj: "utf8 s = utf8 t \<longleftrightarrow> s = t"
proof (induction s arbitrary: t)
  case Nil
  show ?case
  proof (cases t)
    case (Cons d t')
    then show ?thesis by (cases rule: utf8_char_cases [of d]) (auto simp: utf8_def)
  qed (simp add: utf8_def)
next
  case (Cons c s)
  show ?case
  proof (cases t)
    case Nil
    then show ?thesis by (cases rule: utf8_char_cases [of c]) (auto simp: utf8_def)
  next
    case (Cons d t')
    have step: "utf8 (x # u) = utf8_char x @ utf8 u" for x u by (simp add: utf8_def)
    show ?thesis unfolding Cons step
    proof
      assume "utf8_char c @ utf8 s = utf8_char d @ utf8 t'"
      from utf8_char_prefix_free [OF this] Cons.IH show "c # s = d # t'" by simp
    qed simp
  qed
qed

lemma utf8_char_sep: "sep_byte \<in> set (utf8_char c) \<Longrightarrow> c = CHR 0x1F"
proof -
  have sep: "sep_byte = word_of_nat 31" by (simp add: sep_byte_def)
  note less = of_char_less [of c] two_bytes_less(1) [OF of_char_less [of c]] two_bytes_less(2) [of "of_char c"]
  assume "sep_byte \<in> set (utf8_char c)"
  then have "(of_char c :: nat) = 31"
  proof (cases rule: utf8_char_cases [of c])
    case one
    with \<open>sep_byte \<in> _\<close> have "(word_of_nat 31 :: 8 word) = word_of_nat (of_char c)" by (simp add: sep)
    with less show ?thesis by (subst (asm) byte_eq) auto
  next
    case two
    with \<open>sep_byte \<in> _\<close> have "(word_of_nat 31 :: 8 word) = word_of_nat (192 + of_char c div 64) \<or>
        (word_of_nat 31 :: 8 word) = word_of_nat (128 + of_char c mod 64)" by (simp add: sep)
    with less show ?thesis by (subst (asm) byte_eq; (subst (asm) byte_eq)?) auto
  qed
  then have "(of_char c :: nat) = of_char (CHR 0x1F)" by simp
  then show ?thesis by (simp only: of_char_eq_iff)
qed

lemma utf8_sep: "CHR 0x1F \<notin> set s \<Longrightarrow> sep_byte \<notin> set (utf8 s)"
  unfolding utf8_def using utf8_char_sep by auto

lemma split_at_sep:
  "x \<notin> set xs \<Longrightarrow> x \<notin> set ys \<Longrightarrow> xs @ x # us = ys @ x # vs \<Longrightarrow> xs = ys \<and> us = vs"
proof (induction xs arbitrary: ys)
  case (Cons a xs)
  then show ?case by (cases ys) auto
next
  case Nil
  then show ?case by (cases ys) auto
qed

text \<open>What the module relies on of \<^verbatim>\<open>repr(float)\<close> and of a run's events: kinds hold no separator.\<close>

definition lossless :: "(time \<Rightarrow> bytes) \<Rightarrow> time set \<Rightarrow> bool" where
  "lossless rp T \<longleftrightarrow> inj_on rp T \<and> (\<forall>t \<in> T. sep_byte \<notin> set (rp t))"

definition clean :: "(time \<Rightarrow> bytes) \<Rightarrow> trace_event set \<Rightarrow> bool" where
  "clean rp E \<longleftrightarrow> lossless rp (fst ` E) \<and> (\<forall>e \<in> E. CHR 0x1F \<notin> set (fst (snd e)))"

lemma fold_input_inj:
  assumes "clean rp E" "d \<in> E" "e \<in> E" "length p = length q"
    and "fold_input rp p d = fold_input rp q e"
  shows "p = q \<and> d = e"
proof -
  obtain t k m where d: "d = (t, k, m)" by (cases d)
  obtain t' k' m' where e: "e = (t', k', m')" by (cases e)
  have T: "t \<in> fst ` E" "t' \<in> fst ` E" using assms(2,3) d e by force+
  have lossless: "inj_on rp (fst ` E)" "sep_byte \<notin> set (rp t)" "sep_byte \<notin> set (rp t')"
    using assms(1) T by (auto simp: clean_def lossless_def)
  have kinds: "CHR 0x1F \<notin> set k" "CHR 0x1F \<notin> set k'" using assms(1-3) d e by (auto simp: clean_def)
  from assms(4,5) have p: "p = q" and rest: "rp t @ sep_byte # (utf8 k @ sep_byte # utf8 m) =
      rp t' @ sep_byte # (utf8 k' @ sep_byte # utf8 m')"
    by (auto simp: fold_input_def d e)
  from split_at_sep [OF lossless(2,3) rest] have t: "rp t = rp t'"
    and rest: "utf8 k @ sep_byte # utf8 m = utf8 k' @ sep_byte # utf8 m'" by auto
  from split_at_sep [OF utf8_sep [OF kinds(1)] utf8_sep [OF kinds(2)] rest]
  have "utf8 k = utf8 k'" "utf8 m = utf8 m'" by auto
  with t p lossless(1) T show ?thesis by (simp add: utf8_inj inj_on_eq_iff d e)
qed

subsection \<open>What the chain tells of two runs\<close>

text \<open>Everything a run hashes.\<close>

primrec hashed_from :: "(bytes \<Rightarrow> bytes) \<Rightarrow> (time \<Rightarrow> bytes) \<Rightarrow> bytes \<Rightarrow> trace_event list \<Rightarrow> bytes set" where
  "hashed_from H rp h [] = {}"
| "hashed_from H rp h (e # es) = insert (fold_input rp h e) (hashed_from H rp (fold_event H rp h e) es)"

definition hashed :: "(bytes \<Rightarrow> bytes) \<Rightarrow> (time \<Rightarrow> bytes) \<Rightarrow> trace_event list \<Rightarrow> bytes set" where
  "hashed H rp es = hashed_from H rp chain_seed es"

lemma length_chain_from [simp]: "length (chain_from H rp h es) = length es"
  by (induction es arbitrary: h) (auto simp: Let_def)

lemma mismatch_from:
  assumes "inj_on H S" "clean rp E"
  shows "hashed_from H rp h ea \<union> hashed_from H rp h eb \<subseteq> S \<Longrightarrow> set ea \<union> set eb \<subseteq> E \<Longrightarrow>
    first_mismatch (chain_from H rp h ea) (chain_from H rp h eb) =
      (let n = length (longest_common_prefix ea eb)
       in if n < length ea \<and> n < length eb then Some n else None)"
proof (induction ea arbitrary: eb h)
  case (Cons d ea)
  show ?case
  proof (cases eb)
    case c: (Cons e eb')
    show ?thesis
    proof (cases "d = e")
      case True
      with Cons.IH [of "fold_event H rp h d" eb'] Cons.prems c show ?thesis
        by (simp add: Let_def)
    next
      case False
      have "fold_input rp h d \<noteq> fold_input rp h e"
        using fold_input_inj [OF assms(2), of d e h h] False Cons.prems c by auto
      moreover have "fold_input rp h d \<in> S" "fold_input rp h e \<in> S" using Cons.prems c by auto
      ultimately have "fold_event H rp h d \<noteq> fold_event H rp h e"
        using assms(1) by (simp add: fold_event_def inj_on_eq_iff)
      with c False show ?thesis by (simp add: Let_def)
    qed
  qed (simp add: Let_def)
qed (simp add: Let_def)

lemma common_prefix_le:
  "length (longest_common_prefix xs ys) \<le> length xs" "length (longest_common_prefix xs ys) \<le> length ys"
  by (induction xs ys rule: longest_common_prefix.induct) auto

lemma common_prefix_full:
  "length (longest_common_prefix xs ys) = length xs \<Longrightarrow> length ys = length xs \<Longrightarrow> xs = ys"
proof (induction xs arbitrary: ys)
  case (Cons x xs)
  then show ?case by (cases ys) (auto split: if_splits)
qed simp

lemma event_at_simps [simp]:
  "event_at [] i = None" "event_at (e # es) 0 = Some e" "event_at (e # es) (Suc i) = event_at es i"
  by (simp_all add: event_at_def)

lemma common_prefix_differs:
  "xs \<noteq> ys \<Longrightarrow> event_at xs (length (longest_common_prefix xs ys)) \<noteq> event_at ys (length (longest_common_prefix xs ys))"
proof (induction xs arbitrary: ys)
  case (Cons x xs)
  then show ?case by (cases ys) (simp_all split: if_splits)
next
  case Nil
  then show ?case by (cases ys) simp_all
qed

lemma common_prefix_self: "length (longest_common_prefix xs xs) = length xs"
  by (induction xs) auto

lemma common_prefix_take: "take (length (longest_common_prefix xs ys)) xs = longest_common_prefix xs ys"
  by (induction xs ys rule: longest_common_prefix.induct) auto

text \<open>C10: two runs are reported identical exactly when they recorded the same events, and
  otherwise the divergence is reported at the end of their longest common prefix: the index of the
  first event they differ in (or where one of them ended), with the last events both recorded
  before it. Asked of the hash: no two inputs of these two runs collide.\<close>

theorem divergence_is_first:
  assumes "inj_on H (hashed H rp ea \<union> hashed H rp eb)" and "clean rp (set ea \<union> set eb)"
  shows "case first_divergence H rp ea eb n of
      None \<Rightarrow> ea = eb
    | Some d \<Rightarrow> ea \<noteq> eb \<and> dv_index d = length (longest_common_prefix ea eb) \<and>
        a_event d = event_at ea (dv_index d) \<and> b_event d = event_at eb (dv_index d) \<and>
        a_event d \<noteq> b_event d \<and>
        dv_context d = drop (dv_index d - n) (longest_common_prefix ea eb)"
proof -
  let ?i = "length (longest_common_prefix ea eb)"
  have mm: "first_mismatch (chain_digests H rp ea) (chain_digests H rp eb) =
      (if ?i < length ea \<and> ?i < length eb then Some ?i else None)"
  proof -
    have "hashed_from H rp chain_seed ea \<union> hashed_from H rp chain_seed eb \<subseteq> hashed H rp ea \<union> hashed H rp eb"
      by (simp only: hashed_def subset_refl)
    from mismatch_from [OF assms this subset_refl] show ?thesis by (simp only: chain_digests_def Let_def)
  qed
  note le = common_prefix_le [of ea eb]
  show ?thesis
  proof (cases "ea = eb")
    case True
    have "?i = length ea" unfolding True by (rule common_prefix_self)
    then have "\<not> (?i < length ea \<and> ?i < length eb)" by simp
    with mm have "first_mismatch (chain_digests H rp ea) (chain_digests H rp eb) = None" by (simp only: if_False)
    with True show ?thesis by (simp only: first_divergence_def Let_def option.case simp_thms if_True)
  next
    case False
    have "first_divergence H rp ea eb n = Some (divergence_at ea eb n ?i)"
    proof (cases "?i < length ea \<and> ?i < length eb")
      case True
      with mm have "first_mismatch (chain_digests H rp ea) (chain_digests H rp eb) = Some ?i" by (simp only: if_True simp_thms)
      then show ?thesis by (simp only: first_divergence_def Let_def option.case)
    next
      case i: False
      have full: "?i = length ea \<and> length eb = length ea \<longrightarrow> ea = eb" using common_prefix_full [of ea eb] by blast
      have "length ea \<noteq> length eb" using full False i le by linarith
      moreover have "min (length ea) (length eb) = ?i" using i le by linarith
      moreover have "first_mismatch (chain_digests H rp ea) (chain_digests H rp eb) = None"
        using i mm by (simp only: if_False)
      ultimately show ?thesis
        by (simp only: first_divergence_def Let_def option.case chain_digests_def length_chain_from if_False)
    qed
    then have d: "first_divergence H rp ea eb n = Some \<lparr>dv_index = ?i, a_event = event_at ea ?i,
        b_event = event_at eb ?i, dv_context = drop (?i - n) (longest_common_prefix ea eb)\<rparr>"
      by (simp only: divergence_at_def common_prefix_take)
    show ?thesis
      by (simp only: d option.case divergence.simps False common_prefix_differs [OF False] simp_thms not_False_eq_True)
  qed
qed

text \<open>One digest stands for the run.\<close>

lemma hashed_snoc:
  "hashed H rp (es @ [e]) = insert (fold_input rp (fold_all H rp es) e) (hashed H rp es)"
proof -
  have "hashed_from H rp h (es @ [e]) =
      insert (fold_input rp (foldl (fold_event H rp) h es) e) (hashed_from H rp h es)" for h
    by (induction es arbitrary: h) (auto simp: insert_commute)
  then show ?thesis by (simp add: hashed_def fold_all_def)
qed

lemma fold_all_snoc: "fold_all H rp (es @ [e]) = H (fold_input rp (fold_all H rp es) e)"
  by (simp add: fold_all_def fold_event_def)

lemma length_chain_seed: "length chain_seed = 23"
  by (simp add: chain_seed_def ascii_def)

lemma fold_all_length:
  assumes "\<forall>x. length (H x) = 16"
  shows "length (fold_all H rp es) = (if es = [] then 23 else 16)"
  using assms by (cases es rule: rev_cases) (simp_all only: fold_all_snoc, simp_all add: fold_all_def length_chain_seed)

lemma fold_all_head:
  assumes "\<forall>x. length (H x) = 16" "es \<noteq> []" "\<forall>x \<in> hashed H rp es. H x \<noteq> take 16 chain_seed"
  shows "take 16 (fold_all H rp es @ r) \<noteq> take 16 (chain_seed @ r')"
proof -
  obtain ds e where es: "es = ds @ [e]" using assms(2) by (cases es rule: rev_cases) auto
  with assms(1,3) show ?thesis by (auto simp: fold_all_snoc hashed_snoc length_chain_seed)
qed

lemma fold_all_inj:
  assumes "\<forall>x. length (H x) = 16" "inj_on H S" "\<forall>x \<in> S. H x \<noteq> take 16 chain_seed" "clean rp E"
  shows "hashed H rp ea \<union> hashed H rp eb \<subseteq> S \<Longrightarrow> set ea \<union> set eb \<subseteq> E \<Longrightarrow>
    fold_all H rp ea = fold_all H rp eb \<Longrightarrow> ea = eb"
proof (induction ea arbitrary: eb rule: rev_induct)
  case Nil
  have "length (fold_all H rp eb) = 23"
    unfolding Nil.prems(3) [symmetric] fold_all_length [OF assms(1)] by simp
  then show ?case unfolding fold_all_length [OF assms(1)] by (simp split: if_splits)
next
  case (snoc d ea)
  have "length (fold_all H rp eb) = 16"
    unfolding snoc.prems(3) [symmetric] fold_all_length [OF assms(1)] by simp
  then have "eb \<noteq> []" unfolding fold_all_length [OF assms(1)] by (simp split: if_splits)
  then obtain fb e where eb: "eb = fb @ [e]" by (cases eb rule: rev_cases) auto
  let ?p = "fold_all H rp ea" and ?q = "fold_all H rp fb"
  have in_S: "fold_input rp ?p d \<in> S" "fold_input rp ?q e \<in> S"
    "hashed H rp ea \<union> hashed H rp fb \<subseteq> S" using snoc.prems(1) unfolding eb hashed_snoc by blast+
  have inputs: "fold_input rp ?p d = fold_input rp ?q e"
    using snoc.prems(3) unfolding eb fold_all_snoc by (rule inj_onD [OF assms(2) _ in_S(1,2)])
  have heads: "ea = [] \<longleftrightarrow> fb = []"
  proof -
    obtain r r' where rr: "fold_input rp ?p d = ?p @ r" "fold_input rp ?q e = ?q @ r'"
      by (cases d, cases e) (simp add: fold_input_def)
    then have same: "?p @ r = ?q @ r'" using inputs by simp
    have none: "\<forall>x \<in> hashed H rp ea. H x \<noteq> take 16 chain_seed" "\<forall>x \<in> hashed H rp fb. H x \<noteq> take 16 chain_seed"
      using assms(3) in_S(3) by blast+
    have seed: "fold_all H rp [] = chain_seed" by (simp add: fold_all_def)
    have "ea = []" if "fb = []"
    proof (rule ccontr)
      assume "ea \<noteq> []"
      from fold_all_head [OF assms(1) this none(1), of r r'] show False
        unfolding same unfolding that seed by simp
    qed
    moreover have "fb = []" if "ea = []"
    proof (rule ccontr)
      assume "fb \<noteq> []"
      from fold_all_head [OF assms(1) this none(2), of r' r] show False
        unfolding same [symmetric] unfolding that seed by simp
    qed
    ultimately show ?thesis by blast
  qed
  then have "length ?p = length ?q" by (simp add: fold_all_length [OF assms(1)])
  from fold_input_inj [OF assms(4) _ _ this inputs] snoc.prems(2) eb
  have same: "?p = ?q" "d = e" by auto
  have "set ea \<union> set fb \<subseteq> E" using snoc.prems(2) eb by auto
  from snoc.IH [OF in_S(3) this same(1)] show ?case unfolding eb same(2) by simp
qed

lemma hex_inj: "hex xs = hex ys \<longleftrightarrow> xs = ys"
proof -
  have lt: "unat (b :: 8 word) div 16 < 16" for b
    using unsigned_less [of b, where ?'a = nat] by (simp add: less_mult_imp_div_less)
  have digits: "distinct ''0123456789abcdef''" by simp
  have dig: "hex_digit m = hex_digit n \<longleftrightarrow> m = n" if "m < 16" "n < 16" for m n
    using nth_eq_iff_index_eq [OF digits, of m n] that by (simp add: hex_digit_def del: distinct.simps)
  have byte: "b = c" if "unat b div 16 = unat c div 16" "unat b mod 16 = unat c mod 16" for b c :: "8 word"
    using that by (metis div_mod_decomp word_unat_eq_iff)
  show ?thesis
  proof (induction xs arbitrary: ys)
    case (Cons b xs)
    show ?case
    proof (cases ys)
      case c: (Cons c ys')
      have "hex (b # xs) = hex (c # ys') \<longleftrightarrow> b = c \<and> hex xs = hex ys'"
        using dig [OF lt [of b] lt [of c]] dig [of "unat b mod 16" "unat c mod 16"] byte [of b c]
        by (auto simp: hex_def)
      with Cons.IH c show ?thesis by simp
    qed (simp add: hex_def)
  next
    case Nil
    show ?case by (cases ys) (simp_all add: hex_def)
  qed
qed

subsection \<open>The recorder's fingerprint\<close>

text \<open>Calls of \<^verbatim>\<open>record\<close>, in order, on a fresh trace.\<close>

definition record_all :: "(bytes \<Rightarrow> bytes) \<Rightarrow> (time \<Rightarrow> bytes) \<Rightarrow> trace_event list \<Rightarrow> trace \<Rightarrow> trace" where
  "record_all H rp es tr = foldl (\<lambda>tr e. trace_record H rp e tr) tr es"

lemma record_all_state:
  "(hash_chain tr \<Longrightarrow> chain tr = fold_all H rp (tr_events tr)) \<Longrightarrow>
   tr_events (record_all H rp es tr) = (if enabled tr then tr_events tr @ es else tr_events tr) \<and>
   hash_chain (record_all H rp es tr) = hash_chain tr \<and>
   (hash_chain tr \<longrightarrow> chain (record_all H rp es tr) = fold_all H rp (tr_events (record_all H rp es tr)))"
proof (induction es arbitrary: tr)
  case (Cons e es)
  let ?tr = "trace_record H rp e tr"
  have "hash_chain ?tr \<Longrightarrow> chain ?tr = fold_all H rp (tr_events ?tr)"
    using Cons.prems by (auto simp: trace_record_def Let_def fold_all_def)
  from Cons.IH [OF this] show ?case
    by (auto simp: record_all_def trace_record_def Let_def)
qed (simp add: record_all_def)

lemma fingerprint_is_fold:
  "fingerprint H rp (record_all H rp es (trace_init H rp pre tw kw hashing on)) =
     fingerprint_of H rp (if on then pre @ es else pre)"
proof -
  let ?tr = "trace_init H rp pre tw kw hashing on"
  have "hash_chain ?tr \<Longrightarrow> chain ?tr = fold_all H rp (tr_events ?tr)"
    by (simp add: trace_init_def fold_all_def)
  from record_all_state [OF this, of es] show ?thesis
    by (auto simp: fingerprint_def fingerprint_of_def trace_init_def)
qed

text \<open>With a hash of the size the module asks for that neither collides on the two runs' inputs
  nor hits the seed's head, two recorded runs have one fingerprint exactly when they recorded the
  same events; whether a run kept its chain while recording or folded it when asked makes no
  difference.\<close>

theorem fingerprint_identifies_run:
  assumes "\<forall>x. length (H x) = 16"
    and "inj_on H (hashed H rp ea \<union> hashed H rp eb)"
    and "\<forall>x \<in> hashed H rp ea \<union> hashed H rp eb. H x \<noteq> take 16 chain_seed"
    and "clean rp (set ea \<union> set eb)"
  shows "fingerprint H rp (record_all H rp ea (trace_init H rp [] tw kw hashing True)) =
         fingerprint H rp (record_all H rp eb (trace_init H rp [] tw' kw' hashing' True)) \<longleftrightarrow> ea = eb"
proof -
  have "fingerprint_of H rp ea = fingerprint_of H rp eb \<longleftrightarrow> ea = eb"
    unfolding fingerprint_of_def hex_inj
    using fold_all_inj [OF assms subset_refl subset_refl] by blast
  then show ?thesis by (simp only: fingerprint_is_fold if_True append_Nil)
qed

subsection \<open>Two runs that part\<close>

text \<open>The last sixteen bytes of an input, backwards: a hash good enough for these two runs.\<close>

definition tail_hash :: "bytes \<Rightarrow> bytes" where
  "tail_hash x = take 16 (rev x @ List.replicate 16 0)"

definition run_a :: "trace_event list" where
  "run_a = [(0, ''put'', ''x''), (0, ''get'', ''y'')]"

definition run_b :: "trace_event list" where
  "run_b = [(0, ''put'', ''x''), (0, ''get'', ''z'')]"

definition repr_zero :: "time \<Rightarrow> bytes" where
  "repr_zero t = ascii ''0.0''"

lemmas demo_simps = run_a_def run_b_def hashed_def fold_event_def fold_input_def tail_hash_def repr_zero_def
  chain_seed_def ascii_def sep_byte_def utf8_def utf8_char_def

lemma demo_clean: "clean repr_zero (set run_a \<union> set run_b)"
  by (simp add: clean_def lossless_def run_a_def run_b_def repr_zero_def ascii_def sep_byte_def)

lemma demo_inj: "inj_on tail_hash (hashed tail_hash repr_zero run_a \<union> hashed tail_hash repr_zero run_b)"
  by (auto simp: demo_simps)

lemma demo_seed: "\<forall>x \<in> hashed tail_hash repr_zero run_a \<union> hashed tail_hash repr_zero run_b.
    tail_hash x \<noteq> take 16 chain_seed"
  by (simp add: demo_simps Let_def)

lemma divergence_is_first_witness:
  "map_option dv_index (first_divergence tail_hash repr_zero run_a run_b 3) = Some 1"
proof -
  have "length (longest_common_prefix run_a run_b) = 1" "run_a \<noteq> run_b" by (simp_all add: run_a_def run_b_def)
  with divergence_is_first [OF demo_inj demo_clean, of 3] show ?thesis
    by (cases "first_divergence tail_hash repr_zero run_a run_b 3") auto
qed

lemma fingerprint_identifies_run_witness:
  "fingerprint tail_hash repr_zero (record_all tail_hash repr_zero run_a (trace_init tail_hash repr_zero [] 6 6 True True)) \<noteq>
   fingerprint tail_hash repr_zero (record_all tail_hash repr_zero run_b (trace_init tail_hash repr_zero [] 6 6 False True))"
proof -
  have "\<forall>x. length (tail_hash x) = 16" by (auto simp: tail_hash_def)
  moreover have "run_a \<noteq> run_b" by (simp add: run_a_def run_b_def)
  ultimately show ?thesis
    using fingerprint_identifies_run [OF _ demo_inj demo_seed demo_clean] by blast
qed

end
