(* ===== verification/Sensing.thy ===== *)
theory Sensing
  imports Prelude
begin

section \<open>What a decision reads\<close>

text \<open>
  \<^verbatim>\<open>proposed/sensors.py\<close>. A sensor object is known by the type it is registered under and its
  own concrete type; \<open>isinst\<close> is Python's \<^verbatim>\<open>isinstance\<close> on those type names. The directory a
  \<^verbatim>\<open>DirectorySensor\<close> reads belongs to the store: its read is an argument.
\<close>

subsection \<open>Attachment\<close>

record 'o registered =
  reg_type :: string
  concrete_type :: string
  sensor_obj :: 'o

record 'o sensed =
  resolved :: "(string \<times> 'o) list"

definition resolve_one :: "(string \<Rightarrow> string \<Rightarrow> bool) \<Rightarrow> 'o registered list \<Rightarrow> string \<Rightarrow> 'o res" where
  "resolve_one isinst available required =
     (case filter (\<lambda>r. isinst (concrete_type r) required) available of
        [r] \<Rightarrow> Inr (sensor_obj r)
      | _ \<Rightarrow> Inl RuntimeError)"

definition attach :: "(string \<Rightarrow> string \<Rightarrow> bool) \<Rightarrow> string list \<Rightarrow> 'o registered list \<Rightarrow> 'o sensed res" where
  "attach isinst declared available =
     (if \<exists>r \<in> set available. concrete_type r \<noteq> reg_type r then Inl TypeError
      else bindr (res_map (\<lambda>t. bindr (resolve_one isinst available t) (\<lambda>s. Inr (t, s))) declared)
        (\<lambda>ps. Inr \<lparr>resolved = dict_of ps\<rparr>))"

text \<open>\<open>None\<close> is an object that was never attached.\<close>

definition sensor :: "'o sensed option \<Rightarrow> string \<Rightarrow> 'o res" where
  "sensor sensed t =
     (case sensed of None \<Rightarrow> Inl RuntimeError
      | Some d \<Rightarrow> (case map_of (resolved d) t of None \<Rightarrow> Inl RuntimeError | Some s \<Rightarrow> Inr s))"

lemma resolve_one_unique:
  "resolve_one isinst available t = Inr s \<longleftrightarrow>
     (\<exists>r. filter (\<lambda>r. isinst (concrete_type r) t) available = [r] \<and> sensor_obj r = s)"
  by (auto simp: resolve_one_def split: list.splits)

lemma res_map_dict:
  "res_map (\<lambda>t. bindr (f t) (\<lambda>s. Inr (t, s))) ts = Inr ps \<Longrightarrow>
     map fst ps = ts \<and> (\<forall>(t, s) \<in> set ps. f t = Inr s)"
  by (induction ts arbitrary: ps) (auto simp: res_simps)

lemma map_of_dict_of_in: "map_of (dict_of ps) k = Some v \<Longrightarrow> (k, v) \<in> set ps"
proof -
  have "map_of (fold (\<lambda>(k, v). AList.update k v) ps d) k = Some v \<Longrightarrow> (k, v) \<in> set ps \<or> map_of d k = Some v" for d
    by (induction ps arbitrary: d) (fastforce split: if_splits)+
  from this [of "[]"] show "map_of (dict_of ps) k = Some v \<Longrightarrow> (k, v) \<in> set ps"
    by (auto simp: dict_of_def)
qed

text \<open>Once attached, an object reads each type it declared through the one registered
  sensor of that type, and reads nothing it did not declare.\<close>

theorem attach_resolves:
  assumes "attach isinst declared available = Inr d"
  shows "(\<forall>t \<in> set declared. \<exists>r \<in> set available. sensor (Some d) t = Inr (sensor_obj r) \<and>
           isinst (concrete_type r) t \<and>
           filter (\<lambda>r'. isinst (concrete_type r') t) available = [r]) \<and>
         (\<forall>t. t \<notin> set declared \<longrightarrow> sensor (Some d) t = Inl RuntimeError)"
proof -
  from assms obtain ps where ps: "map fst ps = declared"
    "\<forall>(t, s) \<in> set ps. resolve_one isinst available t = Inr s" and d: "d = \<lparr>resolved = dict_of ps\<rparr>"
    by (auto simp: attach_def res_simps dest!: res_map_dict split: if_splits)
  show ?thesis
  proof (intro conjI ballI allI impI)
    fix t
    assume "t \<in> set declared"
    then have "t \<in> fst ` set (dict_of ps)" using ps(1) by (simp flip: set_map) (metis dkeys_dict_of set_map)
    then obtain s where s: "map_of (dict_of ps) t = Some s"
      by (metis map_of_None_iff not_Some_eq set_map)
    with ps(2) have "resolve_one isinst available t = Inr s" by (blast dest: map_of_dict_of_in)
    then obtain r where r: "filter (\<lambda>r. isinst (concrete_type r) t) available = [r]" "sensor_obj r = s"
      by (auto simp: resolve_one_unique)
    then have "r \<in> set (filter (\<lambda>r. isinst (concrete_type r) t) available)" by simp
    then have "r \<in> set available" "isinst (concrete_type r) t" by auto
    with r s d show "\<exists>r \<in> set available. sensor (Some d) t = Inr (sensor_obj r) \<and>
        isinst (concrete_type r) t \<and> filter (\<lambda>r'. isinst (concrete_type r') t) available = [r]"
      by (auto simp: sensor_def)
  next
    fix t
    assume "t \<notin> set declared"
    then have "map_of (dict_of ps) t = None"
      using ps(1) map_of_None_iff [of "dict_of ps" t] dkeys_dict_of [of ps] by simp (metis set_map)
    with d show "sensor (Some d) t = Inl RuntimeError" by (simp add: sensor_def)
  qed
qed

lemma attach_resolves_witness:
  "\<exists>d. attach (=) [''A''] [\<lparr>reg_type = ''B'', concrete_type = ''B'', sensor_obj = 1::nat\<rparr>,
      \<lparr>reg_type = ''A'', concrete_type = ''A'', sensor_obj = 2\<rparr>] = Inr d \<and>
     sensor (Some d) ''A'' = Inr 2 \<and> sensor (Some d) ''B'' = Inl RuntimeError"
proof -
  obtain d where d: "attach (=) [''A''] [\<lparr>reg_type = ''B'', concrete_type = ''B'', sensor_obj = 1::nat\<rparr>,
      \<lparr>reg_type = ''A'', concrete_type = ''A'', sensor_obj = 2\<rparr>] = Inr d"
    by (simp add: attach_def resolve_one_def)
  from attach_resolves [OF d] d show ?thesis by auto
qed

subsection \<open>One coherent directory read\<close>

text \<open>
  What the directory answers for a batch of keys: for each key it holds, the volumes holding
  it, with what it knows of each. A pin freezes one such answer for the span of a decision.
\<close>

type_synonym 'i located = "(key \<times> (vid \<times> 'i) list) list"
type_synonym 'i directory = "key list \<Rightarrow> 'i located res"

record 'i dir_sensor =
  pin_keys :: "key list option"
  pin_located :: "'i located"

definition dir_sensor_init :: "'i dir_sensor" where
  "dir_sensor_init = \<lparr>pin_keys = None, pin_located = []\<rparr>"

definition locate_live :: "'i directory \<Rightarrow> key list \<Rightarrow> 'i located res" where
  "locate_live dir ks = (if ks = [] then Inr [] else dir ks)"

definition locate :: "'i directory \<Rightarrow> 'i dir_sensor \<Rightarrow> key list \<Rightarrow> 'i located res" where
  "locate dir d ks =
     (case pin_keys d of
        None \<Rightarrow> locate_live dir ks
      | Some pinned \<Rightarrow>
          if \<not> set ks \<subseteq> set pinned then Inl AssertionError
          else Inr (dict_of (map (\<lambda>k. (k, the (map_of (pin_located d) k)))
                 (filter (\<lambda>k. map_of (pin_located d) k \<noteq> None) ks))))"

definition holders ::
  "'i directory \<Rightarrow> 'i dir_sensor \<Rightarrow> key list \<Rightarrow> bool \<Rightarrow> (key \<times> vid list) list res" where
  "holders dir d ks live =
     bindr (if live then locate_live dir ks else locate dir d ks) (\<lambda>located.
       Inr (dict_of (map (\<lambda>k. (k, dkeys (dget located k []))) ks)))"

text \<open>Entering the context manager \<^verbatim>\<open>pinned\<close>, and leaving it however the body ended.\<close>

definition pin :: "'i directory \<Rightarrow> key list \<Rightarrow> 'i dir_sensor \<Rightarrow> 'i dir_sensor res" where
  "pin dir ks d =
     (if pin_keys d \<noteq> None then Inl AssertionError
      else bindr (locate_live dir ks) (\<lambda>located. Inr \<lparr>pin_keys = Some ks, pin_located = located\<rparr>))"

definition unpin :: "'i dir_sensor \<Rightarrow> 'i dir_sensor" where
  "unpin d = \<lparr>pin_keys = None, pin_located = []\<rparr>"

lemma map_of_dict_of_over:
  "map_of (dict_of (map (\<lambda>k. (k, f k)) ks)) k = (if k \<in> set ks then Some (f k) else None)"
proof -
  have "map_of (fold (\<lambda>(k, v). AList.update k v) (map (\<lambda>k. (k, f k)) ks) d) k =
      (if k \<in> set ks then Some (f k) else map_of d k)" for d
    by (induction ks arbitrary: d) auto
  then show ?thesis by (simp add: dict_of_def)
qed

text \<open>
  Under a pin every read of the decision's keys answers from one directory read, whatever the
  live directory has become; a key outside the decision is refused.
\<close>

lemma pinned_locate:
  assumes "pin dir ks d = Inr d'"
  shows "\<exists>located. locate_live dir ks = Inr located \<and>
    (\<forall>dir' qs. locate dir' d' qs =
       (if set qs \<subseteq> set ks
        then Inr (dict_of (map (\<lambda>k. (k, the (map_of located k))) (filter (\<lambda>k. map_of located k \<noteq> None) qs)))
        else Inl AssertionError))"
  using assms by (auto simp: pin_def res_simps locate_def split: if_splits)

lemma pinned_locate_get:
  assumes "pin dir ks d = Inr d'" "locate_live dir ks = Inr located" "set qs \<subseteq> set ks"
    "locate dir' d' qs = Inr l" "k \<in> set qs"
  shows "map_of l k = map_of located k"
  using pinned_locate [OF assms(1)] assms(2-5) by (auto simp: map_of_dict_of_over)

end
