(* ===== verification/Topology.thy ===== *)
theory Topology
  imports Prelude
begin

section \<open>Where a volume is\<close>

text \<open>
  \<^verbatim>\<open>proposed/topology.py\<close>: endpoints, the three locality tiers (ordered cheapest first), the
  tier between two endpoints and the nearest of a list of candidates.
\<close>

record endpoint =
  ep_id :: string
  ep_host :: string
  ep_node :: string

datatype tier = SHM | NVLINK | RDMA

fun tier_int :: "tier \<Rightarrow> nat" where
  "tier_int SHM = 0"
| "tier_int NVLINK = 1"
| "tier_int RDMA = 2"

lemma tier_int_inject [simp]: "tier_int a = tier_int b \<longleftrightarrow> a = b"
  by (cases a; cases b) auto

text \<open>\<^verbatim>\<open>Tier\<close> is an \<^verbatim>\<open>IntEnum\<close>: its members compare as their numbers do.\<close>

instantiation tier :: linorder
begin

definition less_eq_tier :: "tier \<Rightarrow> tier \<Rightarrow> bool" where
  "less_eq_tier a b = (tier_int a \<le> tier_int b)"

definition less_tier :: "tier \<Rightarrow> tier \<Rightarrow> bool" where
  "less_tier a b = (tier_int a < tier_int b)"

instance
  by standard (auto simp: less_eq_tier_def less_tier_def)

end

definition TIER_LABEL :: "tier \<Rightarrow> string" where
  "TIER_LABEL t = (case t of SHM \<Rightarrow> ''shm'' | NVLINK \<Rightarrow> ''nvlink'' | RDMA \<Rightarrow> ''cross-node'')"

definition locality :: "endpoint \<Rightarrow> endpoint \<Rightarrow> tier" where
  "locality src dst =
     (if ep_host src = ep_host dst then SHM
      else if ep_node src = ep_node dst then NVLINK
      else RDMA)"

text \<open>
  The sort key is \<^verbatim>\<open>(int(locality(topology[v], topology[to])), v)\<close>: a candidate, or a target,
  the topology does not hold raises.
\<close>

definition nearest_key :: "(vid \<times> endpoint) list \<Rightarrow> vid \<Rightarrow> vid \<Rightarrow> (nat \<times> vid) res" where
  "nearest_key topo to_id v =
     bindr (dindex topo v) (\<lambda>s.
     bindr (dindex topo to_id) (\<lambda>d.
     Inr (tier_int (locality s d), v)))"

definition nearest :: "(vid \<times> endpoint) list \<Rightarrow> vid list \<Rightarrow> vid \<Rightarrow> vid option res" where
  "nearest topo candidates to_id =
     (if candidates = [] then Inr None
      else bindr (res_map (nearest_key topo to_id) candidates)
        (\<lambda>ks. Inr (map_option snd (min_key fst (zip ks candidates)))))"

lemma locality_sym: "locality a b = locality b a"
  by (auto simp: locality_def)

lemma locality_refl [simp]: "locality a a = SHM"
  by (simp add: locality_def)

lemma locality_SHM_iff: "locality a b = SHM \<longleftrightarrow> ep_host a = ep_host b"
  by (simp add: locality_def)

lemma nearest_key_Inr:
  "nearest_key topo to_id v = Inr k \<Longrightarrow>
     \<exists>s d. map_of topo v = Some s \<and> map_of topo to_id = Some d \<and> k = (tier_int (locality s d), v)"
  by (auto simp: nearest_key_def dindex_def res_simps split: option.splits)

text \<open>
  The answer is a candidate, and no candidate is strictly nearer: the tier first, then the id.
  Proved by reading the sort key back off the minimum.
\<close>

lemma nearest_least:
  assumes near: "nearest topo cs to_id = Inr (Some m)" and c: "c \<in> set cs"
  shows "m \<in> set cs \<and>
    (\<exists>km kc. nearest_key topo to_id m = Inr km \<and> nearest_key topo to_id c = Inr kc \<and> km \<le> kc)"
proof -
  from near c obtain ks where ks: "res_map (nearest_key topo to_id) cs = Inr ks"
    and m: "map_option snd (min_key fst (zip ks cs)) = Some m"
    by (auto simp: nearest_def res_simps split: if_splits)
  from ks have all: "list_all2 (\<lambda>v k. nearest_key topo to_id v = Inr k) cs ks"
    by (simp add: res_map_Inr_iff)
  from m obtain km where min: "min_key fst (zip ks cs) = Some (km, m)" by auto
  have pairs: "(k, v) \<in> set (zip ks cs) \<Longrightarrow> nearest_key topo to_id v = Inr k" for k v
    using all by (induction rule: list_all2_induct) auto
  from c all obtain kc where kc: "(kc, c) \<in> set (zip ks cs)"
    by (metis in_set_conv_nth in_set_zip fst_conv list_all2_lengthD snd_conv)
  from min_key_le [OF min kc] pairs [OF min_key_in [OF min]] pairs [OF kc]
  show ?thesis
    using min_key_in [OF min] by (auto dest: set_zip_rightD)
qed

end
