(* ===== verification/CostModel.thy ===== *)
theory CostModel
  imports Topology
begin

section \<open>What moving and computing costs\<close>

text \<open>
  \<^verbatim>\<open>sim_common/topology.py\<close>, \<^verbatim>\<open>sim_common/cost_model.py\<close> and the pricing half of
  \<^verbatim>\<open>proposed/environment.py\<close>: every cost is a function of a byte count (or a flop count) and of
  a machine profile. A bandwidth may be \<^verbatim>\<open>math.inf\<close> and may be zero (the default of several
  fields), in which case a division by it raises.
\<close>

record machine_profile =
  mp_tiers :: "(tier \<times> (real \<times> ext)) list"
  ram_bandwidth :: ext
  ram_latency :: real
  storage_read_bw :: ext
  storage_write_bw :: ext
  storage_latency :: real
  storage_capacity_bytes :: ext
  gpu_flops :: "(string \<times> ext) list"
  gpu_flops_default :: ext
  gpu_mem_bandwidth :: ext
  cpu_flops :: ext
  h2d_bandwidth :: ext
  d2h_bandwidth :: ext

definition DEFAULT_PROFILE :: machine_profile where
  "DEFAULT_PROFILE = \<lparr>
     mp_tiers = [(SHM, (1/10000, Fin 150000)), (NVLINK, (2/10000, Fin 60000)),
                 (RDMA, (1/1000, Fin 10000))],
     ram_bandwidth = Fin 200000,
     ram_latency = 5/100000,
     storage_read_bw = Fin 20000,
     storage_write_bw = Fin 10000,
     storage_latency = 1/1000,
     storage_capacity_bytes = Inf,
     gpu_flops = [(''float32'', Fin 1000000000), (''float16'', Fin 2000000000),
                  (''bfloat16'', Fin 2000000000)],
     gpu_flops_default = Fin 1000000000,
     gpu_mem_bandwidth = Fin 800000,
     cpu_flops = Fin 50000000,
     h2d_bandwidth = Fin 25000,
     d2h_bandwidth = Fin 25000\<rparr>"

definition transfer_time ::
  "endpoint \<Rightarrow> endpoint \<Rightarrow> int \<Rightarrow> (tier \<times> (real \<times> ext)) list \<Rightarrow> time res" where
  "transfer_time src dst nbytes tiers =
     (if ep_id src = ep_id dst \<or> nbytes = 0 then Inr 0
      else bindr (dindex tiers (locality src dst)) (\<lambda>(lat, bw).
           bindr (fdiv (of_int nbytes) bw) (\<lambda>q. Inr (lat + q))))"

definition network_time :: "endpoint \<Rightarrow> endpoint \<Rightarrow> int \<Rightarrow> machine_profile \<Rightarrow> time res" where
  "network_time src dst nbytes profile = transfer_time src dst nbytes (mp_tiers profile)"

definition network_rate :: "endpoint \<Rightarrow> endpoint \<Rightarrow> machine_profile \<Rightarrow> (real \<times> ext) res" where
  "network_rate src dst profile = dindex (mp_tiers profile) (locality src dst)"

definition mem_copy_time :: "int \<Rightarrow> machine_profile \<Rightarrow> time res" where
  "mem_copy_time nbytes profile =
     (if nbytes \<le> 0 then Inr 0
      else bindr (fdiv (of_int nbytes) (ram_bandwidth profile)) (\<lambda>q. Inr (ram_latency profile + q)))"

text \<open>The two kinds of storage operation, and what an unknown kind answers.\<close>

definition storage_bw :: "string \<Rightarrow> machine_profile \<Rightarrow> ext res" where
  "storage_bw kind profile =
     (if kind \<noteq> ''read'' \<and> kind \<noteq> ''write'' then Inl ValueError
      else Inr (if kind = ''read'' then storage_read_bw profile else storage_write_bw profile))"

definition storage_time :: "int \<Rightarrow> string \<Rightarrow> machine_profile \<Rightarrow> time res" where
  "storage_time nbytes kind profile =
     bindr (storage_bw kind profile) (\<lambda>bw.
       if nbytes \<le> 0 then Inr 0
       else bindr (fdiv (of_int nbytes) bw) (\<lambda>q. Inr (storage_latency profile + q)))"

definition storage_rate :: "string \<Rightarrow> machine_profile \<Rightarrow> (real \<times> ext) res" where
  "storage_rate kind profile =
     bindr (storage_bw kind profile) (\<lambda>bw. Inr (storage_latency profile, bw))"

definition read_time :: "endpoint \<Rightarrow> endpoint \<Rightarrow> int \<Rightarrow> machine_profile \<Rightarrow> time res" where
  "read_time src dst nbytes profile =
     (if nbytes \<le> 0 then Inr 0
      else bindr (storage_time nbytes ''read'' profile) (\<lambda>s.
           bindr (mem_copy_time nbytes profile) (\<lambda>m.
           bindr (network_time src dst nbytes profile) (\<lambda>n. Inr (s + m + n)))))"

text \<open>\<^verbatim>\<open>str.lower\<close> on the ASCII letters.\<close>

definition lower_char :: "char \<Rightarrow> char" where
  "lower_char c = (let n = (of_char c :: nat) in if 65 \<le> n \<and> n \<le> 90 then char_of (n + 32) else c)"

definition is_gpu :: "string \<Rightarrow> bool" where
  "is_gpu device = (map lower_char device \<in> {''cuda'', ''gpu'', ''hip'', ''xpu''})"

definition effective_flops :: "string \<Rightarrow> string \<Rightarrow> machine_profile \<Rightarrow> ext" where
  "effective_flops dtype device profile =
     (if is_gpu device then dget (gpu_flops profile) dtype (gpu_flops_default profile)
      else cpu_flops profile)"

definition mem_bandwidth :: "string \<Rightarrow> machine_profile \<Rightarrow> ext" where
  "mem_bandwidth device profile =
     (if is_gpu device then gpu_mem_bandwidth profile else ram_bandwidth profile)"

definition compute_time :: "real \<Rightarrow> string \<Rightarrow> string \<Rightarrow> machine_profile \<Rightarrow> int \<Rightarrow> time res" where
  "compute_time flops dtype device profile nbytes =
     bindr (if 0 < flops then fdiv flops (effective_flops dtype device profile) else Inr 0) (\<lambda>c.
     bindr (if 0 < nbytes then fdiv (of_int nbytes) (mem_bandwidth device profile) else Inr 0) (\<lambda>m.
     Inr (max c m)))"

subsection \<open>The environment: the same prices by volume id\<close>

record environment =
  env_topology :: "(vid \<times> endpoint) list"
  env_profile :: "machine_profile option"

definition env_read_time :: "environment \<Rightarrow> vid \<Rightarrow> vid \<Rightarrow> int \<Rightarrow> time res" where
  "env_read_time env src_id dst_id nbytes =
     (case env_profile env of
        None \<Rightarrow> Inl RuntimeError
      | Some profile \<Rightarrow>
          bindr (dindex (env_topology env) src_id) (\<lambda>s.
          bindr (dindex (env_topology env) dst_id) (\<lambda>d.
          read_time s d nbytes profile)))"

subsection \<open>A profile every cost can be read off\<close>

definition wf_profile :: "machine_profile \<Rightarrow> bool" where
  "wf_profile p \<longleftrightarrow>
     (\<forall>t \<in> {SHM, NVLINK, RDMA}. case map_of (mp_tiers p) t of
        None \<Rightarrow> False | Some (lat, bw) \<Rightarrow> 0 \<le> lat \<and> pos_ext bw) \<and>
     pos_ext (ram_bandwidth p) \<and> 0 \<le> ram_latency p \<and>
     pos_ext (storage_read_bw p) \<and> pos_ext (storage_write_bw p) \<and> 0 \<le> storage_latency p"

lemma wf_DEFAULT_PROFILE: "wf_profile DEFAULT_PROFILE"
  by (simp add: wf_profile_def DEFAULT_PROFILE_def)

lemma wf_tier:
  assumes "wf_profile p"
  obtains lat bw where "map_of (mp_tiers p) t = Some (lat, bw)" "0 \<le> lat" "pos_ext bw"
proof -
  have "t \<in> {SHM, NVLINK, RDMA}" by (cases t) auto
  with assms that show thesis
    by (fastforce simp: wf_profile_def split: option.splits)
qed

lemmas cost_defs = transfer_time_def network_time_def network_rate_def mem_copy_time_def
  storage_time_def storage_rate_def storage_bw_def dindex_def

lemma network_time_wf:
  assumes "wf_profile p" and "0 \<le> n"
  shows "\<exists>t. network_time a b n p = Inr t \<and> 0 \<le> t"
proof -
  obtain lat bw where t: "map_of (mp_tiers p) (locality a b) = Some (lat, bw)" "0 \<le> lat" "pos_ext bw"
    using wf_tier [OF assms(1)] by blast
  with fdiv_pos [OF t(3), of "of_int n"] assms(2) show ?thesis
    by (auto simp: cost_defs)
qed

lemma mem_copy_time_wf: "wf_profile p \<Longrightarrow> \<exists>t. mem_copy_time n p = Inr t \<and> 0 \<le> t"
  using fdiv_pos [of "ram_bandwidth p" "of_int n"]
  by (auto simp: mem_copy_time_def wf_profile_def not_le)

lemma storage_time_wf:
  "wf_profile p \<Longrightarrow> kind \<in> {''read'', ''write''} \<Longrightarrow> \<exists>t. storage_time n kind p = Inr t \<and> 0 \<le> t"
  using fdiv_pos [of "storage_read_bw p" "of_int n"] fdiv_pos [of "storage_write_bw p" "of_int n"]
  by (auto simp: storage_time_def storage_bw_def wf_profile_def not_le)

text \<open>A read never fails on such a profile, and costs a non-negative time.\<close>

lemma read_time_wf:
  assumes "wf_profile p"
  shows "\<exists>t. read_time a b n p = Inr t \<and> 0 \<le> t"
proof (cases "n \<le> 0")
  case True
  then show ?thesis by (simp add: read_time_def)
next
  case False
  with network_time_wf [OF assms, of n a b] mem_copy_time_wf [OF assms, of n]
    storage_time_wf [OF assms, of "''read''" n]
  show ?thesis by (auto simp: read_time_def)
qed

lemma transfer_time_sym: "ep_id a \<noteq> ep_id b \<or> a = b \<Longrightarrow> transfer_time a b n ts = transfer_time b a n ts"
  by (auto simp: transfer_time_def locality_sym [of a b])

lemma network_time_mono:
  assumes "wf_profile p" "0 \<le> m" "m \<le> n" "network_time a b m p = Inr s" "network_time a b n p = Inr t"
  shows "s \<le> t"
proof -
  obtain lat bw where tr: "map_of (mp_tiers p) (locality a b) = Some (lat, bw)" "0 \<le> lat" "pos_ext bw"
    using wf_tier [OF assms(1)] by blast
  show ?thesis
  proof (cases "m = 0")
    case True
    with assms(4) have "s = 0" by (auto simp: cost_defs)
    with network_time_wf [OF assms(1), of n a b] assms show ?thesis by auto
  next
    case False
    with assms tr fdiv_mono [OF tr(3), of "of_int m" "of_int n"] show ?thesis
      by (auto simp: cost_defs res_simps split: if_splits)
  qed
qed

lemma mem_copy_time_mono:
  assumes "wf_profile p" "m \<le> n" "mem_copy_time m p = Inr s" "mem_copy_time n p = Inr t"
  shows "s \<le> t"
  using assms mem_copy_time_wf [OF assms(1), of n] fdiv_mono [of "ram_bandwidth p" "of_int m" "of_int n"]
  by (fastforce simp: mem_copy_time_def wf_profile_def res_simps split: if_splits)

lemma storage_time_mono:
  assumes "wf_profile p" "kind \<in> {''read'', ''write''}" "m \<le> n"
    "storage_time m kind p = Inr s" "storage_time n kind p = Inr t"
  shows "s \<le> t"
proof -
  obtain bw where bw: "storage_bw kind p = Inr bw" "pos_ext bw"
    using assms(1,2) by (auto simp: storage_bw_def wf_profile_def)
  show ?thesis
  proof (cases "m \<le> 0")
    case True
    with assms(4) bw have "s = 0" by (simp add: storage_time_def)
    with storage_time_wf [OF assms(1,2), of n] assms(5) show ?thesis by auto
  next
    case False
    with assms bw fdiv_mono [OF bw(2), of "of_int m" "of_int n"] show ?thesis
      by (auto simp: storage_time_def res_simps)
  qed
qed

text \<open>Moving more bytes never costs less: what makes a smaller pull a cheaper pull.\<close>

lemma read_time_mono:
  assumes "wf_profile p" "m \<le> n" "read_time a b m p = Inr s" "read_time a b n p = Inr t"
  shows "s \<le> t"
proof (cases "m \<le> 0")
  case True
  with assms(3) have "s = 0" by (simp add: read_time_def)
  with read_time_wf [OF assms(1), of a b n] assms(4) show ?thesis by auto
next
  case False
  with assms(2) have n: "\<not> n \<le> 0" by simp
  from False assms(3) obtain s1 s2 s3 where s: "storage_time m ''read'' p = Inr s1"
    "mem_copy_time m p = Inr s2" "network_time a b m p = Inr s3" "s = s1 + s2 + s3"
    by (auto simp: read_time_def res_simps)
  from n assms(4) obtain t1 t2 t3 where t: "storage_time n ''read'' p = Inr t1"
    "mem_copy_time n p = Inr t2" "network_time a b n p = Inr t3" "t = t1 + t2 + t3"
    by (auto simp: read_time_def res_simps)
  have "s1 \<le> t1" by (rule storage_time_mono [OF assms(1) _ assms(2) s(1) t(1)]) simp
  moreover have "s2 \<le> t2" by (rule mem_copy_time_mono [OF assms(1,2) s(2) t(2)])
  moreover have "s3 \<le> t3"
    using network_time_mono [OF assms(1) _ assms(2) s(3) t(3)] False by simp
  ultimately show ?thesis using s(4) t(4) by simp
qed

text \<open>The decomposition the contention model shares a link by.\<close>

lemma network_time_decomposes:
  "ep_id a \<noteq> ep_id b \<Longrightarrow> n \<noteq> 0 \<Longrightarrow>
     network_time a b n p =
       bindr (network_rate a b p) (\<lambda>(lat, bw). bindr (fdiv (of_int n) bw) (\<lambda>q. Inr (lat + q)))"
  by (simp add: network_time_def transfer_time_def network_rate_def)

lemma storage_time_decomposes:
  "0 < n \<Longrightarrow>
     storage_time n kind p =
       bindr (storage_rate kind p) (\<lambda>(lat, bw). bindr (fdiv (of_int n) bw) (\<lambda>q. Inr (lat + q)))"
  by (auto simp: storage_time_def storage_rate_def storage_bw_def)

end
