(* ===== verification/LlmModel.thy ===== *)
theory LlmModel
  imports CostModel
begin

section \<open>The served model\<close>

text \<open>
  \<^verbatim>\<open>domain/llm.py\<close>: what a token costs to prefill, what a decode step costs per batched
  request, how many bytes of KV a token occupies, and the two conversions to seconds that both
  the control plane (to decide) and the data plane (to charge) call.
\<close>

record model =
  prefill_flops_per_token :: real
  decode_step_flops_per_request :: real
  kv_bytes_per_token :: int
  compute_dtype :: string
  compute_device :: string

definition from_architecture ::
  "real \<Rightarrow> int \<Rightarrow> int \<Rightarrow> int \<Rightarrow> int \<Rightarrow> string \<Rightarrow> string \<Rightarrow> model" where
  "from_architecture params layers kv_heads head_dim dtype_bytes dtype device =
     (let fwd_flops = 2 * params in
      \<lparr>prefill_flops_per_token = fwd_flops,
       decode_step_flops_per_request = fwd_flops,
       kv_bytes_per_token = layers * kv_heads * head_dim * 2 * dtype_bytes,
       compute_dtype = dtype,
       compute_device = device\<rparr>)"

definition block_bytes :: "model \<Rightarrow> int \<Rightarrow> int \<Rightarrow> int" where
  "block_bytes m num_blocks block_tokens = num_blocks * block_tokens * kv_bytes_per_token m"

definition DEFAULT_MODEL :: model where
  "DEFAULT_MODEL =
     \<lparr>prefill_flops_per_token = 1600000,
      decode_step_flops_per_request = 40000000,
      kv_bytes_per_token = 1,
      compute_dtype = ''float16'',
      compute_device = ''cuda''\<rparr>"

definition prefill_time :: "int \<Rightarrow> machine_profile \<Rightarrow> model \<Rightarrow> time res" where
  "prefill_time uncached_tokens profile m =
     (if uncached_tokens \<le> 0 then Inr 0
      else compute_time (prefill_flops_per_token m * of_int uncached_tokens)
             (compute_dtype m) (compute_device m) profile 0)"

definition decode_step_time :: "int \<Rightarrow> machine_profile \<Rightarrow> model \<Rightarrow> time res" where
  "decode_step_time batch_size profile m =
     (let b = max 1 batch_size in
      compute_time (decode_step_flops_per_request m * of_int b)
        (compute_dtype m) (compute_device m) profile 0)"

subsection \<open>Models and machines that price every amount of work\<close>

text \<open>The flop rate the model's dtype and device resolve to.\<close>

definition model_rate :: "machine_profile \<Rightarrow> model \<Rightarrow> ext" where
  "model_rate p m = effective_flops (compute_dtype m) (compute_device m) p"

definition wf_model :: "machine_profile \<Rightarrow> model \<Rightarrow> bool" where
  "wf_model p m \<longleftrightarrow>
     0 < prefill_flops_per_token m \<and> 0 < decode_step_flops_per_request m \<and>
     0 \<le> kv_bytes_per_token m \<and> (\<exists>r > 0. model_rate p m = Fin r)"

lemma wf_DEFAULT_MODEL: "wf_model DEFAULT_PROFILE DEFAULT_MODEL"
proof -
  have "model_rate DEFAULT_PROFILE DEFAULT_MODEL = Fin 2000000000"
    by (simp add: model_rate_def effective_flops_def is_gpu_def lower_char_def
        DEFAULT_PROFILE_def DEFAULT_MODEL_def)
  then show ?thesis by (simp add: wf_model_def DEFAULT_MODEL_def)
qed

lemma compute_time_flops:
  "effective_flops dt dev p = Fin r \<Longrightarrow> 0 < r \<Longrightarrow> 0 < f \<Longrightarrow> compute_time f dt dev p 0 = Inr (f / r)"
  by (simp add: compute_time_def)

lemma prefill_time_eq:
  assumes "wf_model p m" and r: "model_rate p m = Fin r"
  shows "prefill_time n p m = Inr (if n \<le> 0 then 0 else prefill_flops_per_token m * of_int n / r)"
  using assms compute_time_flops [of "compute_dtype m" "compute_device m" p r]
  by (auto simp: prefill_time_def wf_model_def model_rate_def)

lemma decode_step_time_eq:
  assumes "wf_model p m" and r: "model_rate p m = Fin r"
  shows "decode_step_time b p m = Inr (decode_step_flops_per_request m * of_int (max 1 b) / r)"
  using assms compute_time_flops [of "compute_dtype m" "compute_device m" p r]
  by (auto simp: decode_step_time_def wf_model_def model_rate_def)

lemma wf_model_rate:
  assumes "wf_model p m"
  obtains r where "0 < r" "model_rate p m = Fin r"
  using assms by (auto simp: wf_model_def)

lemma prefill_time_wf:
  assumes "wf_model p m"
  shows "\<exists>t. prefill_time n p m = Inr t \<and> 0 \<le> t"
proof -
  obtain r where r: "0 < r" "model_rate p m = Fin r" using wf_model_rate [OF assms] .
  have "0 < prefill_flops_per_token m" using assms by (simp add: wf_model_def)
  with r prefill_time_eq [OF assms r(2), of n] show ?thesis by auto
qed

lemma decode_step_time_wf:
  assumes "wf_model p m"
  shows "\<exists>t. decode_step_time b p m = Inr t \<and> 0 < t"
proof -
  obtain r where r: "0 < r" "model_rate p m = Fin r" using wf_model_rate [OF assms] .
  have "0 < decode_step_flops_per_request m" using assms by (simp add: wf_model_def)
  with r decode_step_time_eq [OF assms r(2), of b] show ?thesis by auto
qed

text \<open>A request's inter-token gap grows strictly with the batch it joins.\<close>

lemma decode_step_time_strict:
  assumes "wf_model p m" "1 \<le> b" "b < c" "decode_step_time b p m = Inr s" "decode_step_time c p m = Inr t"
  shows "s < t"
proof -
  obtain r where r: "0 < r" "model_rate p m = Fin r" using wf_model_rate [OF assms(1)] .
  have "0 < decode_step_flops_per_request m" using assms(1) by (simp add: wf_model_def)
  with assms r decode_step_time_eq [OF assms(1) r(2)] show ?thesis
    by (auto simp: max_def divide_strict_right_mono)
qed

lemma decode_step_time_mono:
  assumes "wf_model p m" "b \<le> c" "decode_step_time b p m = Inr s" "decode_step_time c p m = Inr t"
  shows "s \<le> t"
proof -
  obtain r where r: "0 < r" "model_rate p m = Fin r" using wf_model_rate [OF assms(1)] .
  have "0 < decode_step_flops_per_request m" using assms(1) by (simp add: wf_model_def)
  with assms r decode_step_time_eq [OF assms(1) r(2)] show ?thesis
    by (auto simp: divide_right_mono)
qed

lemma prefill_time_mono:
  assumes "wf_model p m" "a \<le> b" "prefill_time a p m = Inr s" "prefill_time b p m = Inr t"
  shows "s \<le> t"
proof -
  obtain r where r: "0 < r" "model_rate p m = Fin r" using wf_model_rate [OF assms(1)] .
  have "0 < prefill_flops_per_token m" using assms(1) by (simp add: wf_model_def)
  with assms r prefill_time_eq [OF assms(1) r(2)] show ?thesis
    by (auto simp: divide_right_mono split: if_splits)
qed

lemma block_bytes_add: "block_bytes m (a + b) B = block_bytes m a B + block_bytes m b B"
  by (simp add: block_bytes_def algebra_simps)

end
