(* ===== verification/Text.thy ===== *)
theory Text
  imports Prelude
begin

section \<open>Numbers as text\<close>

text \<open>
  How Python prints an integer and reads one back (\<^verbatim>\<open>str\<close>, an f-string, \<^verbatim>\<open>int\<close>): what keys, ids and
  page cursors are made of. ASCII digits only; the interpreter's limit of 4300 digits is not reached.
\<close>

text \<open>Decimal digits, as an f-string prints a counter.\<close>

fun str_nat :: "nat \<Rightarrow> string" where
  "str_nat n = (if n < 10 then [char_of (48 + n)] else str_nat (n div 10) @ [char_of (48 + n mod 10)])"

declare str_nat.simps [simp del]

text \<open>A signed integer.\<close>

definition str_int :: "int \<Rightarrow> string" where
  "str_int n = (if n < 0 then ''-'' @ str_nat (nat (- n)) else str_nat (nat n))"

subsection \<open>Printing is injective\<close>

definition digit :: "char \<Rightarrow> bool" where
  "digit c \<longleftrightarrow> 48 \<le> (of_char c :: nat) \<and> (of_char c :: nat) < 58"

lemma digit_char [simp]: "n < 10 \<Longrightarrow> digit (char_of (48 + n :: nat))"
  by (simp add: digit_def of_char_of)

lemma char_of_inj: "a < 10 \<Longrightarrow> b < 10 \<Longrightarrow> char_of (48 + a) = (char_of (48 + b :: nat)) \<Longrightarrow> a = (b :: nat)"
  by (drule arg_cong [where f = "of_char :: char \<Rightarrow> nat"]) (simp add: of_char_of)

lemma str_nat_digits: "c \<in> set (str_nat n) \<Longrightarrow> digit c"
proof (induction n rule: str_nat.induct)
  case (1 n)
  from 1(2) show ?case by (subst (asm) str_nat.simps) (auto split: if_splits dest: 1(1))
qed

lemma str_nat_ne [simp]: "str_nat n \<noteq> []" "[] \<noteq> str_nat n"
  by (subst str_nat.simps; simp)+

lemma str_nat_inj: "str_nat n = str_nat m \<Longrightarrow> n = m"
proof (induction n arbitrary: m rule: str_nat.induct)
  case (1 n)
  have n: "str_nat n = (if n < 10 then [char_of (48 + n)] else str_nat (n div 10) @ [char_of (48 + n mod 10)])"
    and m: "str_nat m = (if m < 10 then [char_of (48 + m)] else str_nat (m div 10) @ [char_of (48 + m mod 10)])"
    by (rule str_nat.simps)+
  show ?case
  proof (cases "n < 10")
    case True
    with n m 1(2) have "m < 10" "char_of (48 + n) = (char_of (48 + m) :: char)" by (auto split: if_splits)
    with True show ?thesis using char_of_inj by blast
  next
    case False
    with n m 1(2) have "\<not> m < 10" "str_nat (n div 10) = str_nat (m div 10)"
      "char_of (48 + n mod 10) = (char_of (48 + m mod 10) :: char)" by (auto split: if_splits)
    with False 1(1) [of "m div 10"] char_of_inj [of "n mod 10" "m mod 10"] show ?thesis
      by (metis div_mult_mod_eq mod_less_divisor zero_less_numeral)
  qed
qed

lemma no_bar: "CHR ''|'' \<notin> set (str_nat n)" "CHR ''|'' \<notin> set (str_int i)" "CHR ''-'' \<notin> set (str_nat n)"
  by (auto simp: str_int_def digit_def dest!: str_nat_digits split: if_splits)

lemma str_int_inj: "str_int a = str_int b \<Longrightarrow> a = b"
  using no_bar(3) [of "nat a"] no_bar(3) [of "nat b"]
  by (auto simp: str_int_def split: if_splits dest!: str_nat_inj) (metis list.set_intros(1))+

subsection \<open>Reading an integer\<close>

text \<open>
  \<^verbatim>\<open>int(s)\<close>: blanks around it, one sign, then digits that single underscores may separate; anything
  else is the \<^verbatim>\<open>ValueError\<close>.
\<close>

definition blank :: "char \<Rightarrow> bool" where
  "blank c \<longleftrightarrow> (of_char c :: nat) \<in> {9, 10, 11, 12, 13, 28, 29, 30, 31, 32}"

definition strip_blanks :: "string \<Rightarrow> string" where
  "strip_blanks s = rev (dropWhile blank (rev (dropWhile blank s)))"

fun read_digits :: "nat \<Rightarrow> bool \<Rightarrow> string \<Rightarrow> nat option" where
  "read_digits acc after_digit [] = (if after_digit then Some acc else None)"
| "read_digits acc after_digit (c # cs) =
     (if digit c then read_digits (acc * 10 + (of_char c - 48)) True cs
      else if c = CHR ''_'' \<and> after_digit then read_digits acc False cs
      else None)"

definition py_int :: "string \<Rightarrow> int res" where
  "py_int s =
     (let t = strip_blanks s;
          (neg, u) = (case t of [] \<Rightarrow> (False, [])
             | c # cs \<Rightarrow> if c = CHR ''-'' then (True, cs) else if c = CHR ''+'' then (False, cs) else (False, c # cs))
      in case read_digits 0 False u of
           None \<Rightarrow> Inl ValueError
         | Some n \<Rightarrow> Inr (if neg then - int n else int n))"

lemma read_digits_append:
  "\<forall>c \<in> set xs. digit c \<Longrightarrow> xs \<noteq> [] \<Longrightarrow>
     \<exists>n. \<forall>acc d ys. read_digits acc d (xs @ ys) = read_digits (acc * 10 ^ length xs + n) True ys"
proof (induction xs)
  case (Cons c xs)
  show ?case
  proof (cases "xs = []")
    case True
    with Cons.prems show ?thesis by (intro exI [of _ "of_char c - 48"]) simp
  next
    case False
    with Cons obtain n where n: "\<And>acc d ys. read_digits acc d (xs @ ys) = read_digits (acc * 10 ^ length xs + n) True ys"
      by auto
    with Cons.prems show ?thesis
      by (intro exI [of _ "(of_char c - 48) * 10 ^ length xs + n"]) (simp add: algebra_simps)
  qed
qed simp

lemma read_str_nat: "read_digits 0 d (str_nat n) = Some n"
proof (induction n rule: str_nat.induct)
  case (1 n)
  have last: "(of_char (char_of (48 + m) :: char) :: nat) - 48 = m" if "m < 10" for m :: nat
    using that by (simp add: of_char_of)
  show ?case
  proof (cases "n < 10")
    case True
    then show ?thesis by (subst str_nat.simps) (simp add: last)
  next
    case False
    obtain k where k: "\<And>acc d ys. read_digits acc d (str_nat (n div 10) @ ys) =
        read_digits (acc * 10 ^ length (str_nat (n div 10)) + k) True ys"
      using read_digits_append [of "str_nat (n div 10)"] str_nat_digits by (metis str_nat_ne(1))
    have "k = n div 10" using 1 [OF False] k [of 0 d "[]"] by (simp split: if_splits)
    with False k [of 0 d] show ?thesis by (subst str_nat.simps) (simp add: last)
  qed
qed

lemma digit_not_blank: "digit c \<Longrightarrow> \<not> blank c"
  by (auto simp: digit_def blank_def)

lemma strip_plain:
  assumes "s \<noteq> []" "\<not> blank (hd s)" "\<not> blank (last s)"
  shows "strip_blanks s = s"
proof -
  have "dropWhile blank s = s" using assms(1,2) by (cases s) simp_all
  moreover have "dropWhile blank (rev s) = rev s"
    using assms(1,3) by (cases s rule: rev_cases) simp_all
  ultimately show ?thesis by (simp add: strip_blanks_def)
qed

text \<open>An integer printed is the integer read.\<close>

lemma py_int_str: "py_int (str_int n) = Inr n"
proof -
  have ends: "str_int n \<noteq> []" "\<not> blank (hd (str_int n))" "\<not> blank (last (str_int n))"
    using str_nat_digits [of "hd (str_nat (nat n))" "nat n"] str_nat_digits [of "last (str_nat (nat n))" "nat n"]
      str_nat_digits [of "last (str_nat (nat (- n)))" "nat (- n)"]
    by (auto simp: str_int_def digit_not_blank) (simp add: blank_def)
  have plus: "c \<noteq> CHR ''-'' \<and> c \<noteq> CHR ''+''" if "digit c" for c using that by (auto simp: digit_def)
  show ?thesis
  proof (cases "n < 0")
    case True
    then show ?thesis using strip_plain [OF ends] by (simp add: py_int_def str_int_def read_str_nat)
  next
    case False
    obtain c cs where u: "str_nat (nat n) = c # cs" using str_nat_ne by (cases "str_nat (nat n)") auto
    with plus [of c] str_nat_digits [of c "nat n"] have "c \<noteq> CHR ''-''" "c \<noteq> CHR ''+''" by auto
    with False u show ?thesis
      using strip_plain [OF ends] read_str_nat [of False "nat n"] by (simp add: py_int_def str_int_def)
  qed
qed

end
