(* ===== verification/KvModel.thy ===== *)
theory KvModel
  imports Sensing LlmModel Text "HOL-Library.Sublist"
begin

section \<open>KV-cache values: prefixes, requests, plans\<close>

text \<open>
  \<^verbatim>\<open>kvcache_sim/control/_prefix.py\<close>, \<^verbatim>\<open>request.py\<close> and \<^verbatim>\<open>_answer.py\<close>: the run of leading blocks a
  host holds, the request every plane passes around, and the values a decision answers with.
\<close>

subsection \<open>Prefix runs\<close>

fun longest_prefix_run :: "key list \<Rightarrow> key set \<Rightarrow> nat" where
  "longest_prefix_run [] present = 0"
| "longest_prefix_run (k # ks) present = (if k \<in> present then Suc (longest_prefix_run ks present) else 0)"

definition held_by :: "'i located \<Rightarrow> key list \<Rightarrow> vid \<Rightarrow> key set" where
  "held_by located ks inst = set (filter (\<lambda>k. inst \<in> set (dkeys (dget located k []))) ks)"

definition prefix_lengths_of :: "'i located \<Rightarrow> key list \<Rightarrow> (vid \<times> nat) list" where
  "prefix_lengths_of located ks =
     (case ks of
        [] \<Rightarrow> []
      | k0 # _ \<Rightarrow>
          dict_over (\<lambda>inst. longest_prefix_run ks (held_by located ks inst))
            (sort (dkeys (dget located k0 []))))"

text \<open>The run is the longest leading part of the chain all of which is present.\<close>

lemma longest_prefix_run_takeWhile: "longest_prefix_run ks P = length (takeWhile (\<lambda>k. k \<in> P) ks)"
  by (induction ks) auto

lemma longest_prefix_run_le: "longest_prefix_run ks P \<le> length ks"
  by (simp add: longest_prefix_run_takeWhile length_takeWhile_le)

lemma longest_prefix_run_iff:
  "n \<le> longest_prefix_run ks P \<longleftrightarrow> n \<le> length ks \<and> set (take n ks) \<subseteq> P"
proof (induction ks arbitrary: n)
  case Nil
  then show ?case by auto
next
  case (Cons k ks)
  then show ?case by (cases n) auto
qed

lemma longest_prefix_run_mono: "P \<subseteq> Q \<Longrightarrow> longest_prefix_run ks P \<le> longest_prefix_run ks Q"
  by (simp add: longest_prefix_run_iff) (meson longest_prefix_run_iff order_refl subset_trans)

lemma mem_held_by: "k \<in> held_by located ks inst \<longleftrightarrow> k \<in> set ks \<and> inst \<in> set (dkeys (dget located k []))"
  by (simp add: held_by_def)

lemma prefix_lengths_keys:
  "inst \<in> set (dkeys (prefix_lengths_of located ks)) \<longleftrightarrow>
     ks \<noteq> [] \<and> inst \<in> set (dkeys (dget located (hd ks) []))"
  by (cases ks) (auto simp: prefix_lengths_of_def dict_over_def image_image)

lemma prefix_lengths_get:
  "map_of (prefix_lengths_of located ks) inst = Some n \<Longrightarrow>
     n = longest_prefix_run ks (held_by located ks inst) \<and> inst \<in> set (dkeys (dget located (hd ks) []))"
  by (cases ks) (auto simp: prefix_lengths_of_def split: if_splits)

text \<open>The recorded run of an instance is the most leading blocks of the chain it holds all
  of: it holds every one of them, not the block after, and it is listed exactly when it holds
  the first.\<close>

theorem prefix_lengths_exact:
  assumes "map_of (prefix_lengths_of located ks) inst = Some n"
  shows "1 \<le> n \<and> n \<le> length ks \<and>
    (\<forall>k \<in> set (take n ks). inst \<in> set (dkeys (dget located k []))) \<and>
    (n < length ks \<longrightarrow> inst \<notin> set (dkeys (dget located (ks ! n) [])))"
proof -
  let ?held = "held_by located ks inst"
  have n: "n = longest_prefix_run ks ?held" and first: "inst \<in> set (dkeys (dget located (hd ks) []))"
    using prefix_lengths_get [OF assms] by auto
  have ks: "ks \<noteq> []" using assms by (auto simp: prefix_lengths_of_def)
  have le: "n \<le> length ks" and all: "set (take n ks) \<subseteq> ?held"
    using longest_prefix_run_iff [of n ks ?held] n by auto
  have "1 \<le> n"
    using longest_prefix_run_iff [of 1 ks ?held] n first ks by (cases ks) (auto simp: mem_held_by)
  moreover have "ks ! n \<notin> ?held" if "n < length ks"
    using longest_prefix_run_iff [of "Suc n" ks ?held] n all that
    by (auto simp: take_Suc_conv_app_nth)
  ultimately show ?thesis
    using le all by (auto simp: mem_held_by)
qed

definition demo_located :: "unit located" where
  "demo_located = [(''k1'', [(''b'', ()), (''a'', ())]), (''k2'', [(''a'', ())]), (''k3'', [(''b'', ())])]"

lemma prefix_lengths_exact_witness:
  "''a'' \<in> set (dkeys (dget demo_located ''k1'' [])) \<and> ''a'' \<in> set (dkeys (dget demo_located ''k2'' [])) \<and>
   ''a'' \<notin> set (dkeys (dget demo_located ''k3'' []))"
proof -
  have "map_of (prefix_lengths_of demo_located [''k1'', ''k2'', ''k3'']) ''a'' = Some 2"
    by (simp add: prefix_lengths_of_def demo_located_def held_by_def)
  from prefix_lengths_exact [OF this] show ?thesis by (simp add: eval_nat_numeral)
qed

subsection \<open>Requests\<close>

text \<open>The prompt is a tensor; what the code reads of it is its number of elements.\<close>

record request =
  req_id :: string
  arrival :: time
  block_keys :: "key list"
  prompt_tokens :: int
  output_tokens :: int
  prompt_numel :: int
  conversation :: string

definition check_request :: "request \<Rightarrow> request res" where
  "check_request r = (if prompt_numel r \<noteq> prompt_tokens r then Inl ValueError else Inr r)"

fun continue_from :: "key \<Rightarrow> nat \<Rightarrow> nat \<Rightarrow> key list" where
  "continue_from acc i 0 = []"
| "continue_from acc i (Suc n) =
     (let acc' = acc @ ''|g'' @ str_nat i in acc' # continue_from acc' (Suc i) n)"

definition chain_end :: "request \<Rightarrow> key" where
  "chain_end r = (if block_keys r = [] then req_id r else last (block_keys r))"

definition continuation_keys :: "request \<Rightarrow> int \<Rightarrow> key list" where
  "continuation_keys r n = continue_from (chain_end r) 1 (nat n)"

lemma continue_from_length [simp]: "length (continue_from acc i n) = n"
  by (induction n arbitrary: acc i) (auto simp: Let_def)

lemma continue_from_take: "m \<le> n \<Longrightarrow> take m (continue_from acc i n) = continue_from acc i m"
proof (induction n arbitrary: acc i m)
  case (Suc n)
  then show ?case by (cases m) (auto simp: Let_def)
qed simp

lemma continue_from_extends:
  "k \<in> set (continue_from acc i n) \<Longrightarrow> strict_prefix acc k"
proof (induction n arbitrary: acc i)
  case (Suc n)
  have step: "strict_prefix acc (acc @ ''|g'' @ str_nat i)" by (simp add: strict_prefix_def)
  from Suc.prems consider "k = acc @ ''|g'' @ str_nat i"
    | "k \<in> set (continue_from (acc @ ''|g'' @ str_nat i) (Suc i) n)"
    by (auto simp: Let_def)
  then show ?case
    by cases (use step Suc.IH prefix_order.less_trans in blast)+
qed simp

lemma continue_from_chain:
  "i < j \<Longrightarrow> j < n \<Longrightarrow> strict_prefix (continue_from acc s n ! i) (continue_from acc s n ! j)"
proof (induction n arbitrary: acc s i j)
  case (Suc n)
  obtain j' where j: "j = Suc j'" using Suc.prems by (cases j) auto
  show ?case
  proof (cases i)
    case 0
    have "continue_from acc s (Suc n) ! j \<in> set (continue_from (acc @ ''|g'' @ str_nat s) (Suc s) n)"
      using Suc.prems j by (simp add: Let_def)
    from continue_from_extends [OF this] 0 show ?thesis by (simp add: Let_def)
  next
    case (Suc i')
    with Suc.IH [of i' j'] Suc.prems j show ?thesis by (simp add: Let_def)
  qed
qed simp

text \<open>The generated keys continue the prompt's own chain: there are as many as asked for,
  each properly extends the prompt's last key and every earlier one, no two are equal, and
  asking for more later repeats the ones given before.\<close>

theorem continuation_keys_chain:
  "length (continuation_keys r n) = nat n \<and>
    sorted_wrt strict_prefix ((chain_end r) # continuation_keys r n) \<and>
    distinct (continuation_keys r n) \<and>
    (\<forall>m \<le> n. continuation_keys r m = take (nat m) (continuation_keys r n))"
proof (intro conjI allI impI)
  let ?ks = "continue_from (chain_end r) 1 (nat n)"
  have ks: "continuation_keys r n = ?ks" by (simp add: continuation_keys_def root_def)
  show "length (continuation_keys r n) = nat n" by (simp add: ks)
  have sorted: "sorted_wrt strict_prefix ?ks"
    by (auto simp: sorted_wrt_iff_nth_less intro: continue_from_chain)
  then show "sorted_wrt strict_prefix ((chain_end r) # continuation_keys r n)"
    by (auto simp: ks dest: continue_from_extends)
  have "?ks ! i \<noteq> ?ks ! j" if "i < j" "j < length ?ks" for i j
    using continue_from_chain [of i j "nat n" "chain_end r" 1] that by auto
  then show "distinct (continuation_keys r n)"
    by (auto simp: ks distinct_conv_nth) (metis continue_from_length linorder_neqE_nat)
  show "continuation_keys r m = take (nat m) (continuation_keys r n)" if "m \<le> n" for m
    using continue_from_take [of "nat m" "nat n" "chain_end r" 1] that
    by (simp add: continuation_keys_def root_def)
qed

lemma continuation_keys_chain_witness:
  "continuation_keys \<lparr>req_id = ''r'', arrival = 0, block_keys = [''5''], prompt_tokens = 4,
     output_tokens = 2, prompt_numel = 4, conversation = []\<rparr> 2 = [''5|g1'', ''5|g1|g2''] \<and>
   strict_prefix ''5|g1'' ''5|g1|g2''"
proof -
  let ?r = "\<lparr>req_id = ''r'', arrival = 0, block_keys = [''5''], prompt_tokens = 4,
     output_tokens = 2, prompt_numel = 4, conversation = []\<rparr>"
  have eval: "continuation_keys ?r 2 = [''5|g1'', ''5|g1|g2'']"
  proof -
    have "str_nat 1 = ''1''" "str_nat (Suc 1) = ''2''" by (simp_all add: str_nat.simps char_of_def bit_0)
    then show ?thesis by (simp add: continuation_keys_def chain_end_def numeral_2_eq_2)
  qed
  from continuation_keys_chain [of ?r 2] show ?thesis unfolding eval by simp
qed

subsection \<open>What a decision answers with\<close>

record plan =
  match_blocks :: int
  cached_tokens :: int
  uncached_tokens :: int
  reuse_source :: "vid option"
  transfer_bytes :: int
  queue_wait :: time
  ttft :: time
  done_time :: time
  prefill_t :: time
  pull_keys :: "key list"

definition local_blocks :: "plan \<Rightarrow> int" where
  "local_blocks p = match_blocks p - int (length (pull_keys p))"

record response =
  prefill_host :: vid
  decode_host :: vid
  resp_plan :: plan
  pred_tbt :: time

end
