(* ===== verification/Dispatch.thy ===== *)
theory Dispatch
  imports Prelude "HOL-Library.Multiset"
begin

section \<open>One action, one commit\<close>

text \<open>
  \<^verbatim>\<open>proposed/dispatch.py\<close>. The state every reducer owns is one value \<open>'st\<close>; a fold writes it or
  raises. Actions compare by value (\<open>'a\<close>); \<open>type_of\<close> is \<^verbatim>\<open>type(action)\<close>. A waiter is an object with
  an identity, here a number: what it is still missing and whether its event is set are kept by
  that number, and \<^verbatim>\<open>_waiters\<close> lists, for each action, the waiters missing it in parking order.
\<close>

type_synonym ('a, 'st) fold_fn = "'a \<Rightarrow> 'st \<Rightarrow> 'st res"
type_synonym ('a, 'st) reducer = "(string \<times> ('a, 'st) fold_fn) list"

record ('a, 'st) dispatcher =
  d_folds :: "(string \<times> ('a, 'st) fold_fn list) list"
  d_waiters :: "('a \<times> nat list) list"
  d_missing :: "(nat \<times> 'a list) list"
  d_ready :: "nat list"
  d_next :: nat

definition dispatcher_init :: "('a, 'st) dispatcher" where
  "dispatcher_init = \<lparr>d_folds = [], d_waiters = [], d_missing = [], d_ready = [], d_next = 0\<rparr>"

definition compose :: "('a, 'st) reducer \<Rightarrow> ('a, 'st) dispatcher \<Rightarrow> ('a, 'st) dispatcher" where
  "compose reducer d =
     d\<lparr>d_folds := fold (\<lambda>(t, f) fs. AList.update t (dget fs t [] @ [f]) fs) reducer (d_folds d)\<rparr>"

text \<open>Every fold of the type in composition order; a raise leaves what ran before it.\<close>

fun run_folds :: "('a, 'st) fold_fn list \<Rightarrow> 'a \<Rightarrow> 'st \<Rightarrow> 'st \<times> py_error option" where
  "run_folds [] act st = (st, None)"
| "run_folds (f # fs) act st =
     (case f act st of Inl e \<Rightarrow> (st, Some e) | Inr st' \<Rightarrow> run_folds fs act st')"

text \<open>The commit: one waiter loses the action, and wakes when it was its last.\<close>

definition release :: "'a \<Rightarrow> nat \<Rightarrow> ('a, 'st) dispatcher \<Rightarrow> ('a, 'st) dispatcher" where
  "release act w d =
     (let left = removeAll act (dget (d_missing d) w [])
      in d\<lparr>d_missing := AList.update w left (d_missing d),
           d_ready := (if left = [] then w # d_ready d else d_ready d)\<rparr>)"

definition commit :: "'a \<Rightarrow> ('a, 'st) dispatcher \<Rightarrow> ('a, 'st) dispatcher" where
  "commit act d =
     fold (release act) (dget (d_waiters d) act [])
       (d\<lparr>d_waiters := AList.delete act (d_waiters d)\<rparr>)"

definition dispatch_sync ::
  "('a \<Rightarrow> string) \<Rightarrow> 'a \<Rightarrow> ('a, 'st) dispatcher \<times> 'st \<Rightarrow>
     (('a, 'st) dispatcher \<times> 'st) \<times> py_error option" where
  "dispatch_sync type_of act s =
     (case s of (d, st) \<Rightarrow>
        (case map_of (d_folds d) (type_of act) of
           None \<Rightarrow> ((d, st), Some TypeError)
         | Some fs \<Rightarrow>
             (case run_folds fs act st of
                (st', Some e) \<Rightarrow> ((d, st'), Some e)
              | (st', None) \<Rightarrow> ((commit act d, st'), None))))"

definition park :: "'a list \<Rightarrow> ('a, 'st) dispatcher \<Rightarrow> nat \<times> ('a, 'st) dispatcher" where
  "park actions d =
     (let w = d_next d in
      (w, d\<lparr>d_next := w + 1,
            d_missing := AList.update w actions (d_missing d),
            d_waiters := fold (\<lambda>a ws. AList.update a (dget ws a [] @ [w]) ws) actions (d_waiters d)\<rparr>))"

text \<open>Taking a waiter off every action it still misses; an action nobody waits for is dropped.\<close>

definition unpark_one :: "nat \<Rightarrow> 'a \<Rightarrow> ('a \<times> nat list) list \<Rightarrow> ('a \<times> nat list) list" where
  "unpark_one w a ws =
     (case map_of ws a of
        None \<Rightarrow> ws
      | Some l \<Rightarrow> let l' = removeAll w l in if l' = [] then AList.delete a ws else AList.update a l' ws)"

definition unpark :: "nat \<Rightarrow> ('a, 'st) dispatcher \<Rightarrow> ('a, 'st) dispatcher" where
  "unpark w d = d\<lparr>d_waiters := fold (unpark_one w) (dget (d_missing d) w []) (d_waiters d)\<rparr>"

text \<open>
  \<^verbatim>\<open>gate\<close> parks before it probes. The probe is an arbitrary piece of the program run at that
  moment: it may itself dispatch, so it is given and answers with the whole state.
\<close>

definition gate ::
  "(('a, 'st) dispatcher \<times> 'st \<Rightarrow> bool \<times> ('a, 'st) dispatcher \<times> 'st) \<Rightarrow> 'a list \<Rightarrow>
     ('a, 'st) dispatcher \<times> 'st \<Rightarrow> (('a, 'st) dispatcher \<times> 'st) \<times> nat option res" where
  "gate holds actions s =
     (case s of (d, st) \<Rightarrow>
        if actions = [] then
          (case holds (d, st) of (ok, d', st') \<Rightarrow>
             ((d', st'), if ok then Inr None else Inl ValueError))
        else
          (case park (uniq actions) d of (w, d1) \<Rightarrow>
             (case holds (d1, st) of (ok, d2, st') \<Rightarrow>
                if ok then ((unpark w d2, st'), Inr None)
                else ((d2, st'), Inr (Some w)))))"

text \<open>What an awaited gate reads, and what leaving it (woken or cancelled) does.\<close>

definition gate_open :: "nat \<Rightarrow> ('a, 'st) dispatcher \<Rightarrow> bool" where
  "gate_open w d \<longleftrightarrow> w \<in> set (d_ready d)"

definition gate_exit :: "nat \<Rightarrow> ('a, 'st) dispatcher \<Rightarrow> ('a, 'st) dispatcher" where
  "gate_exit w d = unpark w d"

subsection \<open>Who misses what\<close>

definition missing :: "('a, 'st) dispatcher \<Rightarrow> nat \<Rightarrow> 'a set" where
  "missing d w = set (dget (d_missing d) w [])"

definition parked_on :: "('a, 'st) dispatcher \<Rightarrow> 'a \<Rightarrow> nat set" where
  "parked_on d a = set (dget (d_waiters d) a [])"

text \<open>
  The invariant for one waiter: it stands on the list of exactly the actions it misses, once on
  each, and its event is set exactly when it misses none.
\<close>

definition tracked :: "nat \<Rightarrow> ('a, 'st) dispatcher \<Rightarrow> bool" where
  "tracked w d \<longleftrightarrow> w < d_next d \<and> (\<forall>a. w \<in> parked_on d a \<longleftrightarrow> a \<in> missing d w) \<and>
     (gate_open w d \<longleftrightarrow> missing d w = {})"

text \<open>No number not handed out yet appears anywhere.\<close>

definition fresh_above :: "('a, 'st) dispatcher \<Rightarrow> bool" where
  "fresh_above d \<longleftrightarrow> (\<forall>w. d_next d \<le> w \<longrightarrow> missing d w = {} \<and> (\<forall>a. w \<notin> parked_on d a) \<and> \<not> gate_open w d)"

lemma release_simps [simp]:
  "d_waiters (release act w d) = d_waiters d" "d_next (release act w d) = d_next d"
  "d_folds (release act w d) = d_folds d"
  by (simp_all add: release_def Let_def)

lemma release_missing: "missing (release act w d) v = (if v = w then missing d w - {act} else missing d v)"
  by (auto simp: missing_def release_def Let_def)

lemma release_open:
  "gate_open v (release act w d) \<longleftrightarrow> gate_open v d \<or> (v = w \<and> missing d w \<subseteq> {act})"
  by (auto simp: gate_open_def release_def Let_def missing_def removeAll_filter_not_eq filter_empty_conv)

lemma fold_release:
  "d_waiters (fold (release act) ws d) = d_waiters d"
  "d_next (fold (release act) ws d) = d_next d"
  "d_folds (fold (release act) ws d) = d_folds d"
  "missing (fold (release act) ws d) v = (if v \<in> set ws then missing d v - {act} else missing d v)"
  "gate_open v (fold (release act) ws d) \<longleftrightarrow> gate_open v d \<or> (v \<in> set ws \<and> missing d v \<subseteq> {act})"
  by (induction ws arbitrary: d) (auto simp: release_missing release_open)

lemma commit_simps [simp]:
  "d_next (commit act d) = d_next d" "d_folds (commit act d) = d_folds d"
  by (simp_all add: commit_def fold_release)

lemma parked_on_waiters: "d_waiters d' = d_waiters d \<Longrightarrow> parked_on d' = parked_on d"
  by (simp add: parked_on_def [abs_def])

lemma commit_parked: "parked_on (commit act d) a = (if a = act then {} else parked_on d a)"
  by (simp add: commit_def parked_on_def fold_release)

lemma commit_missing:
  "missing (commit act d) w = (if w \<in> parked_on d act then missing d w - {act} else missing d w)"
  by (auto simp: commit_def parked_on_def fold_release) (auto simp: missing_def)

lemma commit_open:
  "gate_open w (commit act d) \<longleftrightarrow> gate_open w d \<or> (w \<in> parked_on d act \<and> missing d w \<subseteq> {act})"
  by (auto simp: commit_def parked_on_def fold_release) (auto simp: missing_def gate_open_def)

text \<open>A commit removes the action from what a waiter misses, and wakes it when that was the last.\<close>

lemma commit_tracked:
  assumes "tracked w d"
  shows "tracked w (commit act d) \<and> missing (commit act d) w = missing d w - {act}"
  using assms
  by (auto simp: tracked_def commit_parked commit_missing commit_open split: if_splits)

lemma commit_fresh: "fresh_above d \<Longrightarrow> fresh_above (commit act d)"
  by (auto simp: fresh_above_def commit_parked commit_missing commit_open)

lemma unpark_one_parked:
  "set (dget (unpark_one w a ws) b []) = (if b = a then set (dget ws b []) - {w} else set (dget ws b []))"
  by (auto simp: unpark_one_def dget_def Let_def removeAll_filter_not_eq filter_empty_conv split: option.splits if_splits)

lemma unpark_parked: "parked_on (unpark w d) a = (if a \<in> missing d w then parked_on d a - {w} else parked_on d a)"
proof -
  have "set (dget (fold (unpark_one w) as ws) a []) =
      (if a \<in> set as then set (dget ws a []) - {w} else set (dget ws a []))" for as ws
    by (induction as arbitrary: ws) (auto simp: unpark_one_parked)
  then show ?thesis by (simp add: unpark_def parked_on_def missing_def)
qed

lemma unpark_rest [simp]:
  "missing (unpark w d) v = missing d v" "gate_open v (unpark w d) = gate_open v d"
  "d_next (unpark w d) = d_next d" "d_folds (unpark w d) = d_folds d"
  by (simp_all add: unpark_def missing_def gate_open_def)

lemma unpark_tracked: "tracked w d \<Longrightarrow> v \<noteq> w \<Longrightarrow> tracked w (unpark v d)"
  by (auto simp: tracked_def unpark_parked split: if_splits)

lemma unpark_fresh: "fresh_above d \<Longrightarrow> fresh_above (unpark w d)"
  by (auto simp: fresh_above_def unpark_parked split: if_splits)

lemma park_parked:
  assumes "park as d = (w, d')" "distinct as"
  shows "parked_on d' a = (if a \<in> set as then insert w (parked_on d a) else parked_on d a)"
proof -
  have "set (dget (fold (\<lambda>a ws. AList.update a (dget ws a [] @ [w]) ws) as ws) a []) =
      (if a \<in> set as then insert w (set (dget ws a [])) else set (dget ws a []))" for ws
    using assms(2) by (induction as arbitrary: ws) auto
  with assms(1) show ?thesis by (auto simp: park_def Let_def parked_on_def)
qed

lemma park_rest:
  "park as d = (w, d') \<Longrightarrow> w = d_next d \<and> d_next d' = d_next d + 1 \<and> d_folds d' = d_folds d \<and>
     missing d' v = (if v = w then set as else missing d v) \<and> gate_open v d' = gate_open v d"
  by (auto simp: park_def Let_def missing_def gate_open_def)

lemma park_tracked:
  assumes "park as d = (w, d')" "distinct as" "as \<noteq> []" "fresh_above d"
  shows "tracked w d' \<and> missing d' w = set as \<and> fresh_above d'"
proof -
  note rest = park_rest [OF assms(1)]
  have w: "w = d_next d" using rest by blast
  then have new: "missing d w = {}" "w \<notin> parked_on d a" "\<not> gate_open w d" for a
    using assms(4) by (auto simp: fresh_above_def)
  have "fresh_above d'"
    using assms(4) rest park_parked [OF assms(1,2)] by (auto simp: fresh_above_def)
  then show ?thesis
    using new w rest assms(3) park_parked [OF assms(1,2)] by (auto simp: tracked_def)
qed

lemma park_tracked_other:
  "park as d = (w, d') \<Longrightarrow> distinct as \<Longrightarrow> tracked v d \<Longrightarrow> tracked v d' \<and> missing d' v = missing d v"
  using park_rest [of as d w d' v] park_parked [of as d w d']
  by (auto simp: tracked_def)

subsection \<open>Any sequence of events\<close>

text \<open>
  What can happen to a dispatcher between two observations of a waiter: an action is
  dispatched, another gate is opened over the state as it stands, a gate is left.
\<close>

datatype ('a, 'st) devent =
    Dispatched 'a
  | Opened "'st \<Rightarrow> bool" "'a list"
  | Left nat

fun dstep :: "('a \<Rightarrow> string) \<Rightarrow> ('a, 'st) devent \<Rightarrow> ('a, 'st) dispatcher \<times> 'st \<Rightarrow>
    (('a, 'st) dispatcher \<times> 'st) \<times> 'a list" where
  "dstep type_of (Dispatched act) s =
     (case dispatch_sync type_of act s of (s', e) \<Rightarrow> (s', if e = None then [act] else []))"
| "dstep type_of (Opened holds as) s =
     (fst (gate (\<lambda>(d, st). (holds st, d, st)) as s), [])"
| "dstep type_of (Left w) s = ((gate_exit w (fst s), snd s), [])"

fun drun :: "('a \<Rightarrow> string) \<Rightarrow> ('a, 'st) devent list \<Rightarrow> ('a, 'st) dispatcher \<times> 'st \<Rightarrow>
    (('a, 'st) dispatcher \<times> 'st) \<times> 'a list" where
  "drun type_of [] s = (s, [])"
| "drun type_of (ev # evs) s =
     (case dstep type_of ev s of (s', as) \<Rightarrow>
        case drun type_of evs s' of (s'', bs) \<Rightarrow> (s'', as @ bs))"

lemma dispatch_cases:
  assumes "dispatch_sync type_of act (d, st) = ((d', st'), e)"
  shows "d' = (if e = None then commit act d else d)"
  using assms by (auto simp: dispatch_sync_def split: option.splits prod.splits if_splits)

lemma gate_pure:
  "gate (\<lambda>(d, st). (holds st, d, st)) as (d, st) =
     (if as = [] then ((d, st), if holds st then Inr None else Inl ValueError)
      else if holds st then ((unpark (fst (park (uniq as) d)) (snd (park (uniq as) d)), st), Inr None)
      else ((snd (park (uniq as) d), st), Inr (Some (fst (park (uniq as) d)))))"
  by (auto simp: gate_def split: prod.splits)

lemma uniq_Nil_iff [simp]: "uniq xs = [] \<longleftrightarrow> xs = []"
  by (cases xs) auto

lemma dstep_tracked:
  assumes "tracked w d" "fresh_above d" "ev \<noteq> Left w" "dstep type_of ev (d, st) = ((d', st'), as)"
  shows "tracked w d' \<and> fresh_above d' \<and> missing d' w = missing d w - set as"
proof (cases ev)
  case (Dispatched act)
  obtain e where e: "dispatch_sync type_of act (d, st) = ((d', st'), e)" "as = (if e = None then [act] else [])"
    using assms(4) Dispatched by (auto split: prod.splits)
  then show ?thesis
    using dispatch_cases [OF e(1)] commit_tracked [OF assms(1), of act] commit_fresh [OF assms(2), of act] assms(1,2)
    by (cases "e = None") simp_all
next
  case (Opened holds acts)
  obtain v d1 where p: "park (uniq acts) d = (v, d1)" by (cases "park (uniq acts) d")
  have v: "v \<noteq> w" using park_rest [OF p] assms(1) by (auto simp: tracked_def)
  have as: "as = []" using assms(4) Opened by simp
  have "d' = (if acts = [] then d else if holds st then unpark v d1 else d1)"
    using assms(4) p Opened by (simp add: gate_pure split: if_splits)
  then consider "d' = d" | "acts \<noteq> []" "d' = d1" | "acts \<noteq> []" "d' = unpark v d1"
    by (auto split: if_splits)
  note d' = this
  have t1: "tracked w d1 \<and> missing d1 w = missing d w"
    by (rule park_tracked_other [OF p _ assms(1)]) simp
  have f1: "acts \<noteq> [] \<Longrightarrow> fresh_above d1"
    using park_tracked [OF p _ _ assms(2)] by simp
  from d' show ?thesis
  proof cases
    case 3
    with t1 f1 v unpark_tracked [of w d1 v] unpark_fresh [of d1 v] as show ?thesis by simp
  qed (use t1 f1 assms(1,2) as in simp_all)
next
  case (Left v)
  with assms unpark_tracked [of w d v] unpark_fresh [of d v] show ?thesis
    by (auto simp: gate_exit_def)
qed

lemma drun_tracked:
  "tracked w (fst s) \<Longrightarrow> fresh_above (fst s) \<Longrightarrow> Left w \<notin> set evs \<Longrightarrow>
     drun type_of evs s = (s', as) \<Longrightarrow>
     tracked w (fst s') \<and> fresh_above (fst s') \<and> missing (fst s') w = missing (fst s) w - set as"
proof (induction evs arbitrary: s as)
  case Nil
  then show ?case by simp
next
  case (Cons ev evs)
  obtain d st where s: "s = (d, st)" by (cases s)
  obtain d1 st1 as1 where 1: "dstep type_of ev (d, st) = ((d1, st1), as1)" by (metis prod.collapse)
  obtain as2 where 2: "drun type_of evs (d1, st1) = (s', as2)" "as = as1 @ as2"
    using Cons.prems(4) 1 s by (auto split: prod.splits)
  have "tracked w d1 \<and> fresh_above d1 \<and> missing d1 w = missing d w - set as1"
    using dstep_tracked [OF _ _ _ 1, of w] Cons.prems s by auto
  with Cons.IH [OF _ _ _ 2(1)] Cons.prems(3) 2(2) s show ?case by auto
qed

text \<open>C4: no wake-up is lost. A gate that answered "not yet" opens exactly when every action
  it named has committed, counting the commits that landed while the probe was being read and
  whatever other gates were opened, woken or left in between.\<close>

theorem gate_opens_iff_committed:
  assumes fresh: "fresh_above d"
    and during: "\<And>s. holds s = (False, fst (drun type_of evs s))"
    and g: "gate holds as (d, st) = (s1, Inr (Some w))"
    and later: "drun type_of evs' s1 = (s2, acts')"
    and stays: "Left w \<notin> set evs \<union> set evs'"
  shows "gate_open w (fst s2) \<longleftrightarrow>
    set as \<subseteq> set (snd (drun type_of evs (snd (park (uniq as) d), st)) @ acts')"
proof -
  obtain v d1 where p: "park (uniq as) d = (v, d1)" by (cases "park (uniq as) d")
  have as: "as \<noteq> []" using g during by (auto simp: gate_def split: if_splits)
  then have v: "v = w" and s1: "s1 = fst (drun type_of evs (d1, st))"
    using g p during by (auto simp: gate_def split: prod.splits)
  obtain acts where acts: "drun type_of evs (d1, st) = (s1, acts)" using s1 by (metis fst_conv surj_pair)
  have "tracked w d1 \<and> missing d1 w = set as \<and> fresh_above d1"
    using park_tracked [OF p _ _ fresh] as v by simp
  then have "tracked w (fst s1) \<and> fresh_above (fst s1) \<and> missing (fst s1) w = set as - set acts"
    using drun_tracked [OF _ _ _ acts, of w] stays by simp
  then have "tracked w (fst s2) \<and> missing (fst s2) w = set as - set acts - set acts'"
    using drun_tracked [OF _ _ _ later, of w] stays by simp
  then show ?thesis using acts p by (auto simp: tracked_def)
qed

text \<open>A gate whose probe holds leaves no trace: nobody is parked that was not before.\<close>

lemma gate_now_leaves_nothing:
  assumes "fresh_above d" "holds st" "as \<noteq> []"
  shows "\<exists>d'. gate (\<lambda>(d, st). (holds st, d, st)) as (d, st) = ((d', st), Inr None) \<and>
    (\<forall>a. parked_on d' a = parked_on d a)"
proof -
  obtain v d1 where p: "park (uniq as) d = (v, d1)" by (cases "park (uniq as) d")
  have "v \<notin> parked_on d a" for a
    using assms(1) park_rest [OF p] by (auto simp: fresh_above_def)
  with p assms(2,3) park_parked [OF p] park_rest [OF p] show ?thesis
    by (auto simp: gate_pure unpark_parked)
qed

subsection \<open>The order of reducers\<close>

text \<open>
  \<^verbatim>\<open>A reducer writes its own state and reads nothing else\<close>: two owners whose writes commute,
  raising included. What a contract over one owner's own part of the state gives.
\<close>

definition commuting :: "('a, 'st) fold_fn \<Rightarrow> ('a, 'st) fold_fn \<Rightarrow> bool" where
  "commuting f g \<longleftrightarrow>
     (\<forall>a st st'. bindr (f a st) (g a) = Inr st' \<longleftrightarrow> bindr (g a st) (f a) = Inr st')"

text \<open>Two disjoint parts of the state, each read and written through its own accessors.\<close>

locale disjoint_owners =
  fixes get1 :: "'st \<Rightarrow> 'x" and put1 :: "'x \<Rightarrow> 'st \<Rightarrow> 'st"
    and get2 :: "'st \<Rightarrow> 'y" and put2 :: "'y \<Rightarrow> 'st \<Rightarrow> 'st"
  assumes get1_put2: "get1 (put2 y st) = get1 st"
    and get2_put1: "get2 (put1 x st) = get2 st"
    and put_commute: "put1 x (put2 y st) = put2 y (put1 x st)"

text \<open>A fold of one owner: it reads and writes that owner's part, and may raise.\<close>

definition owns ::
  "('st \<Rightarrow> 'x) \<Rightarrow> ('x \<Rightarrow> 'st \<Rightarrow> 'st) \<Rightarrow> ('a \<Rightarrow> 'x \<Rightarrow> 'x res) \<Rightarrow> ('a, 'st) fold_fn" where
  "owns get put f = (\<lambda>a st. bindr (f a (get st)) (\<lambda>x. Inr (put x st)))"

context disjoint_owners begin

lemma owned_folds_commute: "commuting (owns get1 put1 f) (owns get2 put2 g)"
  by (auto simp: commuting_def owns_def res_simps get1_put2 get2_put1 put_commute)

end

lemma commuting_sym: "commuting f g \<Longrightarrow> commuting g f"
  by (simp add: commuting_def)

definition fold_some :: "'a \<Rightarrow> ('a, 'st) fold_fn \<Rightarrow> 'st option \<Rightarrow> 'st option" where
  "fold_some act f r = (case r of None \<Rightarrow> None | Some st \<Rightarrow>
     (case f act st of Inl _ \<Rightarrow> None | Inr st' \<Rightarrow> Some st'))"

lemma fold_some_None: "fold (fold_some act) fs None = None"
  by (induction fs) (simp_all add: fold_some_def)

lemma run_folds_some:
  "run_folds fs act st = (st', None) \<longleftrightarrow> fold (fold_some act) fs (Some st) = Some st'"
  by (induction fs arbitrary: st) (auto simp: fold_some_def fold_some_None split: sum.splits)

lemma option_eq_Some: "(\<And>x. a = Some x \<longleftrightarrow> b = Some x) \<Longrightarrow> a = b"
  by (cases a; cases b) auto

lemma commuting_fold_some:
  assumes "commuting f g"
  shows "fold_some act f \<circ> fold_some act g = fold_some act g \<circ> fold_some act f"
proof
  fix r
  show "(fold_some act f \<circ> fold_some act g) r = (fold_some act g \<circ> fold_some act f) r"
  proof (cases r)
    case (Some st)
    have eq: "(fold_some act h (fold_some act k (Some st)) = Some st') =
        (bindr (k act st) (h act) = Inr st')" for h k st'
      by (cases "k act st") (simp_all add: fold_some_def split: sum.splits)
    have c: "bindr (g act st) (f act) = Inr st' \<longleftrightarrow> bindr (f act st) (g act) = Inr st'" for st'
      by (rule assms [unfolded commuting_def, rule_format, symmetric])
    have "fold_some act f (fold_some act g (Some st)) = Some st' \<longleftrightarrow>
        fold_some act g (fold_some act f (Some st)) = Some st'" for st'
      unfolding eq by (rule c)
    then have "fold_some act f (fold_some act g (Some st)) = fold_some act g (fold_some act f (Some st))"
      by (rule option_eq_Some)
    then show ?thesis using Some by simp
  qed (simp add: fold_some_def)
qed

lemma run_folds_order:
  assumes "mset fs = mset gs" "\<And>f g. f \<in> set fs \<Longrightarrow> g \<in> set fs \<Longrightarrow> f = g \<or> commuting f g"
    and "run_folds fs act st = (st', None)"
  shows "run_folds gs act st = (st', None)"
proof -
  have "fold (fold_some act) fs = fold (fold_some act) gs"
  proof (rule fold_multiset_equiv [OF _ assms(1)])
    fix f g
    assume "f \<in> set fs" "g \<in> set fs"
    then consider "f = g" | "commuting f g" using assms(2) by blast
    then show "fold_some act f \<circ> fold_some act g = fold_some act g \<circ> fold_some act f"
      by cases (simp, rule commuting_fold_some)
  qed
  with assms(3) show ?thesis by (simp add: run_folds_some)
qed

subsection \<open>The theorems at work\<close>

definition tick_reducer :: "(string, nat) reducer" where
  "tick_reducer = [(''tick'', \<lambda>a n. Inr (n + 1))]"

definition tick_dispatcher :: "(string, nat) dispatcher" where
  "tick_dispatcher = compose tick_reducer dispatcher_init"

abbreviation tick_type :: "string \<Rightarrow> string" where
  "tick_type a \<equiv> ''tick''"

lemma tick_fresh: "fresh_above tick_dispatcher"
  by (simp add: fresh_above_def tick_dispatcher_def compose_def tick_reducer_def dispatcher_init_def
      missing_def parked_on_def gate_open_def)

text \<open>A gate on two actions, one of which commits while the probe is read.\<close>

lemma gate_opens_iff_committed_witness:
  "\<exists>s1 w s2. gate (\<lambda>s. (False, fst (drun tick_type [Dispatched ''x''] s))) [''x'', ''y''] (tick_dispatcher, 0) = (s1, Inr (Some w)) \<and>
     drun tick_type [Dispatched ''z'', Dispatched ''y''] s1 = (s2, [''z'', ''y'']) \<and> gate_open w (fst s2)"
proof -
  obtain s1 s2 where
    g: "gate (\<lambda>s. (False, fst (drun tick_type [Dispatched ''x''] s))) [''x'', ''y''] (tick_dispatcher, 0) = (s1, Inr (Some 0))"
    and r: "drun tick_type [Dispatched ''z'', Dispatched ''y''] s1 = (s2, [''z'', ''y''])"
    and x: "snd (drun tick_type [Dispatched ''x''] (snd (park (uniq [''x'', ''y'']) tick_dispatcher), 0)) = [''x'']"
    by (simp add: gate_def park_def Let_def tick_dispatcher_def compose_def tick_reducer_def
        dispatcher_init_def dispatch_sync_def commit_def release_def)
  have "gate_open 0 (fst s2)"
    using gate_opens_iff_committed [OF tick_fresh _ g r, of "[Dispatched ''x'']"] unfolding x by simp
  with g r show ?thesis by blast
qed

end
