(* ===== verification/KvSensors.thy ===== *)
theory KvSensors
  imports KvModel Dispatch
begin

section \<open>The four sensors of KV-cache routing\<close>

text \<open>
  \<^verbatim>\<open>kvcache_sim/control/_sensor/\<close>: predicted prefill queues and observed decode batches
  (\<^verbatim>\<open>ClusterSensor\<close>), prefills promised (\<^verbatim>\<open>ReservationSensor\<close>), pulls priced and not yet fetched
  (\<^verbatim>\<open>RoutedPullSensor\<close>) and reads sent at each source (\<^verbatim>\<open>SourceLoad\<close>). Each is a field of the
  state one dispatcher folds actions into, and each fold is written with \<open>owns\<close>: it reads and
  writes that field alone.
\<close>

datatype kv_action =
    ComputeBusy vid time
  | DecodeState vid "time list"
  | PrefillFinished vid time
  | FetchAnswered vid "key list"
  | Committed response int

fun action_type :: "kv_action \<Rightarrow> string" where
  "action_type (ComputeBusy _ _) = ''ComputeBusy''"
| "action_type (DecodeState _ _) = ''DecodeState''"
| "action_type (PrefillFinished _ _) = ''PrefillFinished''"
| "action_type (FetchAnswered _ _) = ''FetchAnswered''"
| "action_type (Committed _ _) = ''Committed''"

record cluster_sensor =
  busy_until :: "(vid \<times> time) list"
  decode_finishes :: "(vid \<times> time list) list"

record reservation =
  prefill_done :: time
  decode_id :: vid
  res_output_tokens :: int

type_synonym routed_memo = "vid \<times> key list \<times> vid"

record kv_state =
  cluster :: cluster_sensor
  reserved :: "reservation list"
  routed_pulls :: "routed_memo list"
  load_named :: "(vid \<times> int) list"

definition cluster_init :: "vid list \<Rightarrow> cluster_sensor" where
  "cluster_init ids = \<lparr>busy_until = dict_over (\<lambda>i. 0) ids, decode_finishes = dict_over (\<lambda>i. []) ids\<rparr>"

definition kv_state_init :: "vid list \<Rightarrow> kv_state" where
  "kv_state_init ids =
     \<lparr>cluster = cluster_init ids, reserved = [], routed_pulls = [], load_named = []\<rparr>"

subsection \<open>ClusterSensor\<close>

fun compute_busy :: "kv_action \<Rightarrow> cluster_sensor \<Rightarrow> cluster_sensor res" where
  "compute_busy (ComputeBusy inst until) c = Inr (c\<lparr>busy_until := AList.update inst until (busy_until c)\<rparr>)"
| "compute_busy _ c = Inr c"

fun decode_state :: "kv_action \<Rightarrow> cluster_sensor \<Rightarrow> cluster_sensor res" where
  "decode_state (DecodeState inst fs) c =
     Inr (c\<lparr>decode_finishes := AList.update inst fs (decode_finishes c)\<rparr>)"
| "decode_state _ c = Inr c"

fun cluster_prefill_finished :: "kv_action \<Rightarrow> cluster_sensor \<Rightarrow> cluster_sensor res" where
  "cluster_prefill_finished (PrefillFinished inst now) c =
     bindr (dindex (busy_until c) inst) (\<lambda>tail.
       Inr (if tail < now then c\<lparr>busy_until := AList.update inst now (busy_until c)\<rparr> else c))"
| "cluster_prefill_finished _ c = Inr c"

fun cluster_committed :: "kv_action \<Rightarrow> cluster_sensor \<Rightarrow> cluster_sensor res" where
  "cluster_committed (Committed r n) c =
     Inr (c\<lparr>busy_until := AList.update (prefill_host r) (done_time (resp_plan r)) (busy_until c)\<rparr>)"
| "cluster_committed _ c = Inr c"

definition occupancy :: "cluster_sensor \<Rightarrow> vid \<Rightarrow> nat res" where
  "occupancy c inst = bindr (dindex (decode_finishes c) inst) (\<lambda>fs. Inr (length fs))"

definition predict_occupancy :: "cluster_sensor \<Rightarrow> vid \<Rightarrow> time \<Rightarrow> nat res" where
  "predict_occupancy c inst at_t =
     bindr (dindex (decode_finishes c) inst) (\<lambda>fs. Inr (length (filter (\<lambda>f. at_t < f) fs)))"

subsection \<open>ReservationSensor\<close>

fun reserve_committed :: "kv_action \<Rightarrow> reservation list \<Rightarrow> reservation list res" where
  "reserve_committed (Committed r n) held =
     Inr (held @ [\<lparr>prefill_done = done_time (resp_plan r), decode_id = decode_host r, res_output_tokens = n\<rparr>])"
| "reserve_committed _ held = Inr held"

fun reserve_finished :: "kv_action \<Rightarrow> reservation list \<Rightarrow> reservation list res" where
  "reserve_finished (PrefillFinished inst now) held = Inr (filter (\<lambda>r. now \<le> prefill_done r) held)"
| "reserve_finished _ held = Inr held"

definition pending :: "reservation list \<Rightarrow> time \<Rightarrow> reservation list" where
  "pending held now = filter (\<lambda>r. now \<le> prefill_done r) held"

subsection \<open>RoutedPullSensor\<close>

fun match_from :: "nat \<Rightarrow> vid \<Rightarrow> key list \<Rightarrow> routed_memo list \<Rightarrow> nat option" where
  "match_from i requester ks [] = None"
| "match_from i requester ks ((inst, planned, peer) # ms) =
     (if inst = requester \<and> set ks = set planned then Some i else match_from (Suc i) requester ks ms)"

definition match_pull :: "routed_memo list \<Rightarrow> vid \<Rightarrow> key list \<Rightarrow> nat option" where
  "match_pull memos requester ks = match_from 0 requester ks memos"

definition routed_peer :: "routed_memo list \<Rightarrow> vid \<Rightarrow> key list \<Rightarrow> vid option" where
  "routed_peer memos requester ks = map_option (\<lambda>i. snd (snd (memos ! i))) (match_pull memos requester ks)"

fun routed_committed :: "kv_action \<Rightarrow> routed_memo list \<Rightarrow> routed_memo list res" where
  "routed_committed (Committed r n) memos =
     Inr (case reuse_source (resp_plan r) of
            None \<Rightarrow> memos
          | Some src \<Rightarrow>
              if pull_keys (resp_plan r) = [] then memos
              else memos @ [(prefill_host r, pull_keys (resp_plan r), src)])"
| "routed_committed _ memos = Inr memos"

text \<open>\<^verbatim>\<open>del xs[i]\<close> at an index in range.\<close>

definition del_at :: "nat \<Rightarrow> 'a list \<Rightarrow> 'a list" where
  "del_at i xs = take i xs @ drop (Suc i) xs"

fun routed_answered :: "kv_action \<Rightarrow> routed_memo list \<Rightarrow> routed_memo list res" where
  "routed_answered (FetchAnswered requester ks) memos =
     Inr (case match_pull memos requester ks of None \<Rightarrow> memos | Some i \<Rightarrow> del_at i memos)"
| "routed_answered _ memos = Inr memos"

subsection \<open>SourceLoad\<close>

fun load_committed :: "kv_action \<Rightarrow> (vid \<times> int) list \<Rightarrow> (vid \<times> int) list res" where
  "load_committed (Committed r n) named =
     Inr (case reuse_source (resp_plan r) of
            None \<Rightarrow> named
          | Some src \<Rightarrow> AList.update src (dget named src 0 + 1) named)"
| "load_committed _ named = Inr named"

subsection \<open>The reducers, each over its own field\<close>

abbreviation "own_cluster \<equiv> owns cluster (\<lambda>x st. st\<lparr>cluster := x\<rparr>)"
abbreviation "own_reserved \<equiv> owns reserved (\<lambda>x st. st\<lparr>reserved := x\<rparr>)"
abbreviation "own_routed \<equiv> owns routed_pulls (\<lambda>x st. st\<lparr>routed_pulls := x\<rparr>)"
abbreviation "own_load \<equiv> owns load_named (\<lambda>x st. st\<lparr>load_named := x\<rparr>)"

definition cluster_reducer :: "(kv_action, kv_state) reducer" where
  "cluster_reducer =
     [(''ComputeBusy'', own_cluster compute_busy), (''DecodeState'', own_cluster decode_state),
      (''PrefillFinished'', own_cluster cluster_prefill_finished),
      (''Committed'', own_cluster cluster_committed)]"

definition reservation_reducer :: "(kv_action, kv_state) reducer" where
  "reservation_reducer =
     [(''Committed'', own_reserved reserve_committed), (''PrefillFinished'', own_reserved reserve_finished)]"

definition routed_reducer :: "(kv_action, kv_state) reducer" where
  "routed_reducer =
     [(''Committed'', own_routed routed_committed), (''FetchAnswered'', own_routed routed_answered)]"

definition load_reducer :: "(kv_action, kv_state) reducer" where
  "load_reducer = [(''Committed'', own_load load_committed)]"

text \<open>
  What \<^verbatim>\<open>_Scheduler.attach\<close> composes: the declared sensors in order, the reservation sensor only
  in a run that rolls decode occupancy forward.
\<close>

definition kv_reducers :: "bool \<Rightarrow> (kv_action, kv_state) reducer list" where
  "kv_reducers lookahead =
     [cluster_reducer, routed_reducer, load_reducer] @ (if lookahead then [reservation_reducer] else [])"

definition compose_all :: "(kv_action, kv_state) reducer list \<Rightarrow> (kv_action, kv_state) dispatcher" where
  "compose_all rs = fold compose rs dispatcher_init"

interpretation cluster_reserved: disjoint_owners cluster "\<lambda>x st. st\<lparr>cluster := x\<rparr>"
  reserved "\<lambda>x st. st\<lparr>reserved := x\<rparr>"
  by unfold_locales simp_all

interpretation cluster_routed: disjoint_owners cluster "\<lambda>x st. st\<lparr>cluster := x\<rparr>"
  routed_pulls "\<lambda>x st. st\<lparr>routed_pulls := x\<rparr>"
  by unfold_locales simp_all

interpretation cluster_load: disjoint_owners cluster "\<lambda>x st. st\<lparr>cluster := x\<rparr>"
  load_named "\<lambda>x st. st\<lparr>load_named := x\<rparr>"
  by unfold_locales simp_all

interpretation reserved_routed: disjoint_owners reserved "\<lambda>x st. st\<lparr>reserved := x\<rparr>"
  routed_pulls "\<lambda>x st. st\<lparr>routed_pulls := x\<rparr>"
  by unfold_locales simp_all

interpretation reserved_load: disjoint_owners reserved "\<lambda>x st. st\<lparr>reserved := x\<rparr>"
  load_named "\<lambda>x st. st\<lparr>load_named := x\<rparr>"
  by unfold_locales simp_all

interpretation routed_load: disjoint_owners routed_pulls "\<lambda>x st. st\<lparr>routed_pulls := x\<rparr>"
  load_named "\<lambda>x st. st\<lparr>load_named := x\<rparr>"
  by unfold_locales simp_all

lemmas sensors_commute =
  cluster_reserved.owned_folds_commute cluster_routed.owned_folds_commute
  cluster_load.owned_folds_commute reserved_routed.owned_folds_commute
  reserved_load.owned_folds_commute routed_load.owned_folds_commute

lemmas reducer_defs = cluster_reducer_def reservation_reducer_def routed_reducer_def load_reducer_def

subsection \<open>What a composed dispatcher runs\<close>

abbreviation folds_for :: "string \<Rightarrow> ('a, 'st) reducer \<Rightarrow> ('a, 'st) fold_fn list" where
  "folds_for t r \<equiv> map snd (filter (\<lambda>p. fst p = t) r)"

lemma compose_folds: "dget (d_folds (compose r d)) t [] = dget (d_folds d) t [] @ folds_for t r"
proof -
  have "dget (fold (\<lambda>(t, f) fs. AList.update t (dget fs t [] @ [f]) fs) r fs) t [] = dget fs t [] @ folds_for t r" for fs
    by (induction r arbitrary: fs) auto
  then show ?thesis by (simp add: compose_def)
qed

lemma compose_all_folds:
  "dget (d_folds (compose_all rs)) t [] = concat (map (folds_for t) rs)"
proof -
  have "dget (d_folds (fold compose rs d)) t [] = dget (d_folds d) t [] @ concat (map (folds_for t) rs)" for d
    by (induction rs arbitrary: d) (auto simp: compose_folds)
  then show ?thesis by (simp add: compose_all_def dispatcher_init_def)
qed

lemma compose_present:
  assumes "map_of (d_folds d) t \<noteq> Some []"
  shows "map_of (d_folds (compose r d)) t \<noteq> Some []"
proof -
  have "map_of (fold (\<lambda>(t, f) fs. AList.update t (dget fs t [] @ [f]) fs) r fs) t \<noteq> Some []"
    if "map_of fs t \<noteq> Some []" for fs :: "(string \<times> ('a, 'b) fold_fn list) list"
    using that
  proof (induction r arbitrary: fs)
    case (Cons p r)
    obtain t' f where p: "p = (t', f)" by (cases p)
    have "map_of (AList.update t' (dget fs t' [] @ [f]) fs) t \<noteq> Some []"
      using Cons.prems by simp
    from Cons.IH [OF this] p show ?case by simp
  qed simp
  with assms show ?thesis by (simp add: compose_def)
qed

lemma compose_all_lookup:
  "map_of (d_folds (compose_all rs)) t =
     (let fs = concat (map (folds_for t) rs) in if fs = [] then None else Some fs)"
proof -
  have "map_of (d_folds d) t \<noteq> Some [] \<Longrightarrow> map_of (d_folds (fold compose rs d)) t \<noteq> Some []" for d
    by (induction rs arbitrary: d) (auto simp: compose_present)
  then have "map_of (d_folds (compose_all rs)) t \<noteq> Some []"
    by (simp add: compose_all_def dispatcher_init_def)
  then show ?thesis
    using compose_all_folds [of rs t]
    by (cases "map_of (d_folds (compose_all rs)) t") (auto simp: dget_def Let_def)
qed

text \<open>One dispatch: the folds for the action's type over the state, one after the other.\<close>

definition kv_dispatch ::
  "(kv_action, kv_state) reducer list \<Rightarrow> kv_action \<Rightarrow> kv_state \<Rightarrow> kv_state \<times> py_error option" where
  "kv_dispatch rs act st =
     (case dispatch_sync action_type act (compose_all rs, st) of ((d, st'), e) \<Rightarrow> (st', e))"

lemma kv_dispatch_run:
  "kv_dispatch rs act st =
     (let fs = concat (map (folds_for (action_type act)) rs)
      in if fs = [] then (st, Some TypeError) else run_folds fs act st)"
  by (auto simp: kv_dispatch_def dispatch_sync_def compose_all_lookup Let_def
      split: prod.splits option.splits)

lemma owners:
  "f \<in> set (folds_for t cluster_reducer) \<Longrightarrow> \<exists>h. f = own_cluster h"
  "f \<in> set (folds_for t reservation_reducer) \<Longrightarrow> \<exists>h. f = own_reserved h"
  "f \<in> set (folds_for t routed_reducer) \<Longrightarrow> \<exists>h. f = own_routed h"
  "f \<in> set (folds_for t load_reducer) \<Longrightarrow> \<exists>h. f = own_load h"
  by (auto simp: reducer_defs simp del: filter.simps)

lemma one_fold_each:
  assumes "distinct (map fst r)" "f \<in> set (folds_for t r)" "g \<in> set (folds_for t r)"
  shows "f = g"
  using assms by (auto dest: eq_key_imp_eq_value)

lemma folds_for_member:
  "f \<in> set (concat (map (folds_for t) rs)) \<Longrightarrow> \<exists>r \<in> set rs. f \<in> set (folds_for t r)"
  by (induction rs) auto

lemma reducers_distinct: "r \<in> set (kv_reducers True) \<Longrightarrow> distinct (map fst r)"
  by (auto simp: kv_reducers_def reducer_defs)

lemma all_commute:
  assumes "r \<in> set (kv_reducers True)" "r' \<in> set (kv_reducers True)"
    "f \<in> set (folds_for t r)" "g \<in> set (folds_for t r')"
  shows "f = g \<or> commuting f g"
proof (cases "r = r'")
  case True
  with assms one_fold_each [OF reducers_distinct [OF assms(1)]] show ?thesis by blast
next
  case False
  have "r \<in> {cluster_reducer, routed_reducer, load_reducer, reservation_reducer}"
    "r' \<in> {cluster_reducer, routed_reducer, load_reducer, reservation_reducer}"
    using assms(1,2) by (auto simp: kv_reducers_def)
  with False assms(3,4) show ?thesis
    by (auto dest!: owners intro: sensors_commute sensors_commute [THEN commuting_sym]
        simp del: set_map set_filter)
qed

lemma folds_permuted:
  assumes "mset rs = mset rs'"
  shows "mset (concat (map (folds_for t) rs)) = mset (concat (map (folds_for t) rs'))"
proof -
  have "mset (concat (map (folds_for t) rs)) = (\<Sum>r\<in>#mset rs. mset (folds_for t r))" for rs :: "('a, 'b) reducer list"
    by (induction rs) auto
  with assms show ?thesis by metis
qed

text \<open>C6: the order the sensors are composed in never shows: however they are permuted, an
  accepted action leaves the same state in every one of them.\<close>

theorem sensor_order_irrelevant:
  assumes "mset rs = mset (kv_reducers lookahead)" and "kv_dispatch (kv_reducers lookahead) act st = (st', None)"
  shows "kv_dispatch rs act st = (st', None)"
proof -
  let ?t = "action_type act"
  let ?fs = "concat (map (folds_for ?t) (kv_reducers lookahead))"
  let ?gs = "concat (map (folds_for ?t) rs)"
  have perm: "mset ?fs = mset ?gs" by (rule folds_permuted) (simp add: assms(1))
  have sub: "r \<in> set (kv_reducers lookahead) \<Longrightarrow> r \<in> set (kv_reducers True)" for r
    by (auto simp: kv_reducers_def split: if_splits)
  have "f = g \<or> commuting f g" if f: "f \<in> set ?fs" and g: "g \<in> set ?fs" for f g
  proof -
    obtain r where "r \<in> set (kv_reducers lookahead)" "f \<in> set (folds_for ?t r)"
      using folds_for_member [OF f] by blast
    moreover obtain r' where "r' \<in> set (kv_reducers lookahead)" "g \<in> set (folds_for ?t r')"
      using folds_for_member [OF g] by blast
    ultimately show ?thesis using all_commute [OF sub sub] by blast
  qed
  moreover have "?fs \<noteq> []" "run_folds ?fs act st = (st', None)"
    using assms(2) by (auto simp: kv_dispatch_run Let_def split: if_splits)
  ultimately have "run_folds ?gs act st = (st', None)" by (intro run_folds_order [OF perm])
  moreover have "?gs \<noteq> []" using perm \<open>?fs \<noteq> []\<close> by (metis mset.simps(1) mset_zero_iff)
  ultimately show ?thesis by (simp add: kv_dispatch_run Let_def)
qed

subsection \<open>One dispatch, action by action\<close>

lemma kv_committed:
  "kv_dispatch (kv_reducers lookahead) (Committed r n) st =
     (\<lparr>cluster = (cluster st)\<lparr>busy_until := AList.update (prefill_host r) (done_time (resp_plan r)) (busy_until (cluster st))\<rparr>,
       reserved = (if lookahead then reserved st @ [\<lparr>prefill_done = done_time (resp_plan r),
          decode_id = decode_host r, res_output_tokens = n\<rparr>] else reserved st),
       routed_pulls = (case reuse_source (resp_plan r) of None \<Rightarrow> routed_pulls st
          | Some src \<Rightarrow> if pull_keys (resp_plan r) = [] then routed_pulls st
              else routed_pulls st @ [(prefill_host r, pull_keys (resp_plan r), src)]),
       load_named = (case reuse_source (resp_plan r) of None \<Rightarrow> load_named st
          | Some src \<Rightarrow> AList.update src (dget (load_named st) src 0 + 1) (load_named st))\<rparr>, None)"
  by (cases st; cases "reuse_source (resp_plan r)")
    (simp_all add: kv_dispatch_run kv_reducers_def reducer_defs owns_def)

lemma kv_answered:
  "kv_dispatch (kv_reducers lookahead) (FetchAnswered requester ks) st =
     (st\<lparr>routed_pulls := (case match_pull (routed_pulls st) requester ks of
        None \<Rightarrow> routed_pulls st | Some i \<Rightarrow> del_at i (routed_pulls st))\<rparr>, None)"
  by (simp add: kv_dispatch_run kv_reducers_def reducer_defs owns_def)

lemma kv_prefill_finished:
  "map_of (busy_until (cluster st)) inst = Some tail \<Longrightarrow>
   kv_dispatch (kv_reducers lookahead) (PrefillFinished inst now) st =
     (st\<lparr>cluster := (if tail < now then (cluster st)\<lparr>busy_until := AList.update inst now (busy_until (cluster st))\<rparr>
                     else cluster st),
         reserved := (if lookahead then filter (\<lambda>r. now \<le> prefill_done r) (reserved st) else reserved st)\<rparr>, None)"
  by (simp add: kv_dispatch_run kv_reducers_def reducer_defs owns_def dindex_def)

lemma kv_prefill_unknown:
  "map_of (busy_until (cluster st)) inst = None \<Longrightarrow>
   kv_dispatch (kv_reducers lookahead) (PrefillFinished inst now) st = (st, Some KeyError)"
  by (simp add: kv_dispatch_run kv_reducers_def reducer_defs owns_def dindex_def)

lemma kv_compute_busy:
  "kv_dispatch (kv_reducers lookahead) (ComputeBusy inst until) st =
     (st\<lparr>cluster := (cluster st)\<lparr>busy_until := AList.update inst until (busy_until (cluster st))\<rparr>\<rparr>, None)"
  by (simp add: kv_dispatch_run kv_reducers_def reducer_defs owns_def)

lemma kv_decode_state:
  "kv_dispatch (kv_reducers lookahead) (DecodeState inst fs) st =
     (st\<lparr>cluster := (cluster st)\<lparr>decode_finishes := AList.update inst fs (decode_finishes (cluster st))\<rparr>\<rparr>, None)"
  by (simp add: kv_dispatch_run kv_reducers_def reducer_defs owns_def)

text \<open>A run of reports and decisions, each dispatched in turn.\<close>

definition kv_run :: "bool \<Rightarrow> kv_action list \<Rightarrow> kv_state \<Rightarrow> kv_state" where
  "kv_run lookahead acts st = fold (\<lambda>a st. fst (kv_dispatch (kv_reducers lookahead) a st)) acts st"

subsection \<open>What each sensor answers after any run\<close>

definition names_source :: "vid \<Rightarrow> kv_action \<Rightarrow> bool" where
  "names_source v a = (case a of Committed r n \<Rightarrow> reuse_source (resp_plan r) = Some v | _ \<Rightarrow> False)"

text \<open>After any run of reports and decisions a source's load is the number of accepted
  decisions that priced a pull against it, and nothing else moved it.\<close>

theorem load_counts_decisions:
  "dget (load_named (kv_run lookahead acts (kv_state_init ids))) v 0 =
     int (length (filter (names_source v) acts))"
proof -
  have "dget (load_named (fst (kv_dispatch (kv_reducers lookahead) a st))) v 0 =
      dget (load_named st) v 0 + (if names_source v a then 1 else 0)" for a st
  proof (cases a)
    case (PrefillFinished inst now)
    then show ?thesis
      by (cases "map_of (busy_until (cluster st)) inst")
        (simp_all add: kv_prefill_unknown kv_prefill_finished names_source_def)
  qed (auto simp: names_source_def kv_committed kv_answered kv_compute_busy kv_decode_state
      split: option.splits)
  then have "dget (load_named (kv_run lookahead acts st)) v 0 =
      dget (load_named st) v 0 + int (length (filter (names_source v) acts))" for st
    by (induction acts arbitrary: st) (simp_all add: kv_run_def)
  then show ?thesis by (simp add: kv_state_init_def)
qed

lemma match_from_Some:
  "match_from i requester ks ms = Some j \<Longrightarrow>
     \<exists>pre planned peer post. ms = pre @ (requester, planned, peer) # post \<and> j = i + length pre \<and>
       set ks = set planned \<and> (\<forall>(inst, pl, p) \<in> set pre. \<not> (inst = requester \<and> set ks = set pl))"
proof (induction i requester ks ms rule: match_from.induct)
  case (2 i requester ks inst planned peer ms)
  show ?case
  proof (cases "inst = requester \<and> set ks = set planned")
    case True
    with "2.prems" show ?thesis
      by (intro exI [of _ "[]"] exI [of _ planned] exI [of _ peer] exI [of _ ms]) simp
  next
    case False
    with 2 obtain pre pl p post where
      "ms = pre @ (requester, pl, p) # post" "j = Suc i + length pre" "set ks = set pl"
      "\<forall>(inst, pl, p) \<in> set pre. \<not> (inst = requester \<and> set ks = set pl)"
      by (auto split: if_splits)
    with False show ?thesis
      by (intro exI [of _ "(inst, planned, peer) # pre"] exI [of _ pl] exI [of _ p] exI [of _ post]) auto
  qed
qed simp

text \<open>A fetch is answered from, and spends, one and the same memo: the oldest pull of
  exactly these keys priced for this caller; every other memo stays, and a fetch nothing priced
  spends nothing.\<close>

theorem pull_answered_once:
  "case routed_peer (routed_pulls st) requester ks of
     None \<Rightarrow> kv_dispatch (kv_reducers lookahead) (FetchAnswered requester ks) st = (st, None)
   | Some peer \<Rightarrow> \<exists>pre planned post.
       routed_pulls st = pre @ (requester, planned, peer) # post \<and> set planned = set ks \<and>
       (\<forall>(inst, pl, p) \<in> set pre. \<not> (inst = requester \<and> set pl = set ks)) \<and>
       kv_dispatch (kv_reducers lookahead) (FetchAnswered requester ks) st =
         (st\<lparr>routed_pulls := pre @ post\<rparr>, None)"
proof (cases "match_pull (routed_pulls st) requester ks")
  case None
  then show ?thesis by (simp add: routed_peer_def kv_answered)
next
  case (Some j)
  then obtain pre planned peer post where m: "routed_pulls st = pre @ (requester, planned, peer) # post"
    "j = length pre" "set ks = set planned"
    "\<forall>(inst, pl, p) \<in> set pre. \<not> (inst = requester \<and> set ks = set pl)"
    using match_from_Some [of 0 requester ks "routed_pulls st" j] by (auto simp: match_pull_def)
  have "\<forall>(inst, pl, p) \<in> set pre. \<not> (inst = requester \<and> set pl = set ks)" using m(4) by auto
  moreover have "kv_dispatch (kv_reducers lookahead) (FetchAnswered requester ks) st =
      (st\<lparr>routed_pulls := pre @ post\<rparr>, None)"
    using Some m(1,2) by (simp add: kv_answered del_at_def)
  moreover have "routed_peer (routed_pulls st) requester ks = Some peer"
    using Some m by (simp add: routed_peer_def nth_append)
  ultimately show ?thesis using m(1,3) by auto
qed

text \<open>Dropping what a host was seen to finish is invisible to every later decision: read at
  any clock not before the reported one, the outstanding prefills are the same.\<close>

theorem expiry_unobservable:
  assumes "now \<le> t" and "kv_dispatch (kv_reducers lookahead) (PrefillFinished inst now) st = (st', None)"
  shows "pending (reserved st') t = pending (reserved st) t"
proof -
  obtain tail where "map_of (busy_until (cluster st)) inst = Some tail"
    using assms(2) kv_prefill_unknown [of st inst lookahead now]
    by (cases "map_of (busy_until (cluster st)) inst") auto
  from kv_prefill_finished [OF this, of lookahead now] assms show ?thesis
    by (auto simp: pending_def filter_filter intro!: filter_cong)
qed

text \<open>A report of finished work never lowers a predicted queue tail.\<close>

lemma prefill_finished_raises:
  assumes "kv_dispatch (kv_reducers lookahead) (PrefillFinished inst now) st = (st', None)"
    and "map_of (busy_until (cluster st)) i = Some tail"
  shows "\<exists>tail'. map_of (busy_until (cluster st')) i = Some tail' \<and> tail \<le> tail' \<and> (i = inst \<longrightarrow> now \<le> tail')"
proof -
  obtain u where "map_of (busy_until (cluster st)) inst = Some u"
    using assms(1) kv_prefill_unknown [of st inst lookahead now]
    by (cases "map_of (busy_until (cluster st)) inst") auto
  from kv_prefill_finished [OF this, of lookahead now] assms this show ?thesis by auto
qed

subsection \<open>The theorems at work\<close>

definition demo_plan :: plan where
  "demo_plan = \<lparr>match_blocks = 3, cached_tokens = 48, uncached_tokens = 16, reuse_source = Some ''b'',
     transfer_bytes = 32, queue_wait = 0, ttft = 2, done_time = 7, prefill_t = 1,
     pull_keys = [''k2'', ''k3'']\<rparr>"

definition demo_response :: response where
  "demo_response = \<lparr>prefill_host = ''a'', decode_host = ''d'', resp_plan = demo_plan, pred_tbt = 0\<rparr>"

definition demo_state :: kv_state where
  "demo_state = kv_run True [Committed demo_response 5] (kv_state_init [''a'', ''b'', ''d''])"

lemmas demo_state_eval = demo_state_def kv_run_def kv_committed kv_state_init_def cluster_init_def
  demo_response_def demo_plan_def dict_over_def

lemma sensor_order_irrelevant_witness:
  "kv_dispatch [reservation_reducer, load_reducer, routed_reducer, cluster_reducer]
     (Committed demo_response 5) (kv_state_init [''a'', ''b'', ''d'']) = (demo_state, None)"
proof (rule sensor_order_irrelevant [where lookahead = True])
  show "mset [reservation_reducer, load_reducer, routed_reducer, cluster_reducer] = mset (kv_reducers True)"
    by (simp add: kv_reducers_def)
  show "kv_dispatch (kv_reducers True) (Committed demo_response 5) (kv_state_init [''a'', ''b'', ''d'']) =
      (demo_state, None)"
    by (simp add: demo_state_def kv_run_def kv_committed)
qed

lemma pull_answered_once_witness:
  "routed_peer (routed_pulls demo_state) ''a'' [''k3'', ''k2''] = Some ''b'' \<and>
   kv_dispatch (kv_reducers True) (FetchAnswered ''a'' [''k3'', ''k2'']) demo_state =
     (demo_state\<lparr>routed_pulls := []\<rparr>, None)"
proof -
  have m: "routed_pulls demo_state = [(''a'', [''k2'', ''k3''], ''b'')]" by (simp add: demo_state_eval)
  then have p: "routed_peer (routed_pulls demo_state) ''a'' [''k3'', ''k2''] = Some ''b''"
    by (auto simp: routed_peer_def match_pull_def)
  with pull_answered_once [where st = demo_state and requester = "''a''" and ks = "[''k3'', ''k2'']" and lookahead = True] m show ?thesis
    by (auto simp: Cons_eq_append_conv)
qed

lemma expiry_unobservable_witness:
  "pending (reserved (fst (kv_dispatch (kv_reducers True) (PrefillFinished ''a'' 8) demo_state))) 9 = []"
proof -
  have b: "map_of (busy_until (cluster demo_state)) ''a'' = Some 7" by (simp add: demo_state_eval)
  obtain st' where st': "kv_dispatch (kv_reducers True) (PrefillFinished ''a'' 8) demo_state = (st', None)"
    using kv_prefill_finished [OF b] by blast
  have "pending (reserved demo_state) 9 = []" by (simp add: demo_state_eval pending_def)
  with expiry_unobservable [OF _ st', of 9] st' show ?thesis by simp
qed

end
