(* ===== verification/Ordering.thy ===== *)
theory Ordering
  imports Prelude
begin

section \<open>Comparing what a ranking measured\<close>

text \<open>
  A source of a ranking is ordered by a Python tuple: the dimensions the stages appended,
  then the source's id (\<^verbatim>\<open>_comparable\<close> of \<^verbatim>\<open>proposed/selector.py\<close>). A dimension is a number, a
  tuple of numbers, or a value a stage merely holds (a plan): tuples compare by their first
  unequal position, and comparing there two values with no order raises \<^verbatim>\<open>TypeError\<close>. So do
  \<^verbatim>\<open>sorted\<close> and \<^verbatim>\<open>min\<close> over such tuples. The ids are compared last; no two sources share one.
\<close>

datatype 'h dim = Num real | Tup "real list" | Held 'h

fun tuple_less :: "'h dim list \<times> 'v::linorder \<Rightarrow> 'h dim list \<times> 'v \<Rightarrow> bool res" where
  "tuple_less ([], s) ([], t) = Inr (s < t)"
| "tuple_less (Num x # xs, s) (Num y # ys, t) =
     (if x = y then tuple_less (xs, s) (ys, t) else Inr (x < y))"
| "tuple_less (Tup x # xs, s) (Tup y # ys, t) =
     (if x = y then tuple_less (xs, s) (ys, t) else Inr (x < y))"
| "tuple_less (Held x # xs, s) (Held y # ys, t) =
     (if x = y then tuple_less (xs, s) (ys, t) else Inl TypeError)"
| "tuple_less _ _ = Inl TypeError"

text \<open>
  \<^verbatim>\<open>min(xs, key=f)\<close> compares each element with the least so far; \<^verbatim>\<open>sorted(xs, key=f)\<close> is a
  stable comparison sort. Any comparison sort establishes the order of every two neighbours of
  its answer, so which one is used shows neither in the answer nor in whether it raises.
\<close>

fun min_from :: "('a \<Rightarrow> 'a \<Rightarrow> bool res) \<Rightarrow> 'a \<Rightarrow> 'a list \<Rightarrow> 'a res" where
  "min_from lt b [] = Inr b"
| "min_from lt b (x # xs) = bindr (lt x b) (\<lambda>c. min_from lt (if c then x else b) xs)"

fun insert_res :: "('a \<Rightarrow> 'a \<Rightarrow> bool res) \<Rightarrow> 'a \<Rightarrow> 'a list \<Rightarrow> 'a list res" where
  "insert_res lt x [] = Inr [x]"
| "insert_res lt x (y # ys) =
     bindr (lt y x) (\<lambda>c. if c then bindr (insert_res lt x ys) (\<lambda>zs. Inr (y # zs))
                         else Inr (x # y # ys))"

fun sort_res :: "('a \<Rightarrow> 'a \<Rightarrow> bool res) \<Rightarrow> 'a list \<Rightarrow> 'a list res" where
  "sort_res lt [] = Inr []"
| "sort_res lt (x # xs) = bindr (sort_res lt xs) (insert_res lt x)"

subsection \<open>The order of tuples\<close>

lemma tuple_less_flip:
  "tuple_less a b = Inr c \<Longrightarrow> \<exists>d. tuple_less b a = Inr d \<and> \<not> (c \<and> d)"
  by (induction a b rule: tuple_less.induct) (auto split: if_splits)

lemma tuple_less_total:
  "tuple_less a b = Inr False \<Longrightarrow> snd a \<noteq> snd b \<Longrightarrow> tuple_less b a = Inr True"
  by (induction a b rule: tuple_less.induct) (auto split: if_splits)

lemma tuple_less_Inl: "tuple_less a b = Inl e \<Longrightarrow> e = TypeError"
  by (induction a b rule: tuple_less.induct) (auto split: if_splits)

lemma tuple_less_trans':
  "tuple_less (xs, s) (ys, t) = Inr True \<Longrightarrow> tuple_less (ys, t) (zs, u) = Inr True \<Longrightarrow>
     tuple_less (xs, s) (zs, u) = Inr True"
proof (induction xs arbitrary: ys zs)
  case Nil
  then have "ys = []" by (cases ys) auto
  with Nil have "zs = []" by (cases zs) auto
  with Nil \<open>ys = []\<close> show ?case by auto
next
  case (Cons x xs)
  then obtain y ys' where y: "ys = y # ys'" by (cases ys; cases x) auto
  with Cons.prems obtain z zs' where z: "zs = z # zs'" by (cases zs; cases y) auto
  show ?case
    using Cons.prems Cons.IH [of ys' zs']
    by (cases x; cases y; cases z) (auto simp: y z split: if_splits)
qed

lemma tuple_less_trans:
  "tuple_less a b = Inr True \<Longrightarrow> tuple_less b c = Inr True \<Longrightarrow> tuple_less a c = Inr True"
  by (cases a; cases b; cases c) (use tuple_less_trans' in blast)

text \<open>Numbers of one arity never raise.\<close>

fun numeric :: "'h dim \<Rightarrow> bool" where
  "numeric (Num x) = True"
| "numeric (Tup x) = False"
| "numeric (Held x) = False"

lemma tuple_less_numeric:
  "list_all numeric xs \<Longrightarrow> list_all numeric ys \<Longrightarrow> length xs = length ys \<Longrightarrow>
     \<exists>c. tuple_less (xs, s) (ys, t) = Inr c"
proof (induction xs arbitrary: ys)
  case (Cons x xs)
  then obtain y ys' where "ys = y # ys'" by (cases ys) auto
  with Cons show ?case by (cases x; cases y) auto
qed simp

subsection \<open>Sorting and taking the least under an order that may raise\<close>

text \<open>
  What the sort and the minimum rest on: a comparison that, where it answers, is a strict order
  total on the elements compared. \<open>above lt m x\<close> reads \<open>m\<close> is before \<open>x\<close>.
\<close>

locale partial_order_res =
  fixes lt :: "'a \<Rightarrow> 'a \<Rightarrow> bool res" and ident :: "'a \<Rightarrow> 'b"
  assumes flip: "lt a b = Inr r \<Longrightarrow> \<exists>s. lt b a = Inr s \<and> \<not> (r \<and> s)"
    and total: "lt a b = Inr False \<Longrightarrow> ident a \<noteq> ident b \<Longrightarrow> lt b a = Inr True"
    and trans: "lt a b = Inr True \<Longrightarrow> lt b c = Inr True \<Longrightarrow> lt a c = Inr True"
begin

lemma insert_res_mset: "insert_res lt x ys = Inr zs \<Longrightarrow> mset zs = add_mset x (mset ys)"
  by (induction ys arbitrary: zs) (auto simp: res_simps split: if_splits)

lemma sort_res_mset: "sort_res lt xs = Inr zs \<Longrightarrow> mset zs = mset xs"
  by (induction xs arbitrary: zs) (auto simp: res_simps dest!: insert_res_mset)

lemma sort_res_set: "sort_res lt xs = Inr zs \<Longrightarrow> set zs = set xs"
  by (metis mset_eq_setD sort_res_mset)

abbreviation ordered_by :: "'a list \<Rightarrow> bool" where
  "ordered_by xs \<equiv> sorted_wrt (\<lambda>a b. lt a b = Inr True) xs"

lemma insert_res_ordered:
  "insert_res lt x ys = Inr zs \<Longrightarrow> ordered_by ys \<Longrightarrow> ident x \<notin> ident ` set ys \<Longrightarrow> ordered_by zs"
proof (induction ys arbitrary: zs)
  case Nil
  then show ?case by auto
next
  case (Cons y ys)
  from Cons.prems(1) obtain c where c: "lt y x = Inr c" by (auto simp: res_simps)
  show ?case
  proof (cases c)
    case True
    with Cons.prems(1) c obtain ws where ws: "insert_res lt x ys = Inr ws" "zs = y # ws"
      by (auto simp: res_simps)
    have "ordered_by ws" using Cons.IH [OF ws(1)] Cons.prems(2,3) by auto
    moreover have "set ws = insert x (set ys)"
      using insert_res_mset [OF ws(1)] by (metis set_mset_add_mset_insert set_mset_mset)
    ultimately show ?thesis using Cons.prems(2) c True ws(2) by auto
  next
    case False
    with Cons.prems c have xy: "lt x y = Inr True" by (auto intro: total)
    have "lt x a = Inr True" if "a \<in> set ys" for a
      using trans [OF xy, of a] Cons.prems(2) that by simp
    with xy Cons.prems c False show ?thesis by auto
  qed
qed

lemma sort_res_ordered:
  "sort_res lt xs = Inr zs \<Longrightarrow> distinct (map ident xs) \<Longrightarrow> ordered_by zs"
proof (induction xs arbitrary: zs)
  case Nil
  then show ?case by simp
next
  case (Cons x xs)
  then obtain ws where ws: "sort_res lt xs = Inr ws" "insert_res lt x ws = Inr zs"
    by (auto simp: res_simps)
  with Cons show ?case
    by (auto intro!: insert_res_ordered [OF ws(2)] simp: sort_res_set [OF ws(1)])
qed

text \<open>An element before every other one is the answer of \<open>min_from\<close>, wherever it stands.\<close>

lemma min_from_stays:
  "\<forall>x \<in> set xs. x = m \<or> lt m x = Inr True \<Longrightarrow> lt m m = Inr False \<Longrightarrow> min_from lt m xs = Inr m"
proof (induction xs)
  case (Cons x xs)
  have "lt x m = Inr False"
    using Cons.prems flip [of m x True] by auto
  with Cons show ?case by simp
qed simp

lemma min_from_finds:
  assumes "m \<in> set (b # xs)" and "\<forall>x \<in> set (b # xs). x = m \<or> lt m x = Inr True"
    and "\<forall>x \<in> set (b # xs). \<forall>y \<in> set (b # xs). \<exists>c. lt x y = Inr c" and "lt m m = Inr False"
  shows "min_from lt b xs = Inr m"
  using assms
proof (induction xs arbitrary: b)
  case Nil
  then show ?case by simp
next
  case (Cons x xs)
  show ?case
  proof (cases "b = m")
    case True
    show ?thesis unfolding True
      by (rule min_from_stays) (use Cons.prems True in auto)
  next
    case False
    obtain c where c: "lt x b = Inr c" using Cons.prems(3) by auto
    have m: "m \<in> set ((if c then x else b) # xs)"
    proof (cases "x = m")
      case True
      with Cons.prems(2) False c have c by auto
      with True show ?thesis by simp
    next
      case False
      with \<open>b \<noteq> m\<close> Cons.prems(1) show ?thesis by auto
    qed
    have "min_from lt (if c then x else b) xs = Inr m"
      by (rule Cons.IH [OF m]) (use Cons.prems in auto)
    with c show ?thesis by simp
  qed
qed

text \<open>So the least of a pool is the front of a sort of it, whenever the sort does not raise.\<close>

lemma sort_res_comparable:
  assumes "sort_res lt xs = Inr zs" "distinct (map ident xs)" "\<And>x. x \<in> set xs \<Longrightarrow> lt x x = Inr False"
    and x: "x \<in> set xs" and y: "y \<in> set xs"
  shows "\<exists>c. lt x y = Inr c"
proof -
  have ord: "ordered_by zs" by (rule sort_res_ordered [OF assms(1,2)])
  have "x \<in> set zs" "y \<in> set zs" using x y sort_res_set [OF assms(1)] by auto
  then obtain i j where ij: "i < length zs" "j < length zs" "x = zs ! i" "y = zs ! j"
    by (metis in_set_conv_nth)
  consider "i = j" | "i < j" | "j < i" by linarith
  then show ?thesis
  proof cases
    case 1
    then show ?thesis using assms(3) [OF x] ij by auto
  next
    case 2
    then show ?thesis using ord ij by (auto simp: sorted_wrt_iff_nth_less)
  next
    case 3
    then have "lt y x = Inr True" using ord ij by (auto simp: sorted_wrt_iff_nth_less)
    then show ?thesis using flip [of y x True] by auto
  qed
qed

lemma min_from_sort:
  assumes "sort_res lt (b # xs) = Inr (m # ms)" "distinct (map ident (b # xs))"
    and irr: "\<And>x. x \<in> set (b # xs) \<Longrightarrow> lt x x = Inr False"
  shows "min_from lt b xs = Inr m"
proof (rule min_from_finds)
  show m: "m \<in> set (b # xs)" using sort_res_set [OF assms(1)] by auto
  show "\<forall>x \<in> set (b # xs). x = m \<or> lt m x = Inr True"
    using sort_res_ordered [OF assms(1,2)] sort_res_set [OF assms(1)] by auto
  show "\<forall>x \<in> set (b # xs). \<forall>y \<in> set (b # xs). \<exists>c. lt x y = Inr c"
    using sort_res_comparable [OF assms(1,2) irr] by blast
  show "lt m m = Inr False" using irr m by blast
qed

lemma sort_res_total:
  "\<forall>x \<in> set xs. \<forall>y \<in> set xs. \<exists>c. lt x y = Inr c \<Longrightarrow> \<exists>zs. sort_res lt xs = Inr zs"
proof (induction xs)
  case Nil
  then show ?case by simp
next
  case (Cons x xs)
  then obtain zs where zs: "sort_res lt xs = Inr zs" by auto
  have ins: "\<forall>y \<in> set ys. \<exists>c. lt y x = Inr c \<Longrightarrow> \<exists>ws. insert_res lt x ys = Inr ws" for ys
    by (induction ys) auto
  have "\<exists>ws. insert_res lt x zs = Inr ws"
    using Cons.prems sort_res_set [OF zs] by (intro ins) auto
  with zs show ?case by auto
qed

lemma min_from_least:
  "min_from lt b xs = Inr m \<Longrightarrow> distinct (map ident (b # xs)) \<Longrightarrow>
     m \<in> set (b # xs) \<and> (\<forall>x \<in> set (b # xs). x = m \<or> lt m x = Inr True)"
proof (induction xs arbitrary: b)
  case Nil
  then show ?case by simp
next
  case (Cons x xs)
  then obtain c where c: "lt x b = Inr c" "min_from lt (if c then x else b) xs = Inr m"
    by (auto simp: res_simps)
  have d: "distinct (map ident ((if c then x else b) # xs))" using Cons.prems(2) by auto
  note ih = Cons.IH [OF c(2) d]
  show ?case
  proof (cases c)
    case True
    have "b = m \<or> lt m b = Inr True" using ih c(1) True by (auto intro: trans)
    with ih True show ?thesis by auto
  next
    case False
    then have "lt b x = Inr True" using c(1) Cons.prems(2) by (auto intro: total)
    then have "x = m \<or> lt m x = Inr True" using ih False by (auto intro: trans)
    with ih False show ?thesis by auto
  qed
qed

end

interpretation tuple_order: partial_order_res tuple_less snd
  by unfold_locales (use tuple_less_flip tuple_less_total tuple_less_trans in blast)+

end
