(* ===== verification/Selection.thy ===== *)
theory Selection
  imports Ordering
begin

section \<open>What a ranking answers with\<close>

text \<open>
  \<^verbatim>\<open>Selection\<close> of \<^verbatim>\<open>proposed/selector.py\<close>: the sources serving one subject, what orders them, a
  readiness gate and a fold that says how the key is read. \<open>None\<close> for the sources is every holder
  in directory order; the empty list names nobody. A source id is a volume id, or whatever a
  capability names its sources by. A gate is held as its name; a fold may raise.
\<close>

type_synonym 'h fold_fn = "'h dim list \<Rightarrow> real list res"

record ('v, 'h, 'g) selection =
  sources :: "'v list option"
  sel_key :: "('v \<times> 'h dim list) list option"
  ready :: "'g option"
  sel_fold :: "'h fold_fn option"

definition named_once :: "'v list \<Rightarrow> 'v list res" where
  "named_once xs = (if distinct xs then Inr xs else Inl ValueError)"

definition sel_of :: "'v list \<Rightarrow> 'g option \<Rightarrow> ('v, 'h, 'g) selection res" where
  "sel_of xs gate =
     bindr (named_once xs) (\<lambda>xs. Inr \<lparr>sources = Some xs, sel_key = None, ready = gate, sel_fold = None\<rparr>)"

definition keyed :: "('v \<times> 'h dim list) list \<Rightarrow> 'g option \<Rightarrow> ('v, 'h, 'g) selection res" where
  "keyed candidates gate =
     bindr (named_once (map fst candidates)) (\<lambda>xs.
       Inr \<lparr>sources = Some xs, sel_key = Some (dict_of candidates), ready = gate, sel_fold = None\<rparr>)"

definition priced :: "('v \<times> real) list \<Rightarrow> 'g option \<Rightarrow> ('v, 'h, 'g) selection res" where
  "priced candidates gate =
     bindr (named_once (map fst candidates)) (\<lambda>xs.
       Inr \<lparr>sources = Some xs,
            sel_key = Some (dict_of (map (\<lambda>(s, p). (s, [Num p])) candidates)),
            ready = gate, sel_fold = None\<rparr>)"

definition universe :: "('v, 'h, 'g) selection" where
  "universe = \<lparr>sources = None, sel_key = None, ready = None, sel_fold = None\<rparr>"

definition abstain :: "('v, 'h, 'g) selection" where
  "abstain = \<lparr>sources = Some [], sel_key = None, ready = None, sel_fold = None\<rparr>"

text \<open>The sources where there are any: \<^verbatim>\<open>self.sources or ()\<close>; the key likewise.\<close>

definition named :: "('v, 'h, 'g) selection \<Rightarrow> 'v list" where
  "named a = (case sources a of None \<Rightarrow> [] | Some xs \<Rightarrow> xs)"

definition key_or_empty :: "('v, 'h, 'g) selection \<Rightarrow> ('v \<times> 'h dim list) list" where
  "key_or_empty a = (case sel_key a of None \<Rightarrow> [] | Some k \<Rightarrow> k)"

definition annotated ::
  "('v \<Rightarrow> 'h dim res) \<Rightarrow> ('v, 'h, 'g) selection \<Rightarrow> ('v, 'h, 'g) selection res" where
  "annotated readings a =
     bindr (res_map (\<lambda>s. bindr (readings s) (\<lambda>r. Inr (s, dget (key_or_empty a) s [] @ [r]))) (named a))
       (\<lambda>ps. Inr (a\<lparr>sel_key := Some (dict_of ps)\<rparr>))"

definition settled :: "('v, 'h, 'g) selection \<Rightarrow> ('v, 'h, 'g) selection" where
  "settled a = (if ready a = None \<and> sel_fold a = None then a else a\<lparr>ready := None, sel_fold := None\<rparr>)"

definition abstains :: "('v, 'h, 'g) selection \<Rightarrow> bool" where
  "abstains a \<longleftrightarrow> sources a = Some []"

definition otherwise ::
  "('v, 'h, 'g) selection \<Rightarrow> ('v, 'h, 'g) selection \<Rightarrow> ('v, 'h, 'g) selection" where
  "otherwise a b = (if abstains a then b else a)"

definition head :: "('v, 'h, 'g) selection \<Rightarrow> 'v option" where
  "head a = (case named a of [] \<Rightarrow> None | x # _ \<Rightarrow> Some x)"

definition only :: "'v list \<Rightarrow> ('v, 'h, 'g) selection \<Rightarrow> ('v, 'h, 'g) selection res" where
  "only kept a =
     (case sources a of
        None \<Rightarrow> Inl ValueError
      | Some mine \<Rightarrow>
          if \<not> set kept \<subseteq> set mine then Inl ValueError
          else bindr
            (case sel_key a of
               None \<Rightarrow> Inr None
             | Some k \<Rightarrow>
                 bindr (res_map (\<lambda>s. bindr (dindex k s) (\<lambda>d. Inr (s, d))) kept)
                   (\<lambda>ps. Inr (Some (dict_of ps))))
            (\<lambda>k. Inr (a\<lparr>sources := Some kept, sel_key := k\<rparr>)))"

definition take_n :: "nat \<Rightarrow> ('v, 'h, 'g) selection \<Rightarrow> ('v, 'h, 'g) selection res" where
  "take_n n a = only (take n (named a)) a"

definition require :: "('v \<Rightarrow> bool) \<Rightarrow> ('v, 'h, 'g) selection \<Rightarrow> ('v, 'h, 'g) selection res" where
  "require ok a =
     (case sources a of
        None \<Rightarrow> Inl ValueError
      | Some [] \<Rightarrow> Inr a
      | Some (s # _) \<Rightarrow> Inr (if ok s then a else abstain))"

subsection \<open>Ordering links\<close>

text \<open>
  What orders one source: its dimensions as they stand, or what the fold makes of them. The id
  is appended in \<open>tuple_less\<close>, so \<open>comparables\<close> pairs it with each source.
\<close>

definition comparable :: "('v, 'h, 'g) selection \<Rightarrow> 'v \<Rightarrow> ('h dim list \<times> 'v) res" where
  "comparable a s =
     bindr (dindex (key_or_empty a) s) (\<lambda>dims.
       case sel_fold a of
         None \<Rightarrow> Inr (dims, s)
       | Some f \<Rightarrow> bindr (f dims) (\<lambda>r. Inr ([Tup r], s)))"

definition no_order :: "('v, 'h, 'g) selection \<Rightarrow> bool" where
  "no_order a \<longleftrightarrow> named a = [] \<or> sel_key a = None"

definition ordered :: "('v::linorder, 'h, 'g) selection \<Rightarrow> ('v, 'h, 'g) selection res" where
  "ordered a =
     (if no_order a then Inr a
      else bindr (res_map (comparable a) (named a)) (\<lambda>cs.
           bindr (sort_res tuple_less cs) (\<lambda>zs. Inr (a\<lparr>sources := Some (map snd zs)\<rparr>))))"

definition best :: "('v::linorder, 'h, 'g) selection \<Rightarrow> ('v, 'h, 'g) selection res" where
  "best a =
     (case named a of
        [] \<Rightarrow> Inr a
      | x # _ \<Rightarrow>
          if no_order a then only [x] a
          else bindr (res_map (comparable a) (named a)) (\<lambda>cs.
               bindr (min_from tuple_less (List.hd cs) (tl cs)) (\<lambda>m. only [snd m] a)))"

definition bounded :: "('h dim list \<Rightarrow> bool res) \<Rightarrow> ('v, 'h, 'g) selection \<Rightarrow> ('v, 'h, 'g) selection res" where
  "bounded bound a =
     (if abstains a then Inr a
      else bindr (res_map (\<lambda>s. bindr (dindex (key_or_empty a) s) bound) (named a)) (\<lambda>bs.
           only (map fst (filter snd (zip (named a) bs))) a))"

subsection \<open>Coverage\<close>

text \<open>
  The invariant every producer establishes and every operation keeps: no source is named twice,
  and a key, where there is one, covers exactly the sources.
\<close>

definition wf_sel :: "('v, 'h, 'g) selection \<Rightarrow> bool" where
  "wf_sel a \<longleftrightarrow> distinct (named a) \<and>
     (case sel_key a of None \<Rightarrow> True | Some k \<Rightarrow> dwf k \<and> fst ` set k = set (named a))"

lemma wf_abstain [simp, intro]: "wf_sel abstain"
  by (simp add: wf_sel_def abstain_def named_def)

lemma wf_universe [simp, intro]: "wf_sel universe"
  by (simp add: wf_sel_def universe_def named_def)

lemma wf_sel_of: "sel_of xs g = Inr a \<Longrightarrow> wf_sel a"
  by (auto simp: sel_of_def named_once_def wf_sel_def named_def split: if_splits)

lemma wf_keyed: "keyed cs g = Inr a \<Longrightarrow> wf_sel a"
  by (auto simp: keyed_def named_once_def wf_sel_def named_def split: if_splits)

lemma wf_priced: "priced cs g = Inr a \<Longrightarrow> wf_sel a"
  by (auto simp: priced_def named_once_def wf_sel_def named_def image_image case_prod_beta
      split: if_splits)

lemma res_map_pairs:
  "res_map (\<lambda>s. bindr (f s) (\<lambda>r. Inr (s, g s r))) xs = Inr ps \<Longrightarrow> map fst ps = xs"
  by (induction xs arbitrary: ps) (auto simp: res_simps)

lemma res_map_nth:
  "res_map f xs = Inr ys \<Longrightarrow> i < length xs \<Longrightarrow> f (xs ! i) = Inr (ys ! i)"
  by (auto simp: res_map_Inr_iff list_all2_conv_all_nth)

lemma wf_key_pairs:
  "map fst ps = xs \<Longrightarrow> distinct xs \<Longrightarrow> dwf (dict_of ps) \<and> fst ` set (dict_of ps) = set xs"
  by (metis dkeys_dict_of dwf_dict_of set_map)

lemma wf_annotated:
  assumes "wf_sel a" "annotated r a = Inr b"
  shows "wf_sel b \<and> named b = named a"
proof -
  from assms(2) obtain ps where "map fst ps = named a" and b: "b = a\<lparr>sel_key := Some (dict_of ps)\<rparr>"
    by (auto simp: annotated_def res_simps dest!: res_map_pairs)
  with wf_key_pairs assms(1) show ?thesis by (fastforce simp: wf_sel_def named_def)
qed

lemma sources_update [simp]: "named (a\<lparr>sources := Some xs\<rparr>) = xs"
  by (simp add: named_def)

lemma only_named: "only kept a = Inr b \<Longrightarrow> named b = kept \<and> set kept \<subseteq> set (named a)"
  by (auto simp: only_def named_def res_simps split: option.splits if_splits)

text \<open>A cut keeps each source's key, and everything else of the selection.\<close>

lemma only_pairs:
  "res_map (\<lambda>s. bindr (dindex k s) (\<lambda>d. Inr (s, d))) kept = Inr ps \<Longrightarrow>
     map fst ps = kept \<and> (\<forall>(s, d) \<in> set ps. map_of k s = Some d)"
  by (induction kept arbitrary: ps) (auto simp: res_simps dindex_def split: option.splits)

lemma wf_only:
  assumes "only kept a = Inr b" "distinct kept"
  shows "wf_sel b"
proof (cases "sel_key a")
  case None
  with assms show ?thesis by (auto simp: only_def wf_sel_def named_def split: option.splits if_splits)
next
  case (Some k)
  with assms(1) obtain ps where "map fst ps = kept"
    and b: "b = a\<lparr>sources := Some kept, sel_key := Some (dict_of ps)\<rparr>"
    by (auto simp: only_def res_simps dest!: only_pairs split: option.splits if_splits)
  with wf_key_pairs [OF this(1) assms(2)] assms(2) show ?thesis by (simp add: wf_sel_def named_def)
qed

lemma only_key:
  assumes "only kept a = Inr b" "sel_key a = Some k" "distinct kept"
  shows "\<exists>k'. sel_key b = Some k' \<and> (\<forall>s \<in> set kept. map_of k' s = map_of k s)"
proof -
  from assms obtain ps where ps: "map fst ps = kept" "\<forall>(s, d) \<in> set ps. map_of k s = Some d"
    and b: "sel_key b = Some (dict_of ps)"
    by (auto simp: only_def res_simps dest!: only_pairs split: option.splits if_splits)
  then have "dict_of ps = ps" "distinct (map fst ps)" using assms(3) dict_of_distinct by auto
  moreover have "map_of ps s = map_of k s" if "s \<in> set kept" for s
    using ps that \<open>distinct (map fst ps)\<close> by (force simp: case_prod_beta)
  ultimately show ?thesis using b by auto
qed

lemma only_rest: "only kept a = Inr b \<Longrightarrow> ready b = ready a \<and> sel_fold b = sel_fold a"
  by (auto simp: only_def res_simps split: option.splits if_splits)

text \<open>On a well-formed selection a cut to its own sources never raises.\<close>

lemma only_total:
  assumes "wf_sel a" "sources a = Some mine" "set kept \<subseteq> set mine"
  shows "\<exists>b. only kept a = Inr b"
proof (cases "sel_key a")
  case None
  with assms show ?thesis by (auto simp: only_def)
next
  case (Some k)
  have "fst ` set k = set mine" using assms Some by (auto simp: wf_sel_def named_def)
  then have "\<And>s. s \<in> set kept \<Longrightarrow> \<exists>d. map_of k s = Some d"
    using assms(3) by (metis map_of_None_iff not_None_eq set_map subsetD)
  then have "res_map (\<lambda>s. bindr (dindex k s) (\<lambda>d. Inr (s, d))) kept = Inr (map (\<lambda>s. (s, the (map_of k s))) kept)"
    by (intro res_map_total) (force simp: dindex_def)
  with assms Some show ?thesis by (auto simp: only_def)
qed

lemma wf_take: "wf_sel a \<Longrightarrow> take_n n a = Inr b \<Longrightarrow> wf_sel b \<and> named b = take n (named a)"
  unfolding take_n_def using only_named wf_only by (metis distinct_take wf_sel_def)

lemma wf_require: "wf_sel a \<Longrightarrow> require ok a = Inr b \<Longrightarrow> wf_sel b"
  by (auto simp: require_def split: option.splits list.splits if_splits)

subsection \<open>What the ordering links do\<close>

definition before :: "('v::linorder, 'h, 'g) selection \<Rightarrow> 'v \<Rightarrow> 'v \<Rightarrow> bool" where
  "before a s t = (case comparable a s of Inl _ \<Rightarrow> False | Inr x \<Rightarrow>
     (case comparable a t of Inl _ \<Rightarrow> False | Inr y \<Rightarrow> tuple_less x y = Inr True))"

lemma tuple_less_irrefl [simp]: "tuple_less x x = Inr False"
proof -
  have "tuple_less (xs, s) (xs, s) = Inr False" for xs :: "'a dim list" and s :: 'b
  proof (induction xs)
    case (Cons x xs)
    then show ?case by (cases x) auto
  qed simp
  then show ?thesis by (cases x) simp
qed

lemma before_trans: "before a s t \<Longrightarrow> before a t u \<Longrightarrow> before a s u"
  by (auto simp: before_def split: sum.splits intro: tuple_less_trans)

lemma before_asym: "before a s t \<Longrightarrow> \<not> before a t s"
  by (auto simp: before_def split: sum.splits dest: tuple_less_flip)

lemma comparable_id: "comparable a s = Inr c \<Longrightarrow> snd c = s"
  by (auto simp: comparable_def res_simps split: option.splits)

lemma comparables_ids:
  "res_map (comparable a) xs = Inr cs \<Longrightarrow> map snd cs = xs \<and> (\<forall>c \<in> set cs. comparable a (snd c) = Inr c)"
proof (induction xs arbitrary: cs)
  case (Cons x xs)
  then obtain c cs' where c: "comparable a x = Inr c" "res_map (comparable a) xs = Inr cs'" "cs = c # cs'"
    by (auto simp: res_simps)
  with Cons.IH [OF c(2)] comparable_id [OF c(1)] show ?case by auto
qed simp

lemma ordered_cases:
  assumes "wf_sel a" "ordered a = Inr b"
  obtains (same) "no_order a" "b = a"
  | (sort) cs zs where "\<not> no_order a" "res_map (comparable a) (named a) = Inr cs"
      "sort_res tuple_less cs = Inr zs" "b = a\<lparr>sources := Some (map snd zs)\<rparr>"
      "distinct (map snd cs)" "map snd cs = named a"
proof (cases "no_order a")
  case True
  then have "b = a" using assms(2) by (simp add: ordered_def)
  then show ?thesis by (rule same [OF True])
next
  case False
  with assms(2) obtain cs zs where cs: "res_map (comparable a) (named a) = Inr cs"
    "sort_res tuple_less cs = Inr zs" "b = a\<lparr>sources := Some (map snd zs)\<rparr>"
    by (auto simp: ordered_def res_simps)
  have ids: "map snd cs = named a" using comparables_ids [OF cs(1)] by simp
  have dist: "distinct (named a)" using assms(1) by (simp add: wf_sel_def)
  show ?thesis by (rule sort [OF False cs]) (simp_all add: ids dist)
qed

lemma ordered_perm:
  assumes "wf_sel a" "ordered a = Inr b"
  shows "mset (named b) = mset (named a) \<and> sel_key b = sel_key a \<and> ready b = ready a"
  using assms
proof (cases rule: ordered_cases)
  case (sort cs zs)
  have "mset (map snd zs) = mset (map snd cs)"
    using tuple_order.sort_res_mset [OF sort(3)] by simp
  with sort show ?thesis by simp
qed simp

lemma wf_ordered:
  assumes "wf_sel a" "ordered a = Inr b"
  shows "wf_sel b"
proof -
  from ordered_perm [OF assms] have m: "mset (named b) = mset (named a)" and k: "sel_key b = sel_key a"
    by auto
  show ?thesis
    using assms(1) mset_eq_imp_distinct_iff [OF m] mset_eq_setD [OF m]
    by (cases "sel_key a") (simp_all add: wf_sel_def k)
qed

lemma ordered_sorted:
  assumes "wf_sel a" "ordered a = Inr b" "\<not> no_order a"
  shows "sorted_wrt (before a) (named b)"
  using assms(1,2)
proof (cases rule: ordered_cases)
  case (sort cs zs)
  have "sorted_wrt (\<lambda>x y. tuple_less x y = Inr True) zs"
    using tuple_order.sort_res_ordered [OF sort(3,5)] .
  moreover have "\<forall>c \<in> set zs. comparable a (snd c) = Inr c"
    using comparables_ids [OF sort(2)] tuple_order.sort_res_set [OF sort(3)] by auto
  ultimately have "sorted_wrt (\<lambda>x y. before a (snd x) (snd y)) zs"
    by (elim sorted_wrt_mono_rel [rotated]) (auto simp: before_def)
  with sort show ?thesis by (simp add: sorted_wrt_map)
qed (use assms in simp)

lemma best_least:
  assumes "wf_sel a" "best a = Inr b" "\<not> no_order a"
  obtains m where "only [m] a = Inr b" "named b = [m]" "m \<in> set (named a)"
    "\<And>s. s \<in> set (named a) \<Longrightarrow> s = m \<or> before a m s"
proof -
  from assms obtain cs m where cs: "res_map (comparable a) (named a) = Inr cs"
    and m: "min_from tuple_less (List.hd cs) (tl cs) = Inr m" and b: "only [snd m] a = Inr b"
    by (auto simp: best_def no_order_def res_simps split: list.splits)
  have ids: "map snd cs = named a" "\<forall>c \<in> set cs. comparable a (snd c) = Inr c"
    using comparables_ids [OF cs] by auto
  then have "cs \<noteq> []" using assms(3) by (auto simp: no_order_def)
  then have c: "List.hd cs # tl cs = cs" by simp
  have "distinct (map snd cs)" using ids(1) assms(1) by (simp add: wf_sel_def)
  then have "m \<in> set cs \<and> (\<forall>x \<in> set cs. x = m \<or> tuple_less m x = Inr True)"
    using tuple_order.min_from_least [OF m] unfolding c by blast
  then have least: "m \<in> set cs" "\<And>x. x \<in> set cs \<Longrightarrow> x = m \<or> tuple_less m x = Inr True" by auto
  have "s = snd m \<or> before a (snd m) s" if s: "s \<in> set (named a)" for s
  proof -
    from s ids(1) obtain x where "x \<in> set cs" "s = snd x" by (metis imageE set_map)
    with least ids(2) show ?thesis by (fastforce simp: before_def)
  qed
  moreover have "snd m \<in> set (named a)" using least(1) ids(1) by (metis image_eqI set_map)
  ultimately show thesis using that b only_named [OF b] by blast
qed

lemma wf_best: "wf_sel a \<Longrightarrow> best a = Inr b \<Longrightarrow> wf_sel b"
  by (auto simp: best_def res_simps split: list.splits if_splits intro: wf_only)

text \<open>The single best source is the front of the ordered answer: one pass, not a sort.\<close>

lemma best_of_ordered:
  assumes wf: "wf_sel a" and ord: "ordered a = Inr b" and no: "\<not> no_order a"
  shows "\<exists>c. best a = Inr c \<and> head c = head b \<and> named c = take 1 (named b)"
  using wf ord
proof (cases rule: ordered_cases)
  case (sort cs zs)
  have "cs \<noteq> []" using sort(6) no by (auto simp: no_order_def)
  then obtain c0 cs' where cs: "cs = c0 # cs'" by (cases cs) auto
  obtain m ms where zs: "zs = m # ms"
    using tuple_order.sort_res_set [OF sort(3)] cs by (cases zs) auto
  have "min_from tuple_less c0 cs' = Inr m"
    by (rule tuple_order.min_from_sort [where ms = ms]) (use sort(3,5) cs zs in simp_all)
  moreover have src: "snd m \<in> set (named a)"
    using tuple_order.sort_res_set [OF sort(3)] zs sort(6) by (metis image_eqI list.set_intros(1) set_map)
  moreover obtain mine where "sources a = Some mine" using no by (auto simp: no_order_def named_def split: option.splits)
  ultimately obtain c where "best a = Inr c" "only [snd m] a = Inr c"
    using only_total [OF wf, of mine "[snd m]"] no sort cs
    by (auto simp: best_def no_order_def named_def split: list.splits)
  with only_named [of "[snd m]" a c] zs sort(4) show ?thesis by (auto simp: head_def)
qed (use no in simp)

lemma bounded_named:
  assumes "wf_sel a" "bounded bound a = Inr b" "sel_key a = Some k"
  shows "named b = filter (\<lambda>s. \<exists>d. map_of k s = Some d \<and> bound d = Inr True) (named a) \<and> wf_sel b"
proof (cases "abstains a")
  case True
  with assms show ?thesis by (auto simp: bounded_def abstains_def named_def)
next
  case False
  with assms obtain bs where bs: "res_map (\<lambda>s. bindr (dindex k s) bound) (named a) = Inr bs"
    and b: "only (map fst (filter snd (zip (named a) bs))) a = Inr b"
    by (auto simp: bounded_def key_or_empty_def res_simps)
  have "map fst (filter snd (zip xs bs)) = filter (\<lambda>s. \<exists>d. map_of k s = Some d \<and> bound d = Inr True) xs"
    if "res_map (\<lambda>s. bindr (dindex k s) bound) xs = Inr bs" for xs bs
    using that
    by (induction xs arbitrary: bs) (auto simp: res_simps dindex_def split: option.splits)
  with bs have f: "map fst (filter snd (zip (named a) bs)) =
    filter (\<lambda>s. \<exists>d. map_of k s = Some d \<and> bound d = Inr True) (named a)" by blast
  with b wf_only [OF b] only_named [OF b] assms(1) show ?thesis by (simp add: wf_sel_def)
qed

end
