(* ===== verification/Selectors.thy ===== *)
theory Selectors
  imports Selection
begin

section \<open>Chains of rankings\<close>

text \<open>
  The selectors and combinators of \<^verbatim>\<open>proposed/selector.py\<close>. A selector is what a caller can see
  of one: the subject it takes, the sensor types it reads, and \<^verbatim>\<open>select\<close>, which answers from the
  environment and sensors it is attached to (\<open>'s\<close>), a subject and a requester.
\<close>

record ('s, 'q, 'v, 'h, 'g) selector =
  subject_type :: "string option"
  senses :: "string list"
  select :: "'s \<Rightarrow> 'q \<Rightarrow> vid \<Rightarrow> ('v, 'h, 'g) selection res"

text \<open>\<open>None\<close> as a subject type is \<^verbatim>\<open>Any\<close>.\<close>

definition declares :: "string list \<Rightarrow> ('s, 'q, 'v, 'h, 'g) selector \<Rightarrow> string list" where
  "declares own base = uniq (own @ senses base)"

definition NaiveKeySelector :: "('s, 'q, 'v, 'h, 'g) selector" where
  "NaiveKeySelector = \<lparr>subject_type = Some ''keys'', senses = [], select = \<lambda>s q r. Inr universe\<rparr>"

definition Const :: "('v, 'h, 'g) selection \<Rightarrow> ('s, 'q, 'v, 'h, 'g) selector" where
  "Const answer = \<lparr>subject_type = None, senses = [], select = \<lambda>s q r. Inr answer\<rparr>"

text \<open>The loop of \<^verbatim>\<open>FirstMatch.select\<close>: stop at the first answer that does not abstain.\<close>

fun first_answer ::
  "('s, 'q, 'v, 'h, 'g) selector list \<Rightarrow> ('v, 'h, 'g) selection \<Rightarrow> 's \<Rightarrow> 'q \<Rightarrow> vid \<Rightarrow>
     ('v, 'h, 'g) selection res" where
  "first_answer [] answer s q r = Inr answer"
| "first_answer (l # ls) answer s q r =
     bindr (select l s q r) (\<lambda>a.
       let answer' = otherwise a answer
       in if \<not> abstains answer' then Inr answer' else first_answer ls answer' s q r)"

definition FirstMatch ::
  "('s, 'q, 'v, 'h, 'g) selector list \<Rightarrow> ('s, 'q, 'v, 'h, 'g) selector res" where
  "FirstMatch ls =
     (case uniq (map subject_type ls) of
        [] \<Rightarrow> Inr \<lparr>subject_type = None, senses = [], select = first_answer ls abstain\<rparr>
      | [t] \<Rightarrow> Inr \<lparr>subject_type = t, senses = [], select = first_answer ls abstain\<rparr>
      | _ \<Rightarrow> Inl TypeError)"

definition Annotate ::
  "('s \<Rightarrow> 'q \<Rightarrow> ('v \<Rightarrow> 'h dim res) res) \<Rightarrow> string list \<Rightarrow>
     ('s, 'q, 'v, 'h, 'g) selector \<Rightarrow> ('s, 'q, 'v, 'h, 'g) selector" where
  "Annotate readings own ranking =
     \<lparr>subject_type = subject_type ranking, senses = declares own ranking,
      select = \<lambda>s q r. bindr (select ranking s q r) (\<lambda>a.
        if named a = [] then Inr a
        else bindr (readings s q) (\<lambda>f. annotated f a))\<rparr>"

definition load_at :: "('s \<Rightarrow> ('v \<times> int) list) \<Rightarrow> 's \<Rightarrow> 'q \<Rightarrow> ('v \<Rightarrow> 'h dim res) res" where
  "load_at load s q = Inr (\<lambda>v. Inr (Num (of_int (dget (load s) v 0))))"

text \<open>\<^verbatim>\<open>LoadSensor.named()\<close> is the attached sensor's: the argument \<open>load\<close>.\<close>

definition Balance ::
  "('s \<Rightarrow> ('v \<times> int) list) \<Rightarrow> ('s, 'q, 'v, 'h, 'g) selector \<Rightarrow> ('s, 'q, 'v, 'h, 'g) selector" where
  "Balance load = Annotate (load_at load) [''LoadSensor'']"

definition Lift ::
  "(('v, 'h, 'g) selection \<Rightarrow> ('v, 'h, 'g) selection res) \<Rightarrow>
     ('s, 'q, 'v, 'h, 'g) selector \<Rightarrow> ('s, 'q, 'v, 'h, 'g) selector" where
  "Lift endo ranking =
     \<lparr>subject_type = subject_type ranking, senses = declares [] ranking,
      select = \<lambda>s q r. bindr (select ranking s q r) endo\<rparr>"

definition stamp :: "'h fold_fn option \<Rightarrow> ('v, 'h, 'g) selection \<Rightarrow> ('v, 'h, 'g) selection res" where
  "stamp f a = Inr (a\<lparr>sel_fold := f\<rparr>)"

type_synonym ('s, 'q, 'v, 'h, 'g) stage =
  "('s, 'q, 'v, 'h, 'g) selector \<Rightarrow> ('s, 'q, 'v, 'h, 'g) selector"

definition WithFold :: "'h fold_fn option \<Rightarrow> ('s, 'q, 'v, 'h, 'g) stage" where
  "WithFold f = Lift (stamp f)"

definition Ordered :: "('s, 'q, 'v::linorder, 'h, 'g) stage" where
  "Ordered = Lift ordered"

definition Best :: "('s, 'q, 'v::linorder, 'h, 'g) stage" where
  "Best = Lift best"

definition Bounded :: "('h dim list \<Rightarrow> bool res) \<Rightarrow> ('s, 'q, 'v, 'h, 'g) stage" where
  "Bounded bound = Lift (bounded bound)"

definition pipe ::
  "('s, 'q, 'v, 'h, 'g) selector \<Rightarrow> ('s, 'q, 'v, 'h, 'g) stage list \<Rightarrow> ('s, 'q, 'v, 'h, 'g) selector" where
  "pipe base stages = foldl (\<lambda>b stage. stage b) base stages"

lemmas link_defs = Lift_def WithFold_def Ordered_def Best_def Bounded_def Annotate_def Balance_def

subsection \<open>The monoid of answers and of chains\<close>

lemma abstains_abstain [simp]: "abstains abstain"
  by (simp add: abstains_def abstain_def)

lemma otherwise_abstain [simp]: "otherwise abstain b = b"
  by (simp add: otherwise_def)

lemma otherwise_assoc: "otherwise (otherwise a b) c = otherwise a (otherwise b c)"
  by (simp add: otherwise_def)

lemma abstains_otherwise [simp]: "abstains (otherwise a b) \<longleftrightarrow> abstains a \<and> abstains b"
  by (simp add: otherwise_def)

text \<open>
  What a chain answers with: the first link's answer that names somebody or everybody, with
  every link before it asked and none after; all of them abstaining, the last abstention kept
  is the seed.
\<close>

lemma first_answer_append:
  "first_answer (ls @ ms) seed s q r =
     bindr (first_answer ls seed s q r) (\<lambda>a. if abstains a \<or> ls = [] then first_answer ms a s q r else Inr a)"
  by (induction ls arbitrary: seed) (auto simp: Let_def bindr_def split: sum.splits)

lemma first_answer_seed:
  "abstains seed \<Longrightarrow> first_answer ls seed s q r = Inr a \<Longrightarrow> abstains a \<Longrightarrow> a = seed"
  by (induction ls arbitrary: seed) (auto simp: Let_def res_simps otherwise_def split: if_splits)

lemma first_answer_split:
  assumes "first_answer ls seed s q r = Inr a" "abstains seed" "\<not> abstains a"
  shows "\<exists>pre l post. ls = pre @ l # post \<and> select l s q r = Inr a \<and>
           (\<forall>m \<in> set pre. \<exists>b. select m s q r = Inr b \<and> abstains b)"
  using assms
proof (induction ls arbitrary: seed)
  case Nil
  then show ?case by simp
next
  case (Cons l ls)
  then obtain b where b: "select l s q r = Inr b" by (auto simp: res_simps)
  show ?case
  proof (cases "abstains b")
    case True
    with Cons.prems b have "first_answer ls seed s q r = Inr a" by (simp add: otherwise_def)
    from Cons.IH [OF this Cons.prems(2,3)] obtain pre l' post where
      "ls = pre @ l' # post" "select l' s q r = Inr a" "\<forall>m \<in> set pre. \<exists>b. select m s q r = Inr b \<and> abstains b"
      by blast
    with True b show ?thesis by (intro exI [of _ "l # pre"]) auto
  next
    case False
    with Cons.prems b have "a = b" by (simp add: otherwise_def)
    with b show ?thesis by (intro exI [of _ "[]"]) auto
  qed
qed

lemma pipe_append: "pipe base (xs @ ys) = pipe (pipe base xs) ys"
  by (simp add: pipe_def)

lemma pipe_Nil [simp]: "pipe base [] = base"
  by (simp add: pipe_def)

lemma pipe_Cons [simp]: "pipe base (x # xs) = pipe (x base) xs"
  by (simp add: pipe_def)

lemma select_Lift [simp]: "select (Lift f l) s q r = bindr (select l s q r) f"
  by (simp add: Lift_def)

lemma select_stages [simp]:
  "select (WithFold f l) s q r = bindr (select l s q r) (stamp f)"
  "select (Ordered l) s q r = bindr (select l s q r) ordered"
  "select (Best l) s q r = bindr (select l s q r) best"
  "select (Bounded b l) s q r = bindr (select l s q r) (bounded b)"
  by (simp_all add: WithFold_def Ordered_def Best_def Bounded_def)

subsection \<open>Every link keeps a ranking well-formed\<close>

text \<open>What each operation on an answer promises a chain of links: \<open>endo\<close> keeps coverage.\<close>

locale link =
  fixes endo :: "('v, 'h, 'g) selection \<Rightarrow> ('v, 'h, 'g) selection res"
  assumes keeps: "wf_sel a \<Longrightarrow> endo a = Inr b \<Longrightarrow> wf_sel b"
    and names_only: "wf_sel a \<Longrightarrow> endo a = Inr b \<Longrightarrow> set (named b) \<subseteq> set (named a)"
    and gate_rides: "endo a = Inr b \<Longrightarrow> ready b = ready a"
begin

lemma select_wf:
  "(\<And>a. select l s q r = Inr a \<Longrightarrow> wf_sel a) \<Longrightarrow> select (Lift endo l) s q r = Inr b \<Longrightarrow> wf_sel b"
  by (auto simp: res_simps intro: keeps)

lemma select_named:
  "select l s q r = Inr a \<Longrightarrow> wf_sel a \<Longrightarrow> select (Lift endo l) s q r = Inr b \<Longrightarrow>
     set (named b) \<subseteq> set (named a) \<and> ready b = ready a"
  by (auto dest: names_only gate_rides)

end

lemma best_rest: "best a = Inr b \<Longrightarrow> set (named b) \<subseteq> set (named a) \<and> ready b = ready a"
  using only_named only_rest
  by (fastforce simp: best_def res_simps split: list.splits if_splits)

lemma bounded_rest: "bounded bound a = Inr b \<Longrightarrow> set (named b) \<subseteq> set (named a) \<and> ready b = ready a"
  using only_named only_rest
  by (fastforce simp: bounded_def res_simps split: if_splits)

lemma wf_bounded:
  assumes "wf_sel a" "bounded bound a = Inr b"
  shows "wf_sel b"
proof (cases "abstains a")
  case True
  with assms show ?thesis by (simp add: bounded_def)
next
  case False
  with assms(2) obtain bs where "only (map fst (filter snd (zip (named a) bs))) a = Inr b"
    by (auto simp: bounded_def res_simps)
  moreover have "distinct (map fst (filter snd (zip (named a) bs)))"
    using assms(1) by (simp add: wf_sel_def distinct_map_filter map_fst_zip_take)
  ultimately show ?thesis by (rule wf_only)
qed

lemma stamp_rest:
  assumes "stamp f a = Inr b"
  shows "named b = named a" "sel_key b = sel_key a" "ready b = ready a" "wf_sel a \<Longrightarrow> wf_sel b"
proof -
  from assms have b: "b = a\<lparr>sel_fold := f\<rparr>" by (simp add: stamp_def)
  then show *: "named b = named a" "sel_key b = sel_key a" "ready b = ready a"
    by (simp_all add: named_def)
  then show "wf_sel a \<Longrightarrow> wf_sel b" by (cases "sel_key a") (simp_all add: wf_sel_def)
qed

interpretation stamp_link: link "stamp f" for f
  by unfold_locales (auto simp: stamp_rest)

interpretation best_link: link best
  by unfold_locales (auto intro: wf_best dest: best_rest)

interpretation bounded_link: link "bounded bound" for bound
  by unfold_locales (auto intro: wf_bounded dest: bounded_rest)

interpretation ordered_link: link ordered
proof unfold_locales
  fix a b :: "('a, 'b, 'c) selection"
  show "wf_sel a \<Longrightarrow> ordered a = Inr b \<Longrightarrow> wf_sel b" by (rule wf_ordered)
  show "wf_sel a \<Longrightarrow> ordered a = Inr b \<Longrightarrow> set (named b) \<subseteq> set (named a)"
    using ordered_perm mset_eq_setD by fastforce
  show "ordered a = Inr b \<Longrightarrow> ready b = ready a"
    by (auto simp: ordered_def res_simps split: if_splits)
qed

text \<open>A chain of the four stages over a well-formed base is well-formed at its end.\<close>

inductive chain_stage :: "('s, 'q, 'v::linorder, 'h, 'g) stage \<Rightarrow> bool" where
  "chain_stage (WithFold f)"
| "chain_stage Ordered"
| "chain_stage Best"
| "chain_stage (Bounded bound)"

lemma chain_stage_wf:
  assumes "chain_stage st" "\<And>a. select l s q r = Inr a \<Longrightarrow> wf_sel a" "select (st l) s q r = Inr b"
  shows "wf_sel b"
  using assms
  by cases (auto simp: res_simps intro: stamp_link.keeps best_link.keeps bounded_link.keeps ordered_link.keeps)

lemma chain_stage_named:
  assumes "chain_stage st" "select l s q r = Inr a" "wf_sel a" "select (st l) s q r = Inr b"
  shows "set (named b) \<subseteq> set (named a) \<and> ready b = ready a"
  using assms
  by cases (use stamp_link.names_only stamp_link.gate_rides best_rest bounded_rest
    ordered_link.names_only ordered_link.gate_rides in fastforce)+

lemma chain_stage_strict:
  "chain_stage st \<Longrightarrow> select l s q r = Inl e \<Longrightarrow> select (st l) s q r = Inl e"
  by (induction rule: chain_stage.induct) simp_all

text \<open>C7: a chain of fold, ordering, cutting and bounding stages over a ranking that covers its
  own sources answers with a ranking that covers its own, names only sources the base named
  and carries the base's readiness gate.\<close>

theorem pipe_invariant:
  assumes "\<forall>st \<in> set stages. chain_stage st"
    and "select base s q r = Inr a" and "wf_sel a" and "select (pipe base stages) s q r = Inr b"
  shows "wf_sel b \<and> set (named b) \<subseteq> set (named a) \<and> ready b = ready a"
  using assms
proof (induction stages arbitrary: base a)
  case Nil
  then show ?case by simp
next
  case (Cons st stages)
  then have st: "chain_stage st" by simp
  obtain c where c: "select (st base) s q r = Inr c"
  proof (cases "select (st base) s q r")
    case (Inl e)
    have "select (pipe base' sts) s q r = Inl e"
      if "\<forall>st \<in> set sts. chain_stage st" "select base' s q r = Inl e" for base' sts
      using that by (induction sts arbitrary: base') (auto simp: chain_stage_strict)
    from this [of stages "st base"] Cons.prems Inl show ?thesis by simp
  qed (rule that)
  have "wf_sel c" using chain_stage_wf [OF st _ c] Cons.prems(2,3) by simp
  with Cons.IH [OF _ c] Cons.prems chain_stage_named [OF st Cons.prems(2,3) c] show ?case by auto
qed

subsection \<open>Ordering, cutting, bounding\<close>

text \<open>\<^verbatim>\<open>Ordered\<close> permutes the sources into strictly ascending order of what the stages below
  measured (the fold's figure, or the dimensions as they stand, the id last), and moves neither
  key nor gate.\<close>

theorem ordered_link_sorts:
  assumes "select l s q r = Inr a" "wf_sel a" "\<not> no_order a" "select (Ordered l) s q r = Inr b"
  shows "mset (named b) = mset (named a) \<and> sorted_wrt (before a) (named b) \<and>
         sel_key b = sel_key a \<and> ready b = ready a"
  using assms ordered_perm ordered_sorted by auto

text \<open>The one-pass \<^verbatim>\<open>Best\<close> answers with exactly the source \<^verbatim>\<open>Ordered\<close> puts in front, with that
  source's key and the gate intact.\<close>

theorem best_link_is_front:
  assumes "select l s q r = Inr a" "wf_sel a" "\<not> no_order a" "select (Ordered l) s q r = Inr b"
  shows "\<exists>c m. select (Best l) s q r = Inr c \<and> head b = Some m \<and> named c = [m] \<and>
    map_of (key_or_empty c) m = map_of (key_or_empty a) m \<and> ready c = ready a"
proof -
  have ord: "ordered a = Inr b" using assms(1,4) by simp
  from best_of_ordered [OF assms(2) ord assms(3)] obtain c where
    c: "best a = Inr c" "head c = head b" "named c = take 1 (named b)" by blast
  from best_least [OF assms(2) c(1) assms(3)] obtain m where m: "only [m] a = Inr c" "named c = [m]"
    by metis
  obtain k where k: "sel_key a = Some k" using assms(3) by (auto simp: no_order_def)
  from only_key [OF m(1) k] obtain k' where k': "sel_key c = Some k'" "map_of k' m = map_of k m" by auto
  have "head b = Some m" using c(2) m(2) by (simp add: head_def)
  moreover have "select (Best l) s q r = Inr c" using assms(1) c(1) by simp
  moreover have "map_of (key_or_empty c) m = map_of (key_or_empty a) m"
    using k k' by (simp add: key_or_empty_def)
  ultimately show ?thesis using m(2) best_rest [OF c(1)] by blast
qed

text \<open>What a bound leaves: the sources inside it, each compared as before.\<close>

abbreviation inside :: "('v \<times> 'h dim list) list \<Rightarrow> ('h dim list \<Rightarrow> bool res) \<Rightarrow> 'v \<Rightarrow> bool" where
  "inside k bound x \<equiv> \<exists>d. map_of k x = Some d \<and> bound d = Inr True"

lemma bounded_view:
  assumes wf: "wf_sel a" and key: "sel_key a = Some k" and b: "bounded bound a = Inr b"
  shows "named b = filter (inside k bound) (named a)" and "wf_sel b"
    and "x \<in> set (named b) \<Longrightarrow> comparable b x = comparable a x"
    and "sel_key b \<noteq> None"
proof -
  show n: "named b = filter (inside k bound) (named a)" and wfb: "wf_sel b"
    using bounded_named [OF wf b key] by auto
  from b have "b = a \<or> (\<exists>kept. only kept a = Inr b)"
    by (auto simp: bounded_def res_simps split: if_splits)
  then have same: "sel_fold b = sel_fold a \<and>
      (\<exists>k1. sel_key b = Some k1 \<and> (\<forall>x \<in> set (named b). map_of k1 x = map_of k x))"
  proof
    assume "b = a"
    with key show ?thesis by simp
  next
    assume "\<exists>kept. only kept a = Inr b"
    then obtain kept where o: "only kept a = Inr b" ..
    have "named b = kept" "distinct kept" using only_named [OF o] wfb by (auto simp: wf_sel_def)
    with only_key [OF o key] only_rest [OF o] show ?thesis by auto
  qed
  then show "sel_key b \<noteq> None" by auto
  show "x \<in> set (named b) \<Longrightarrow> comparable b x = comparable a x"
    using same key by (auto simp: comparable_def key_or_empty_def dindex_def)
qed

text \<open>C5: a bound the ordering is monotone in (a source before one inside it is inside it)
  admits the same winner below the cut and above it.\<close>

theorem bounded_below_above:
  assumes sel: "select l s q r = Inr a" and wf: "wf_sel a" and key: "sel_key a = Some k"
    and mono: "\<And>x y. before a x y \<Longrightarrow> inside k bound y \<Longrightarrow> inside k bound x"
    and below: "select (Best (Bounded bound l)) s q r = Inr b"
    and above: "select (Bounded bound (Best l)) s q r = Inr c"
  shows "named b = named c"
proof (cases "named a = []")
  case True
  from below sel obtain a1 where "bounded bound a = Inr a1" "best a1 = Inr b" by (auto simp: res_simps)
  with True have "named b = []" using bounded_rest [of bound a a1] best_rest [of a1 b] by auto
  moreover from above sel obtain a2 where "best a = Inr a2" "bounded bound a2 = Inr c"
    by (auto simp: res_simps)
  with True have "named c = []" using best_rest [of a a2] bounded_rest [of bound a2 c] by auto
  ultimately show ?thesis by simp
next
  case False
  from below sel obtain a1 where a1: "bounded bound a = Inr a1" "best a1 = Inr b" by (auto simp: res_simps)
  from above sel obtain a2 where a2: "best a = Inr a2" "bounded bound a2 = Inr c" by (auto simp: res_simps)
  have no: "\<not> no_order a" using False key by (simp add: no_order_def)
  obtain m where m: "only [m] a = Inr a2" "named a2 = [m]" "m \<in> set (named a)"
    "\<And>x. x \<in> set (named a) \<Longrightarrow> x = m \<or> before a m x"
    by (rule best_least [OF wf a2(1) no]) blast
  obtain k2 where k2: "sel_key a2 = Some k2" "map_of k2 m = map_of k m"
    using only_key [OF m(1) key] by auto
  have c: "named c = (if inside k bound m then [m] else [])"
    using bounded_named [OF wf_best [OF wf a2(1)] a2(2) k2(1)] m(2) k2(2) by auto
  note view = bounded_view [OF wf key a1(1)]
  show ?thesis
  proof (cases "named a1 = []")
    case True
    then have "\<not> inside k bound m" using view(1) m(3) by (simp add: filter_empty_conv)
    moreover have "named b = []" using best_rest [OF a1(2)] True by simp
    ultimately show ?thesis using c by simp
  next
    case False
    then have im: "inside k bound m"
      using view(1) m(4) mono by (fastforce simp: filter_empty_conv)
    have no1: "\<not> no_order a1" using False view(4) by (simp add: no_order_def)
    obtain m1 where m1: "named b = [m1]" "m1 \<in> set (named a1)"
      "\<And>x. x \<in> set (named a1) \<Longrightarrow> x = m1 \<or> before a1 m1 x"
      by (rule best_least [OF view(2) a1(2) no1]) blast
    have "m \<in> set (named a1)" using m(3) im view(1) by simp
    with m1(3) have "m = m1 \<or> before a1 m1 m" by blast
    then have "m = m1 \<or> before a m1 m"
      unfolding before_def view(3) [OF m1(2)] view(3) [OF \<open>m \<in> set (named a1)\<close>] .
    moreover have "m1 = m \<or> before a m m1" using m(4) m1(2) view(1) by auto
    ultimately have "m1 = m" using before_asym by metis
    with m1(1) c im show ?thesis by simp
  qed
qed

subsection \<open>Chains of alternatives\<close>

text \<open>A \<^verbatim>\<open>FirstMatch\<close> answers with the first link's answer that does not abstain, exactly as
  that link built it; when it abstains every link does.\<close>

theorem first_match_first:
  assumes "FirstMatch ls = Inr chain" and "select chain s q r = Inr a"
  shows "if abstains a then a = abstain \<and> (\<forall>l \<in> set ls. \<exists>b. select l s q r = Inr b \<and> abstains b)
    else \<exists>pre l post. ls = pre @ l # post \<and> select l s q r = Inr a \<and>
      (\<forall>m \<in> set pre. \<exists>b. select m s q r = Inr b \<and> abstains b)"
proof -
  have fa: "first_answer ls abstain s q r = Inr a"
    using assms by (auto simp: FirstMatch_def split: list.splits)
  have all: "\<forall>l \<in> set ls. \<exists>b. select l s q r = Inr b \<and> abstains b" if "abstains a"
  proof -
    have "first_answer ls seed s q r = Inr a \<Longrightarrow> abstains seed \<Longrightarrow> abstains a \<Longrightarrow>
      \<forall>l \<in> set ls. \<exists>b. select l s q r = Inr b \<and> abstains b" for seed
      by (induction ls arbitrary: seed) (auto simp: Let_def res_simps otherwise_def split: if_splits)
    with fa that show ?thesis by simp
  qed
  show ?thesis
    using first_answer_seed [OF _ fa] first_answer_split [OF fa] all by auto
qed

lemma first_answer_nested:
  assumes "abstains seed" and f: "\<And>seed. abstains seed \<Longrightarrow>
      bindr (select f s q r) (\<lambda>a. Inr (otherwise a seed)) = first_answer xs seed s q r"
  shows "first_answer (f # ms) seed s q r = first_answer (xs @ ms) seed s q r"
proof -
  have "first_answer (f # ms) seed s q r =
      bindr (bindr (select f s q r) (\<lambda>a. Inr (otherwise a seed)))
        (\<lambda>a. if abstains a then first_answer ms a s q r else Inr a)"
    by (auto simp: Let_def bindr_def split: sum.splits)
  also have "\<dots> = first_answer (xs @ ms) seed s q r"
    using assms by (cases "xs = []") (auto simp: f first_answer_append)
  finally show ?thesis .
qed

text \<open>Nesting does not show: a chain holding a chain answers, errors included, as the one
  chain with the inner links in its place does.\<close>

theorem first_match_flattens:
  assumes "FirstMatch xs = Inr inner" and "FirstMatch (ls @ inner # ms) = Inr nested"
    and "FirstMatch (ls @ xs @ ms) = Inr flat"
  shows "select nested s q r = select flat s q r"
proof -
  have run: "FirstMatch ks = Inr c \<Longrightarrow> select c = first_answer ks abstain" for ks c
    by (auto simp: FirstMatch_def split: list.splits)
  have "bindr (first_answer xs abstain s q r) (\<lambda>a. Inr (otherwise a seed)) = first_answer xs seed s q r"
    if "abstains seed" for seed
  proof -
    have "abstains seed' \<Longrightarrow> bindr (first_answer xs seed' s q r)
        (\<lambda>a. Inr (if abstains a then seed else a)) = first_answer xs seed s q r" for seed'
      using that
      by (induction xs arbitrary: seed') (auto simp: Let_def bindr_def otherwise_def split: sum.splits)
    from this [of abstain] show ?thesis by (simp add: otherwise_def)
  qed
  then have nest: "first_answer (inner # ms) seed s q r = first_answer (xs @ ms) seed s q r"
    if "abstains seed" for seed
    using first_answer_nested [OF that, where f = inner and xs = xs] run [OF assms(1)] by simp
  have "first_answer (ls @ inner # ms) seed s q r = first_answer (ls @ xs @ ms) seed s q r"
    if "abstains seed" for seed
    using that nest
    by (induction ls arbitrary: seed) (auto simp: Let_def bindr_def otherwise_def split: sum.splits)
  then show ?thesis using run [OF assms(2)] run [OF assms(3)] by simp
qed

subsection \<open>The theorems at work\<close>

text \<open>Three hosts keyed at two figures; the fold reads the second.\<close>

definition demo :: "(vid, unit, unit) selection" where
  "demo = \<lparr>sources = Some [''c'', ''a'', ''b''],
           sel_key = Some [(''c'', [Num 1, Num 5]), (''a'', [Num 2, Num 3]), (''b'', [Num 3, Num 3])],
           ready = None, sel_fold = Some (\<lambda>d. case d of [_, Num y] \<Rightarrow> Inr [y] | _ \<Rightarrow> Inl IndexError)\<rparr>"

definition demo_bound :: "unit dim list \<Rightarrow> bool res" where
  "demo_bound d = (case d of [_, Num y] \<Rightarrow> Inr (y \<le> 4) | _ \<Rightarrow> Inl IndexError)"

lemma wf_demo: "wf_sel demo"
  by (auto simp: wf_sel_def demo_def named_def)

lemmas demo_eval = demo_def named_def ordered_def best_def bounded_def no_order_def comparable_def
  key_or_empty_def dindex_def only_def abstains_def dict_of_def demo_bound_def

lemma demo_ordered: "ordered demo = Inr (demo\<lparr>sources := Some [''a'', ''b'', ''c'']\<rparr>)"
  by (simp add: demo_eval)

lemma select_Const [simp]: "select (Const a) s q r = Inr a"
  by (simp add: Const_def)

definition demo_cut :: "(vid, unit, unit) selection" where
  "demo_cut = demo\<lparr>sources := Some [''a''], sel_key := Some [(''a'', [Num 2, Num 3])]\<rparr>"

lemma demo_bounded:
  "bounded demo_bound demo = Inr (demo\<lparr>sources := Some [''a'', ''b''],
     sel_key := Some [(''a'', [Num 2, Num 3]), (''b'', [Num 3, Num 3])]\<rparr>)"
  by (auto simp: demo_eval)

lemma demo_bounded_best: "bindr (bounded demo_bound demo) best = Inr demo_cut"
  unfolding demo_bounded by (simp add: demo_eval demo_cut_def)

lemma demo_best: "best demo = Inr demo_cut"
  by (simp add: demo_eval demo_cut_def)

lemma demo_best_bounded: "bindr (best demo) (bounded demo_bound) = Inr demo_cut"
  unfolding demo_best by (auto simp: demo_eval demo_cut_def)

lemma demo_has_order: "\<not> no_order demo"
  by (simp add: demo_eval)

abbreviation demo_base :: "(unit, unit, vid, unit, unit) selector" where
  "demo_base \<equiv> Const demo"

lemma pipe_invariant_witness:
  "wf_sel demo_cut \<and> set (named demo_cut) \<subseteq> set (named demo)"
proof -
  have "select (pipe demo_base [Bounded demo_bound, Best]) () () ''r'' = Inr demo_cut"
    using demo_bounded_best by simp
  from pipe_invariant [OF _ select_Const wf_demo this] show ?thesis
    by (auto intro: chain_stage.intros)
qed

lemma ordered_link_sorts_witness:
  "sorted_wrt (before demo) [''a'', ''b'', ''c'']"
  using ordered_link_sorts [of demo_base "()" "()" "''r''", OF select_Const wf_demo demo_has_order] demo_ordered
  by simp

lemma best_link_is_front_witness:
  "\<exists>c. select (Best demo_base) () () ''r'' = Inr c \<and> named c = [''a'']"
  using best_link_is_front [of demo_base "()" "()" "''r''", OF select_Const wf_demo demo_has_order] demo_ordered
  by (auto simp: head_def)

lemma demo_monotone:
  assumes "before demo x y" "inside (the (sel_key demo)) demo_bound y"
  shows "inside (the (sel_key demo)) demo_bound x"
  using assms
  by (auto simp: demo_eval before_def split: if_splits sum.splits option.splits)

lemma bounded_below_above_witness:
  "\<exists>b c. select (Best (Bounded demo_bound demo_base)) () () ''r'' = Inr b \<and>
     select (Bounded demo_bound (Best demo_base)) () () ''r'' = Inr c \<and> named b = named c"
proof -
  have k: "sel_key demo = Some (the (sel_key demo))" by (simp add: demo_def)
  have b: "select (Best (Bounded demo_bound demo_base)) () () ''r'' = Inr demo_cut"
    and c: "select (Bounded demo_bound (Best demo_base)) () () ''r'' = Inr demo_cut"
    using demo_bounded_best demo_best_bounded by simp_all
  from bounded_below_above [OF select_Const wf_demo k demo_monotone b c] b c show ?thesis by blast
qed

abbreviation nobody :: "(unit, unit, vid, unit, unit) selector" where
  "nobody \<equiv> Const abstain"

lemma demo_chain:
  "\<exists>c. FirstMatch [nobody, demo_base, nobody] = Inr c \<and> select c () () ''r'' = Inr demo"
  by (simp add: FirstMatch_def Const_def otherwise_def abstains_def abstain_def demo_def)

lemma first_match_first_witness:
  "\<exists>pre l post. [nobody, demo_base, nobody] = pre @ l # post \<and> select l () () ''r'' = Inr demo"
proof -
  from demo_chain obtain c where
    c: "FirstMatch [nobody, demo_base, nobody] = Inr c" "select c () () ''r'' = Inr demo" by blast
  from first_match_first [OF c] show ?thesis by (auto simp: demo_def abstains_def split: if_splits)
qed

lemma first_match_flattens_witness:
  "\<exists>inner nested. FirstMatch [demo_base] = Inr inner \<and> FirstMatch [nobody, inner] = Inr nested \<and>
     select nested () () ''r'' = Inr demo"
proof -
  obtain inner where i: "FirstMatch [demo_base] = Inr inner" by (simp add: FirstMatch_def)
  then have "subject_type inner = None" by (auto simp: FirstMatch_def Const_def)
  then obtain nested where n: "FirstMatch [nobody, inner] = Inr nested"
    by (simp add: FirstMatch_def Const_def)
  obtain flat where f: "FirstMatch [nobody, demo_base] = Inr flat" by (simp add: FirstMatch_def Const_def)
  have "select flat () () ''r'' = Inr demo"
    using f by (auto simp: FirstMatch_def Const_def otherwise_def abstains_def abstain_def demo_def)
  with first_match_flattens [OF i, of "[nobody]" "[]" nested flat] n f i show ?thesis by auto
qed

end
