(* ===== verification/KvSelectors.thy ===== *)
theory KvSelectors
  imports KvSensors Selectors
begin

section \<open>The rankings of KV-cache routing\<close>

text \<open>
  \<^verbatim>\<open>kvcache_sim/control/_selector.py\<close>. What a selector is attached to is one value: the sensors'
  state, the environment and its clock, and the directory with the pin of the decision in
  progress. The one dimension a stage holds rather than measures is a \<open>plan\<close>; no ranking here
  carries a gate.
\<close>

record 'i kv_view =
  v_sensors :: kv_state
  v_env :: environment
  v_now :: time
  v_dir :: "'i directory"
  v_pin :: "'i dir_sensor"

type_synonym answer = "(vid, plan, unit) selection"
type_synonym ('i, 'q) kv_selector = "('i kv_view, 'q, vid, plan, unit) selector"

definition keys_subject :: "string option" where
  "keys_subject = Some ''Sequence[Key]''"

subsection \<open>Over keys\<close>

definition longest_prefix_select :: "'i kv_view \<Rightarrow> key list \<Rightarrow> vid \<Rightarrow> answer res" where
  "longest_prefix_select v ks requester =
     bindr (locate (v_dir v) (v_pin v) ks) (\<lambda>located.
       let counts = prefix_lengths_of located ks
       in if counts = [] then Inr abstain
          else keyed (map (\<lambda>(inst, run). (inst, [Num (- real run)])) counts) None)"

definition LongestPrefixKeySelector :: "('i, key list) kv_selector" where
  "LongestPrefixKeySelector =
     \<lparr>subject_type = keys_subject, senses = [''DirectorySensor''], select = longest_prefix_select\<rparr>"

definition by_prefix_and_load :: "real \<Rightarrow> plan fold_fn" where
  "by_prefix_and_load bound dims =
     (case dims of [Num run, Num load] \<Rightarrow> Inr [run + min load bound, load] | _ \<Rightarrow> Inl ValueError)"

definition LocalOnly :: "('i, key list) kv_selector" where
  "LocalOnly = \<lparr>subject_type = keys_subject, senses = [], select = \<lambda>v ks r. Inr abstain\<rparr>"

definition routed_pull_select :: "'i kv_view \<Rightarrow> key list \<Rightarrow> vid \<Rightarrow> answer res" where
  "routed_pull_select v ks requester =
     sel_of (case routed_peer (routed_pulls (v_sensors v)) requester ks of None \<Rightarrow> [] | Some p \<Rightarrow> [p]) None"

definition RoutedPull :: "('i, key list) kv_selector" where
  "RoutedPull =
     \<lparr>subject_type = keys_subject, senses = [''RoutedPullSensor''], select = routed_pull_select\<rparr>"

subsection \<open>Pricing the prefill pool\<close>

record prefill_ask =
  ask_request :: request
  ask_now :: time
  ask_keys :: "key list"
  ask_counts :: "(vid \<times> nat) list"
  ask_peer :: answer

record pricing =
  p_instances :: "vid list"
  p_block_tokens :: int
  p_profile :: machine_profile
  p_model :: model
  p_threshold :: real

definition worth_pulling :: "(vid \<times> nat) list \<Rightarrow> vid \<Rightarrow> real \<Rightarrow> vid \<Rightarrow> bool" where
  "worth_pulling counts inst threshold head_id \<longleftrightarrow>
     real (dget counts inst 0) * threshold < real (dget counts head_id 0)"

text \<open>\<^verbatim>\<open>keys[a:b]\<close> for indices that are not negative.\<close>

definition slice :: "nat \<Rightarrow> nat \<Rightarrow> 'a list \<Rightarrow> 'a list" where
  "slice a b xs = drop a (take b xs)"

definition priced_reuse ::
  "(vid \<times> nat) list \<Rightarrow> key list \<Rightarrow> vid \<Rightarrow> answer \<Rightarrow> (nat \<times> vid option \<times> key list) res" where
  "priced_reuse counts ks inst peer =
     (let local = dget counts inst 0 in
      case head peer of
        None \<Rightarrow> Inr (local, None, [])
      | Some src \<Rightarrow>
          if src = inst then Inr (local, None, [])
          else bindr (dindex counts src) (\<lambda>n. Inr (n, Some src, slice local n ks)))"

definition predict ::
  "'i kv_view \<Rightarrow> vid \<Rightarrow> time \<Rightarrow> time \<Rightarrow> time \<Rightarrow> (time \<times> time \<times> time) res" where
  "predict v inst now transfer_t prefill_dur =
     bindr (dindex (busy_until (cluster (v_sensors v))) inst) (\<lambda>busy.
       let avail = max now busy; done = avail + transfer_t + prefill_dur
       in Inr (avail - now, done - now, done))"

definition candidate ::
  "pricing \<Rightarrow> 'i kv_view \<Rightarrow> request \<Rightarrow> vid \<Rightarrow> time \<Rightarrow> nat \<Rightarrow> vid option \<Rightarrow> key list \<Rightarrow> plan res" where
  "candidate c v req inst now match source pull =
     (let cached = min (int match * p_block_tokens c) (prompt_tokens req);
          uncached = prompt_tokens req - cached
      in bindr (prefill_time uncached (p_profile c) (p_model c)) (\<lambda>prefill_dur.
         bindr
           (case source of
              None \<Rightarrow> Inr (None, 0, 0)
            | Some src \<Rightarrow>
                if pull = [] then Inr (None, 0, 0)
                else let xbytes = block_bytes (p_model c) (int (length pull)) (p_block_tokens c)
                     in bindr (env_read_time (v_env v) src inst xbytes) (\<lambda>t. Inr (Some src, xbytes, t)))
           (\<lambda>(src, xbytes, transfer_t).
         bindr (predict v inst now transfer_t prefill_dur) (\<lambda>(wait, first, done).
           Inr \<lparr>match_blocks = int match, cached_tokens = cached, uncached_tokens = uncached,
                reuse_source = src, transfer_bytes = xbytes, queue_wait = wait, ttft = first,
                done_time = done, prefill_t = prefill_dur, pull_keys = pull\<rparr>))))"

definition price_plan :: "pricing \<Rightarrow> 'i kv_view \<Rightarrow> prefill_ask \<Rightarrow> vid \<Rightarrow> plan res" where
  "price_plan c v ask inst =
     bindr (require (worth_pulling (ask_counts ask) inst (p_threshold c)) (ask_peer ask)) (\<lambda>peer.
     bindr (priced_reuse (ask_counts ask) (ask_keys ask) inst peer) (\<lambda>(match, src, pull).
     candidate c v (ask_request ask) inst (ask_now ask) match src pull))"

definition priced_select :: "pricing \<Rightarrow> 'i kv_view \<Rightarrow> prefill_ask \<Rightarrow> vid \<Rightarrow> answer res" where
  "priced_select c v ask requester =
     bindr (sel_of (p_instances c) None)
       (annotated (\<lambda>inst. bindr (price_plan c v ask inst) (\<lambda>p. Inr (Held p))))"

definition Priced :: "pricing \<Rightarrow> ('i, prefill_ask) kv_selector" where
  "Priced c = \<lparr>subject_type = Some ''PrefillAsk'', senses = [''ClusterSensor''], select = priced_select c\<rparr>"

subsection \<open>The decode pool\<close>

record decoding =
  dc_instances :: "vid list"
  dc_tbt_enabled :: bool
  dc_lookahead :: bool
  dc_profile :: machine_profile
  dc_model :: model

text \<open>One reservation's test: it lands by then and its own decode is not over by then.\<close>

definition still_decoding :: "decoding \<Rightarrow> vid \<Rightarrow> time \<Rightarrow> reservation \<Rightarrow> bool res" where
  "still_decoding c d done r =
     (if decode_id r = d \<and> prefill_done r \<le> done
      then bindr (decode_step_time 1 (dc_profile c) (dc_model c)) (\<lambda>step.
             Inr (done < prefill_done r + of_int (max 0 (res_output_tokens r - 1)) * step))
      else Inr False)"

definition predicted_batch :: "decoding \<Rightarrow> 'i kv_view \<Rightarrow> vid \<Rightarrow> time \<Rightarrow> nat res" where
  "predicted_batch c v d done =
     (if \<not> dc_tbt_enabled c then Inr 0
      else if \<not> dc_lookahead c then occupancy (cluster (v_sensors v)) d
      else bindr (predict_occupancy (cluster (v_sensors v)) d done) (\<lambda>n.
           bindr (res_map (still_decoding c d done) (pending (reserved (v_sensors v)) (v_now v))) (\<lambda>bs.
             Inr (n + length (filter id bs)))))"

definition decode_select :: "decoding \<Rightarrow> 'i kv_view \<Rightarrow> plan \<Rightarrow> vid \<Rightarrow> answer res" where
  "decode_select c v p requester =
     bindr (sel_of (dc_instances c) None)
       (annotated (\<lambda>d. bindr (predicted_batch c v d (done_time p)) (\<lambda>n. Inr (Num (real n)))))"

definition DecodeBatch :: "decoding \<Rightarrow> ('i, plan) kv_selector" where
  "DecodeBatch c =
     \<lparr>subject_type = Some ''Plan'',
      senses = ''ClusterSensor'' # (if dc_lookahead c then [''ReservationSensor''] else []),
      select = decode_select c\<rparr>"

subsection \<open>What a ranking over a pool answers with\<close>

text \<open>
  A pool annotated with one reading each: every instance of the pool, in its order, keyed at
  exactly what was measured of it.
\<close>

lemma pool_select:
  assumes "bindr (sel_of pool None) (annotated f) = Inr (a :: answer)"
  shows "wf_sel a \<and> named a = pool \<and> sel_fold a = None \<and> ready a = None \<and>
    (\<exists>k. sel_key a = Some k \<and> (\<forall>s \<in> set pool. \<exists>r. f s = Inr r \<and> map_of k s = Some [r]))"
proof -
  from assms obtain b where b: "sel_of pool None = Inr b" and a: "annotated f b = Inr a"
    by (auto simp: res_simps)
  have b': "b = \<lparr>sources = Some pool, sel_key = None, ready = None, sel_fold = None\<rparr>" and d: "distinct pool"
    using b by (auto simp: sel_of_def named_once_def split: if_splits)
  have n: "named b = pool" by (simp add: b' named_def)
  from a n obtain ps where ps: "res_map (\<lambda>s. bindr (f s) (\<lambda>r. Inr (s, [r]))) pool = Inr ps"
    and a': "a = b\<lparr>sel_key := Some (dict_of ps)\<rparr>"
    by (auto simp: annotated_def key_or_empty_def b' res_simps)
  have fst: "map fst ps = pool" using ps by (rule res_map_pairs)
  then have dict: "dict_of ps = ps" using d dict_of_distinct by metis
  have "\<exists>r. f s = Inr r \<and> map_of ps s = Some [r]" if "s \<in> set pool" for s
    using ps that d
  proof (induction pool arbitrary: ps)
    case (Cons x xs)
    then obtain r ps' where r: "f x = Inr r" "ps = (x, [r]) # ps'"
      "res_map (\<lambda>s. bindr (f s) (\<lambda>r. Inr (s, [r]))) xs = Inr ps'"
      by (auto simp: res_simps)
    with Cons.IH [OF r(3)] Cons.prems show ?case by auto
  qed simp
  moreover have "wf_sel a" using wf_annotated [OF wf_sel_of [OF b] a] by simp
  ultimately show ?thesis using n wf_annotated [OF wf_sel_of [OF b] a] by (simp add: a' b' dict)
qed

lemma priced_pool:
  assumes "select (Priced c) v ask r = Inr a"
  shows "wf_sel a \<and> named a = p_instances c \<and> sel_fold a = None \<and> ready a = None \<and>
    (\<exists>k. sel_key a = Some k \<and>
      (\<forall>s \<in> set (p_instances c). \<exists>p. price_plan c v ask s = Inr p \<and> map_of k s = Some [Held p]))"
  using pool_select [of "p_instances c" _ a] assms
  by (fastforce simp: Priced_def priced_select_def res_simps)

lemma decode_pool:
  assumes "select (DecodeBatch c) v p r = Inr a"
  shows "wf_sel a \<and> named a = dc_instances c \<and> sel_fold a = None \<and> ready a = None \<and>
    (\<exists>k. sel_key a = Some k \<and>
      (\<forall>s \<in> set (dc_instances c). \<exists>n. predicted_batch c v s (done_time p) = Inr n \<and>
         map_of k s = Some [Num (real n)]))"
  using pool_select [of "dc_instances c" _ a] assms
  by (fastforce simp: DecodeBatch_def decode_select_def res_simps)

lemma longest_prefix_wf: "select LongestPrefixKeySelector v ks r = Inr a \<Longrightarrow> wf_sel a"
  by (auto simp: LongestPrefixKeySelector_def longest_prefix_select_def res_simps Let_def
      intro: wf_keyed split: if_splits)

lemma longest_prefix_requester:
  "select LongestPrefixKeySelector v ks r = select LongestPrefixKeySelector v ks r'"
  by (simp add: LongestPrefixKeySelector_def longest_prefix_select_def)

text \<open>What a plan says of itself: no source without keys to pull, and time only moves forward.\<close>

lemma candidate_plan:
  assumes "candidate c v req inst now match source pull = Inr p"
  shows "pull_keys p = pull" and "match_blocks p = int match"
    and "reuse_source p = (if pull = [] then None else source)"
    and "cached_tokens p + uncached_tokens p = prompt_tokens req"
    and "done_time p = now + ttft p" and "0 \<le> queue_wait p"
    and "\<exists>busy. map_of (busy_until (cluster (v_sensors v))) inst = Some busy \<and> busy \<le> now + queue_wait p"
  using assms
  by (auto simp: candidate_def predict_def Let_def res_simps dindex_def split: option.splits if_splits prod.splits)

lemma price_plan_source:
  assumes "price_plan c v ask inst = Inr p" "reuse_source p = Some src"
  shows "pull_keys p \<noteq> []"
proof -
  from assms(1) obtain m s pull where
    c: "candidate c v (ask_request ask) inst (ask_now ask) m s pull = Inr p"
    by (auto simp: price_plan_def res_simps)
  from candidate_plan(1,3) [OF c] assms(2) show ?thesis by (auto split: if_splits)
qed

end
