(* ===== verification/KvScheduler.thy ===== *)
theory KvScheduler
  imports KvSelectors
begin

section \<open>The scheduler: one plane, two presets\<close>

text \<open>
  \<^verbatim>\<open>kvcache_sim/control/scheduler.py\<close>. A decision is two selections: the prefill hosts, one chain
  priced; the decode hosts, another ranked against the winner among them. The chains are the
  combinators of \<open>Selectors\<close> over the rankings of \<open>KvSelectors\<close>, declared as \<^verbatim>\<open>attach\<close> declares
  them.
\<close>

datatype reuse = PEERS | NONE
datatype rank = TTFT | LOAD
datatype source_axis = PREFIX | SPREAD
datatype occupancy_mode = EARLY | PREDICT

record knobs =
  k_reuse :: reuse
  k_rank :: rank
  k_threshold :: real
  k_source :: source_axis
  k_block_tokens :: int
  k_profile :: machine_profile
  k_model :: model
  k_decode_pool :: "vid list"
  k_prefill_pool :: "vid list"
  k_slo_ttft :: ext
  k_slo_tbt :: ext
  k_simulate_decode :: bool
  k_early_rejection :: occupancy_mode

definition lookahead :: "knobs \<Rightarrow> bool" where
  "lookahead k \<longleftrightarrow> k_simulate_decode k \<and> k_early_rejection k = PREDICT"

subsection \<open>Folds and bounds\<close>

definition by_ttft :: "plan fold_fn" where
  "by_ttft dims =
     (case dims of [] \<Rightarrow> Inl IndexError
      | Held p # _ \<Rightarrow> Inr [ttft p]
      | _ \<Rightarrow> Inl AttributeError)"

definition by_queue :: "plan fold_fn" where
  "by_queue dims =
     (case dims of _ # Num q # _ \<Rightarrow> Inr [q]
      | _ # _ # _ \<Rightarrow> Inl TypeError
      | _ \<Rightarrow> Inl IndexError)"

definition ttft_at_most :: "ext \<Rightarrow> plan dim list \<Rightarrow> bool res" where
  "ttft_at_most slo dims =
     (case dims of [] \<Rightarrow> Inl IndexError
      | Held p # _ \<Rightarrow> Inr (at_most (ttft p) slo)
      | _ \<Rightarrow> Inl AttributeError)"

definition pred_tbt_of :: "int \<Rightarrow> machine_profile \<Rightarrow> model \<Rightarrow> bool \<Rightarrow> time res" where
  "pred_tbt_of batch profile m enabled =
     (if \<not> enabled then Inr 0 else decode_step_time (batch + 1) profile m)"

definition tbt_at_most :: "ext \<Rightarrow> machine_profile \<Rightarrow> model \<Rightarrow> bool \<Rightarrow> plan dim list \<Rightarrow> bool res" where
  "tbt_at_most slo profile m enabled dims =
     (case dims of [] \<Rightarrow> Inl IndexError
      | Num b # _ \<Rightarrow> bindr (pred_tbt_of \<lfloor>b\<rfloor> profile m enabled) (\<lambda>t. Inr (at_most t slo))
      | _ \<Rightarrow> Inl TypeError)"

definition busy_at :: "'i kv_view \<Rightarrow> 'q \<Rightarrow> (vid \<Rightarrow> plan dim res) res" where
  "busy_at v q = Inr (\<lambda>inst. bindr (dindex (busy_until (cluster (v_sensors v))) inst) (\<lambda>t. Inr (Num t)))"

subsection \<open>The four chains\<close>

definition source_ranking :: "source_axis \<Rightarrow> ('i, key list) kv_selector" where
  "source_ranking s =
     (case s of
        SPREAD \<Rightarrow> pipe (Balance (\<lambda>v. load_named (v_sensors v)) LongestPrefixKeySelector)
                    [WithFold (Some (by_prefix_and_load 1))]
      | PREFIX \<Rightarrow> LongestPrefixKeySelector)"

definition reuse_chain :: "knobs \<Rightarrow> ('i, key list) kv_selector" where
  "reuse_chain k = pipe (if k_reuse k = PEERS then source_ranking (k_source k) else LocalOnly) [Best]"

definition fetch_chain :: "knobs \<Rightarrow> ('i, key list) kv_selector res" where
  "fetch_chain k =
     bindr (FirstMatch [RoutedPull, source_ranking (k_source k)]) (\<lambda>f. Inr (pipe f [Ordered]))"

record scheduler =
  s_knobs :: knobs
  s_env :: environment
  prefill_ids :: "vid list"
  decode_ids :: "vid list"
  s_sensors :: kv_state
  placed :: "(string \<times> response) list"

definition pricing_of :: "scheduler \<Rightarrow> pricing" where
  "pricing_of s =
     (let k = s_knobs s in
      \<lparr>p_instances = prefill_ids s, p_block_tokens = k_block_tokens k, p_profile = k_profile k,
       p_model = k_model k, p_threshold = k_threshold k\<rparr>)"

definition decoding_of :: "scheduler \<Rightarrow> decoding" where
  "decoding_of s =
     (let k = s_knobs s in
      \<lparr>dc_instances = decode_ids s, dc_tbt_enabled = k_simulate_decode k,
       dc_lookahead = lookahead k, dc_profile = k_profile k, dc_model = k_model k\<rparr>)"

definition prefill_chain :: "scheduler \<Rightarrow> ('i, prefill_ask) kv_selector" where
  "prefill_chain s =
     (let k = s_knobs s; priced = Priced (pricing_of s) in
      if k_rank k = LOAD
      then pipe (Annotate busy_at [''ClusterSensor''] priced)
             [WithFold (Some by_queue), Best, Bounded (ttft_at_most (k_slo_ttft k))]
      else pipe priced
             [WithFold (Some by_ttft), Bounded (ttft_at_most (k_slo_ttft k)), Best])"

definition decode_chain :: "scheduler \<Rightarrow> ('i, plan) kv_selector" where
  "decode_chain s =
     (let k = s_knobs s in
      pipe (DecodeBatch (decoding_of s))
        [Bounded (tbt_at_most (k_slo_tbt k) (k_profile k) (k_model k) (k_simulate_decode k)), Best])"

text \<open>
  \<^verbatim>\<open>attach\<close>: every instance of the topology, sorted; a preset that named no pool ranks all of
  them; fresh sensors.
\<close>

definition scheduler_attach :: "knobs \<Rightarrow> environment \<Rightarrow> scheduler" where
  "scheduler_attach k env =
     (let ids = sort (dkeys (env_topology env));
          pool = (\<lambda>named. if named = [] then ids else sort named)
      in \<lparr>s_knobs = k, s_env = env, prefill_ids = pool (k_prefill_pool k),
          decode_ids = pool (k_decode_pool k), s_sensors = kv_state_init ids, placed = []\<rparr>)"

definition LoadBalance :: "knobs \<Rightarrow> knobs" where
  "LoadBalance k = k\<lparr>k_reuse := NONE, k_rank := LOAD\<rparr>"

definition CacheAware :: "bool \<Rightarrow> knobs \<Rightarrow> knobs" where
  "CacheAware may_pull k = k\<lparr>k_reuse := (if may_pull then PEERS else NONE), k_rank := TTFT\<rparr>"

subsection \<open>What a serving host asks\<close>

definition view_of :: "scheduler \<Rightarrow> 'i directory \<Rightarrow> time \<Rightarrow> 'i dir_sensor \<Rightarrow> 'i kv_view" where
  "view_of s dir now d =
     \<lparr>v_sensors = s_sensors s, v_env = s_env s, v_now = now, v_dir = dir, v_pin = d\<rparr>"

definition serve_sources ::
  "scheduler \<Rightarrow> 'i directory \<Rightarrow> time \<Rightarrow> key list \<Rightarrow> vid \<Rightarrow> (scheduler \<times> answer) res" where
  "serve_sources s dir now ks requester =
     bindr (fetch_chain (s_knobs s)) (\<lambda>chain.
     bindr (select chain (view_of s dir now dir_sensor_init) ks requester) (\<lambda>a.
       case kv_dispatch (kv_reducers (lookahead (s_knobs s))) (FetchAnswered requester ks) (s_sensors s) of
         (st, Some e) \<Rightarrow> Inl e
       | (st, None) \<Rightarrow> Inr (s\<lparr>s_sensors := st\<rparr>, settled a)))"

text \<open>\<^verbatim>\<open>answer.key[source][0]\<close>.\<close>

definition first_dim :: "answer \<Rightarrow> vid \<Rightarrow> plan dim res" where
  "first_dim a src =
     bindr (dindex (key_or_empty a) src) (\<lambda>dims. case dims of [] \<Rightarrow> Inl IndexError | d # _ \<Rightarrow> Inr d)"

text \<open>
  The two selections of \<^verbatim>\<open>decide\<close>, under one pinned read of the directory: \<open>None\<close> is a refusal,
  and nothing is written on the way.
\<close>

definition pose_ask ::
  "scheduler \<Rightarrow> 'i kv_view \<Rightarrow> request \<Rightarrow> time \<Rightarrow> vid \<Rightarrow> prefill_ask res" where
  "pose_ask s v req now requester =
     (let ks = block_keys req in
      bindr (locate (v_dir v) (v_pin v) ks) (\<lambda>located.
      bindr (select (reuse_chain (s_knobs s)) v ks requester) (\<lambda>peer.
        Inr \<lparr>ask_request = req, ask_now = now, ask_keys = ks,
             ask_counts = prefix_lengths_of located ks, ask_peer = peer\<rparr>)))"

definition pick_decode :: "scheduler \<Rightarrow> 'i kv_view \<Rightarrow> vid \<Rightarrow> plan \<Rightarrow> vid \<Rightarrow> response option res" where
  "pick_decode s v host p requester =
     bindr (select (decode_chain s) v p requester) (\<lambda>decode.
       if abstains decode then Inr None
       else (case head decode of
         None \<Rightarrow> Inl TypeError
       | Some inst \<Rightarrow>
           bindr (first_dim decode inst) (\<lambda>dim.
             (case dim of
               Num b \<Rightarrow>
                 bindr (pred_tbt_of \<lfloor>b\<rfloor> (k_profile (s_knobs s)) (k_model (s_knobs s))
                    (k_simulate_decode (s_knobs s))) (\<lambda>t.
                   Inr (Some \<lparr>prefill_host = host, decode_host = inst, resp_plan = p, pred_tbt = t\<rparr>))
             | _ \<Rightarrow> Inl TypeError))))"

definition settle ::
  "scheduler \<Rightarrow> 'i directory \<Rightarrow> time \<Rightarrow> request \<Rightarrow> vid \<Rightarrow> response option res" where
  "settle s dir now req requester =
     bindr (pin dir (block_keys req) dir_sensor_init) (\<lambda>d.
     let v = view_of s dir now d in
     bindr (pose_ask s v req now requester) (\<lambda>ask.
     bindr (select (prefill_chain s) v ask requester) (\<lambda>prefill.
       if abstains prefill then Inr None
       else (case head prefill of
         None \<Rightarrow> Inl KeyError
       | Some host \<Rightarrow>
           bindr (first_dim prefill host) (\<lambda>dim.
             (case dim of Held p \<Rightarrow> pick_decode s v host p requester | _ \<Rightarrow> Inl AttributeError))))))"

text \<open>An accepted decision is booked at once, and remembered when it moves the request.\<close>

definition book :: "scheduler \<Rightarrow> request \<Rightarrow> vid \<Rightarrow> response \<Rightarrow> scheduler res" where
  "book s req requester r =
     (case kv_dispatch (kv_reducers (lookahead (s_knobs s))) (Committed r (output_tokens req)) (s_sensors s) of
        (st, Some e) \<Rightarrow> Inl e
      | (st, None) \<Rightarrow>
          Inr (s\<lparr>s_sensors := st,
                 placed := (if prefill_host r \<noteq> requester then AList.update (req_id req) r (placed s)
                            else placed s)\<rparr>))"

definition decide ::
  "scheduler \<Rightarrow> 'i directory \<Rightarrow> time \<Rightarrow> request \<Rightarrow> vid \<Rightarrow> (scheduler \<times> response option) res" where
  "decide s dir now req requester =
     (case map_of (placed s) (req_id req) of
        Some r \<Rightarrow> Inr (s\<lparr>placed := AList.delete (req_id req) (placed s)\<rparr>, Some r)
      | None \<Rightarrow>
          bindr (settle s dir now req requester) (\<lambda>answer.
            case answer of
              None \<Rightarrow> Inr (s, None)
            | Some r \<Rightarrow> bindr (book s req requester r) (\<lambda>s'. Inr (s', Some r))))"

subsection \<open>What an accepted decision is\<close>

lemmas chain_defs = prefill_chain_def decode_chain_def pricing_of_def decoding_of_def

lemma book_total: "\<exists>s'. book s req requester r = Inr s'"
  by (simp add: book_def kv_committed)

lemma settle_Some:
  assumes "settle s dir now req requester = Inr (Some r)"
  obtains d ask prefill decode b where
    "pin dir (block_keys req) dir_sensor_init = Inr d"
    "pose_ask s (view_of s dir now d) req now requester = Inr ask"
    "select (prefill_chain s) (view_of s dir now d) ask requester = Inr prefill"
    "head prefill = Some (prefill_host r)"
    "first_dim prefill (prefill_host r) = Inr (Held (resp_plan r))"
    "select (decode_chain s) (view_of s dir now d) (resp_plan r) requester = Inr decode"
    "head decode = Some (decode_host r)"
    "first_dim decode (decode_host r) = Inr (Num b)"
    "pred_tbt_of \<lfloor>b\<rfloor> (k_profile (s_knobs s)) (k_model (s_knobs s)) (k_simulate_decode (s_knobs s)) = Inr (pred_tbt r)"
proof -
  from assms obtain d where d: "pin dir (block_keys req) dir_sensor_init = Inr d"
    by (auto simp: settle_def res_simps)
  let ?v = "view_of s dir now d"
  from assms d obtain ask prefill where ask: "pose_ask s ?v req now requester = Inr ask"
    and prefill: "select (prefill_chain s) ?v ask requester = Inr prefill" "\<not> abstains prefill"
    by (auto simp: settle_def res_simps Let_def split: if_splits)
  from assms d ask prefill obtain host dim where host': "head prefill = Some host" "first_dim prefill host = Inr dim"
    and dim: "(case dim of Held p \<Rightarrow> pick_decode s ?v host p requester | _ \<Rightarrow> Inl AttributeError) = Inr (Some r)"
    by (auto simp: settle_def res_simps Let_def split: option.split_asm)
  then obtain p where host: "head prefill = Some host" "first_dim prefill host = Inr (Held p)"
    and pick: "pick_decode s ?v host p requester = Inr (Some r)"
    by (cases dim) auto
  from pick obtain decode where decode: "select (decode_chain s) ?v p requester = Inr decode" "\<not> abstains decode"
    by (auto simp: pick_decode_def res_simps split: if_splits)
  from pick decode obtain inst dim' where inst: "head decode = Some inst" "first_dim decode inst = Inr dim'"
    by (auto simp: pick_decode_def res_simps split: option.split_asm)
  from pick decode inst obtain b where "dim' = Num b"
    and "pred_tbt_of \<lfloor>b\<rfloor> (k_profile (s_knobs s)) (k_model (s_knobs s)) (k_simulate_decode (s_knobs s)) = Inr (pred_tbt r)"
    and r: "prefill_host r = host" "decode_host r = inst" "resp_plan r = p"
    by (cases dim') (auto simp: pick_decode_def res_simps)
  with that d ask prefill host decode inst show thesis by simp
qed

subsection \<open>What a chain that cuts to its best answers with\<close>

lemma best_minimal:
  assumes "wf_sel a" "best a = Inr b" "sel_key a = Some k" "head b = Some m"
  shows "m \<in> set (named a)" "named b = [m]" "wf_sel b"
    "map_of (key_or_empty b) m = map_of k m"
    "s \<in> set (named a) \<Longrightarrow> s = m \<or> before a m s"
proof -
  have "named a \<noteq> []"
    using assms(2,4) best_rest [OF assms(2)] by (cases "named b") (auto simp: head_def)
  then have no: "\<not> no_order a" using assms(3) by (simp add: no_order_def)
  obtain m' where m: "only [m'] a = Inr b" "named b = [m']" "m' \<in> set (named a)"
    "\<And>s. s \<in> set (named a) \<Longrightarrow> s = m' \<or> before a m' s"
    by (rule best_least [OF assms(1,2) no]) blast
  have m': "m' = m" using m(2) assms(4) by (simp add: head_def)
  obtain k' where "sel_key b = Some k'" "map_of k' m' = map_of k m'"
    using only_key [OF m(1) assms(3)] by auto
  then show "map_of (key_or_empty b) m = map_of k m" by (simp add: key_or_empty_def m')
  show "m \<in> set (named a)" "named b = [m]" "s \<in> set (named a) \<Longrightarrow> s = m \<or> before a m s"
    using m m' by auto
  show "wf_sel b" by (rule wf_best [OF assms(1,2)])
qed

lemma before_fold1:
  assumes "before a m s" "sel_fold a = Some f" "sel_key a = Some k"
    "map_of k m = Some dm" "map_of k s = Some ds" "f dm = Inr [x]" "f ds = Inr [y]"
  shows "x \<le> y \<and> (x = y \<longrightarrow> m < s)"
  using assms by (auto simp: before_def comparable_def key_or_empty_def dindex_def split: if_splits)

lemma before_plain1:
  assumes "before a m s" "sel_fold a = None" "sel_key a = Some k"
    "map_of k m = Some [Num x]" "map_of k s = Some [Num y]"
  shows "x \<le> y \<and> (x = y \<longrightarrow> m < s)"
  using assms by (auto simp: before_def comparable_def key_or_empty_def dindex_def split: if_splits)

lemma first_dim_key: "first_dim a m = Inr d \<longleftrightarrow> (\<exists>ds. map_of (key_or_empty a) m = Some (d # ds))"
  by (auto simp: first_dim_def dindex_def res_simps split: option.splits list.splits)

lemma before_same_key:
  assumes "sel_fold b = sel_fold a" "\<And>x. x \<in> {m, s} \<Longrightarrow> map_of (key_or_empty b) x = map_of (key_or_empty a) x"
  shows "before b m s = before a m s"
proof -
  have "comparable b x = comparable a x" if "x \<in> {m, s}" for x
    using assms(1) assms(2) [OF that] by (simp add: comparable_def dindex_def)
  then show ?thesis by (simp only: before_def insertI1 insertI2)
qed

lemma bounded_fold: "bounded bound a = Inr b \<Longrightarrow> sel_fold b = sel_fold a"
  by (auto simp: bounded_def res_simps dest: only_rest split: if_splits)

lemma bounded_keys:
  assumes "wf_sel a" "sel_key a = Some k" "bounded bound a = Inr b" "x \<in> set (named b)"
  shows "map_of (key_or_empty b) x = map_of k x"
proof -
  have wfb: "wf_sel b" by (rule bounded_view(2) [OF assms(1-3)])
  from assms(3) have "b = a \<or> (\<exists>kept. only kept a = Inr b)"
    by (auto simp: bounded_def res_simps split: if_splits)
  then show ?thesis
  proof
    assume "b = a"
    with assms(2) show ?thesis by (simp add: key_or_empty_def)
  next
    assume "\<exists>kept. only kept a = Inr b"
    then obtain kept where o: "only kept a = Inr b" ..
    have "named b = kept" "distinct kept" using only_named [OF o] wfb by (auto simp: wf_sel_def)
    with only_key [OF o assms(2)] assms(4) show ?thesis by (auto simp: key_or_empty_def)
  qed
qed

text \<open>A chain bounded below its cut: the winner is inside the bound and first among the inside.\<close>

lemma bounded_best_wins:
  assumes wf: "wf_sel a" and key: "sel_key a = Some k" and bb: "bounded bound a = Inr a1"
    and bs: "best a1 = Inr b" and hd: "head b = Some m"
  shows "m \<in> set (named a)" "inside k bound m" "map_of (key_or_empty b) m = map_of k m"
    "s \<in> set (named a) \<Longrightarrow> inside k bound s \<Longrightarrow> s = m \<or> before a m s"
proof -
  note view = bounded_view [OF wf key bb]
  obtain k1 where k1: "sel_key a1 = Some k1" using view(4) by auto
  note min = best_minimal [OF view(2) bs k1 hd]
  have keys: "map_of k1 x = map_of k x" if "x \<in> set (named a1)" for x
    using bounded_keys [OF wf key bb that] k1 by (simp add: key_or_empty_def)
  show "m \<in> set (named a)" "inside k bound m" using min(1) view(1) by auto
  show "map_of (key_or_empty b) m = map_of k m" using min(4) keys [OF min(1)] by simp
  show "s = m \<or> before a m s" if "s \<in> set (named a)" "inside k bound s"
  proof -
    have s: "s \<in> set (named a1)" using that view(1) by simp
    have "before a1 m s = before a m s"
      by (rule before_same_key) (use keys s min(1) key k1 bounded_fold [OF bb] in \<open>auto simp: key_or_empty_def\<close>)
    with min(5) [OF s] show ?thesis by simp
  qed
qed

text \<open>A chain bounded above its cut: the winner is first of all and inside the bound.\<close>

lemma best_bounded_wins:
  assumes wf: "wf_sel a" and key: "sel_key a = Some k" and bs: "best a = Inr a1"
    and bb: "bounded bound a1 = Inr b" and hd: "head b = Some m"
  shows "m \<in> set (named a)" "inside k bound m" "map_of (key_or_empty b) m = map_of k m"
    "s \<in> set (named a) \<Longrightarrow> s = m \<or> before a m s"
proof -
  have m1: "m \<in> set (named a1)"
    using hd bounded_rest [OF bb] by (auto simp: head_def split: list.splits)
  then have "head a1 = Some m"
    using best_rest [OF bs] wf bs key
    by (auto simp: head_def best_def no_order_def res_simps dest!: only_named split: list.splits if_splits)
  note min = best_minimal [OF wf bs key this]
  have "sel_key a1 \<noteq> None" using min(4) min(1) wf key
    by (auto simp: key_or_empty_def wf_sel_def map_of_None_iff split: option.splits) (metis map_of_None_iff set_map)
  then obtain k1 where k1: "sel_key a1 = Some k1" by auto
  note view = bounded_view [OF min(3) k1 bb]
  have "map_of k1 m = map_of k m" using min(4) k1 by (simp add: key_or_empty_def)
  moreover have "m \<in> set (named b)" using hd by (auto simp: head_def split: list.splits)
  ultimately show "inside k bound m" "map_of (key_or_empty b) m = map_of k m"
    using view(1) bounded_keys [OF min(3) k1 bb] by auto
  show "m \<in> set (named a)" "s \<in> set (named a) \<Longrightarrow> s = m \<or> before a m s" using min(1,5) by auto
qed

end
