(* ===== verification/Accelerator.thy ===== *)
theory Accelerator
  imports LlmModel
begin

section \<open>One accelerator: what it produces, and who has it\<close>

text \<open>
  \<^verbatim>\<open>kvcache_sim/workload/_accelerator.py\<close>. The device is one occupancy (\<open>busy_until\<close>) that decode
  steps and forward passes both book on, plus the single-server queue of passes. A KV block is its
  byte count, a token carries nothing (both are meta tensors). The element size of a dtype is
  torch's, an argument: \<open>None\<close> for a name that is no dtype.
\<close>

datatype token = MetaToken

record queued =
  submitted :: time
  q_tag :: string

record accelerator =
  acc_profile :: machine_profile
  acc_model :: model
  acc_block_tokens :: int
  kv_element_size :: int
  block_numel :: int
  busy_until :: time
  q_running :: bool
  q_waiting :: "queued list"

definition BLOCK_TOKENS :: int where
  "BLOCK_TOKENS = 512"

definition acc_init :: "(string \<Rightarrow> int option) \<Rightarrow> machine_profile \<Rightarrow> model \<Rightarrow> int \<Rightarrow> accelerator res" where
  "acc_init element_size profile m block_tokens =
     (case element_size (compute_dtype m) of
        None \<Rightarrow> Inl ValueError
      | Some es \<Rightarrow>
          let nbytes = block_bytes m 1 block_tokens
          in if nbytes mod es \<noteq> 0 then Inl ValueError
             else Inr \<lparr>acc_profile = profile, acc_model = m, acc_block_tokens = block_tokens,
                       kv_element_size = es, block_numel = nbytes div es, busy_until = 0,
                       q_running = False, q_waiting = []\<rparr>)"

definition block_nbytes :: "accelerator \<Rightarrow> int" where
  "block_nbytes a = block_numel a * kv_element_size a"

definition kv_blocks :: "int \<Rightarrow> accelerator \<Rightarrow> int list" where
  "kv_blocks n a = List.replicate (nat n) (block_numel a * kv_element_size a)"

text \<open>\<^verbatim>\<open>max(0, -(-tokens // block_tokens))\<close>.\<close>

definition blocks_for :: "int \<Rightarrow> accelerator \<Rightarrow> int" where
  "blocks_for tokens a = max 0 (- ((- tokens) div acc_block_tokens a))"

definition prefill_cost :: "int \<Rightarrow> accelerator \<Rightarrow> time res" where
  "prefill_cost tokens a = prefill_time tokens (acc_profile a) (acc_model a)"

definition step_cost :: "int \<Rightarrow> accelerator \<Rightarrow> time res" where
  "step_cost batch_size a = decode_step_time batch_size (acc_profile a) (acc_model a)"

subsection \<open>Booking the device\<close>

definition book_device :: "time \<Rightarrow> time \<Rightarrow> accelerator \<Rightarrow> time \<times> accelerator" where
  "book_device now cost a = (let e = max now (busy_until a) + cost in (e, a\<lparr>busy_until := e\<rparr>))"

definition claim_prefill :: "time \<Rightarrow> int \<Rightarrow> accelerator \<Rightarrow> (time \<times> accelerator) res" where
  "claim_prefill now tokens a = bindr (prefill_cost tokens a) (\<lambda>c. Inr (book_device now c a))"

definition claim_step :: "time \<Rightarrow> int \<Rightarrow> accelerator \<Rightarrow> (time \<times> accelerator) res" where
  "claim_step now batch_size a = bindr (step_cost batch_size a) (\<lambda>c. Inr (book_device now c a))"

subsection \<open>The queue of forward passes\<close>

text \<open>
  Submitting a pass: it owns the device at once (\<open>True\<close>), or waits for its turn. A finished pass
  hands the device to its successor, the queue staying marked as running; the successor then books.
\<close>

definition pq_submit :: "time \<Rightarrow> string \<Rightarrow> accelerator \<Rightarrow> bool \<times> accelerator" where
  "pq_submit now tag a =
     (if q_running a then (False, a\<lparr>q_waiting := q_waiting a @ [\<lparr>submitted = now, q_tag = tag\<rparr>]\<rparr>)
      else (True, a\<lparr>q_running := True\<rparr>))"

definition queue_key :: "queued \<Rightarrow> time \<times> string" where
  "queue_key w = (submitted w, q_tag w)"

definition hand_off :: "accelerator \<Rightarrow> queued option \<times> accelerator" where
  "hand_off a =
     (if q_waiting a = [] then (None, a\<lparr>q_running := False\<rparr>)
      else let ws = sort_key queue_key (q_waiting a) in (Some (hd ws), a\<lparr>q_waiting := tl ws\<rparr>))"

text \<open>What a pass answers with: the pulled blocks as they arrived, one fresh block per block of the
  prompt, and the first token. An empty pass does not queue.\<close>

definition pass_queues :: "int \<Rightarrow> accelerator \<Rightarrow> bool res" where
  "pass_queues uncached a = bindr (prefill_cost uncached a) (\<lambda>c. Inr (0 < c))"

definition pass_answer :: "int \<Rightarrow> int list \<Rightarrow> accelerator \<Rightarrow> int list \<times> token" where
  "pass_answer uncached cached a = (cached @ kv_blocks (blocks_for uncached a) a, MetaToken)"

definition generated_kv :: "int \<Rightarrow> accelerator \<Rightarrow> int list" where
  "generated_kv positions a = kv_blocks (blocks_for positions a) a"

definition step_tokens :: "nat \<Rightarrow> token list" where
  "step_tokens batch_size = List.replicate batch_size MetaToken"

subsection \<open>Blocks are what the scheduler prices\<close>

lemma block_nbytes_exact:
  "acc_init element_size p m bt = Inr a \<Longrightarrow> block_nbytes a = block_bytes m 1 bt"
  by (auto simp: acc_init_def block_nbytes_def Let_def split: option.splits if_splits)

lemma blocks_for_ceiling:
  assumes "0 < acc_block_tokens a" "0 \<le> t"
  shows "blocks_for t a * acc_block_tokens a \<ge> t" "(blocks_for t a - 1) * acc_block_tokens a < t \<or> t = 0"
    "0 \<le> blocks_for t a" "blocks_for 0 a = 0"
proof -
  define b q r where "b = acc_block_tokens a" and "q = (- t) div b" and "r = (- t) mod b"
  have "q \<le> 0" using assms by (simp add: q_def b_def div_nonpos_pos_le0)
  then have eq: "blocks_for t a = - q" by (simp add: blocks_for_def q_def b_def)
  have dm: "q * b + r = - t" unfolding q_def r_def by (rule div_mult_mod_eq)
  have m: "0 \<le> r" "r < b" using assms(1) by (simp_all add: r_def b_def)
  show "blocks_for t a * acc_block_tokens a \<ge> t" "(blocks_for t a - 1) * acc_block_tokens a < t \<or> t = 0"
    unfolding eq b_def [symmetric] using dm m by (simp_all add: left_diff_distrib)
  show "0 \<le> blocks_for t a" "blocks_for 0 a = 0" by (simp_all add: blocks_for_def)
qed

subsection \<open>One thing at a time\<close>

datatype claim = Pass time int | Step time int

fun do_claim :: "claim \<Rightarrow> accelerator \<Rightarrow> (time \<times> accelerator) res" where
  "do_claim (Pass now n) a = claim_prefill now n a"
| "do_claim (Step now n) a = claim_step now n a"

fun claimed_at :: "claim \<Rightarrow> time" where
  "claimed_at (Pass now n) = now"
| "claimed_at (Step now n) = now"

text \<open>The intervals a run of claims books, each from when the device frees up.\<close>

fun bookings :: "claim list \<Rightarrow> accelerator \<Rightarrow> (time \<times> time) list res" where
  "bookings [] a = Inr []"
| "bookings (c # cs) a =
     bindr (do_claim c a) (\<lambda>(e, a'). bindr (bookings cs a') (\<lambda>bs. Inr ((max (claimed_at c) (busy_until a), e) # bs)))"

lemma do_claim_cases:
  assumes "do_claim c a = Inr (e, a')" "wf_model (acc_profile a) (acc_model a)"
  shows "max (claimed_at c) (busy_until a) \<le> e \<and> busy_until a' = e \<and>
    acc_profile a' = acc_profile a \<and> acc_model a' = acc_model a"
proof -
  obtain r where r: "0 < r" "model_rate (acc_profile a) (acc_model a) = Fin r"
    using assms(2) by (auto simp: wf_model_def)
  have pos: "0 < prefill_flops_per_token (acc_model a)" "0 < decode_step_flops_per_request (acc_model a)"
    using assms(2) by (auto simp: wf_model_def)
  obtain c' where "book_device (claimed_at c) c' a = (e, a')" "0 \<le> c'"
  proof (cases c)
    case (Pass now n)
    with that assms prefill_time_eq [OF assms(2) r(2), of n] r(1) pos show ?thesis
      by (auto simp: claim_prefill_def prefill_cost_def res_simps split: if_splits)
  next
    case (Step now n)
    with that assms r pos show ?thesis
      by (auto simp: claim_step_def step_cost_def res_simps decode_step_time_def compute_time_def model_rate_def
          Let_def split: if_splits)
  qed
  then show ?thesis by (auto simp: book_device_def Let_def)
qed

lemma bookings_after:
  "bookings cs a = Inr bs \<Longrightarrow> wf_model (acc_profile a) (acc_model a) \<Longrightarrow>
     (\<forall>b \<in> set bs. busy_until a \<le> fst b) \<and> (\<forall>b \<in> set bs. fst b \<le> snd b) \<and>
     sorted_wrt (\<lambda>b b'. snd b \<le> fst b') bs \<and> list_all2 (\<lambda>c b. claimed_at c \<le> fst b) cs bs"
proof (induction cs arbitrary: a bs)
  case (Cons c cs)
  from Cons.prems(1) obtain e a' rest where c: "do_claim c a = Inr (e, a')" "bookings cs a' = Inr rest"
    "bs = (max (claimed_at c) (busy_until a), e) # rest"
    by (auto simp: res_simps)
  from do_claim_cases [OF c(1) Cons.prems(2)] Cons.IH [OF c(2)] Cons.prems(2) c(3)
  show ?case by fastforce
qed simp

text \<open>C16: an accelerator does one thing at a time: whatever mix of forward passes and decode steps is
  booked on it, in whatever order, the booked intervals come one after the other and never overlap,
  and none begins before it was asked for.\<close>

theorem device_bookings_disjoint:
  assumes "acc_init element_size p m bt = Inr a" and "wf_model p m" and "bookings cs a = Inr bs"
  shows "sorted_wrt (\<lambda>b b'. snd b \<le> fst b') bs \<and> (\<forall>b \<in> set bs. fst b \<le> snd b) \<and>
    list_all2 (\<lambda>c b. claimed_at c \<le> fst b) cs bs"
proof -
  have "acc_profile a = p" "acc_model a = m"
    using assms(1) by (auto simp: acc_init_def Let_def split: option.splits if_splits)
  with bookings_after [OF assms(3)] assms(2) show ?thesis by simp
qed

text \<open>Every hand-off in a row, with nothing submitted in between.\<close>

primrec hand_offs :: "nat \<Rightarrow> accelerator \<Rightarrow> queued list" where
  "hand_offs 0 a = []"
| "hand_offs (Suc n) a = (case hand_off a of (None, a') \<Rightarrow> [] | (Some w, a') \<Rightarrow> w # hand_offs n a')"

lemma sort_key_tl: "sorted (map f xs) \<Longrightarrow> sort_key f xs = xs"
  by (rule sort_key_id_if_sorted)

lemma hand_offs_sorted:
  "sorted (map queue_key (q_waiting a)) \<Longrightarrow> hand_offs (length (q_waiting a)) a = q_waiting a"
proof (induction "q_waiting a" arbitrary: a)
  case (Cons w ws)
  let ?a = "a\<lparr>q_waiting := ws\<rparr>"
  have s: "sort_key queue_key (q_waiting a) = w # ws"
    using Cons.prems Cons.hyps(2) by (metis sort_key_tl)
  have "q_waiting a \<noteq> []" unfolding Cons.hyps(2) [symmetric] by simp
  then have "hand_off a = (Some w, ?a)" unfolding hand_off_def Let_def s by simp
  moreover have "hand_offs (length ws) ?a = ws" using Cons.hyps(1) [of ?a] Cons.prems Cons.hyps(2) [symmetric] by simp
  ultimately show ?case using Cons.hyps(2) [symmetric] by simp
qed simp

text \<open>The queue of forward passes is served by submission instant and then by request id,
  whatever order the event loop ran the submitters in: from any queue, the hand-offs that follow
  name every waiting pass exactly once, in that order. The device passes straight from one to the
  next, so a pass submitted meanwhile queues, and only an empty queue leaves the device free.\<close>

theorem queue_served_in_order:
  "hand_offs (length (q_waiting a)) a = sort_key queue_key (q_waiting a) \<and>
   (q_running (snd (hand_off a)) \<longleftrightarrow> q_waiting a \<noteq> [] \<and> q_running a) \<and>
   (fst (pq_submit now tag a) \<longleftrightarrow> \<not> q_running a)"
proof (intro conjI)
  show "hand_offs (length (q_waiting a)) a = sort_key queue_key (q_waiting a)"
  proof (cases "q_waiting a")
    case (Cons w0 ws0)
    obtain w ws where ws: "sort_key queue_key (q_waiting a) = w # ws"
      using Cons by (cases "sort_key queue_key (q_waiting a)") (auto dest: arg_cong [of _ _ length])
    let ?a = "a\<lparr>q_waiting := ws\<rparr>"
    have "sorted (map queue_key (w # ws))" using sorted_sort_key [of queue_key "q_waiting a"] ws by simp
    then have "hand_offs (length ws) ?a = ws" using hand_offs_sorted [of ?a] by simp
    moreover have "length (q_waiting a) = Suc (length ws)" using arg_cong [OF ws, of length] by simp
    moreover have "hand_off a = (Some w, ?a)" using ws Cons by (simp add: hand_off_def Let_def)
    ultimately show ?thesis using ws by simp
  qed simp
qed (auto simp: hand_off_def pq_submit_def Let_def)

lemma device_bookings_disjoint_witness:
  "\<exists>a bs. acc_init (\<lambda>d. Some 2) DEFAULT_PROFILE DEFAULT_MODEL 512 = Inr a \<and>
     bookings [Pass 0 1000, Step 0 4, Pass 10 0] a = Inr bs \<and> sorted_wrt (\<lambda>b b'. snd b \<le> fst b') bs"
proof -
  have w: "block_bytes DEFAULT_MODEL 1 512 mod 2 = 0" by (simp add: block_bytes_def DEFAULT_MODEL_def)
  then obtain a where a: "acc_init (\<lambda>d. Some 2) DEFAULT_PROFILE DEFAULT_MODEL 512 = Inr a"
    "acc_profile a = DEFAULT_PROFILE" "acc_model a = DEFAULT_MODEL"
    by (auto simp: acc_init_def)
  have rate: "effective_flops (compute_dtype DEFAULT_MODEL) (compute_device DEFAULT_MODEL) DEFAULT_PROFILE = Fin 2000000000"
    by (simp add: effective_flops_def is_gpu_def lower_char_def DEFAULT_PROFILE_def DEFAULT_MODEL_def)
  obtain bs where bs: "bookings [Pass 0 1000, Step 0 4, Pass 10 0] a = Inr bs"
    using a rate by (simp add: claim_prefill_def claim_step_def prefill_cost_def step_cost_def prefill_time_def
        decode_step_time_def compute_time_def book_device_def Let_def DEFAULT_MODEL_def)
  from device_bookings_disjoint [OF a(1) wf_DEFAULT_MODEL bs] a(1) bs show ?thesis by blast
qed

end
