(* ===== verification/DecodeLoop.thy ===== *)
theory DecodeLoop
  imports KvModel Accelerator
begin

section \<open>The decode engine of one host\<close>

text \<open>
  \<^verbatim>\<open>kvcache_sim/data/_decode.py\<close>. A batch slot is mutable in the code and shared between the batch
  and a step's frozen members, so it is known by its \<open>sid\<close>. What the step task awaits splits it in
  two: \<open>step_begin\<close> freezes the members and books the step on the accelerator, \<open>step_complete\<close>
  emits, retires and promotes when the step's end has come. Requests may be admitted in between.
  \<open>finished\<close> lists every resolved future: what its caller is answered with.
\<close>

record generated =
  gen_tokens :: "token list"
  gen_kv :: "int list"

record active =
  sid :: nat
  act_request :: request
  left :: nat
  last_token_time :: time
  tbt_max :: time
  act_tokens :: "token list"

record decode_engine =
  max_batch :: nat
  batch :: "active list"
  pending_slots :: "active list"
  task_running :: bool
  in_step :: "(nat list \<times> time) option"
  finished :: "(request \<times> time \<times> generated) list"
  reported :: "time list list"
  next_sid :: nat

definition engine_init :: "nat \<Rightarrow> decode_engine" where
  "engine_init mb =
     \<lparr>max_batch = mb, batch = [], pending_slots = [], task_running = False, in_step = None,
      finished = [], reported = [], next_sid = 0\<rparr>"

text \<open>What a batch change reports: one estimated finish per request decoding or queued here.\<close>

definition report :: "accelerator \<Rightarrow> decode_engine \<Rightarrow> decode_engine res" where
  "report acc e =
     bindr (step_cost 1 acc) (\<lambda>base.
       Inr (e\<lparr>reported := reported e @
         [map (\<lambda>a. last_token_time a + of_nat (left a) * base) (batch e @ pending_slots e)]\<rparr>))"

definition finish_request :: "accelerator \<Rightarrow> request \<Rightarrow> time \<Rightarrow> token list \<Rightarrow> decode_engine \<Rightarrow> decode_engine" where
  "finish_request acc r tbt toks e =
     e\<lparr>finished := finished e @ [(r, tbt, \<lparr>gen_tokens = toks, gen_kv = generated_kv (int (length toks)) acc\<rparr>)]\<rparr>"

definition ensure_stepping :: "decode_engine \<Rightarrow> decode_engine" where
  "ensure_stepping e = (if task_running e \<or> batch e = [] then e else e\<lparr>task_running := True\<rparr>)"

definition admit :: "time \<Rightarrow> accelerator \<Rightarrow> request \<Rightarrow> decode_engine \<Rightarrow> decode_engine res" where
  "admit now acc r e =
     (let remaining = nat (output_tokens r - 1)
      in if remaining = 0 then Inr (finish_request acc r 0 [] e)
         else let a = \<lparr>sid = next_sid e, act_request = r, left = remaining, last_token_time = now,
                       tbt_max = 0, act_tokens = []\<rparr>;
                  e1 = e\<lparr>next_sid := Suc (next_sid e)\<rparr>;
                  e2 = (if length (batch e) < max_batch e then e1\<lparr>batch := batch e @ [a]\<rparr>
                        else e1\<lparr>pending_slots := pending_slots e @ [a]\<rparr>)
              in bindr (report acc e2) (\<lambda>e3. Inr (ensure_stepping e3)))"

text \<open>The top of the step loop: end the task on an empty batch, or book the next step.\<close>

definition step_begin :: "time \<Rightarrow> accelerator \<Rightarrow> decode_engine \<Rightarrow> (accelerator \<times> decode_engine) res" where
  "step_begin now acc e =
     (if batch e = [] then Inr (acc, e\<lparr>task_running := False\<rparr>)
      else bindr (claim_step now (int (length (batch e))) acc) (\<lambda>(step_end, acc').
        Inr (acc', e\<lparr>in_step := Some (map sid (batch e), step_end)\<rparr>)))"

definition emit_token :: "time \<Rightarrow> token \<Rightarrow> active \<Rightarrow> active" where
  "emit_token step_end t a =
     a\<lparr>tbt_max := max (tbt_max a) (step_end - last_token_time a), last_token_time := step_end,
       left := left a - 1, act_tokens := act_tokens a @ [t]\<rparr>"

definition emit_member :: "accelerator \<Rightarrow> time \<Rightarrow> decode_engine \<Rightarrow> nat \<times> token \<Rightarrow> decode_engine" where
  "emit_member acc step_end e m =
     (case m of (s, t) \<Rightarrow>
        case find (\<lambda>a. sid a = s) (batch e) of
          None \<Rightarrow> e
        | Some a \<Rightarrow>
            let a' = emit_token step_end t a
            in if left a' = 0
               then finish_request acc (act_request a') (tbt_max a') (act_tokens a')
                      (e\<lparr>batch := filter (\<lambda>b. sid b \<noteq> s) (batch e)\<rparr>)
               else e\<lparr>batch := map (\<lambda>b. if sid b = s then a' else b) (batch e)\<rparr>)"

text \<open>A freed slot admits the next queued request.\<close>

definition promote :: "decode_engine \<Rightarrow> decode_engine" where
  "promote e =
     (let n = max_batch e - length (batch e)
      in e\<lparr>batch := batch e @ take n (pending_slots e), pending_slots := drop n (pending_slots e)\<rparr>)"

definition step_complete :: "accelerator \<Rightarrow> nat list \<Rightarrow> time \<Rightarrow> decode_engine \<Rightarrow> decode_engine res" where
  "step_complete acc members step_end e =
     report acc (promote (foldl (emit_member acc step_end) (e\<lparr>in_step := None\<rparr>)
       (zip members (step_tokens (length members)))))"

text \<open>A step loop that dies fails everything it will now never finish.\<close>

definition abandon :: "decode_engine \<Rightarrow> request list \<times> decode_engine" where
  "abandon e =
     (map act_request (batch e @ pending_slots e), e\<lparr>batch := [], pending_slots := [], in_step := None, task_running := False\<rparr>)"

subsection \<open>One step\<close>

definition slots_ok :: "decode_engine \<Rightarrow> bool" where
  "slots_ok e \<longleftrightarrow> distinct (map sid (batch e @ pending_slots e)) \<and>
     (\<forall>a \<in> set (batch e @ pending_slots e). 0 < left a \<and> sid a < next_sid e \<and>
        int (length (act_tokens a) + left a) = output_tokens (act_request a) - 1) \<and>
     length (batch e) \<le> max_batch e \<and> (pending_slots e \<noteq> [] \<longrightarrow> length (batch e) = max_batch e) \<and>
     (batch e \<noteq> [] \<longrightarrow> task_running e)"

definition outcome :: "accelerator \<Rightarrow> active \<Rightarrow> request \<times> time \<times> generated" where
  "outcome acc a = (act_request a, tbt_max a,
     \<lparr>gen_tokens = act_tokens a, gen_kv = generated_kv (int (length (act_tokens a))) acc\<rparr>)"

lemma find_unique:
  "distinct (map sid (xs @ a # ys)) \<Longrightarrow> find (\<lambda>b. sid b = sid a) (xs @ a # ys) = Some a"
  by (induction xs) (auto simp: image_iff)

lemma others_same:
  assumes "distinct (map sid (xs @ a # ys))"
  shows "map (\<lambda>b. if sid b = sid a then a' else b) (xs @ a # ys) = xs @ a' # ys"
    and "filter (\<lambda>b. sid b \<noteq> sid a) (xs @ a # ys) = xs @ ys"
proof -
  have no: "sid b \<noteq> sid a" if "b \<in> set xs \<union> set ys" for b
    using assms that by (auto simp: image_iff)
  have id: "map (\<lambda>b. if sid b = sid a then a' else b) zs = zs" "filter (\<lambda>b. sid b \<noteq> sid a) zs = zs"
    if "set zs \<subseteq> set xs \<union> set ys" for zs
    using that no by (auto intro!: map_idI filter_True)
  have in1: "set xs \<subseteq> set xs \<union> set ys" "set ys \<subseteq> set xs \<union> set ys" by auto
  show "map (\<lambda>b. if sid b = sid a then a' else b) (xs @ a # ys) = xs @ a' # ys"
    using id(1) [OF in1(1)] id(1) [OF in1(2)] by simp
  show "filter (\<lambda>b. sid b \<noteq> sid a) (xs @ a # ys) = xs @ ys"
    using id(2) [OF in1(1)] id(2) [OF in1(2)] by simp
qed

lemma emit_members:
  assumes "distinct (map sid (xs @ ms @ rest))" "batch e = xs @ ms @ rest"
  shows "foldl (emit_member acc step_end) e (zip (map sid ms) (List.replicate (length ms) t)) =
    e\<lparr>batch := xs @ filter (\<lambda>a. left a \<noteq> 0) (map (emit_token step_end t) ms) @ rest,
      finished := finished e @ map (outcome acc) (filter (\<lambda>a. left a = 0) (map (emit_token step_end t) ms))\<rparr>"
  using assms
proof (induction ms arbitrary: e xs)
  case (Cons a ms)
  let ?a = "emit_token step_end t a"
  have sid: "sid ?a = sid a" by (simp add: emit_token_def)
  have find: "find (\<lambda>b. sid b = sid a) (batch e) = Some a"
    using find_unique [of xs a "ms @ rest"] Cons.prems by simp
  have others: "map (\<lambda>b. if sid b = sid a then ?a else b) (batch e) = xs @ ?a # ms @ rest"
    "filter (\<lambda>b. sid b \<noteq> sid a) (batch e) = xs @ ms @ rest"
    using others_same [of xs a "ms @ rest"] Cons.prems by simp_all
  show ?case
  proof (cases "left ?a = 0")
    case True
    have "emit_member acc step_end e (sid a, t) =
        e\<lparr>batch := xs @ ms @ rest, finished := finished e @ [outcome acc ?a]\<rparr>"
      using find others(2) True by (simp add: emit_member_def Let_def finish_request_def outcome_def)
    with Cons.IH [of xs "e\<lparr>batch := xs @ ms @ rest, finished := finished e @ [outcome acc ?a]\<rparr>"] Cons.prems True
    show ?thesis by simp
  next
    case False
    have "emit_member acc step_end e (sid a, t) = e\<lparr>batch := xs @ ?a # ms @ rest\<rparr>"
      using find others(1) False by (simp add: emit_member_def Let_def)
    with Cons.IH [of "xs @ [?a]" "e\<lparr>batch := xs @ ?a # ms @ rest\<rparr>"] Cons.prems False sid
    show ?thesis by simp
  qed
qed simp

text \<open>Everything in the engine, and the tokens it still owes.\<close>

abbreviation slots :: "decode_engine \<Rightarrow> active list" where
  "slots e \<equiv> batch e @ pending_slots e"

definition owed :: "decode_engine \<Rightarrow> nat" where
  "owed e = sum_list (map left (slots e))"

text \<open>The members of a step in flight are the front of the batch: admissions only append.\<close>

definition step_ok :: "decode_engine \<Rightarrow> bool" where
  "step_ok e \<longleftrightarrow> (case in_step e of None \<Rightarrow> True | Some (ms, t) \<Rightarrow>
     task_running e \<and> (\<exists>n. ms = map sid (take n (batch e))))"

lemma step_ok_iff:
  "step_ok e \<longleftrightarrow> (\<forall>ms t. in_step e = Some (ms, t) \<longrightarrow> task_running e \<and> (\<exists>n. ms = map sid (take n (batch e))))"
  by (auto simp: step_ok_def split: option.splits)

text \<open>Nothing lost: whoever was admitted is in a slot or has been answered, with all its tokens.\<close>

definition served :: "request list \<Rightarrow> decode_engine \<Rightarrow> bool" where
  "served rs e \<longleftrightarrow> mset rs = mset (map fst (finished e)) + mset (map act_request (slots e)) \<and>
     (\<forall>(r, tbt, g) \<in> set (finished e). length (gen_tokens g) = nat (output_tokens r - 1))"

lemma slots_ok_promote:
  assumes "distinct (map sid (slots e))"
    and "\<forall>a \<in> set (slots e). 0 < left a \<and> sid a < next_sid e \<and>
        int (length (act_tokens a) + left a) = output_tokens (act_request a) - 1"
    and "length (batch e) \<le> max_batch e" and "task_running e"
  shows "slots_ok (promote e) \<and> slots (promote e) = slots e"
proof -
  have same: "slots (promote e) = slots e" by (simp add: promote_def Let_def)
  have "length (batch (promote e)) \<le> max_batch (promote e)"
    "pending_slots (promote e) \<noteq> [] \<longrightarrow> length (batch (promote e)) = max_batch (promote e)"
    "next_sid (promote e) = next_sid e" "task_running (promote e) = task_running e"
    using assms(3) by (auto simp: promote_def Let_def)
  with assms same show ?thesis unfolding slots_ok_def same by simp
qed

lemma report_Inr:
  assumes "report acc e = Inr e'"
  shows "\<exists>r. e' = e\<lparr>reported := r\<rparr>"
  using assms by (auto simp: report_def res_simps)

lemma slots_ok_reported [simp]: "slots_ok (e\<lparr>reported := r\<rparr>) = slots_ok e"
  by (simp add: slots_ok_def)

lemma emit_left: "0 < left a \<Longrightarrow> Suc (left (emit_token t k a)) = left a"
  by (simp add: emit_token_def)

text \<open>The emitted members, retired or kept.\<close>

lemma partition_mset:
  "mset (map f (filter P xs)) + mset (map f (filter (\<lambda>x. \<not> P x) xs)) = mset (map f xs)"
  by (induction xs) auto

lemma emitted_owed:
  "\<forall>a \<in> set ms. 0 < left a \<Longrightarrow>
     sum_list (map left (filter (\<lambda>a. left a \<noteq> 0) (map (emit_token t k) ms))) + length ms = sum_list (map left ms)"
  by (induction ms) (auto simp: emit_token_def)

text \<open>What completing a step does to the slots.\<close>

lemma complete_effect:
  assumes "slots_ok e" "served rs e" "step_ok e" "in_step e = Some (ms, t)" "step_complete acc ms t e = Inr e'"
  shows "slots_ok e' \<and> served rs e' \<and> in_step e' = None \<and> max_batch e' = max_batch e \<and>
    owed e' + length ms = owed e"
proof -
  obtain n where n: "ms = map sid (take n (batch e))" and running: "task_running e"
    using assms(3,4) by (auto simp: step_ok_def)
  let ?ms = "take n (batch e)" and ?rest = "drop n (batch e)"
  let ?em = "map (emit_token t MetaToken) ?ms"
  let ?e0 = "e\<lparr>in_step := None\<rparr>"
  let ?e1 = "?e0\<lparr>batch := filter (\<lambda>a. left a \<noteq> 0) ?em @ ?rest,
      finished := finished e @ map (outcome acc) (filter (\<lambda>a. left a = 0) ?em)\<rparr>"
  have ok: "distinct (map sid (slots e))"
    "\<forall>a \<in> set (slots e). 0 < left a \<and> sid a < next_sid e \<and>
        int (length (act_tokens a) + left a) = output_tokens (act_request a) - 1"
    "length (batch e) \<le> max_batch e" "batch e \<noteq> [] \<longrightarrow> task_running e"
    using assms(1) unfolding slots_ok_def by blast+
  have fold: "foldl (emit_member acc t) ?e0 (zip ms (step_tokens (length ms))) = ?e1"
    using emit_members [of "[]" ?ms ?rest ?e0 acc t MetaToken] ok(1) n by (simp add: step_tokens_def)
  obtain r where e': "e' = (promote ?e1)\<lparr>reported := r\<rparr>"
    using assms(5) report_Inr unfolding step_complete_def fold by blast
  have emit: "sid (emit_token t k a) = sid a" "act_request (emit_token t k a) = act_request a"
    "length (act_tokens (emit_token t k a)) = Suc (length (act_tokens a))" for k a
    by (simp_all add: emit_token_def)
  have em: "map sid ?em = map sid ?ms" "map act_request ?em = map act_request ?ms" by (simp_all add: emit comp_def)
  have all: "map f (batch e) = map f ?ms @ map f ?rest" for f :: "active \<Rightarrow> 'x"
    by (simp add: take_map [symmetric] drop_map [symmetric])
  have dist: "distinct (map sid (slots ?e1))"
  proof -
    have "distinct (map sid ?em @ map sid ?rest @ map sid (pending_slots e))"
      using ok(1) unfolding em by (simp add: all)
    then show ?thesis by (auto simp: distinct_map_filter)
  qed
  have each: "\<forall>a \<in> set (slots ?e1). 0 < left a \<and> sid a < next_sid ?e1 \<and>
      int (length (act_tokens a) + left a) = output_tokens (act_request a) - 1"
  proof
    fix a assume "a \<in> set (slots ?e1)"
    then consider (emitted) b where "b \<in> set (slots e)" "a = emit_token t MetaToken b" "left a \<noteq> 0" | (kept) "a \<in> set (slots e)"
      by (auto dest: in_set_takeD in_set_dropD)
    then show "0 < left a \<and> sid a < next_sid ?e1 \<and>
        int (length (act_tokens a) + left a) = output_tokens (act_request a) - 1"
      using ok(2) by cases (auto simp: emit_token_def)
  qed
  have len: "length (batch ?e1) \<le> max_batch ?e1"
  proof -
    have "length (filter (\<lambda>a. left a \<noteq> 0) ?em) \<le> length ?ms" by (metis length_filter_le length_map)
    then show ?thesis using ok(3) by simp linarith
  qed
  have pr: "slots_ok (promote ?e1)" "slots (promote ?e1) = slots ?e1"
    using slots_ok_promote [OF dist each len] running by simp_all
  have fin: "finished e' = finished ?e1" "slots e' = slots ?e1" "in_step e' = None" "max_batch e' = max_batch e"
    unfolding e' using pr(2) by (simp_all add: promote_def Let_def)
  have reqs: "mset rs = mset (map fst (finished ?e1)) + mset (map act_request (slots ?e1))"
  proof -
    have "map fst (map (outcome acc) xs) = map act_request xs" for xs by (simp add: outcome_def)
    then have part: "mset (map fst (map (outcome acc) (filter (\<lambda>a. left a = 0) ?em))) +
        mset (map act_request (filter (\<lambda>a. left a \<noteq> 0) ?em)) = mset (map act_request ?ms)"
      using partition_mset [of act_request "\<lambda>a. left a = 0" ?em] unfolding em(2) by (simp only:)
    have was: "mset rs = mset (map fst (finished e)) + (mset (map act_request ?ms) + mset (map act_request ?rest) +
        mset (map act_request (pending_slots e)))"
      using assms(2) by (simp only: served_def map_append mset_append all)
    have now: "finished ?e1 = finished e @ map (outcome acc) (filter (\<lambda>a. left a = 0) ?em)"
      "slots ?e1 = (filter (\<lambda>a. left a \<noteq> 0) ?em @ ?rest) @ pending_slots e" by simp_all
    show ?thesis unfolding was part [symmetric] now map_append mset_append by (simp only: ac_simps)
  qed
  have toks: "\<forall>(r, tbt, g) \<in> set (finished ?e1). length (gen_tokens g) = nat (output_tokens r - 1)"
  proof -
    have "length (act_tokens a) = nat (output_tokens (act_request a) - 1)" if "a \<in> set (filter (\<lambda>a. left a = 0) ?em)" for a
    proof -
      from that obtain b where b: "b \<in> set (slots e)" "a = emit_token t MetaToken b" "left a = 0"
        by (auto dest: in_set_takeD)
      then show ?thesis using ok(2) by (force simp: emit_token_def)
    qed
    then show ?thesis using assms(2) by (auto simp: served_def outcome_def)
  qed
  have "owed ?e1 + length ms = owed e"
  proof -
    have "\<forall>a \<in> set ?ms. 0 < left a" using ok(2) by (auto dest: in_set_takeD)
    from emitted_owed [OF this, of t MetaToken] show ?thesis by (simp add: owed_def n all)
  qed
  then show ?thesis
    using pr(1) reqs toks fin unfolding served_def owed_def by (simp add: e')
qed

lemma admit_effect:
  assumes "slots_ok e" "served rs e" "step_ok e" "admit now acc r e = Inr e'"
  shows "slots_ok e' \<and> served (r # rs) e' \<and> step_ok e' \<and> max_batch e' = max_batch e"
proof (cases "nat (output_tokens r - 1) = 0")
  case True
  with assms(4) have "e' = finish_request acc r 0 [] e" by (simp add: admit_def)
  with assms(1-3) True show ?thesis
    by (auto simp: finish_request_def slots_ok_def served_def step_ok_iff)
next
  case False
  let ?a = "\<lparr>sid = next_sid e, act_request = r, left = nat (output_tokens r - 1), last_token_time = now,
      tbt_max = 0, act_tokens = []\<rparr>"
  let ?e1 = "e\<lparr>next_sid := Suc (next_sid e)\<rparr>"
  let ?e2 = "if length (batch e) < max_batch e then ?e1\<lparr>batch := batch e @ [?a]\<rparr>
      else ?e1\<lparr>pending_slots := pending_slots e @ [?a]\<rparr>"
  obtain rep where e': "e' = ensure_stepping (?e2\<lparr>reported := rep\<rparr>)"
    using assms(4) False report_Inr [of acc ?e2] by (fastforce simp: admit_def Let_def bindr_eq_Inr_iff)
  have ok: "distinct (map sid (slots e))"
    "\<forall>a \<in> set (slots e). 0 < left a \<and> sid a < next_sid e \<and>
        int (length (act_tokens a) + left a) = output_tokens (act_request a) - 1"
    "length (batch e) \<le> max_batch e" "pending_slots e \<noteq> [] \<longrightarrow> length (batch e) = max_batch e"
    "batch e \<noteq> [] \<longrightarrow> task_running e"
    using assms(1) unfolding slots_ok_def by blast+
  have fresh: "next_sid e \<notin> sid ` set (slots e)" using ok(2) by auto
  have older: "\<forall>a \<in> set (slots e). sid a < Suc (next_sid e)" using ok(2) by (auto simp: less_Suc_eq)
  have run: "task_running e' \<or> batch e' = []" unfolding e' ensure_stepping_def by auto
  have st: "max_batch e' = max_batch e" "finished e' = finished e" "in_step e' = in_step e" "next_sid e' = Suc (next_sid e)"
    "task_running e \<longrightarrow> task_running e'"
    "(length (batch e) < max_batch e \<and> batch e' = batch e @ [?a] \<and> pending_slots e' = pending_slots e) \<or>
     (\<not> length (batch e) < max_batch e \<and> batch e' = batch e \<and> pending_slots e' = pending_slots e @ [?a])"
    unfolding e' ensure_stepping_def by auto
  have "\<exists>xs. batch e' = batch e @ xs" using st(6) by auto
  then have front: "\<exists>m. take n (batch e) = take m (batch e')" for n
    by (intro exI [of _ "min n (length (batch e))"]) (auto simp: min_def)
  have "step_ok e'"
    unfolding step_ok_iff
  proof (intro allI impI)
    fix ms t assume "in_step e' = Some (ms, t)"
    then obtain n where "task_running e" "ms = map sid (take n (batch e))"
      using assms(3) st(3) by (auto simp: step_ok_iff)
    with front [of n] st(5) show "task_running e' \<and> (\<exists>n. ms = map sid (take n (batch e')))" by auto
  qed
  moreover have "slots_ok e' \<and> served (r # rs) e'"
    using st(6)
  proof (elim disjE conjE)
    assume b: "length (batch e) < max_batch e" "batch e' = batch e @ [?a]" "pending_slots e' = pending_slots e"
    then have p: "pending_slots e = []" using ok(4) by auto
    show ?thesis using b p ok fresh older run False assms(2) st(1,2,4) by (auto simp: slots_ok_def served_def)
  next
    assume b: "\<not> length (batch e) < max_batch e" "batch e' = batch e" "pending_slots e' = pending_slots e @ [?a]"
    show ?thesis using b ok fresh older run False assms(2) st(1,2,4) by (auto simp: slots_ok_def served_def)
  qed
  ultimately show ?thesis using st(1) by simp
qed

lemma begin_effect:
  assumes "slots_ok e" "served rs e" "task_running e" "step_begin now acc e = Inr (acc', e')"
  shows "slots_ok e' \<and> served rs e' \<and> (step_ok e \<longrightarrow> in_step e = None \<longrightarrow> step_ok e') \<and> max_batch e' = max_batch e \<and>
    owed e' = owed e \<and>
    (batch e \<noteq> [] \<longrightarrow> (\<exists>t. in_step e' = Some (map sid (batch e), t)) \<and> step_ok e')"
proof (cases "batch e = []")
  case True
  with assms show ?thesis by (auto simp: step_begin_def slots_ok_def served_def step_ok_def owed_def)
next
  case False
  with assms(4) obtain t where "e' = e\<lparr>in_step := Some (map sid (batch e), t)\<rparr>"
    by (auto simp: step_begin_def bindr_eq_Inr_iff split: prod.splits)
  with assms show ?thesis by (auto simp: slots_ok_def served_def step_ok_def owed_def intro!: exI [of _ "length (batch e)"])
qed

subsection \<open>Every way an engine can be driven\<close>

text \<open>
  Requests admitted at any time, also while a step is in flight; the step task's two halves; and
  forward passes booked on the same device in between. The list is everybody admitted so far.
\<close>

inductive decode_run :: "nat \<Rightarrow> request list \<Rightarrow> accelerator \<Rightarrow> decode_engine \<Rightarrow> bool" for mb where
  run_start: "decode_run mb [] acc (engine_init mb)"
| run_admit: "decode_run mb rs acc e \<Longrightarrow> admit now acc r e = Inr e' \<Longrightarrow> decode_run mb (r # rs) acc e'"
| run_begin: "decode_run mb rs acc e \<Longrightarrow> task_running e \<Longrightarrow> in_step e = None \<Longrightarrow>
    step_begin now acc e = Inr (acc', e') \<Longrightarrow> decode_run mb rs acc' e'"
| run_complete: "decode_run mb rs acc e \<Longrightarrow> in_step e = Some (ms, t) \<Longrightarrow>
    step_complete acc ms t e = Inr e' \<Longrightarrow> decode_run mb rs acc e'"
| run_pass: "decode_run mb rs acc e \<Longrightarrow> claim_prefill now n acc = Inr (t, acc') \<Longrightarrow> decode_run mb rs acc' e"

lemma decode_run_ok:
  "decode_run mb rs acc e \<Longrightarrow> slots_ok e \<and> served rs e \<and> step_ok e \<and> max_batch e = mb"
proof (induction rule: decode_run.induct)
  case (run_start acc)
  show ?case by (simp add: engine_init_def slots_ok_def served_def step_ok_def)
next
  case (run_admit rs acc e now r e')
  then show ?case using admit_effect by blast
next
  case (run_begin rs acc e now acc' e')
  then show ?case using begin_effect by blast
next
  case (run_complete rs acc e ms t e')
  then have "slots_ok e' \<and> served rs e' \<and> in_step e' = None \<and> max_batch e' = max_batch e"
    using complete_effect by blast
  with run_complete.IH show ?case by (simp add: step_ok_def)
qed

text \<open>C15: however admissions, steps and forward passes interleave, an engine loses nobody and answers
  nobody twice: whoever was admitted is in exactly one slot or has been answered once, with one token
  for each it owed beyond the first; the batch never passes its cap and a request queues only while
  the batch is full.\<close>

theorem decode_answers_everybody_once:
  assumes "decode_run mb rs acc e"
  shows "mset rs = mset (map fst (finished e)) + mset (map act_request (batch e @ pending_slots e)) \<and>
    (\<forall>(r, tbt, g) \<in> set (finished e). length (gen_tokens g) = nat (output_tokens r - 1)) \<and>
    length (batch e) \<le> mb \<and> (pending_slots e \<noteq> [] \<longrightarrow> length (batch e) = mb)"
  using decode_run_ok [OF assms] unfolding served_def slots_ok_def by blast

subsection \<open>The batch drains\<close>

lemma emit_one_running: "task_running (emit_member acc t e m) = task_running e"
proof (cases m)
  case (Pair s k)
  show ?thesis
  proof (cases "find (\<lambda>a. sid a = s) (batch e)")
    case (Some a)
    with Pair show ?thesis by (simp add: emit_member_def Let_def finish_request_def)
  qed (simp add: Pair emit_member_def)
qed

lemma emit_running: "task_running (foldl (emit_member acc t) e ms) = task_running e"
  by (induction ms arbitrary: e) (simp_all add: emit_one_running)

lemma complete_running:
  assumes "step_complete acc ms t e = Inr e'" "task_running e"
  shows "task_running e'"
proof -
  obtain r where "e' = (promote (foldl (emit_member acc t) (e\<lparr>in_step := None\<rparr>) (zip ms (step_tokens (length ms)))))\<lparr>reported := r\<rparr>"
    using report_Inr [OF assms(1) [unfolded step_complete_def]] by blast
  then have "task_running e' = task_running (foldl (emit_member acc t) (e\<lparr>in_step := None\<rparr>) (zip ms (step_tokens (length ms))))"
    by (simp add: promote_def Let_def)
  also have "\<dots> = task_running e" unfolding emit_running by simp
  finally show ?thesis using assms(2) by simp
qed

text \<open>With nothing more admitted: the step task running step after step, each from the last one's end.\<close>

primrec rounds :: "nat \<Rightarrow> time \<Rightarrow> accelerator \<Rightarrow> decode_engine \<Rightarrow> decode_engine res" where
  "rounds 0 now acc e = Inr e"
| "rounds (Suc n) now acc e =
     bindr (step_begin now acc e) (\<lambda>(acc', e').
       case in_step e' of
         None \<Rightarrow> Inr e'
       | Some (ms, t) \<Rightarrow> bindr (step_complete acc' ms t e') (\<lambda>e''. rounds n t acc' e''))"

lemma step_cost_Inr:
  assumes "wf_model (acc_profile acc) (acc_model acc)"
  shows "\<exists>c. step_cost n acc = Inr c"
proof -
  obtain r where "0 < r" "model_rate (acc_profile acc) (acc_model acc) = Fin r"
    using assms by (auto simp: wf_model_def)
  then show ?thesis by (auto simp: step_cost_def decode_step_time_def compute_time_def model_rate_def Let_def)
qed

lemma claim_step_Inr:
  assumes "wf_model (acc_profile acc) (acc_model acc)"
  shows "\<exists>t acc'. claim_step now n acc = Inr (t, acc') \<and> acc_profile acc' = acc_profile acc \<and> acc_model acc' = acc_model acc"
  using step_cost_Inr [OF assms, of n] by (auto simp: claim_step_def book_device_def Let_def)

lemma report_total:
  assumes "wf_model (acc_profile acc) (acc_model acc)"
  shows "\<exists>e'. report acc e = Inr e'"
  using step_cost_Inr [OF assms, of 1] by (auto simp: report_def)

lemma rounds_drain:
  assumes "wf_model (acc_profile acc) (acc_model acc)"
    and "slots_ok e" "served rs e" "in_step e = None" "task_running e" "0 < max_batch e" "owed e \<le> n"
  shows "\<exists>e'. rounds n now acc e = Inr e' \<and> slots e' = [] \<and> served rs e'"
  using assms
proof (induction n arbitrary: now acc e)
  case 0
  have "slots e = []"
  proof (rule ccontr)
    assume "slots e \<noteq> []"
    then obtain a where a: "a \<in> set (slots e)" by (meson last_in_set)
    have "0 < left a" using a "0.prems"(2) unfolding slots_ok_def by blast
    moreover have "left a \<le> owed e" unfolding owed_def using a by (intro member_le_sum_list) auto
    ultimately show False using "0.prems"(7) by simp
  qed
  with 0 show ?case by simp
next
  case (Suc n)
  show ?case
  proof (cases "batch e = []")
    case True
    then have "pending_slots e = []" using Suc.prems(2,6) unfolding slots_ok_def by auto
    with True Suc.prems show ?thesis by (auto simp: step_begin_def served_def)
  next
    case False
    obtain t acc' where c: "claim_step now (int (length (batch e))) acc = Inr (t, acc')"
      "acc_profile acc' = acc_profile acc" "acc_model acc' = acc_model acc"
      using claim_step_Inr [OF Suc.prems(1)] by blast
    let ?e1 = "e\<lparr>in_step := Some (map sid (batch e), t)\<rparr>"
    have b: "step_begin now acc e = Inr (acc', ?e1)" using c False by (simp add: step_begin_def)
    have ok1: "slots_ok ?e1" "served rs ?e1" "step_ok ?e1"
      using begin_effect [OF Suc.prems(2,3,5) b] False by auto
    have wf: "wf_model (acc_profile acc') (acc_model acc')" using Suc.prems(1) c by simp
    obtain e2 where e2: "step_complete acc' (map sid (batch e)) t ?e1 = Inr e2"
      unfolding step_complete_def using report_total [OF wf] by blast
    have in1: "in_step ?e1 = Some (map sid (batch e), t)" by simp
    have r: "slots_ok e2" "served rs e2" "in_step e2 = None" "max_batch e2 = max_batch ?e1" "owed e2 + length (batch e) = owed ?e1"
      using complete_effect [OF ok1 in1 e2] by auto
    have less: "owed e2 \<le> n" using r(5) False Suc.prems(7) by (cases "batch e") (auto simp: owed_def)
    have run: "task_running e2"
      by (rule complete_running [OF e2]) (use Suc.prems(5) in simp)
    from Suc.IH [OF wf r(1,2,3) run _ less] r(4) Suc.prems(6)
    obtain e' where "rounds n t acc' e2 = Inr e'" "slots e' = []" "served rs e'" by auto
    with b e2 show ?thesis by simp
  qed
qed

text \<open>C14: an engine with room for at least one request finishes: from whatever state it can be driven
  to between two steps, the step task left to itself empties the batch and the queue within as many
  steps as there are tokens owed, and then everybody ever admitted has been answered with all its
  tokens. Nobody waits forever.\<close>

theorem decode_drains:
  assumes "decode_run mb rs acc e" and "0 < mb" and "in_step e = None" and "task_running e"
    and "wf_model (acc_profile acc) (acc_model acc)"
  shows "\<exists>e'. rounds (owed e) now acc e = Inr e' \<and> batch e' = [] \<and> pending_slots e' = [] \<and>
    mset (map fst (finished e')) = mset rs \<and>
    (\<forall>(r, tbt, g) \<in> set (finished e'). length (gen_tokens g) = nat (output_tokens r - 1))"
proof -
  have "slots_ok e" "served rs e" "max_batch e = mb" using decode_run_ok [OF assms(1)] by auto
  with rounds_drain [OF assms(5) _ _ assms(3,4), of rs "owed e" now] assms(2)
  obtain e' where "rounds (owed e) now acc e = Inr e'" "slots e' = []" "served rs e'" by auto
  then show ?thesis unfolding served_def by auto
qed

subsection \<open>A host with one slot\<close>

definition tiny_acc :: accelerator where
  "tiny_acc = \<lparr>acc_profile = DEFAULT_PROFILE, acc_model = DEFAULT_MODEL, acc_block_tokens = 512,
     kv_element_size = 2, block_numel = 256, busy_until = 0, q_running = False, q_waiting = []\<rparr>"

definition tiny_request :: "string \<Rightarrow> int \<Rightarrow> request" where
  "tiny_request i n = \<lparr>req_id = i, arrival = 0, block_keys = [], prompt_tokens = 0, output_tokens = n,
     prompt_numel = 0, conversation = []\<rparr>"

abbreviation tiny_admitted :: "request list" where
  "tiny_admitted \<equiv> [tiny_request ''c'' 2, tiny_request ''b'' 1, tiny_request ''a'' 3]"

lemma tiny_step_cost: "step_cost 1 tiny_acc = Inr (1 / 50)"
  by (simp add: step_cost_def tiny_acc_def decode_step_time_def compute_time_def effective_flops_def is_gpu_def
      lower_char_def DEFAULT_PROFILE_def DEFAULT_MODEL_def Let_def)

lemma tiny_wf: "wf_model (acc_profile tiny_acc) (acc_model tiny_acc)"
  using wf_DEFAULT_MODEL by (simp add: tiny_acc_def)

lemma tiny_run:
  "\<exists>e. decode_run 1 tiny_admitted tiny_acc e \<and> in_step e = None \<and> task_running e \<and> owed e = 3"
proof -
  obtain e1 where e1: "admit 0 tiny_acc (tiny_request ''a'' 3) (engine_init 1) = Inr e1"
    "length (batch e1) = 1" "max_batch e1 = 1" "in_step e1 = None" "task_running e1" "owed e1 = 2"
    by (simp add: admit_def report_def tiny_step_cost tiny_request_def engine_init_def ensure_stepping_def owed_def)
  obtain e2 where e2: "admit 0 tiny_acc (tiny_request ''b'' 1) e1 = Inr e2"
    "length (batch e2) = 1" "max_batch e2 = 1" "in_step e2 = None" "task_running e2" "owed e2 = 2"
    using e1(2-) by (simp add: admit_def tiny_request_def finish_request_def owed_def)
  obtain e3 where e3: "admit 0 tiny_acc (tiny_request ''c'' 2) e2 = Inr e3"
    "in_step e3 = None" "task_running e3" "owed e3 = 3"
    using e2(2-) by (simp add: admit_def report_def tiny_step_cost tiny_request_def ensure_stepping_def owed_def)
  have "decode_run 1 tiny_admitted tiny_acc e3"
    by (rule run_admit [OF run_admit [OF run_admit [OF run_start e1(1)] e2(1)] e3(1)])
  with e3 show ?thesis by blast
qed

lemma decode_answers_everybody_once_witness:
  "\<exists>e. decode_run 1 tiny_admitted tiny_acc e \<and> length (batch e) \<le> 1 \<and>
     mset tiny_admitted = mset (map fst (finished e)) + mset (map act_request (batch e @ pending_slots e))"
  using tiny_run decode_answers_everybody_once [of 1 tiny_admitted tiny_acc] by blast

lemma decode_drains_witness:
  "\<exists>e e'. decode_run 1 tiny_admitted tiny_acc e \<and> rounds 3 0 tiny_acc e = Inr e' \<and>
     mset (map fst (finished e')) = mset tiny_admitted"
proof -
  obtain e where e: "decode_run 1 tiny_admitted tiny_acc e" "in_step e = None" "task_running e" "owed e = 3"
    using tiny_run by blast
  from decode_drains [OF e(1) _ e(2,3) tiny_wf, of 0] e(1,4) show ?thesis by auto
qed

end
