(* ===== verification/Metrics.thy ===== *)
theory Metrics
  imports Prelude
begin

section \<open>The ledger of a run\<close>

text \<open>
  \<^verbatim>\<open>Ledger\<close> of \<^verbatim>\<open>sim_common/report.py\<close> and \<^verbatim>\<open>Metrics\<close> of \<^verbatim>\<open>kvcache_sim/report/metrics.py\<close>. A row is an
  object the hosts keep amending: here a position of \<open>rows\<close>, and \<open>by_id\<close> maps a request to the
  position of the row last opened for it. Aggregations read a column, given as a function.
\<close>

record 'r ledger =
  rows :: "'r list"
  edges :: "(vid \<times> vid \<times> vid) list"
  led_transfer_bytes :: int
  origin_bytes :: int
  wallclock :: time
  items_total :: int
  origins :: "vid list"

definition ledger_init :: "vid list \<Rightarrow> 'r ledger" where
  "ledger_init os = \<lparr>rows = [], edges = [], led_transfer_bytes = 0, origin_bytes = 0, wallclock = 0,
     items_total = 0, origins = os\<rparr>"

definition ledger_add :: "'r \<Rightarrow> ('r, 'x) ledger_scheme \<Rightarrow> ('r, 'x) ledger_scheme" where
  "ledger_add row l = l\<lparr>rows := rows l @ [row]\<rparr>"

definition record_transfer ::
  "string \<Rightarrow> vid \<Rightarrow> vid \<Rightarrow> int \<Rightarrow> ('r, 'x) ledger_scheme \<Rightarrow> ('r, 'x) ledger_scheme" where
  "record_transfer kind src dst nbytes l =
     (if kind \<noteq> ''get'' then l
      else l\<lparr>led_transfer_bytes := led_transfer_bytes l + nbytes,
             origin_bytes := (if src \<in> set (origins l) then origin_bytes l + nbytes else origin_bytes l),
             edges := (if 0 < nbytes then edges l @ [(src, dst, dst)] else edges l)\<rparr>)"

subsection \<open>Aggregations\<close>

definition items_done :: "('r, 'x) ledger_scheme \<Rightarrow> nat" where
  "items_done l = length (rows l)"

definition select_rows :: "('r \<Rightarrow> bool) option \<Rightarrow> ('r, 'x) ledger_scheme \<Rightarrow> 'r list" where
  "select_rows cond l = (case cond of None \<Rightarrow> rows l | Some p \<Rightarrow> filter p (rows l))"

definition total :: "('r \<Rightarrow> 'n::comm_monoid_add) \<Rightarrow> ('r \<Rightarrow> bool) option \<Rightarrow> ('r, 'x) ledger_scheme \<Rightarrow> 'n" where
  "total attr cond l = sum_list (map attr (select_rows cond l))"

definition mean :: "('r \<Rightarrow> real) \<Rightarrow> ('r \<Rightarrow> bool) option \<Rightarrow> ('r, 'x) ledger_scheme \<Rightarrow> real" where
  "mean attr cond l =
     (let rs = select_rows cond l in if rs = [] then 0 else sum_list (map attr rs) / real (length rs))"

text \<open>\<^verbatim>\<open>int(x)\<close> truncates toward zero; a negative index counts from the end, and may raise.\<close>

definition trunc_int :: "real \<Rightarrow> int" where
  "trunc_int x = (if 0 \<le> x then \<lfloor>x\<rfloor> else \<lceil>x\<rceil>)"

definition py_index :: "'a list \<Rightarrow> int \<Rightarrow> 'a res" where
  "py_index xs i =
     (let n = int (length xs); j = (if i < 0 then i + n else i)
      in if 0 \<le> j \<and> j < n then Inr (xs ! nat j) else Inl IndexError)"

definition nearest_rank :: "real list \<Rightarrow> real \<Rightarrow> real res" where
  "nearest_rank xs pct =
     (let ordered = sort xs
      in if ordered = [] then Inr 0
         else py_index ordered
           (min (int (length ordered) - 1) (trunc_int (pct / 100 * real (length ordered)))))"

definition column :: "('r \<Rightarrow> 'n) \<Rightarrow> ('r \<Rightarrow> bool) option \<Rightarrow> ('r, 'x) ledger_scheme \<Rightarrow> 'n list" where
  "column attr cond l = map attr (select_rows cond l)"

definition percentile ::
  "('r \<Rightarrow> real) \<Rightarrow> real \<Rightarrow> ('r \<Rightarrow> bool) option \<Rightarrow> ('r, 'x) ledger_scheme \<Rightarrow> real res" where
  "percentile attr pct cond l = nearest_rank (column attr cond l) pct"

definition count_rows :: "('r \<Rightarrow> bool) \<Rightarrow> ('r, 'x) ledger_scheme \<Rightarrow> nat" where
  "count_rows cond l = length (filter cond (rows l))"

definition fraction ::
  "('r \<Rightarrow> bool) \<Rightarrow> ('r \<Rightarrow> bool) option \<Rightarrow> real \<Rightarrow> ('r, 'x) ledger_scheme \<Rightarrow> real" where
  "fraction cond over when_none l =
     (let rs = select_rows over l
      in if rs = [] then when_none else real (length (filter cond rs)) / real (length rs))"

subsection \<open>A request's row\<close>

record request_result =
  rr_id :: string
  accepted :: bool
  rr_ttft :: time
  rr_prompt_tokens :: int
  rr_cached_tokens :: int
  rr_uncached_tokens :: int
  rr_transfer_bytes :: int
  rr_prefill :: vid
  rr_reuse_source :: "vid option"
  rr_tbt :: time
  rr_published :: bool
  predicted_queue_wait :: time
  rr_queue_wait :: time
  rr_decode :: vid
  handoff_bytes :: int
  handoff_missed :: bool
  decode_blocks :: int
  decode_unpublished :: bool
  latency :: time
  rr_output_tokens :: int

text \<open>The dataclass defaults: \<^verbatim>\<open>RequestResult(id=..., accepted=...)\<close>.\<close>

definition new_result :: "string \<Rightarrow> bool \<Rightarrow> request_result" where
  "new_result i ok =
     \<lparr>rr_id = i, accepted = ok, rr_ttft = 0, rr_prompt_tokens = 0, rr_cached_tokens = 0,
      rr_uncached_tokens = 0, rr_transfer_bytes = 0, rr_prefill = [], rr_reuse_source = None, rr_tbt = 0,
      rr_published = True, predicted_queue_wait = 0, rr_queue_wait = 0, rr_decode = [],
      handoff_bytes = 0, handoff_missed = False, decode_blocks = 0, decode_unpublished = False,
      latency = 0, rr_output_tokens = 0\<rparr>"

record metrics = "request_result ledger" +
  by_id :: "(string \<times> nat) list"

definition metrics_init :: metrics where
  "metrics_init = \<lparr>rows = [], edges = [], led_transfer_bytes = 0, origin_bytes = 0, wallclock = 0,
     items_total = 0, origins = [], by_id = []\<rparr>"

definition metrics_add :: "request_result \<Rightarrow> metrics \<Rightarrow> metrics" where
  "metrics_add row m =
     (ledger_add row m)\<lparr>by_id := AList.update (rr_id row) (length (rows m)) (by_id m)\<rparr>"

definition open_row :: "string \<Rightarrow> metrics \<Rightarrow> nat res" where
  "open_row i m = (case map_of (by_id m) i of None \<Rightarrow> Inl KeyError | Some n \<Rightarrow> Inr n)"

definition amend :: "nat \<Rightarrow> (request_result \<Rightarrow> request_result) \<Rightarrow> metrics \<Rightarrow> metrics" where
  "amend n f m = m\<lparr>rows := (rows m)[n := f (rows m ! n)]\<rparr>"

definition handed_off :: "string \<Rightarrow> vid \<Rightarrow> int \<Rightarrow> bool \<Rightarrow> metrics \<Rightarrow> metrics res" where
  "handed_off i host nbytes missed m =
     bindr (open_row i m) (\<lambda>n.
       Inr (amend n (\<lambda>r. r\<lparr>rr_decode := host, handoff_bytes := nbytes, handoff_missed := missed\<rparr>) m))"

definition decode_resident :: "string \<Rightarrow> int \<Rightarrow> bool \<Rightarrow> metrics \<Rightarrow> metrics res" where
  "decode_resident i blocks published m =
     bindr (open_row i m) (\<lambda>n.
       Inr (amend n (\<lambda>r. if published then r\<lparr>decode_blocks := decode_blocks r + blocks\<rparr>
                         else r\<lparr>decode_unpublished := True\<rparr>) m))"

definition decoded :: "string \<Rightarrow> time \<Rightarrow> metrics \<Rightarrow> metrics res" where
  "decoded i gap m = bindr (open_row i m) (\<lambda>n. Inr (amend n (\<lambda>r. r\<lparr>rr_tbt := gap\<rparr>) m))"

definition completed :: "string \<Rightarrow> time \<Rightarrow> int \<Rightarrow> metrics \<Rightarrow> metrics res" where
  "completed i took n_tokens m =
     bindr (open_row i m) (\<lambda>n.
       Inr (amend n (\<lambda>r. r\<lparr>latency := took, rr_output_tokens := n_tokens\<rparr>) m))"

subsection \<open>Readings\<close>

definition hit_rate :: "metrics \<Rightarrow> real" where
  "hit_rate m =
     (let tot = total rr_prompt_tokens (Some accepted) m; cached = total rr_cached_tokens (Some accepted) m
      in if tot \<noteq> 0 then real_of_int cached / real_of_int tot else 0)"

definition compute_tokens :: "metrics \<Rightarrow> int" where
  "compute_tokens m = total rr_uncached_tokens (Some accepted) m"

definition saved_tokens :: "metrics \<Rightarrow> int" where
  "saved_tokens m = total rr_cached_tokens (Some accepted) m"

definition fabric_bytes :: "metrics \<Rightarrow> int" where
  "fabric_bytes m = total rr_transfer_bytes (Some accepted) m"

definition handoff_total :: "metrics \<Rightarrow> int" where
  "handoff_total m = total handoff_bytes (Some accepted) m"

definition handoff_misses :: "metrics \<Rightarrow> nat" where
  "handoff_misses m = count_rows handoff_missed m"

definition rejections :: "metrics \<Rightarrow> nat" where
  "rejections m = count_rows (\<lambda>r. \<not> accepted r) m"

definition mean_ttft :: "metrics \<Rightarrow> real" where
  "mean_ttft m = mean rr_ttft (Some accepted) m"

definition pct_ttft :: "real \<Rightarrow> metrics \<Rightarrow> real res" where
  "pct_ttft pct m = percentile rr_ttft pct (Some accepted) m"

definition mean_tbt :: "metrics \<Rightarrow> real" where
  "mean_tbt m = mean rr_tbt (Some accepted) m"

definition pct_tbt :: "real \<Rightarrow> metrics \<Rightarrow> real res" where
  "pct_tbt pct m = percentile rr_tbt pct (Some accepted) m"

definition mean_latency :: "metrics \<Rightarrow> real" where
  "mean_latency m = mean latency (Some accepted) m"

definition pct_latency :: "real \<Rightarrow> metrics \<Rightarrow> real res" where
  "pct_latency pct m = percentile latency pct (Some accepted) m"

definition tbt_slo_met :: "real \<Rightarrow> metrics \<Rightarrow> real" where
  "tbt_slo_met slo m = fraction (\<lambda>r. rr_tbt r \<le> slo) (Some accepted) 1 m"

definition decode_blocks_total :: "metrics \<Rightarrow> int" where
  "decode_blocks_total m = total decode_blocks (Some accepted) m"

definition decode_unpublished_count :: "metrics \<Rightarrow> nat" where
  "decode_unpublished_count m = count_rows (\<lambda>r. accepted r \<and> decode_unpublished r) m"

definition unpublished :: "metrics \<Rightarrow> nat" where
  "unpublished m = count_rows (\<lambda>r. accepted r \<and> \<not> rr_published r) m"

subsection \<open>The nearest rank\<close>

lemma sorted_less_count:
  assumes "sorted xs" "i < length xs"
  shows "length (filter (\<lambda>x. x < xs ! i) xs) \<le> i" "i < length (filter (\<lambda>x. x \<le> xs ! i) xs)"
proof -
  have split: "xs = take i xs @ drop i xs" by simp
  have late: "\<forall>x \<in> set (drop i xs). xs ! i \<le> x"
    using assms by (auto simp: in_set_conv_nth sorted_iff_nth_mono)
  have "filter (\<lambda>x. x < xs ! i) xs = filter (\<lambda>x. x < xs ! i) (take i xs) @ filter (\<lambda>x. x < xs ! i) (drop i xs)"
    by (subst split) (rule filter_append)
  also have "filter (\<lambda>x. x < xs ! i) (drop i xs) = []" using late by (auto simp: filter_empty_conv)
  finally have "filter (\<lambda>x. x < xs ! i) xs = filter (\<lambda>x. x < xs ! i) (take i xs)" by simp
  then have "length (filter (\<lambda>x. x < xs ! i) xs) \<le> length (take i xs)" by (metis length_filter_le)
  then show "length (filter (\<lambda>x. x < xs ! i) xs) \<le> i" by simp
  have "\<forall>x \<in> set (take (Suc i) xs). x \<le> xs ! i"
    using assms by (auto simp: in_set_conv_nth sorted_iff_nth_mono)
  then have "filter (\<lambda>x. x \<le> xs ! i) (take (Suc i) xs) = take (Suc i) xs" by (simp add: filter_id_conv)
  moreover have "filter (\<lambda>x. x \<le> xs ! i) xs =
      filter (\<lambda>x. x \<le> xs ! i) (take (Suc i) xs) @ filter (\<lambda>x. x \<le> xs ! i) (drop (Suc i) xs)"
    by (metis append_take_drop_id filter_append)
  ultimately have "length (filter (\<lambda>x. x \<le> xs ! i) xs) \<ge> length (take (Suc i) xs)" by simp
  then show "i < length (filter (\<lambda>x. x \<le> xs ! i) xs)" using assms(2) by simp
qed

lemma py_index_in: "0 \<le> k \<Longrightarrow> k < int (length xs) \<Longrightarrow> py_index xs k = Inr (xs ! nat k)"
  by (simp add: py_index_def)

lemma filter_sort_length: "length (filter p (sort xs)) = length (filter p xs)"
  by (metis mset_filter mset_sort size_mset)

text \<open>Over any rows and any percentage from 0 to 100 a percentile is a value that was observed,
  with at most that share of the observations strictly below it and, short of the whole, more
  than that share at or below it; over no rows it is 0. It never reads out of range.\<close>

theorem percentile_is_nearest_rank:
  assumes "0 \<le> pct" "pct \<le> 100"
  shows "\<exists>v. percentile attr pct cond l = Inr v \<and>
    (let xs = column attr cond l in
       if xs = [] then v = 0
       else v \<in> set xs \<and> real (length (filter (\<lambda>x. x < v) xs)) \<le> pct / 100 * real (length xs) \<and>
         (pct < 100 \<longrightarrow> pct / 100 * real (length xs) < real (length (filter (\<lambda>x. x \<le> v) xs))))"
proof -
  define xs where "xs = column attr cond l"
  have "\<exists>v. percentile attr pct cond l = Inr v \<and>
    (if xs = [] then v = 0
     else v \<in> set xs \<and> real (length (filter (\<lambda>x. x < v) xs)) \<le> pct / 100 * real (length xs) \<and>
       (pct < 100 \<longrightarrow> pct / 100 * real (length xs) < real (length (filter (\<lambda>x. x \<le> v) xs))))"
  proof (cases "xs = []")
  case True
  then show ?thesis by (simp add: percentile_def nearest_rank_def xs_def Let_def)
next
  case False
  let ?n = "length xs" and ?x = "pct / 100 * real (length xs)"
  define k where "k = min (int ?n - 1) \<lfloor>?x\<rfloor>"
  define i where "i = nat k"
  have n: "0 < ?n" using False by simp
  have x0: "0 \<le> ?x" using assms(1) by simp
  have k: "0 \<le> k" "k \<le> int ?n - 1" "k \<le> \<lfloor>?x\<rfloor>" using n x0 by (auto simp: k_def)
  then have ik: "int i = k" by (simp add: i_def)
  then have i1: "i < ?n" using k(2) n by linarith
  have "real_of_int k \<le> ?x" using k(3) by linarith
  then have i2: "real i \<le> ?x" using ik by (metis of_int_of_nat_eq)
  note i = i1 i2
  have up: "?x < real i + 1" if "pct < 100"
  proof -
    have "?x < 1 * real ?n" by (rule mult_strict_right_mono) (use that n in auto)
    then have "?x < real_of_int (int ?n)" by simp
    then have "\<lfloor>?x\<rfloor> < int ?n" by (simp only: floor_less_iff)
    then have "k = \<lfloor>?x\<rfloor>" by (simp add: k_def)
    then have "?x < real_of_int k + 1" by linarith
    then show ?thesis using ik by (metis of_int_of_nat_eq)
  qed
  let ?v = "sort xs ! i"
  have len: "length (sort xs) = ?n" by simp
  have "py_index (sort xs) (min (int ?n - 1) (trunc_int ?x)) = Inr ?v"
  proof -
    have "min (int ?n - 1) (trunc_int ?x) = k" using x0 by (simp add: trunc_int_def k_def)
    then show ?thesis using py_index_in [of k "sort xs"] k by (simp add: i_def)
  qed
  moreover have "sort xs \<noteq> []" using False by (metis length_0_conv length_sort)
  ultimately have run: "percentile attr pct cond l = Inr ?v"
    by (simp add: percentile_def nearest_rank_def Let_def flip: xs_def)
  have "?v \<in> set xs" using i(1) nth_mem [of i "sort xs"] by simp
  moreover have "length (filter (\<lambda>x. x < ?v) xs) \<le> i" "i < length (filter (\<lambda>x. x \<le> ?v) xs)"
    using sorted_less_count [OF sorted_sort, of i xs] i(1) by (simp_all add: filter_sort_length)
  ultimately show ?thesis using run False i(2) up by (intro exI [of _ ?v]) auto
  qed
  then show ?thesis unfolding xs_def Let_def .
qed

subsection \<open>The join of what the hosts and the client reported\<close>

datatype metric_op =
    Add request_result
  | HandedOff string vid int bool
  | Resident string int bool
  | Decoded string time
  | Completed string time int

fun metric_step :: "metric_op \<Rightarrow> metrics \<Rightarrow> metrics res" where
  "metric_step (Add row) m = Inr (metrics_add row m)"
| "metric_step (HandedOff i host nbytes missed) m = handed_off i host nbytes missed m"
| "metric_step (Resident i blocks published) m = decode_resident i blocks published m"
| "metric_step (Decoded i gap) m = decoded i gap m"
| "metric_step (Completed i took n_tokens) m = completed i took n_tokens m"

fun op_id :: "metric_op \<Rightarrow> string" where
  "op_id (Add row) = rr_id row"
| "op_id (HandedOff i _ _ _) = i"
| "op_id (Resident i _ _) = i"
| "op_id (Decoded i _) = i"
| "op_id (Completed i _ _) = i"

text \<open>What one report does to the row it is about.\<close>

fun reported :: "metric_op \<Rightarrow> request_result \<Rightarrow> request_result" where
  "reported (Add row) r = r"
| "reported (HandedOff i host nbytes missed) r = r\<lparr>rr_decode := host, handoff_bytes := nbytes, handoff_missed := missed\<rparr>"
| "reported (Resident i blocks published) r =
     (if published then r\<lparr>decode_blocks := decode_blocks r + blocks\<rparr> else r\<lparr>decode_unpublished := True\<rparr>)"
| "reported (Decoded i gap) r = r\<lparr>rr_tbt := gap\<rparr>"
| "reported (Completed i took n_tokens) r = r\<lparr>latency := took, rr_output_tokens := n_tokens\<rparr>"

definition opened_rows :: "metric_op list \<Rightarrow> request_result list" where
  "opened_rows ops = concat (map (\<lambda>op. case op of Add row \<Rightarrow> [row] | _ \<Rightarrow> []) ops)"

text \<open>A request's row once everything about it has been reported.\<close>

definition joined :: "metric_op list \<Rightarrow> request_result \<Rightarrow> request_result" where
  "joined ops row = fold reported (filter (\<lambda>op. op_id op = rr_id row) ops) row"

lemma reported_id [simp]: "rr_id (reported op r) = rr_id r"
  by (cases op) auto

lemma joined_id [simp]: "rr_id (joined ops row) = rr_id row"
proof -
  have "rr_id (fold reported xs r) = rr_id r" for xs r by (induction xs arbitrary: r) auto
  then show ?thesis by (simp add: joined_def)
qed

lemma opened_rows_append: "opened_rows (xs @ ys) = opened_rows xs @ opened_rows ys"
  by (simp add: opened_rows_def)

lemma opened_rows_one: "opened_rows [op] = (case op of Add row \<Rightarrow> [row] | _ \<Rightarrow> [])"
  by (cases op) (simp_all add: opened_rows_def)

lemma joined_snoc:
  "joined (ops @ [op]) row = (if op_id op = rr_id row then reported op (joined ops row) else joined ops row)"
  by (simp add: joined_def)

lemma amend_step:
  "\<forall>row. op \<noteq> Add row \<Longrightarrow> metric_step op m = bindr (open_row (op_id op) m) (\<lambda>n. Inr (amend n (reported op) m))"
  by (cases op) (auto simp: handed_off_def decode_resident_def decoded_def completed_def amend_def)

text \<open>The table while it is written: every opened row with its own reports, found under its id.\<close>

definition table_ok :: "metric_op list \<Rightarrow> metrics \<Rightarrow> bool" where
  "table_ok ops m \<longleftrightarrow> rows m = map (joined ops) (opened_rows ops) \<and>
     (\<forall>i n. map_of (by_id m) i = Some n \<longleftrightarrow> n < length (opened_rows ops) \<and> rr_id (opened_rows ops ! n) = i)"

lemma joined_unopened:
  "(\<And>op. op \<in> set ops \<Longrightarrow> op_id op \<noteq> rr_id row) \<Longrightarrow> joined ops row = row"
  by (simp add: joined_def filter_empty_conv)

lemma table_open:
  assumes "table_ok ops m"
  shows "open_row i m = (if i \<in> rr_id ` set (opened_rows ops) then Inr (the (map_of (by_id m) i)) else Inl KeyError)"
proof -
  have "map_of (by_id m) i \<noteq> None \<longleftrightarrow> i \<in> rr_id ` set (opened_rows ops)"
  proof -
    have "map_of (by_id m) i \<noteq> None \<longleftrightarrow> (\<exists>n < length (opened_rows ops). rr_id (opened_rows ops ! n) = i)"
      using assms unfolding table_ok_def by (metis not_None_eq)
    also have "\<dots> \<longleftrightarrow> i \<in> rr_id ` set (opened_rows ops)"
      by (metis (no_types, lifting) image_iff in_set_conv_nth)
    finally show ?thesis .
  qed
  then show ?thesis by (auto simp: open_row_def split: option.splits)
qed

lemma table_step:
  assumes ok: "table_ok ops m" and ids: "distinct (map rr_id (opened_rows (ops @ [op])))"
    and seen: "\<And>o'. o' \<in> set ops \<Longrightarrow> op_id o' \<in> rr_id ` set (opened_rows ops)"
    and step: "metric_step op m = Inr m'"
  shows "table_ok (ops @ [op]) m' \<and> op_id op \<in> rr_id ` set (opened_rows (ops @ [op]))"
proof (cases "\<exists>row. op = Add row")
  case True
  then obtain row where op: "op = Add row" by blast
  have m': "m' = metrics_add row m" using step op by simp
  have opened: "opened_rows (ops @ [op]) = opened_rows ops @ [row]"
    by (simp add: opened_rows_append opened_rows_one op)
  have new: "rr_id row \<notin> rr_id ` set (opened_rows ops)" using ids opened by auto
  have "joined ops row = row" by (rule joined_unopened) (use seen new in metis)
  moreover have "joined (ops @ [op]) r = joined ops r" for r by (simp add: joined_snoc op)
  ultimately have "rows m' = map (joined (ops @ [op])) (opened_rows (ops @ [op]))"
    using ok opened by (simp add: table_ok_def m' metrics_add_def ledger_add_def)
  moreover have "map_of (by_id m') i = Some n \<longleftrightarrow>
      n < length (opened_rows (ops @ [op])) \<and> rr_id (opened_rows (ops @ [op]) ! n) = i" for i n
  proof -
    have out: "rr_id (opened_rows ops ! n) \<noteq> rr_id row" if "n < length (opened_rows ops)" for n
      using new that by (metis image_eqI nth_mem)
    show ?thesis using ok out unfolding opened
      by (auto simp: table_ok_def m' metrics_add_def ledger_add_def nth_append less_Suc_eq)
  qed
  moreover have "op_id op \<in> rr_id ` set (opened_rows (ops @ [op]))" using opened by (simp add: op)
  ultimately show ?thesis unfolding table_ok_def by blast
next
  case False
  have opened: "opened_rows (ops @ [op]) = opened_rows ops"
    using False by (cases op) (simp_all add: opened_rows_append opened_rows_one)
  have "bindr (open_row (op_id op) m) (\<lambda>n. Inr (amend n (reported op) m)) = Inr m'"
    using step amend_step [of op m] False by simp
  then obtain n where n: "open_row (op_id op) m = Inr n" "m' = amend n (reported op) m"
    by (auto simp: bindr_eq_Inr_iff)
  then have at: "n < length (opened_rows ops)" "rr_id (opened_rows ops ! n) = op_id op"
    using ok by (auto simp: table_ok_def open_row_def split: option.splits)
  have "rows m' = map (joined (ops @ [op])) (opened_rows ops)"
  proof (rule nth_equalityI)
    show "length (rows m') = length (map (joined (ops @ [op])) (opened_rows ops))"
      using ok by (simp add: n(2) amend_def table_ok_def)
    fix k
    assume "k < length (rows m')"
    then have k: "k < length (opened_rows ops)" using ok by (simp add: n(2) amend_def table_ok_def)
    have "rr_id (opened_rows ops ! k) = op_id op \<longleftrightarrow> k = n"
      using ids k at unfolding opened by (metis distinct_conv_nth length_map nth_map)
    then show "rows m' ! k = map (joined (ops @ [op])) (opened_rows ops) ! k"
      using ok k by (auto simp: n(2) amend_def table_ok_def joined_snoc nth_list_update)
  qed
  moreover have "by_id m' = by_id m" by (simp add: n(2) amend_def)
  moreover have "op_id op \<in> rr_id ` set (opened_rows ops)" using at by (metis image_eqI nth_mem)
  ultimately show ?thesis using ok by (simp add: table_ok_def opened)
qed

lemma run_table:
  assumes "res_fold metric_step later m = Inr m'" "table_ok ops m" "distinct (map rr_id (opened_rows (ops @ later)))"
    "\<And>o'. o' \<in> set ops \<Longrightarrow> op_id o' \<in> rr_id ` set (opened_rows ops)"
  shows "table_ok (ops @ later) m'"
  using assms
proof (induction later arbitrary: ops m)
  case Nil
  then show ?case by simp
next
  case (Cons op later)
  from Cons.prems(1) obtain m1 where m1: "metric_step op m = Inr m1" "res_fold metric_step later m1 = Inr m'"
    by (auto simp: res_simps)
  have eq: "ops @ op # later = (ops @ [op]) @ later" by simp
  have "distinct (map rr_id (opened_rows (ops @ [op])))"
    using Cons.prems(3) unfolding eq opened_rows_append [of "ops @ [op]"] by simp
  from table_step [OF Cons.prems(2) this Cons.prems(4) m1(1)]
  have step: "table_ok (ops @ [op]) m1" "op_id op \<in> rr_id ` set (opened_rows (ops @ [op]))" by auto
  have "op_id o' \<in> rr_id ` set (opened_rows (ops @ [op]))" if "o' \<in> set (ops @ [op])" for o'
    using that step(2) Cons.prems(4) by (auto simp: opened_rows_append)
  from Cons.IH [OF m1(2) step(1) _ this] Cons.prems(3) show ?case unfolding eq by blast
qed

lemma table_init: "table_ok [] metrics_init"
  by (simp add: table_ok_def metrics_init_def opened_rows_def)

definition kept_blocks :: "string \<Rightarrow> metric_op \<Rightarrow> int" where
  "kept_blocks i op = (case op of Resident j b ok \<Rightarrow> if ok \<and> j = i then b else 0 | _ \<Rightarrow> 0)"

lemma reported_blocks:
  "op_id op = i \<Longrightarrow> decode_blocks (reported op r) = decode_blocks r + kept_blocks i op"
  by (cases op) (simp_all add: kept_blocks_def)

lemma kept_other: "op_id op \<noteq> i \<Longrightarrow> kept_blocks i op = 0"
  by (cases op) (simp_all add: kept_blocks_def)

lemma joined_blocks:
  "decode_blocks (joined ops row) = decode_blocks row +
     sum_list (map (kept_blocks (rr_id row)) ops)"
proof (induction ops rule: rev_induct)
  case Nil
  then show ?case by (simp add: joined_def)
next
  case (snoc op ops)
  then show ?case using reported_blocks [of op "rr_id row" "joined ops row"] kept_other [of op "rr_id row"]
    by (simp add: joined_snoc)
qed

text \<open>The collector's table is the join of its writers: whatever order two hosts and a client
  reported in, each opened request has one row, in the order they were opened, holding what it
  was opened with and every later report about it and about no other; what became resident on
  its decode host is what its accepted publishes add up to.\<close>

theorem collector_joins:
  assumes "res_fold metric_step ops metrics_init = Inr m" "distinct (map rr_id (opened_rows ops))"
  shows "rows m = map (joined ops) (opened_rows ops) \<and>
    (\<forall>row \<in> set (opened_rows ops). decode_blocks (joined ops row) = decode_blocks row +
       sum_list (map (kept_blocks (rr_id row)) ops))"
  using run_table [OF assms(1) table_init] assms(2) joined_blocks by (simp add: table_ok_def)

definition two_requests :: "metric_op list" where
  "two_requests = [Add (new_result ''p'' True), Add (new_result ''q'' True), HandedOff ''q'' ''h2'' 64 False,
     Resident ''q'' 2 True, Decoded ''p'' 1, Resident ''q'' 1 False, Resident ''q'' 3 True, Completed ''q'' 9 4]"

lemma collector_joins_witness:
  "\<exists>m. res_fold metric_step two_requests metrics_init = Inr m \<and>
     map decode_blocks (rows m) = [0, 5] \<and> map rr_tbt (rows m) = [1, 0]"
proof -
  obtain m where m: "res_fold metric_step two_requests metrics_init = Inr m"
    by (simp add: two_requests_def metrics_add_def ledger_add_def metrics_init_def new_result_def handed_off_def
        open_row_def amend_def decode_resident_def decoded_def completed_def)
  have opened: "opened_rows two_requests = [new_result ''p'' True, new_result ''q'' True]"
    by (simp add: opened_rows_def two_requests_def)
  then have "distinct (map rr_id (opened_rows two_requests))" by (simp add: new_result_def)
  from collector_joins [OF m this] show ?thesis using m unfolding opened
    by (auto simp: joined_def two_requests_def new_result_def)
qed

text \<open>An amendment of a request nobody opened is refused, and nothing else is.\<close>

lemma reports_refused:
  "table_ok ops m \<Longrightarrow> (\<exists>m'. metric_step op m = Inr m') \<longleftrightarrow>
     (\<exists>row. op = Add row) \<or> op_id op \<in> rr_id ` set (opened_rows ops)"
  by (cases op) (auto simp: table_open amend_step handed_off_def decode_resident_def decoded_def completed_def)

lemma percentile_is_nearest_rank_witness:
  "\<exists>v. percentile id 90 None \<lparr>rows = [3, 1, 2 :: real], edges = [], led_transfer_bytes = 0, origin_bytes = 0,
      wallclock = 0, items_total = 3, origins = []\<rparr> = Inr v \<and> v \<in> {1, 2, 3}"
proof -
  let ?l = "\<lparr>rows = [3, 1, 2 :: real], edges = [], led_transfer_bytes = 0, origin_bytes = 0,
      wallclock = 0, items_total = 3, origins = []\<rparr>"
  have "column id None ?l = [3, 1, 2]" by (simp add: column_def select_rows_def)
  with percentile_is_nearest_rank [of 90 id None ?l] show ?thesis by (auto simp: Let_def)
qed

subsection \<open>What left the origins\<close>

lemma origin_within_total:
  assumes "\<forall>(kind, src, dst, n) \<in> set ts. 0 \<le> n" "0 \<le> origin_bytes l" "origin_bytes l \<le> led_transfer_bytes l"
  shows "0 \<le> origin_bytes (fold (\<lambda>(kind, src, dst, n). record_transfer kind src dst n) ts l) \<and>
    origin_bytes (fold (\<lambda>(kind, src, dst, n). record_transfer kind src dst n) ts l) \<le>
    led_transfer_bytes (fold (\<lambda>(kind, src, dst, n). record_transfer kind src dst n) ts l)"
  using assms by (induction ts arbitrary: l) (auto simp: record_transfer_def)

end
