(* ===== verification/Serving.thy ===== *)
theory Serving
  imports KvScheduler DecodeLoop Metrics
begin

section \<open>One serving host\<close>

text \<open>
  \<^verbatim>\<open>kvcache_sim/data/serving.py\<close>, \<^verbatim>\<open>kvcache_sim/data/_store.py\<close> and \<^verbatim>\<open>kvcache_sim/data/_prefill.py\<close>. A
  host reaches the store, the two control ports and its engines; everything behind them, and
  everything anybody else does while the host waits (the rows of other requests included), is the world \<open>'w\<close>, and \<open>ports\<close> is what each
  awaited call does to it and answers. The run's ledger and trace are kept beside it. A block is
  its byte count; a traced line is the values it prints.
\<close>

record 'w ports =
  p_now :: "'w \<Rightarrow> time"
  p_decide :: "request \<Rightarrow> vid \<Rightarrow> 'w \<Rightarrow> 'w \<times> response option res"
  p_sources :: "(key list \<Rightarrow> vid \<Rightarrow> 'w \<Rightarrow> 'w \<times> vid list option res) option"
  p_put :: "vid \<Rightarrow> (key \<times> int) list \<Rightarrow> 'w \<Rightarrow> 'w \<times> unit res"
  p_get :: "vid \<Rightarrow> vid list option \<Rightarrow> key list \<Rightarrow> 'w \<Rightarrow> 'w \<times> (key \<times> int) list res"
  p_touch :: "vid \<Rightarrow> key list \<Rightarrow> 'w \<Rightarrow> 'w \<times> unit res"
  p_pass :: "vid \<Rightarrow> int \<Rightarrow> string \<Rightarrow> 'w \<Rightarrow> 'w"
  p_admit :: "vid \<Rightarrow> request \<Rightarrow> 'w \<Rightarrow> 'w \<times> generated res"
  p_tell :: "kv_action \<Rightarrow> 'w \<Rightarrow> 'w \<times> unit res"

datatype serving_event =
    Rejected string
  | Redirected string vid vid
  | RoutedTo string vid plan
  | Restale string nat "vid option" vid
  | PrefillDone string vid int bool "vid option"
  | NoKv string vid vid nat
  | HandOff string vid vid nat int
  | Resides string string nat int vid bool
  | DecodeEnded string time

record 'w serving =
  world :: 'w
  sv_metrics :: metrics
  sv_trace :: "(time \<times> serving_event) list"

text \<open>What an \<^verbatim>\<open>async def\<close> body is: the state it leaves behind, and its answer or its raise.\<close>

type_synonym ('w, 'a) io = "'w serving \<Rightarrow> 'w serving \<times> 'a res"

definition answer_io :: "'a \<Rightarrow> ('w, 'a) io" where
  "answer_io x s = (s, Inr x)"

definition raise_io :: "py_error \<Rightarrow> ('w, 'a) io" where
  "raise_io e s = (s, Inl e)"

definition then_io :: "('w, 'a) io \<Rightarrow> ('a \<Rightarrow> ('w, 'b) io) \<Rightarrow> ('w, 'b) io" where
  "then_io m f s = (case m s of (s', Inl e) \<Rightarrow> (s', Inl e) | (s', Inr x) \<Rightarrow> f x s')"

definition except_io :: "py_error \<Rightarrow> ('w, 'a) io \<Rightarrow> ('w, 'a) io \<Rightarrow> ('w, 'a) io" where
  "except_io e m handler s = (case m s of (s', Inl e') \<Rightarrow> if e' = e then handler s' else (s', Inl e') | r \<Rightarrow> r)"

definition lift_io :: "'a res \<Rightarrow> ('w, 'a) io" where
  "lift_io r s = (s, r)"

definition call_io :: "('w \<Rightarrow> 'w \<times> 'a res) \<Rightarrow> ('w, 'a) io" where
  "call_io f s = (case f (world s) of (w, r) \<Rightarrow> (s\<lparr>world := w\<rparr>, r))"

definition now_io :: "'w ports \<Rightarrow> ('w, time) io" where
  "now_io ps s = (s, Inr (p_now ps (world s)))"

definition trace_io :: "'w ports \<Rightarrow> serving_event \<Rightarrow> ('w, unit) io" where
  "trace_io ps ev s = (s\<lparr>sv_trace := sv_trace s @ [(p_now ps (world s), ev)]\<rparr>, Inr ())"

definition metrics_io :: "(metrics \<Rightarrow> metrics res) \<Rightarrow> ('w, unit) io" where
  "metrics_io f s = (case f (sv_metrics s) of Inl e \<Rightarrow> (s, Inl e) | Inr m \<Rightarrow> (s\<lparr>sv_metrics := m\<rparr>, Inr ()))"

subsection \<open>The store's verbs\<close>

definition publish :: "'w ports \<Rightarrow> vid \<Rightarrow> key list \<Rightarrow> int list \<Rightarrow> ('w, bool) io" where
  "publish ps inst ks blocks =
     (if ks = [] then answer_io True
      else if length ks \<noteq> length blocks then raise_io ValueError
      else except_io StorageFull
        (then_io (call_io (p_put ps inst (dict_of (zip ks blocks)))) (\<lambda>_. answer_io True))
        (answer_io False))"

definition reuse_keys :: "'w ports \<Rightarrow> vid \<Rightarrow> key list \<Rightarrow> ('w, unit) io" where
  "reuse_keys ps inst ks = (if ks = [] then answer_io () else call_io (p_touch ps inst ks))"

definition peer_sources :: "'w ports \<Rightarrow> vid \<Rightarrow> key list \<Rightarrow> ('w, vid list option) io" where
  "peer_sources ps inst ks =
     (case p_sources ps of None \<Rightarrow> answer_io None | Some ask \<Rightarrow> call_io (ask ks inst))"

definition fetch :: "'w ports \<Rightarrow> vid \<Rightarrow> key list \<Rightarrow> ('w, int list) io" where
  "fetch ps inst ks =
     (if ks = [] then answer_io []
      else then_io (peer_sources ps inst ks) (\<lambda>prefer.
           then_io (call_io (p_get ps inst prefer ks)) (\<lambda>got.
           lift_io (res_map (dindex got) ks))))"

subsection \<open>A host and its answers\<close>

record serving_host =
  sh_me :: vid
  sh_prefill :: "accelerator option"
  sh_decode :: bool
  sh_models_decode :: bool

record prefilled =
  pf_elsewhere :: "vid option"
  pf_response :: "response option"
  pf_token :: "token option"
  pf_decode :: "vid option"

definition sent_to :: "vid \<Rightarrow> prefilled" where
  "sent_to host = \<lparr>pf_elsewhere = Some host, pf_response = None, pf_token = None, pf_decode = None\<rparr>"

text \<open>The engine a host was not given is \<^verbatim>\<open>None\<close>: reading it raises.\<close>

definition prefill_engine :: "serving_host \<Rightarrow> accelerator res" where
  "prefill_engine h = (case sh_prefill h of None \<Rightarrow> Inl AttributeError | Some a \<Rightarrow> Inr a)"

text \<open>What the decode engine's callbacks forward to the control plane.\<close>

definition report_decode_state :: "'w ports \<Rightarrow> serving_host \<Rightarrow> time list \<Rightarrow> ('w, unit) io" where
  "report_decode_state ps h finishes = call_io (p_tell ps (DecodeState (sh_me h) finishes))"

definition report_compute_busy :: "'w ports \<Rightarrow> serving_host \<Rightarrow> time \<Rightarrow> ('w, unit) io" where
  "report_compute_busy ps h until = call_io (p_tell ps (ComputeBusy (sh_me h) until))"

definition decode_done :: "'w ports \<Rightarrow> request \<Rightarrow> time \<Rightarrow> ('w, unit) io" where
  "decode_done ps req tbt =
     then_io (metrics_io (decoded (req_id req) tbt)) (\<lambda>_. trace_io ps (DecodeEnded (req_id req) tbt))"

definition make_accepted :: "request \<Rightarrow> response \<Rightarrow> request_result" where
  "make_accepted req r =
     (let p = resp_plan r in
      (new_result (req_id req) True)\<lparr>rr_ttft := ttft p, rr_prompt_tokens := prompt_tokens req,
        rr_cached_tokens := cached_tokens p, rr_uncached_tokens := uncached_tokens p,
        rr_transfer_bytes := transfer_bytes p, rr_prefill := prefill_host r,
        rr_reuse_source := reuse_source p, predicted_queue_wait := queue_wait p\<rparr>)"

text \<open>The row a host holds is a position of the table; it amends it in place.\<close>

definition amend_io :: "nat \<Rightarrow> (request_result \<Rightarrow> request_result) \<Rightarrow> ('w, unit) io" where
  "amend_io n f = metrics_io (\<lambda>m. Inr (amend n f m))"

definition row_io :: "nat \<Rightarrow> ('w, request_result) io" where
  "row_io n s = (s, Inr (rows (sv_metrics s) ! n))"

definition add_row_io :: "request_result \<Rightarrow> ('w, nat) io" where
  "add_row_io row s = (s\<lparr>sv_metrics := metrics_add row (sv_metrics s)\<rparr>, Inr (length (rows (sv_metrics s))))"

text \<open>Re-pricing a prefill whose reuse vanished.\<close>

definition recompute_cached :: "accelerator \<Rightarrow> request \<Rightarrow> plan \<Rightarrow> int" where
  "recompute_cached a req p = min (local_blocks p * acc_block_tokens a) (prompt_tokens req)"

definition recompute_prefill :: "'w ports \<Rightarrow> serving_host \<Rightarrow> request \<Rightarrow> plan \<Rightarrow> nat \<Rightarrow> ('w, int) io" where
  "recompute_prefill ps h req p row =
     then_io (lift_io (prefill_engine h)) (\<lambda>a.
       let cached = recompute_cached a req p; uncached = prompt_tokens req - cached in
       then_io (amend_io row (\<lambda>r. r\<lparr>rr_cached_tokens := cached, rr_uncached_tokens := uncached, rr_transfer_bytes := 0\<rparr>)) (\<lambda>_.
       then_io (lift_io (prefill_cost uncached a)) (\<lambda>c.
       then_io (amend_io row (\<lambda>r. r\<lparr>rr_ttft := rr_ttft r + (c - prefill_t p)\<rparr>)) (\<lambda>_.
       then_io (trace_io ps (Restale (req_id req) (length (pull_keys p)) (reuse_source p) (sh_me h))) (\<lambda>_.
       answer_io uncached)))))"

definition prefill_done ::
  "'w ports \<Rightarrow> serving_host \<Rightarrow> request \<Rightarrow> response \<Rightarrow> nat \<Rightarrow> ('w, vid option) io" where
  "prefill_done ps h req r row =
     then_io (row_io row) (\<lambda>rr.
       let stored = int (length (block_keys req)) - local_blocks (resp_plan r) in
       if \<not> sh_models_decode h then
         then_io (trace_io ps (PrefillDone (req_id req) (sh_me h) stored (rr_published rr) None)) (\<lambda>_. answer_io None)
       else
         then_io (trace_io ps (PrefillDone (req_id req) (sh_me h) stored (rr_published rr) (Some (decode_host r)))) (\<lambda>_.
           answer_io (Some (decode_host r))))"

text \<open>\<^verbatim>\<open>xs[a:]\<close>, and how many elements it has, for an index that may be negative.\<close>

definition py_from :: "int \<Rightarrow> 'a list \<Rightarrow> 'a list" where
  "py_from a xs = drop (nat (if a < 0 then max 0 (a + int (length xs)) else a)) xs"

definition py_upto :: "int \<Rightarrow> 'a list \<Rightarrow> 'a list" where
  "py_upto b xs = take (nat (if b < 0 then max 0 (b + int (length xs)) else b)) xs"

definition suffix_numel :: "int \<Rightarrow> int \<Rightarrow> int" where
  "suffix_numel n a = max 0 (n - (if a < 0 then max 0 (a + n) else a))"

subsection \<open>The prefill leg\<close>

definition pull_prefix ::
  "'w ports \<Rightarrow> serving_host \<Rightarrow> request \<Rightarrow> plan \<Rightarrow> nat \<Rightarrow> ('w, int \<times> int list) io" where
  "pull_prefix ps h req p row =
     (if reuse_source p \<noteq> None \<and> pull_keys p \<noteq> []
      then except_io KeyError
        (then_io (fetch ps (sh_me h) (pull_keys p)) (\<lambda>pulled. answer_io (uncached_tokens p, pulled)))
        (then_io (recompute_prefill ps h req p row) (\<lambda>uncached. answer_io (uncached, [])))
      else answer_io (uncached_tokens p, []))"

definition run_pass ::
  "'w ports \<Rightarrow> serving_host \<Rightarrow> int \<Rightarrow> int list \<Rightarrow> string \<Rightarrow> ('w, int list \<times> token) io" where
  "run_pass ps h prompt_len pulled tag =
     then_io (lift_io (prefill_engine h)) (\<lambda>a.
       call_io (\<lambda>w. (p_pass ps (sh_me h) prompt_len tag w, Inr (pass_answer prompt_len pulled a))))"

definition measured_wait :: "serving_host \<Rightarrow> time \<Rightarrow> time \<Rightarrow> int \<Rightarrow> time res" where
  "measured_wait h submitted_at now uncached =
     bindr (prefill_engine h) (\<lambda>a. bindr (prefill_cost uncached a) (\<lambda>c. Inr (now - submitted_at - c)))"

definition prefill_here :: "'w ports \<Rightarrow> serving_host \<Rightarrow> request \<Rightarrow> response \<Rightarrow> ('w, prefilled) io" where
  "prefill_here ps h req r =
     (let p = resp_plan r in
      then_io (trace_io ps (RoutedTo (req_id req) (prefill_host r) p)) (\<lambda>_.
      then_io (add_row_io (make_accepted req r)) (\<lambda>row.
      then_io (if local_blocks p \<noteq> 0 then reuse_keys ps (sh_me h) (py_upto (local_blocks p) (block_keys req))
               else answer_io ()) (\<lambda>_.
      then_io (pull_prefix ps h req p row) (\<lambda>(uncached, pulled).
      then_io (now_io ps) (\<lambda>submitted_at.
      then_io (run_pass ps h (suffix_numel (prompt_numel req) (prompt_tokens req - uncached)) pulled (req_id req))
        (\<lambda>(kv, first_token).
      then_io (now_io ps) (\<lambda>finished_at.
      then_io (lift_io (measured_wait h submitted_at finished_at uncached)) (\<lambda>wait.
      then_io (amend_io row (\<lambda>rr. rr\<lparr>rr_queue_wait := wait\<rparr>)) (\<lambda>_.
      then_io (publish ps (sh_me h) (py_from (local_blocks p) (block_keys req)) kv) (\<lambda>ok.
      then_io (amend_io row (\<lambda>rr. rr\<lparr>rr_published := ok\<rparr>)) (\<lambda>_.
      then_io (now_io ps) (\<lambda>t.
      then_io (call_io (p_tell ps (PrefillFinished (sh_me h) t))) (\<lambda>_.
      then_io (prefill_done ps h req r row) (\<lambda>next.
      answer_io \<lparr>pf_elsewhere = None, pf_response = Some r, pf_token = Some first_token,
                 pf_decode = next\<rparr>)))))))))))))))"

definition prefill_leg :: "'w ports \<Rightarrow> serving_host \<Rightarrow> request \<Rightarrow> ('w, prefilled option) io" where
  "prefill_leg ps h req =
     then_io (call_io (p_decide ps req (sh_me h))) (\<lambda>response.
       case response of
         None \<Rightarrow>
           then_io (trace_io ps (Rejected (req_id req))) (\<lambda>_.
           then_io (add_row_io ((new_result (req_id req) False)\<lparr>rr_prompt_tokens := prompt_tokens req\<rparr>)) (\<lambda>_.
           answer_io None))
       | Some r \<Rightarrow>
           if prefill_host r \<noteq> sh_me h then
             then_io (trace_io ps (Redirected (req_id req) (sh_me h) (prefill_host r))) (\<lambda>_.
             answer_io (Some (sent_to (prefill_host r))))
           else then_io (prefill_here ps h req r) (\<lambda>pf. answer_io (Some pf)))"

subsection \<open>The decode leg\<close>

definition reside ::
  "'w ports \<Rightarrow> serving_host \<Rightarrow> key list \<Rightarrow> int list \<Rightarrow> string \<Rightarrow> string \<Rightarrow> ('w, unit) io" where
  "reside ps h ks blocks i why =
     (if blocks = [] then answer_io ()
      else then_io (publish ps (sh_me h) ks blocks) (\<lambda>ok.
           then_io (metrics_io (decode_resident i (int (length blocks)) ok)) (\<lambda>_.
           trace_io ps (Resides i why (length blocks) (sum_list blocks) (sh_me h) ok))))"

definition hand_over :: "'w ports \<Rightarrow> serving_host \<Rightarrow> request \<Rightarrow> response \<Rightarrow> ('w, unit) io" where
  "hand_over ps h req r =
     (let ks = block_keys req; i = req_id req in
      if decode_host r = prefill_host r then
        then_io (reuse_keys ps (sh_me h) ks) (\<lambda>_. metrics_io (handed_off i (sh_me h) 0 False))
      else
        then_io (except_io KeyError (then_io (fetch ps (sh_me h) ks) (\<lambda>kv. answer_io (Some kv))) (answer_io None)) (\<lambda>got.
          case got of
            None \<Rightarrow>
              then_io (trace_io ps (NoKv i (prefill_host r) (sh_me h) (length ks))) (\<lambda>_.
              metrics_io (handed_off i (sh_me h) 0 True))
          | Some kv \<Rightarrow>
              then_io (trace_io ps (HandOff i (prefill_host r) (sh_me h) (length ks) (sum_list kv))) (\<lambda>_.
              then_io (metrics_io (handed_off i (sh_me h) (sum_list kv) False)) (\<lambda>_.
              reside ps h ks kv i ''chain''))))"

definition decode_leg :: "'w ports \<Rightarrow> serving_host \<Rightarrow> request \<Rightarrow> response \<Rightarrow> ('w, token list) io" where
  "decode_leg ps h req r =
     then_io (hand_over ps h req r) (\<lambda>_.
       if \<not> sh_decode h then answer_io []
       else then_io (call_io (p_admit ps (sh_me h) req)) (\<lambda>g.
            then_io (reside ps h (continuation_keys req (int (length (gen_kv g)))) (gen_kv g) (req_id req) ''generated'') (\<lambda>_.
            answer_io (gen_tokens g))))"

end
