(* ===== verification/KvDemo.thy ===== *)
theory KvDemo
  imports KvScheduler
begin

section \<open>A decision worked through\<close>

text \<open>Two hosts; \<open>b\<close> holds the whole prompt and is busy, so \<open>a\<close> pulls from it and prefills.\<close>

definition two_hosts :: environment where
  "two_hosts = \<lparr>env_topology =
     [(''a'', \<lparr>ep_id = ''a'', ep_host = ''h1'', ep_node = ''n1''\<rparr>),
      (''b'', \<lparr>ep_id = ''b'', ep_host = ''h2'', ep_node = ''n1''\<rparr>)],
     env_profile = Some DEFAULT_PROFILE\<rparr>"

definition demo_knobs :: "rank \<Rightarrow> knobs" where
  "demo_knobs rk = \<lparr>k_reuse = PEERS, k_rank = rk, k_threshold = 3/2, k_source = PREFIX,
     k_block_tokens = 16, k_profile = DEFAULT_PROFILE, k_model = DEFAULT_MODEL,
     k_decode_pool = [], k_prefill_pool = [], k_slo_ttft = Fin 10, k_slo_tbt = Fin 1,
     k_simulate_decode = True, k_early_rejection = PREDICT\<rparr>"

definition demo_request :: request where
  "demo_request = \<lparr>req_id = ''r1'', arrival = 0, block_keys = [''k1'', ''k2''], prompt_tokens = 32,
     output_tokens = 4, prompt_numel = 32, conversation = []\<rparr>"

definition demo_dir :: "unit directory" where
  "demo_dir ks = Inr (filter (\<lambda>(k, _). k \<in> set ks) [(''k1'', [(''b'', ())]), (''k2'', [(''b'', ())])])"

definition busy_b :: "rank \<Rightarrow> scheduler" where
  "busy_b rk = (let s = scheduler_attach (demo_knobs rk) two_hosts in
     s\<lparr>s_sensors := fst (kv_dispatch (kv_reducers True) (ComputeBusy ''b'' 100) (s_sensors s))\<rparr>)"

lemma busy_b_eq: "busy_b rk = \<lparr>s_knobs = demo_knobs rk, s_env = two_hosts, prefill_ids = [''a'', ''b''],
  decode_ids = [''a'', ''b''], s_sensors = \<lparr>cluster = \<lparr>busy_until = [(''a'', 0), (''b'', 100)],
     decode_finishes = [(''a'', []), (''b'', [])]\<rparr>, reserved = [], routed_pulls = [], load_named = []\<rparr>, placed = []\<rparr>"
  by (simp add: busy_b_def Let_def scheduler_attach_def demo_knobs_def two_hosts_def kv_state_init_def cluster_init_def dict_over_def kv_compute_busy)

lemma demo_prefill_time: "prefill_time n DEFAULT_PROFILE DEFAULT_MODEL = Inr (if n \<le> 0 then 0 else of_int n * 8 / 10000)"
proof -
  have "model_rate DEFAULT_PROFILE DEFAULT_MODEL = Fin 2000000000"
    by (simp add: model_rate_def effective_flops_def is_gpu_def lower_char_def DEFAULT_PROFILE_def DEFAULT_MODEL_def)
  from prefill_time_eq [OF wf_DEFAULT_MODEL this, of n] show ?thesis by (simp add: DEFAULT_MODEL_def)
qed

lemma demo_decode_time: "decode_step_time n DEFAULT_PROFILE DEFAULT_MODEL = Inr (of_int (max 1 n) * 2 / 100)"
proof -
  have "model_rate DEFAULT_PROFILE DEFAULT_MODEL = Fin 2000000000"
    by (simp add: model_rate_def effective_flops_def is_gpu_def lower_char_def DEFAULT_PROFILE_def DEFAULT_MODEL_def)
  from decode_step_time_eq [OF wf_DEFAULT_MODEL this, of n] show ?thesis by (simp add: DEFAULT_MODEL_def)
qed

lemma demo_block_bytes: "block_bytes DEFAULT_MODEL n b = n * b"
  by (simp add: block_bytes_def DEFAULT_MODEL_def)

definition pull_time :: time where "pull_time = 32/20000 + 1/1000 + 32/200000 + 5/100000 + 32/60000 + 2/10000"

lemma demo_read_time: "env_read_time two_hosts ''b'' ''a'' 32 = Inr pull_time"
  by (simp add: env_read_time_def two_hosts_def dindex_def read_time_def storage_time_def storage_bw_def mem_copy_time_def
     network_time_def transfer_time_def locality_def DEFAULT_PROFILE_def pull_time_def)

abbreviation "demo_pin \<equiv> \<lparr>pin_keys = Some [''k1'', ''k2''], pin_located = [(''k1'', [(''b'', ())]), (''k2'', [(''b'', ())])]\<rparr>"

lemma demo_pinned: "pin demo_dir (block_keys demo_request) dir_sensor_init = Inr demo_pin"
  by (simp add: pin_def dir_sensor_init_def locate_live_def demo_dir_def demo_request_def)

lemma demo_locate: "locate demo_dir demo_pin [''k1'', ''k2''] = Inr [(''k1'', [(''b'', ())]), (''k2'', [(''b'', ())])]"
  by (simp add: locate_def dict_of_def)

definition demo_peer :: answer where
  "demo_peer = \<lparr>sources = Some [''b''], sel_key = Some [(''b'', [Num (-2)])], ready = None, sel_fold = None\<rparr>"

lemma demo_reuse: "select (reuse_chain (demo_knobs rk)) (view_of (busy_b rk) demo_dir 1 demo_pin) [''k1'', ''k2''] r = Inr demo_peer"
  by (simp add: reuse_chain_def demo_knobs_def source_ranking_def LongestPrefixKeySelector_def longest_prefix_select_def
    view_of_def demo_locate prefix_lengths_of_def held_by_def dict_over_def keyed_def named_once_def dict_of_def
    best_def named_def no_order_def comparable_def key_or_empty_def dindex_def only_def demo_peer_def Let_def)

definition "demo_ask = \<lparr>ask_request = demo_request, ask_now = 1, ask_keys = [''k1'', ''k2''], ask_counts = [(''b'', 2)], ask_peer = demo_peer\<rparr>"

lemma demo_pose: "pose_ask (busy_b rk) (view_of (busy_b rk) demo_dir 1 demo_pin) demo_request 1 r = Inr demo_ask"
  using demo_reuse [of rk r]
  by (simp add: pose_ask_def Let_def demo_request_def demo_locate prefix_lengths_of_def held_by_def dict_over_def demo_ask_def
    busy_b_eq) (simp add: view_of_def demo_locate)

definition plan_a where "plan_a = \<lparr>match_blocks = 2, cached_tokens = 32, uncached_tokens = 0, reuse_source = Some ''b'',
   transfer_bytes = 32, queue_wait = 0, ttft = pull_time, done_time = 1 + pull_time, prefill_t = 0, pull_keys = [''k1'', ''k2'']\<rparr>"
definition plan_b where "plan_b = \<lparr>match_blocks = 2, cached_tokens = 32, uncached_tokens = 0, reuse_source = None,
   transfer_bytes = 0, queue_wait = 99, ttft = 99, done_time = 100, prefill_t = 0, pull_keys = []\<rparr>"

abbreviation "demo_view rk \<equiv> view_of (busy_b rk) demo_dir 1 demo_pin"

lemma demo_prices: "price_plan (pricing_of (busy_b rk)) (demo_view rk) demo_ask ''a'' = Inr plan_a"
   "price_plan (pricing_of (busy_b rk)) (demo_view rk) demo_ask ''b'' = Inr plan_b"
  by (simp_all add: price_plan_def demo_ask_def demo_peer_def require_def worth_pulling_def priced_reuse_def head_def named_def
    candidate_def slice_def pricing_of_def busy_b_eq demo_knobs_def Let_def demo_request_def demo_prefill_time demo_block_bytes
    view_of_def demo_read_time predict_def dindex_def plan_a_def plan_b_def abstain_def)

lemma by_ttft_a: "by_ttft [Held plan_a] = Inr [pull_time]"
  by (simp add: by_ttft_def plan_a_def)

lemma by_ttft_b: "by_ttft [Held plan_b] = Inr [99]"
  by (simp add: by_ttft_def plan_b_def)

lemma demo_priced: "select (Priced (pricing_of (busy_b rk))) (demo_view rk) demo_ask r =
   Inr \<lparr>sources = Some [''a'', ''b''], sel_key = Some [(''a'', [Held plan_a]), (''b'', [Held plan_b])],
        ready = None, sel_fold = None\<rparr>"
proof -
  have ids: "p_instances (pricing_of (busy_b rk)) = [''a'', ''b'']" by (simp add: pricing_of_def busy_b_eq Let_def)
  show ?thesis
    by (simp add: Priced_def priced_select_def ids sel_of_def named_once_def annotated_def named_def
        demo_prices key_or_empty_def dict_of_def)
qed

lemma demo_knob_values:
  "k_rank (s_knobs (busy_b rk)) = rk" "k_slo_ttft (s_knobs (busy_b rk)) = Fin 10"
  "k_slo_tbt (s_knobs (busy_b rk)) = Fin 1" "k_simulate_decode (s_knobs (busy_b rk))"
  "k_profile (s_knobs (busy_b rk)) = DEFAULT_PROFILE" "k_model (s_knobs (busy_b rk)) = DEFAULT_MODEL"
  "lookahead (s_knobs (busy_b rk))"
  by (simp_all add: busy_b_eq demo_knobs_def lookahead_def)

lemma pull_time_small: "pull_time < 1" "0 < pull_time"
  by (simp_all add: pull_time_def)

lemmas demo_link_eval = bounded_def stamp_def best_def abstains_def named_def key_or_empty_def dindex_def
  no_order_def comparable_def only_def dict_of_def

definition demo_winner :: "plan dim list \<Rightarrow> plan fold_fn option \<Rightarrow> answer" where
  "demo_winner dims f = \<lparr>sources = Some [''a''], sel_key = Some [(''a'', dims)], ready = None, sel_fold = f\<rparr>"

lemma demo_prefill_ttft:
  "select (prefill_chain (busy_b TTFT)) (demo_view TTFT) demo_ask r = Inr (demo_winner [Held plan_a] (Some by_ttft))"
  using pull_time_small
  by (simp add: prefill_chain_def Let_def demo_knob_values demo_priced demo_link_eval demo_winner_def
      ttft_at_most_def by_ttft_a) (auto simp: plan_a_def plan_b_def by_ttft_def)

lemma demo_prefill_load:
  "select (prefill_chain (busy_b LOAD)) (demo_view LOAD) demo_ask r =
     Inr (demo_winner [Held plan_a, Num 0] (Some by_queue))"
proof -
  have busy: "busy_until (cluster (v_sensors (demo_view LOAD))) = [(''a'', 0), (''b'', 100)]"
    by (simp add: view_of_def busy_b_eq)
  show ?thesis
    using pull_time_small
    by (simp add: prefill_chain_def Let_def demo_knob_values Annotate_def demo_priced busy_at_def busy
        annotated_def demo_link_eval by_queue_def demo_winner_def ttft_at_most_def)
      (auto simp: plan_a_def)
qed

lemma demo_decode:
  "select (decode_chain (busy_b rk)) (demo_view rk) plan_a r =
     Inr \<lparr>sources = Some [''a''], sel_key = Some [(''a'', [Num 0])], ready = None, sel_fold = None\<rparr>"
proof -
  have batch: "predicted_batch (decoding_of (busy_b rk)) (demo_view rk) d (done_time plan_a) = Inr 0"
    if "d \<in> {''a'', ''b''}" for d
    using that
    by (auto simp: predicted_batch_def decoding_of_def Let_def demo_knob_values view_of_def busy_b_eq
        predict_occupancy_def dindex_def pending_def demo_knobs_def lookahead_def)
  have ids: "dc_instances (decoding_of (busy_b rk)) = [''a'', ''b'']" by (simp add: decoding_of_def busy_b_eq Let_def)
  show ?thesis
    by (auto simp: decode_chain_def Let_def demo_knob_values DecodeBatch_def decode_select_def ids sel_of_def
        named_once_def annotated_def batch demo_link_eval tbt_at_most_def pred_tbt_of_def demo_decode_time)
qed

definition demo_answer :: response where
  "demo_answer = \<lparr>prefill_host = ''a'', decode_host = ''a'', resp_plan = plan_a, pred_tbt = 2/100\<rparr>"

lemma demo_pick: "pick_decode (busy_b rk) (demo_view rk) ''a'' plan_a r = Inr (Some demo_answer)"
  by (simp add: pick_decode_def demo_decode abstains_def head_def named_def first_dim_def key_or_empty_def
      dindex_def demo_knob_values pred_tbt_of_def demo_decode_time demo_answer_def)

lemma demo_settle:
  "settle (busy_b TTFT) demo_dir 1 demo_request r = Inr (Some demo_answer)"
  "settle (busy_b LOAD) demo_dir 1 demo_request r = Inr (Some demo_answer)"
  by (simp_all add: settle_def demo_pinned Let_def demo_pose demo_prefill_ttft demo_prefill_load
      demo_winner_def abstains_def head_def named_def first_dim_def key_or_empty_def dindex_def demo_pick)

text \<open>Asked of host \<open>b\<close>, so the request moves; asked of host \<open>a\<close>, it is served where it is.\<close>

definition demo_after :: "rank \<Rightarrow> vid \<Rightarrow> scheduler" where
  "demo_after rk r = projr (book (busy_b rk) demo_request r demo_answer)"

lemma demo_unplaced: "map_of (placed (busy_b rk)) (req_id demo_request) = None"
  by (simp add: busy_b_eq)

lemma demo_book: "book (busy_b rk) demo_request r demo_answer = Inr (demo_after rk r)"
  using book_total [of "busy_b rk" demo_request r demo_answer] by (auto simp: demo_after_def)

lemma demo_decide:
  "decide (busy_b TTFT) demo_dir 1 demo_request r = Inr (demo_after TTFT r, Some demo_answer)"
  "decide (busy_b LOAD) demo_dir 1 demo_request r = Inr (demo_after LOAD r, Some demo_answer)"
  by (simp_all add: decide_def demo_unplaced demo_settle demo_book)

lemma demo_fields:
  "prefill_ids (busy_b rk) = [''a'', ''b'']" "decode_ids (busy_b rk) = [''a'', ''b'']"
  "placed (busy_b rk) = []" "routed_pulls (s_sensors (busy_b rk)) = []"
  "busy_until (cluster (s_sensors (busy_b rk))) = [(''a'', 0), (''b'', 100)]"
  by (simp_all add: busy_b_eq)

lemma demo_answer_fields:
  "prefill_host demo_answer = ''a''" "decode_host demo_answer = ''a''" "resp_plan demo_answer = plan_a"
  "pred_tbt demo_answer = 2/100" "reuse_source plan_a = Some ''b''" "pull_keys plan_a = [''k1'', ''k2'']"
  by (simp_all add: demo_answer_def plan_a_def)

lemma demo_wf:
  "k_simulate_decode (s_knobs (busy_b rk)) \<Longrightarrow>
     wf_model (k_profile (s_knobs (busy_b rk))) (k_model (s_knobs (busy_b rk)))"
  by (simp add: demo_knob_values wf_DEFAULT_MODEL)

end
