(* ===== verification/KvDecisions.thy ===== *)
theory KvDecisions
  imports KvDemo
begin

section \<open>What a KV-cache decision guarantees\<close>

text \<open>
  The theorems about \<open>decide\<close> and \<open>serve_sources\<close>: what an accepted answer is, what a refusal
  costs, that a moved request is priced and booked once, and that a fetch is served by the peer
  its pull was priced against.
\<close>

subsection \<open>The winner of each chain\<close>

lemma stamped_pool:
  assumes "wf_sel a0" "named a0 = pool" "sel_key a0 = Some k" "stamp f a0 = Inr a"
  shows "wf_sel a" "named a = pool" "sel_key a = Some k" "sel_fold a = f"
  using assms stamp_rest [OF assms(4)] by (auto simp: stamp_def)

lemma prefill_ttft_wins:
  assumes rank: "k_rank (s_knobs s) \<noteq> LOAD"
    and sel: "select (prefill_chain s) v ask r = Inr a" and hd: "head a = Some m"
  shows "m \<in> set (prefill_ids s)"
    and "\<exists>p. price_plan (pricing_of s) v ask m = Inr p \<and> first_dim a m = Inr (Held p) \<and>
      at_most (ttft p) (k_slo_ttft (s_knobs s)) \<and>
      (\<forall>i \<in> set (prefill_ids s). \<exists>q. price_plan (pricing_of s) v ask i = Inr q \<and>
         ttft p \<le> ttft q \<and> (ttft p = ttft q \<longrightarrow> m \<le> i))"
proof -
  let ?slo = "k_slo_ttft (s_knobs s)" and ?price = "price_plan (pricing_of s) v ask"
  let ?bound = "ttft_at_most ?slo"
  from rank sel obtain a0 a1 a2 where a0: "select (Priced (pricing_of s)) v ask r = Inr a0"
    and a1: "stamp (Some by_ttft) a0 = Inr a1" and a2: "bounded ?bound a1 = Inr a2" and b: "best a2 = Inr a"
    by (auto simp: prefill_chain_def Let_def res_simps)
  have ids: "p_instances (pricing_of s) = prefill_ids s" by (simp add: pricing_of_def Let_def)
  from priced_pool [OF a0] ids obtain k where wf0: "wf_sel a0" and n0: "named a0 = prefill_ids s"
    and k: "sel_key a0 = Some k"
    and price: "\<And>i. i \<in> set (prefill_ids s) \<Longrightarrow> \<exists>p. ?price i = Inr p \<and> map_of k i = Some [Held p]"
    by auto
  note st = stamped_pool [OF wf0 n0 k a1]
  note win = bounded_best_wins [OF st(1,3) a2 b hd]
  show m: "m \<in> set (prefill_ids s)" using win(1) st(2) by simp
  from price [OF m] obtain p where p: "?price m = Inr p" "map_of k m = Some [Held p]" by blast
  have slo: "at_most (ttft p) ?slo" using win(2) p(2) by (simp add: ttft_at_most_def)
  have "\<exists>q. ?price i = Inr q \<and> ttft p \<le> ttft q \<and> (ttft p = ttft q \<longrightarrow> m \<le> i)"
    if i: "i \<in> set (prefill_ids s)" for i
  proof -
    from price [OF i] obtain q where q: "?price i = Inr q" "map_of k i = Some [Held q]" by blast
    show ?thesis
    proof (cases "at_most (ttft q) ?slo")
      case True
      then have "inside k ?bound i" using q(2) by (simp add: ttft_at_most_def)
      with win(4) i st(2) have "i = m \<or> before a1 m i" by simp
      with before_fold1 [OF _ st(4,3) p(2) q(2), of "ttft p" "ttft q"] p q show ?thesis
        by (auto simp: by_ttft_def)
    next
      case False
      then have "ttft p < ttft q" using slo by (meson at_most_trans not_less)
      with q show ?thesis by auto
    qed
  qed
  moreover have "first_dim a m = Inr (Held p)" using win(3) p(2) by (simp add: first_dim_key)
  ultimately show "\<exists>p. ?price m = Inr p \<and> first_dim a m = Inr (Held p) \<and> at_most (ttft p) ?slo \<and>
      (\<forall>i \<in> set (prefill_ids s). \<exists>q. ?price i = Inr q \<and> ttft p \<le> ttft q \<and> (ttft p = ttft q \<longrightarrow> m \<le> i))"
    using p(1) slo by blast
qed

lemma annotated_pool:
  assumes wf: "wf_sel a0" and n: "named a0 = pool" and k: "sel_key a0 = Some k"
    and keys: "\<And>i. i \<in> set pool \<Longrightarrow> map_of k i = Some [g i]"
    and an: "annotated f a0 = Inr a"
  shows "wf_sel a" "named a = pool" "sel_fold a = sel_fold a0"
    and "\<exists>k'. sel_key a = Some k' \<and> (\<forall>i \<in> set pool. \<exists>x. f i = Inr x \<and> map_of k' i = Some [g i, x])"
proof -
  show "wf_sel a" "named a = pool" using wf_annotated [OF wf an] n by auto
  from an n obtain ps where ps: "res_map (\<lambda>s. bindr (f s) (\<lambda>r. Inr (s, dget k s [] @ [r]))) pool = Inr ps"
    and a: "a = a0\<lparr>sel_key := Some (dict_of ps)\<rparr>"
    by (auto simp: annotated_def key_or_empty_def k res_simps)
  show "sel_fold a = sel_fold a0" by (simp add: a)
  have "map fst ps = pool" "distinct pool" using ps wf n by (auto dest: res_map_pairs simp: wf_sel_def)
  then have dict: "dict_of ps = ps" using dict_of_distinct by metis
  have "\<exists>x. f i = Inr x \<and> map_of ps i = Some [g i, x]" if "i \<in> set pool" for i
    using ps that \<open>distinct pool\<close> keys
  proof (induction pool arbitrary: ps)
    case (Cons y ys)
    then obtain x ps' where x: "f y = Inr x" "ps = (y, dget k y [] @ [x]) # ps'"
      "res_map (\<lambda>s. bindr (f s) (\<lambda>r. Inr (s, dget k s [] @ [r]))) ys = Inr ps'"
      by (auto simp: res_simps)
    with Cons.IH [OF x(3)] Cons.prems(2-) show ?case by (auto simp: dget_def)
  qed simp
  then show "\<exists>k'. sel_key a = Some k' \<and> (\<forall>i \<in> set pool. \<exists>x. f i = Inr x \<and> map_of k' i = Some [g i, x])"
    by (simp add: a dict)
qed

lemma prefill_load_wins:
  assumes rank: "k_rank (s_knobs s) = LOAD"
    and sel: "select (prefill_chain s) v ask r = Inr a" and hd: "head a = Some m"
  shows "m \<in> set (prefill_ids s)"
    and "\<exists>p busy. price_plan (pricing_of s) v ask m = Inr p \<and> first_dim a m = Inr (Held p) \<and>
      at_most (ttft p) (k_slo_ttft (s_knobs s)) \<and>
      map_of (busy_until (cluster (v_sensors v))) m = Some busy \<and>
      (\<forall>i \<in> set (prefill_ids s). \<exists>b. map_of (busy_until (cluster (v_sensors v))) i = Some b \<and>
         busy \<le> b \<and> (busy = b \<longrightarrow> m \<le> i))"
proof -
  let ?slo = "k_slo_ttft (s_knobs s)" and ?price = "price_plan (pricing_of s) v ask"
  let ?busy = "map_of (busy_until (cluster (v_sensors v)))"
  from rank sel obtain c0 a0 where c0: "select (Priced (pricing_of s)) v ask r = Inr c0"
    and a0: "(if named c0 = [] then Inr c0 else bindr (busy_at v ask) (\<lambda>f. annotated f c0)) = Inr a0"
    and rest: "bindr (bindr (stamp (Some by_queue) a0) best) (bounded (ttft_at_most ?slo)) = Inr a"
    by (auto simp: prefill_chain_def Let_def res_simps Annotate_def)
  from rest obtain a1 a2 where a1: "stamp (Some by_queue) a0 = Inr a1" and a2: "best a1 = Inr a2"
    and b: "bounded (ttft_at_most ?slo) a2 = Inr a"
    by (auto simp: res_simps)
  have ids: "p_instances (pricing_of s) = prefill_ids s" by (simp add: pricing_of_def Let_def)
  from priced_pool [OF c0] ids obtain k where wf0: "wf_sel c0" and n0: "named c0 = prefill_ids s"
    and f0: "sel_fold c0 = None" and k: "sel_key c0 = Some k"
    and price: "\<And>i. i \<in> set (prefill_ids s) \<Longrightarrow> \<exists>p. ?price i = Inr p \<and> map_of k i = Some [Held p]"
    by auto
  have nonempty: "named c0 \<noteq> []"
  proof
    assume "named c0 = []"
    with a0 a1 a2 b hd stamp_rest(1) [OF a1] best_rest [OF a2] bounded_rest [OF b] show False
      by (auto simp: head_def split: list.splits)
  qed
  let ?f = "\<lambda>inst. bindr (dindex (busy_until (cluster (v_sensors v))) inst) (\<lambda>t. Inr (Num t))"
  let ?p = "\<lambda>i. projr (?price i)"
  have an: "annotated ?f c0 = Inr a0" using a0 nonempty by (simp add: busy_at_def)
  have held: "map_of k i = Some [Held (?p i)]" if "i \<in> set (prefill_ids s)" for i
    using price [OF that] by auto
  note ap = annotated_pool [OF wf0 n0 k held an]
  from ap(4) obtain k' where k': "sel_key a0 = Some k'"
    and dims: "\<And>i. i \<in> set (prefill_ids s) \<Longrightarrow> \<exists>t. ?busy i = Some t \<and> map_of k' i = Some [Held (?p i), Num t]"
    by (fastforce simp: dindex_def res_simps split: option.splits)
  note st = stamped_pool [OF ap(1,2) k' a1]
  note win = best_bounded_wins [OF st(1,3) a2 b hd]
  show m: "m \<in> set (prefill_ids s)" using win(1) st(2) by simp
  from price [OF m] have p: "?price m = Inr (?p m)" by auto
  from dims [OF m] obtain t where t: "?busy m = Some t" "map_of k' m = Some [Held (?p m), Num t]" by blast
  have slo: "at_most (ttft (?p m)) ?slo" using win(2) t(2) by (auto simp: ttft_at_most_def)
  have least: "\<exists>u. ?busy i = Some u \<and> t \<le> u \<and> (t = u \<longrightarrow> m \<le> i)" if i: "i \<in> set (prefill_ids s)" for i
  proof -
    from dims [OF i] obtain u where u: "?busy i = Some u" "map_of k' i = Some [Held (?p i), Num u]" by blast
    from win(4) i st(2) have "i = m \<or> before a1 m i" by simp
    with before_fold1 [OF _ st(4,3) t(2) u(2), of t u] t u show ?thesis by (auto simp: by_queue_def)
  qed
  have "first_dim a m = Inr (Held (?p m))" using win(3) t(2) by (simp add: first_dim_key)
  with p t(1) slo least show "\<exists>p busy. ?price m = Inr p \<and> first_dim a m = Inr (Held p) \<and> at_most (ttft p) ?slo \<and>
      ?busy m = Some busy \<and>
      (\<forall>i \<in> set (prefill_ids s). \<exists>b. ?busy i = Some b \<and> busy \<le> b \<and> (busy = b \<longrightarrow> m \<le> i))"
    by blast
qed

lemma decode_wins:
  assumes sel: "select (decode_chain s) v p r = Inr a" and hd: "head a = Some m"
  shows "m \<in> set (decode_ids s)"
    and "\<exists>n t. predicted_batch (decoding_of s) v m (done_time p) = Inr n \<and> first_dim a m = Inr (Num (real n)) \<and>
      pred_tbt_of (int n) (k_profile (s_knobs s)) (k_model (s_knobs s)) (k_simulate_decode (s_knobs s)) = Inr t \<and>
      at_most t (k_slo_tbt (s_knobs s))"
proof -
  let ?k = "s_knobs s"
  let ?bound = "tbt_at_most (k_slo_tbt ?k) (k_profile ?k) (k_model ?k) (k_simulate_decode ?k)"
  from sel obtain a0 a1 where a0: "select (DecodeBatch (decoding_of s)) v p r = Inr a0"
    and a1: "bounded ?bound a0 = Inr a1" and b: "best a1 = Inr a"
    by (auto simp: decode_chain_def Let_def res_simps)
  have ids: "dc_instances (decoding_of s) = decode_ids s" by (simp add: decoding_of_def Let_def)
  from decode_pool [OF a0] ids obtain k where wf: "wf_sel a0" "named a0 = decode_ids s" "sel_key a0 = Some k"
    and batch: "\<And>d. d \<in> set (decode_ids s) \<Longrightarrow>
      \<exists>n. predicted_batch (decoding_of s) v d (done_time p) = Inr n \<and> map_of k d = Some [Num (real n)]"
    by auto
  note win = bounded_best_wins [OF wf(1,3) a1 b hd]
  show m: "m \<in> set (decode_ids s)" using win(1) wf(2) by simp
  from batch [OF m] obtain n where n: "predicted_batch (decoding_of s) v m (done_time p) = Inr n"
    "map_of k m = Some [Num (real n)]" by blast
  with win(2) have "\<exists>t. pred_tbt_of (int n) (k_profile ?k) (k_model ?k) (k_simulate_decode ?k) = Inr t \<and>
      at_most t (k_slo_tbt ?k)"
    by (auto simp: tbt_at_most_def res_simps)
  with n win(3) show "\<exists>n t. predicted_batch (decoding_of s) v m (done_time p) = Inr n \<and>
      first_dim a m = Inr (Num (real n)) \<and>
      pred_tbt_of (int n) (k_profile ?k) (k_model ?k) (k_simulate_decode ?k) = Inr t \<and> at_most t (k_slo_tbt ?k)"
    by (auto simp: first_dim_key)
qed

text \<open>On a model that prices decode, what lies outside the TBT bound has a larger batch.\<close>

lemma decode_smallest:
  assumes sel: "select (decode_chain s) v p r = Inr a" and hd: "head a = Some m"
    and wf: "k_simulate_decode (s_knobs s) \<longrightarrow> wf_model (k_profile (s_knobs s)) (k_model (s_knobs s))"
    and d: "d \<in> set (decode_ids s)"
  shows "\<exists>n n'. predicted_batch (decoding_of s) v m (done_time p) = Inr n \<and>
    predicted_batch (decoding_of s) v d (done_time p) = Inr n' \<and> n \<le> n' \<and> (n = n' \<longrightarrow> m \<le> d)"
proof -
  let ?k = "s_knobs s"
  let ?bound = "tbt_at_most (k_slo_tbt ?k) (k_profile ?k) (k_model ?k) (k_simulate_decode ?k)"
  let ?tbt = "\<lambda>n. pred_tbt_of (int n) (k_profile ?k) (k_model ?k) (k_simulate_decode ?k)"
  let ?batch = "\<lambda>d. predicted_batch (decoding_of s) v d (done_time p)"
  from sel obtain a0 a1 where a0: "select (DecodeBatch (decoding_of s)) v p r = Inr a0"
    and a1: "bounded ?bound a0 = Inr a1" and b: "best a1 = Inr a"
    by (auto simp: decode_chain_def Let_def res_simps)
  have ids: "dc_instances (decoding_of s) = decode_ids s" by (simp add: decoding_of_def Let_def)
  from decode_pool [OF a0] ids obtain k where pool: "wf_sel a0" "named a0 = decode_ids s" "sel_key a0 = Some k"
    "sel_fold a0 = None"
    and batch: "\<And>d. d \<in> set (decode_ids s) \<Longrightarrow> \<exists>n. ?batch d = Inr n \<and> map_of k d = Some [Num (real n)]"
    by auto
  note win = bounded_best_wins [OF pool(1,3) a1 b hd]
  have m: "m \<in> set (decode_ids s)" using win(1) pool(2) by simp
  from batch [OF m] obtain n where n: "?batch m = Inr n" "map_of k m = Some [Num (real n)]" by blast
  from batch [OF d] obtain n' where n': "?batch d = Inr n'" "map_of k d = Some [Num (real n')]" by blast
  have inside_iff: "inside k ?bound x \<longleftrightarrow> (\<exists>t. ?tbt j = Inr t \<and> at_most t (k_slo_tbt ?k))"
    if "map_of k x = Some [Num (real j)]" for x j
    using that by (simp add: tbt_at_most_def res_simps)
  show ?thesis
  proof (cases "inside k ?bound d")
    case True
    with win(4) d pool(2) have "d = m \<or> before a0 m d" by simp
    with before_plain1 [OF _ pool(4,3) n(2) n'(2)] n n' show ?thesis by auto
  next
    case False
    obtain t where t: "?tbt n = Inr t" "at_most t (k_slo_tbt ?k)" using win(2) inside_iff [OF n(2)] by blast
    have "n < n'"
    proof (rule ccontr)
      assume "\<not> n < n'"
      have "\<exists>t'. ?tbt n' = Inr t' \<and> t' \<le> t"
      proof (cases "k_simulate_decode ?k")
        case True
        with wf have w: "wf_model (k_profile ?k) (k_model ?k)" by simp
        obtain t' where t': "decode_step_time (int n' + 1) (k_profile ?k) (k_model ?k) = Inr t'"
          using decode_step_time_wf [OF w] by blast
        have "t' \<le> t"
          by (rule decode_step_time_mono [OF w _ t']) (use \<open>\<not> n < n'\<close> t(1) True in \<open>simp_all add: pred_tbt_of_def\<close>)
        with t' True show ?thesis by (simp add: pred_tbt_of_def)
      qed (use t(1) in \<open>simp add: pred_tbt_of_def\<close>)
      with t(2) False inside_iff [OF n'(2)] at_most_trans show False by blast
    qed
    with n n' show ?thesis by auto
  qed
qed

subsection \<open>An accepted decision\<close>

lemma decide_cases:
  assumes "map_of (placed s) (req_id req) = None" "decide s dir now req requester = Inr (s', answer)"
  obtains (refused) "settle s dir now req requester = Inr None" "answer = None" "s' = s"
  | (accepted) r where "settle s dir now req requester = Inr (Some r)" "answer = Some r"
      "book s req requester r = Inr s'"
  using assms by (auto simp: decide_def res_simps split: option.splits)

lemma book_eq:
  "book s req requester r = Inr s' \<longleftrightarrow>
     s' = s\<lparr>s_sensors := fst (kv_dispatch (kv_reducers (lookahead (s_knobs s))) (Committed r (output_tokens req)) (s_sensors s)),
            placed := (if prefill_host r \<noteq> requester then AList.update (req_id req) r (placed s) else placed s)\<rparr>"
  by (auto simp: book_def kv_committed)

text \<open>C1: an accepted decision runs on hosts of its two pools, and is inside both SLOs: the
  plan's predicted TTFT and the predicted inter-token gap.\<close>

theorem decide_within_slos:
  assumes "map_of (placed s) (req_id req) = None"
    and "decide s dir now req requester = Inr (s', Some r)"
  shows "prefill_host r \<in> set (prefill_ids s) \<and> decode_host r \<in> set (decode_ids s) \<and>
    at_most (ttft (resp_plan r)) (k_slo_ttft (s_knobs s)) \<and>
    at_most (pred_tbt r) (k_slo_tbt (s_knobs s))"
proof -
  from decide_cases [OF assms] have "settle s dir now req requester = Inr (Some r)" by cases auto
  then show ?thesis
  proof (rule settle_Some)
    fix d ask prefill decode b
    let ?v = "view_of s dir now d"
    assume pre: "select (prefill_chain s) ?v ask requester = Inr prefill" "head prefill = Some (prefill_host r)"
      "first_dim prefill (prefill_host r) = Inr (Held (resp_plan r))"
      and dec: "select (decode_chain s) ?v (resp_plan r) requester = Inr decode" "head decode = Some (decode_host r)"
      "first_dim decode (decode_host r) = Inr (Num b)"
      and tbt: "pred_tbt_of \<lfloor>b\<rfloor> (k_profile (s_knobs s)) (k_model (s_knobs s)) (k_simulate_decode (s_knobs s)) = Inr (pred_tbt r)"
    have "prefill_host r \<in> set (prefill_ids s) \<and> at_most (ttft (resp_plan r)) (k_slo_ttft (s_knobs s))"
      using prefill_ttft_wins [OF _ pre(1,2)] prefill_load_wins [OF _ pre(1,2)] pre(3)
      by (cases "k_rank (s_knobs s) = LOAD") auto
    moreover have "decode_host r \<in> set (decode_ids s) \<and> at_most (pred_tbt r) (k_slo_tbt (s_knobs s))"
      using decode_wins [OF dec(1,2)] dec(3) tbt by auto
    ultimately show ?thesis by blast
  qed
qed

text \<open>What a decision was posed, for the theorems that compare its winner with the losers.\<close>

definition decision_view ::
  "scheduler \<Rightarrow> 'i directory \<Rightarrow> time \<Rightarrow> request \<Rightarrow> vid \<Rightarrow> ('i kv_view \<times> prefill_ask) res" where
  "decision_view s dir now req requester =
     bindr (pin dir (block_keys req) dir_sensor_init) (\<lambda>d.
     bindr (pose_ask s (view_of s dir now d) req now requester) (\<lambda>ask. Inr (view_of s dir now d, ask)))"

text \<open>C3: the cache-aware preset answers with the lowest predicted TTFT of its pool: no
  instance of the pool was priced lower, and among equals the least id wins.\<close>

theorem cache_aware_lowest_ttft:
  assumes "map_of (placed s) (req_id req) = None" and "k_rank (s_knobs s) = TTFT"
    and "decide s dir now req requester = Inr (s', Some r)"
  shows "\<exists>v ask. decision_view s dir now req requester = Inr (v, ask) \<and>
    price_plan (pricing_of s) v ask (prefill_host r) = Inr (resp_plan r) \<and>
    (\<forall>i \<in> set (prefill_ids s). \<exists>q. price_plan (pricing_of s) v ask i = Inr q \<and>
       ttft (resp_plan r) \<le> ttft q \<and> (ttft (resp_plan r) = ttft q \<longrightarrow> prefill_host r \<le> i))"
proof -
  from decide_cases [OF assms(1,3)] have "settle s dir now req requester = Inr (Some r)" by cases auto
  then show ?thesis
  proof (rule settle_Some)
    fix d ask prefill
    let ?v = "view_of s dir now d"
    assume d: "pin dir (block_keys req) dir_sensor_init = Inr d" "pose_ask s ?v req now requester = Inr ask"
      and pre: "select (prefill_chain s) ?v ask requester = Inr prefill" "head prefill = Some (prefill_host r)"
      "first_dim prefill (prefill_host r) = Inr (Held (resp_plan r))"
    have "decision_view s dir now req requester = Inr (?v, ask)" by (simp add: decision_view_def d)
    moreover from prefill_ttft_wins(2) [OF _ pre(1,2)] assms(2) pre(3)
    have "price_plan (pricing_of s) ?v ask (prefill_host r) = Inr (resp_plan r) \<and>
      (\<forall>i \<in> set (prefill_ids s). \<exists>q. price_plan (pricing_of s) ?v ask i = Inr q \<and>
       ttft (resp_plan r) \<le> ttft q \<and> (ttft (resp_plan r) = ttft q \<longrightarrow> prefill_host r \<le> i))"
      by auto
    ultimately show ?thesis by blast
  qed
qed

text \<open>The baseline preset answers with the instance whose predicted queue frees up first,
  whatever it was priced at, the least id among equals.\<close>

theorem baseline_least_loaded:
  assumes "map_of (placed s) (req_id req) = None" and "k_rank (s_knobs s) = LOAD"
    and "decide s dir now req requester = Inr (s', Some r)"
  shows "\<exists>busy. map_of (busy_until (cluster (s_sensors s))) (prefill_host r) = Some busy \<and>
    (\<forall>i \<in> set (prefill_ids s). \<exists>b. map_of (busy_until (cluster (s_sensors s))) i = Some b \<and>
       busy \<le> b \<and> (busy = b \<longrightarrow> prefill_host r \<le> i))"
proof -
  from decide_cases [OF assms(1,3)] have "settle s dir now req requester = Inr (Some r)" by cases auto
  then show ?thesis
  proof (rule settle_Some)
    fix d ask prefill
    let ?v = "view_of s dir now d"
    assume pre: "select (prefill_chain s) ?v ask requester = Inr prefill" "head prefill = Some (prefill_host r)"
    from prefill_load_wins(2) [OF assms(2) pre] show ?thesis by (auto simp: view_of_def)
  qed
qed

text \<open>The decode host is one with the smallest batch predicted at the chosen plan's
  completion, over the whole decode pool: the TBT bound below the cut never moves the pick.\<close>

theorem decode_host_smallest_batch:
  fixes dir :: "'i directory"
  assumes "map_of (placed s) (req_id req) = None"
    and "decide s dir now req requester = Inr (s', Some r)"
    and "k_simulate_decode (s_knobs s) \<Longrightarrow> wf_model (k_profile (s_knobs s)) (k_model (s_knobs s))"
    and "d \<in> set (decode_ids s)"
  shows "\<exists>(v :: 'i kv_view) n n'. v_sensors v = s_sensors s \<and> v_now v = now \<and>
    predicted_batch (decoding_of s) v (decode_host r) (done_time (resp_plan r)) = Inr n \<and>
    predicted_batch (decoding_of s) v d (done_time (resp_plan r)) = Inr n' \<and>
    n \<le> n' \<and> (n = n' \<longrightarrow> decode_host r \<le> d)"
proof -
  from decide_cases [OF assms(1,2)] have "settle s dir now req requester = Inr (Some r)" by cases auto
  then show ?thesis
  proof (rule settle_Some)
    fix p decode
    let ?v = "view_of s dir now p"
    assume "select (decode_chain s) ?v (resp_plan r) requester = Inr decode" "head decode = Some (decode_host r)"
    from decode_smallest [OF this _ assms(4)] assms(3)
    have "\<exists>n n'. predicted_batch (decoding_of s) ?v (decode_host r) (done_time (resp_plan r)) = Inr n \<and>
      predicted_batch (decoding_of s) ?v d (done_time (resp_plan r)) = Inr n' \<and>
      n \<le> n' \<and> (n = n' \<longrightarrow> decode_host r \<le> d)" by blast
    moreover have "v_sensors ?v = s_sensors s" "v_now ?v = now" by (simp_all add: view_of_def)
    ultimately show ?thesis by blast
  qed
qed

subsection \<open>What a decision writes\<close>

text \<open>A refusal costs nothing: no sensor, no memo and no placed answer is touched.\<close>

theorem refusal_writes_nothing:
  assumes "decide s dir now req requester = Inr (s', None)"
  shows "s' = s"
proof -
  have "map_of (placed s) (req_id req) = None"
    using assms by (auto simp: decide_def split: option.splits)
  from decide_cases [OF this assms] show ?thesis by cases auto
qed

text \<open>A request is priced and booked once: a decision naming another host is answered
  again, to whoever asks next and whatever the cluster has become, with the recorded answer,
  which that ask spends; a decision naming the host that asked is not recorded.\<close>

theorem moved_request_answered_once:
  assumes "map_of (placed s) (req_id req) = None"
    and "decide s dir now req requester = Inr (s1, Some r)"
  shows "if prefill_host r = requester then placed s1 = placed s
    else decide s1 dir' now' req requester' = Inr (s1\<lparr>placed := placed s\<rparr>, Some r)"
proof -
  from decide_cases [OF assms] have "book s req requester r = Inr s1" by cases auto
  then have s1: "placed s1 = (if prefill_host r \<noteq> requester then AList.update (req_id req) r (placed s) else placed s)"
    by (simp add: book_eq)
  have absent: "req_id req \<notin> set (dkeys (placed s))" using assms(1) by (simp add: map_of_None_iff)
  note delete_update_absent [OF absent, of r]
  with s1 show ?thesis by (simp add: decide_def)
qed

text \<open>Nothing that ranks, prices or bounds a host reads who asked.\<close>

lemma source_ranking_requester: "select (source_ranking x) v ks r = select (source_ranking x) v ks r'"
  by (cases x)
    (simp_all add: source_ranking_def Balance_def Annotate_def load_at_def longest_prefix_requester [of v ks r r'])

lemma reuse_requester: "select (reuse_chain k) v ks r = select (reuse_chain k) v ks r'"
  by (simp add: reuse_chain_def LocalOnly_def source_ranking_requester [of "k_source k" v ks r r'])

lemma prefill_requester: "select (prefill_chain s) v ask r = select (prefill_chain s) v ask r'"
  by (simp add: prefill_chain_def Let_def Annotate_def Priced_def priced_select_def)

lemma decode_requester: "select (decode_chain s) v p r = select (decode_chain s) v p r'"
  by (simp add: decode_chain_def Let_def DecodeBatch_def decode_select_def)

lemma settle_requester: "settle s dir now req r = settle s dir now req r'"
  unfolding settle_def pose_ask_def pick_decode_def
    reuse_requester [of _ _ _ r r'] prefill_requester [of _ _ _ r r'] decode_requester [of _ _ _ r r'] ..

text \<open>Where a request runs is a fact about the cluster, not about who was asked: two hosts
  asking about one request get the same answer and book the same sensor state.\<close>

theorem decision_ignores_requester:
  assumes "map_of (placed s) (req_id req) = None" and "decide s dir now req r1 = Inr (s1, answer)"
  shows "\<exists>s2. decide s dir now req r2 = Inr (s2, answer) \<and> s_sensors s2 = s_sensors s1"
proof -
  have eq: "settle s dir now req r2 = settle s dir now req r1" by (rule settle_requester)
  from assms show ?thesis
  proof (cases rule: decide_cases)
    case refused
    with eq assms(1) show ?thesis by (simp add: decide_def)
  next
    case (accepted r)
    obtain s2 where s2: "book s req r2 r = Inr s2" using book_total by blast
    then have "decide s dir now req r2 = Inr (s2, answer)" using accepted(1,2) eq assms(1) by (simp add: decide_def)
    moreover have "s_sensors s2 = s_sensors s1" using s2 accepted(3) by (simp add: book_eq)
    ultimately show ?thesis by blast
  qed
qed

subsection \<open>A plan and the read that carries it out\<close>

lemma fetch_memo:
  assumes "routed_peer (routed_pulls (v_sensors v)) requester ks = Some peer"
    and "fetch_chain k = Inr chain"
  shows "\<exists>a. select chain v ks requester = Inr a \<and> named a = [peer] \<and> settled a = a"
proof -
  let ?a = "\<lparr>sources = Some [peer], sel_key = None, ready = None, sel_fold = None\<rparr> :: answer"
  from assms(2) obtain f where f: "FirstMatch [RoutedPull, source_ranking (k_source k)] = Inr f"
    and chain: "chain = pipe f [Ordered]"
    by (auto simp: fetch_chain_def res_simps)
  have "select f v ks requester = Inr ?a"
    using f assms(1)
    by (auto simp: FirstMatch_def RoutedPull_def routed_pull_select_def sel_of_def named_once_def
        otherwise_def abstains_def split: list.splits)
  then have "select chain v ks requester = Inr ?a"
    by (simp add: chain ordered_def no_order_def)
  then show ?thesis by (auto simp: named_def settled_def)
qed

lemma fetch_chain_total: "\<exists>chain. fetch_chain k = Inr chain"
  by (cases "k_source k")
    (simp_all add: fetch_chain_def FirstMatch_def RoutedPull_def source_ranking_def
      LongestPrefixKeySelector_def Balance_def Annotate_def WithFold_def Lift_def)

lemma settled_plan:
  assumes "settle s dir now req requester = Inr (Some r)"
  shows "reuse_source (resp_plan r) = Some peer \<Longrightarrow> pull_keys (resp_plan r) \<noteq> []"
  using assms
proof (rule settle_Some)
  fix d ask prefill
  let ?v = "view_of s dir now d"
  assume pre: "select (prefill_chain s) ?v ask requester = Inr prefill" "head prefill = Some (prefill_host r)"
    "first_dim prefill (prefill_host r) = Inr (Held (resp_plan r))"
    and src: "reuse_source (resp_plan r) = Some peer"
  have "\<exists>m. price_plan (pricing_of s) ?v ask m = Inr (resp_plan r)"
    using prefill_ttft_wins [OF _ pre(1,2)] prefill_load_wins [OF _ pre(1,2)] pre(3)
    by (cases "k_rank (s_knobs s) = LOAD") auto
  with src show "pull_keys (resp_plan r) \<noteq> []"
    by (blast dest: price_plan_source)
qed

text \<open>The unspent memos a host's fetch of some keys can be answered from, and fetches one host
  makes one after another, each with the directory and the clock it finds.\<close>

fun memo_for :: "vid \<Rightarrow> key list \<Rightarrow> routed_memo \<Rightarrow> bool" where
  "memo_for h ks (inst, planned, peer) \<longleftrightarrow> inst = h \<and> set planned = set ks"

fun serve_each ::
  "vid \<Rightarrow> ('i directory \<times> time \<times> key list) list \<Rightarrow> scheduler \<Rightarrow> (scheduler \<times> vid list list) res" where
  "serve_each h [] s = Inr (s, [])"
| "serve_each h ((dir, now, ks) # fs) s =
     bindr (serve_sources s dir now ks h) (\<lambda>(s', a).
     bindr (serve_each h fs s') (\<lambda>(s'', as). Inr (s'', named a # as)))"

lemma memo_for_cong: "set ks = set ks' \<Longrightarrow> memo_for h ks = memo_for h ks'"
  by (auto simp: fun_eq_iff)

text \<open>One fetch with a memo waiting: the oldest of them answers and is spent.\<close>

lemma fetch_spends_oldest:
  fixes dir :: "'i directory"
  assumes pulls: "routed_pulls (s_sensors s) = pre @ (h, planned, peer) # post"
    and "set planned = set ks" and none: "\<forall>m \<in> set pre. \<not> memo_for h ks m"
  shows "\<exists>s' a. serve_sources s dir now ks h = Inr (s', a) \<and> named a = [peer] \<and>
    routed_pulls (s_sensors s') = pre @ post"
proof -
  have "match_from i h ks (pre @ (h, planned, peer) # post) = Some (i + length pre)" for i
    using none
  proof (induction pre arbitrary: i)
    case (Cons m pre)
    obtain inst pl p where "m = (inst, pl, p)" by (cases m)
    with Cons.IH [of "Suc i"] Cons.prems show ?case by auto
  qed (simp add: assms(2))
  then have m: "match_pull (routed_pulls (s_sensors s)) h ks = Some (length pre)"
    by (simp add: match_pull_def pulls)
  then have "routed_peer (routed_pulls (s_sensors s)) h ks = Some peer"
    by (simp add: routed_peer_def pulls)
  moreover obtain chain :: "('i, key list) kv_selector" where chain: "fetch_chain (s_knobs s) = Inr chain"
    using fetch_chain_total by blast
  ultimately obtain a where a: "select chain (view_of s dir now dir_sensor_init) ks h = Inr a"
    "named a = [peer]" "settled a = a"
    using fetch_memo [of "view_of s dir now dir_sensor_init" h ks peer "s_knobs s" chain]
    by (auto simp: view_of_def)
  have "del_at (length pre) (routed_pulls (s_sensors s)) = pre @ post" by (simp add: pulls del_at_def)
  with a chain m show ?thesis by (simp add: serve_sources_def kv_answered)
qed

lemma serve_each_fifo:
  assumes "filter (memo_for h ks) (routed_pulls (s_sensors s)) = ms" and "length fetches = length ms"
    and "\<forall>(dir, now, ks') \<in> set fetches. set ks' = set ks"
  shows "\<exists>s'. serve_each h fetches s = Inr (s', map (\<lambda>(_, _, peer). [peer]) ms) \<and>
    routed_pulls (s_sensors s') = filter (\<lambda>m. \<not> memo_for h ks m) (routed_pulls (s_sensors s))"
  using assms
proof (induction fetches arbitrary: s ms)
  case Nil
  then show ?case by (auto simp: filter_empty_conv filter_id_conv)
next
  case (Cons f fs)
  obtain dir now ks' where f: "f = (dir, now, ks')" by (cases f)
  then have ks': "set ks' = set ks" using Cons.prems(3) by simp
  obtain m ms' where ms: "ms = m # ms'" "length fs = length ms'" using Cons.prems(2) by (cases ms) auto
  from Cons.prems(1) [unfolded ms(1) filter_eq_Cons_iff] obtain pre post where
    split: "routed_pulls (s_sensors s) = pre @ m # post" "\<forall>u \<in> set pre. \<not> memo_for h ks u"
      "memo_for h ks m" "filter (memo_for h ks) post = ms'" by metis
  from split(3) obtain planned peer where m: "m = (h, planned, peer)" "set planned = set ks'"
    by (cases m) (auto simp: ks')
  have none: "\<forall>u \<in> set pre. \<not> memo_for h ks' u" using split(2) memo_for_cong [OF ks'] by simp
  from fetch_spends_oldest [OF split(1) [unfolded m(1)] m(2) none] obtain s1 a where
    s1: "serve_sources s dir now ks' h = Inr (s1, a)" "named a = [peer]"
      "routed_pulls (s_sensors s1) = pre @ post" by metis
  have "filter (memo_for h ks) (routed_pulls (s_sensors s1)) = ms'"
    using split(2,4) by (simp add: s1(3) filter_empty_conv)
  from Cons.IH [OF this ms(2)] Cons.prems(3) obtain s2 where
    "serve_each h fs s1 = Inr (s2, map (\<lambda>(_, _, peer). [peer]) ms')"
    "routed_pulls (s_sensors s2) = filter (\<lambda>m. \<not> memo_for h ks m) (pre @ post)"
    using s1(3) by auto
  with split(1,3) show ?case by (auto simp: f s1(1,2) ms(1) m(1))
qed

text \<open>C2: a fetch is served by the peer its pull was priced against, oldest pull first. Take a
  fresh decision (the request has no recorded answer waiting) that plans a pull from a peer, and the
  memos of earlier decisions for the same host and the same keys that no fetch has spent yet. When
  the chosen host then fetches exactly those keys (in any order, each fetch at any time and on any
  directory), once for each of these memos and once more, every fetch succeeds and names one peer
  alone: first the peers of the earlier memos, oldest first, and last the peer this decision priced.
  All these memos are then spent and every other memo is still there, in order. With no earlier memo
  the very next fetch names the peer.\<close>

theorem fetch_served_by_priced_peer:
  fixes fetches :: "('i directory \<times> time \<times> key list) list"
  assumes "map_of (placed s) (req_id req) = None"
    and "decide s dir now req requester = Inr (s1, Some r)"
    and "reuse_source (resp_plan r) = Some peer"
    and "\<forall>(dir', now', ks) \<in> set fetches. set ks = set (pull_keys (resp_plan r))"
    and "older = filter (memo_for (prefill_host r) (pull_keys (resp_plan r))) (routed_pulls (s_sensors s))"
    and "length fetches = Suc (length older)"
  shows "\<exists>s2. serve_each (prefill_host r) fetches s1 =
      Inr (s2, map (\<lambda>(_, _, old_peer). [old_peer]) older @ [[peer]]) \<and>
    routed_pulls (s_sensors s2) =
      filter (\<lambda>m. \<not> memo_for (prefill_host r) (pull_keys (resp_plan r)) m) (routed_pulls (s_sensors s))"
proof -
  from decide_cases [OF assms(1,2)] have set: "settle s dir now req requester = Inr (Some r)"
    and book: "book s req requester r = Inr s1" by (cases, auto)+
  have new: "routed_pulls (s_sensors s1) =
      routed_pulls (s_sensors s) @ [(prefill_host r, pull_keys (resp_plan r), peer)]"
    using book assms(3) settled_plan [OF set assms(3)] by (simp add: book_eq kv_committed)
  have "filter (memo_for (prefill_host r) (pull_keys (resp_plan r))) (routed_pulls (s_sensors s1)) =
      older @ [(prefill_host r, pull_keys (resp_plan r), peer)]"
    by (simp add: new assms(5))
  from serve_each_fifo [OF this _ assms(4)] show ?thesis by (simp add: assms(6) new)
qed

subsection \<open>The theorems at work\<close>

lemma decide_within_slos_witness:
  "at_most (ttft plan_a) (Fin 10) \<and> at_most (2/100) (Fin 1) \<and> ''a'' \<in> set [''a'', ''b'']"
  using decide_within_slos [OF demo_unplaced demo_decide(1) [of "''b''"]]
  unfolding demo_knob_values demo_answer_fields demo_fields by blast

lemma cache_aware_lowest_ttft_witness:
  "\<exists>v ask. decision_view (busy_b TTFT) demo_dir 1 demo_request ''b'' = Inr (v, ask) \<and>
     price_plan (pricing_of (busy_b TTFT)) v ask ''a'' = Inr plan_a \<and>
     (\<exists>q. price_plan (pricing_of (busy_b TTFT)) v ask ''b'' = Inr q \<and> ttft plan_a \<le> ttft q)"
  using cache_aware_lowest_ttft [OF demo_unplaced demo_knob_values(1) demo_decide(1) [of "''b''"]]
  unfolding demo_answer_fields demo_fields by auto

lemma baseline_least_loaded_witness:
  "\<exists>busy. map_of (busy_until (cluster (s_sensors (busy_b LOAD)))) ''a'' = Some busy \<and> busy \<le> 100"
  using baseline_least_loaded [OF demo_unplaced demo_knob_values(1) demo_decide(2) [of "''b''"]]
  unfolding demo_answer_fields demo_fields by simp

lemma decode_host_smallest_batch_witness:
  "\<exists>(v :: unit kv_view) n n'. predicted_batch (decoding_of (busy_b TTFT)) v ''a'' (done_time plan_a) = Inr n \<and>
     predicted_batch (decoding_of (busy_b TTFT)) v ''b'' (done_time plan_a) = Inr n' \<and> n \<le> n'"
  using decode_host_smallest_batch [OF demo_unplaced demo_decide(1) [of "''b''"] demo_wf, of "''b''"]
  unfolding demo_answer_fields demo_fields by auto

definition refusing :: scheduler where
  "refusing = (busy_b TTFT)\<lparr>prefill_ids := []\<rparr>"

lemma refusing_decide: "decide refusing demo_dir 1 (demo_request\<lparr>block_keys := []\<rparr>) ''b'' = Inr (refusing, None)"
  by (simp add: refusing_def decide_def busy_b_eq settle_def pin_def dir_sensor_init_def locate_live_def
      demo_request_def view_of_def pose_ask_def locate_def prefix_lengths_of_def reuse_chain_def demo_knobs_def
      source_ranking_def LongestPrefixKeySelector_def longest_prefix_select_def best_def named_def abstain_def
      prefill_chain_def Priced_def priced_select_def pricing_of_def sel_of_def named_once_def annotated_def
      stamp_def bounded_def abstains_def dict_of_def Let_def)

lemma refusal_writes_nothing_witness: "refusing = refusing \<and> placed refusing = []"
  using refusal_writes_nothing [OF refusing_decide] by (simp add: refusing_def busy_b_eq)

lemma moved_request_answered_once_witness:
  "decide (demo_after TTFT ''b'') demo_dir 5 demo_request ''c'' =
     Inr ((demo_after TTFT ''b'')\<lparr>placed := []\<rparr>, Some demo_answer)"
  using moved_request_answered_once [OF demo_unplaced demo_decide(1) [of "''b''"], of demo_dir 5 "''c''"]
  unfolding demo_answer_fields demo_fields by simp

lemma decision_ignores_requester_witness:
  "\<exists>s2. decide (busy_b TTFT) demo_dir 1 demo_request ''a'' = Inr (s2, Some demo_answer) \<and>
     s_sensors s2 = s_sensors (demo_after TTFT ''b'')"
  by (rule decision_ignores_requester [OF demo_unplaced demo_decide(1) [of "''b''"]])

lemma fetch_served_by_priced_peer_witness:
  "\<exists>s2. serve_each ''a'' [(demo_dir, 3, [''k2'', ''k1''])] (demo_after TTFT ''b'') = Inr (s2, [[''b'']]) \<and>
     routed_pulls (s_sensors s2) = []"
proof -
  have "\<forall>(dir', now', ks) \<in> set [(demo_dir, 3 :: time, [''k2'', ''k1''])].
      set ks = set (pull_keys (resp_plan demo_answer))"
    by (auto simp: demo_answer_fields)
  from fetch_served_by_priced_peer [OF demo_unplaced demo_decide(1) [of "''b''"] _ this refl, of "''b''"]
  show ?thesis by (simp add: demo_answer_fields demo_fields)
qed

end
