(* ===== verification/ServingFacts.thy ===== *)
theory ServingFacts
  imports Serving KvDecisions
begin

section \<open>What a served request leaves behind\<close>

text \<open>
  The two legs of \<open>Serving\<close> under the scheduler's own decisions: the plan handed to a host covers
  the prompt's block chain, every block a host publishes has its key, and the row a request is
  counted by adds up, whether its reuse arrived or had to be recomputed.
\<close>

subsection \<open>Triples over what a body does\<close>

definition triple ::
  "('w serving \<Rightarrow> bool) \<Rightarrow> ('w, 'a) io \<Rightarrow> ('a \<Rightarrow> 'w serving \<Rightarrow> bool) \<Rightarrow> (py_error \<Rightarrow> 'w serving \<Rightarrow> bool) \<Rightarrow> bool" where
  "triple P m Q X \<longleftrightarrow> (\<forall>s. P s \<longrightarrow> (case m s of (s', Inl e) \<Rightarrow> X e s' | (s', Inr x) \<Rightarrow> Q x s'))"

named_theorems triples \<open>rules for the bodies of a serving host\<close>

lemma triple_answer [triples]: "(\<And>s. P s \<Longrightarrow> Q x s) \<Longrightarrow> triple P (answer_io x) Q X"
  by (simp add: triple_def answer_io_def)

lemma triple_raise [triples]: "(\<And>s. P s \<Longrightarrow> X e s) \<Longrightarrow> triple P (raise_io e) Q X"
  by (simp add: triple_def raise_io_def)

lemma triple_then [triples]:
  "triple P m R X \<Longrightarrow> (\<And>x. triple (R x) (f x) Q X) \<Longrightarrow> triple P (then_io m f) Q X"
  by (fastforce simp: triple_def then_io_def split: prod.splits sum.splits)

lemma triple_except:
  "triple P m Q (\<lambda>e s. if e = caught then R s else X e s) \<Longrightarrow> triple R handler Q X \<Longrightarrow>
     triple P (except_io caught m handler) Q X"
  by (fastforce simp: triple_def except_io_def split: prod.splits sum.splits if_splits)

lemma triple_lift: "(\<And>s e. P s \<Longrightarrow> r = Inl e \<Longrightarrow> X e s) \<Longrightarrow> (\<And>s x. P s \<Longrightarrow> r = Inr x \<Longrightarrow> Q x s) \<Longrightarrow> triple P (lift_io r) Q X"
  by (auto simp: triple_def lift_io_def split: sum.splits)

lemma triple_weaken:
  "triple P m Q X \<Longrightarrow> (\<And>s. P' s \<Longrightarrow> P s) \<Longrightarrow> (\<And>x s. Q x s \<Longrightarrow> Q' x s) \<Longrightarrow> (\<And>e s. X e s \<Longrightarrow> X' e s) \<Longrightarrow> triple P' m Q' X'"
  unfolding triple_def by (fastforce split: prod.splits sum.splits)

lemma triple_if: "(b \<Longrightarrow> triple P m Q X) \<Longrightarrow> (\<not> b \<Longrightarrow> triple P n Q X) \<Longrightarrow> triple P (if b then m else n) Q X"
  by simp

text \<open>A call through a port leaves the ledger alone.\<close>

definition keeps_metrics :: "('w serving \<Rightarrow> bool) \<Rightarrow> bool" where
  "keeps_metrics P \<longleftrightarrow> (\<forall>s s'. sv_metrics s' = sv_metrics s \<longrightarrow> P s \<longrightarrow> P s')"

lemma triple_call:
  assumes "keeps_metrics P" "\<And>w e. snd (f w) = Inl e \<Longrightarrow> ok e"
  shows "triple P (call_io f) (\<lambda>_. P) (\<lambda>e s. P s \<and> ok e)"
proof -
  have "P (s\<lparr>world := w\<rparr>)" if "P s" for s w
    using assms(1) that by (auto simp: keeps_metrics_def)
  then show ?thesis using assms(2)
    by (auto simp: triple_def call_io_def split: prod.splits sum.splits) (metis snd_conv)
qed

lemma triple_now: "triple P (now_io ps) (\<lambda>_. P) X"
  by (simp add: triple_def now_io_def)

lemma triple_trace: "keeps_metrics P \<Longrightarrow> triple P (trace_io ps ev) (\<lambda>_. P) X"
  by (auto simp: triple_def trace_io_def keeps_metrics_def)

subsection \<open>The row of a request\<close>

text \<open>The table the host found, its own row after it, and what that row must satisfy.\<close>

definition holding :: "request_result list \<Rightarrow> (request_result \<Rightarrow> bool) \<Rightarrow> 'w serving \<Rightarrow> bool" where
  "holding earlier good s \<longleftrightarrow> (\<exists>rr. rows (sv_metrics s) = earlier @ [rr] \<and> good rr)"

lemma holding_keeps [simp]: "keeps_metrics (holding earlier good)"
  by (auto simp: keeps_metrics_def holding_def)

lemma triple_amend:
  assumes "\<And>rr. good rr \<Longrightarrow> good' (f rr)"
  shows "triple (holding earlier good) (amend_io (length earlier) f) (\<lambda>_. holding earlier good') X"
  using assms by (auto simp: triple_def amend_io_def metrics_io_def holding_def amend_def)

text \<open>An accepted row whose prompt is split into what was cached and what was not.\<close>

definition adds_up :: "request \<Rightarrow> request_result \<Rightarrow> bool" where
  "adds_up req rr \<longleftrightarrow> rr_id rr = req_id req \<and> accepted rr \<and> rr_prompt_tokens rr = prompt_tokens req \<and>
     0 \<le> rr_cached_tokens rr \<and> 0 \<le> rr_uncached_tokens rr \<and>
     rr_cached_tokens rr + rr_uncached_tokens rr = prompt_tokens req"

subsection \<open>The plan a decision hands over\<close>

text \<open>How a plan divides a request's block chain: the blocks already here, those to pull, the rest.\<close>

definition plan_fits :: "int \<Rightarrow> request \<Rightarrow> plan \<Rightarrow> bool" where
  "plan_fits bt req p \<longleftrightarrow> (\<exists>m n. match_blocks p = int m \<and> m \<le> length (block_keys req) \<and>
     pull_keys p = slice n m (block_keys req) \<and>
     cached_tokens p = min (int m * bt) (prompt_tokens req) \<and>
     uncached_tokens p = prompt_tokens req - cached_tokens p \<and>
     (reuse_source p = None \<longrightarrow> pull_keys p = []))"

lemma slice_length: "m \<le> length xs \<Longrightarrow> length (slice n m xs) = m - n"
  by (simp add: slice_def)

lemma prefix_bound:
  "dget (prefix_lengths_of located ks) inst 0 \<le> length ks"
  using prefix_lengths_exact [of located ks inst]
  by (cases "map_of (prefix_lengths_of located ks) inst") (auto simp: dget_def)

lemma candidate_fits:
  assumes "candidate c v req inst now m src pull = Inr p" "m \<le> length (block_keys req)"
    "pull = slice n m (block_keys req)" "src = None \<Longrightarrow> pull = []"
  shows "plan_fits (p_block_tokens c) req p"
proof -
  from assms(1) have "match_blocks p = int m" "pull_keys p = pull"
    "cached_tokens p = min (int m * p_block_tokens c) (prompt_tokens req)"
    "uncached_tokens p = prompt_tokens req - cached_tokens p"
    "reuse_source p = None \<longrightarrow> pull = []"
    using assms(4) by (auto simp: candidate_def Let_def res_simps split: option.splits if_splits)
  then show ?thesis using assms(2,3) by (auto simp: plan_fits_def)
qed

lemma price_plan_fits:
  assumes "price_plan c v ask inst = Inr p" "ask_keys ask = block_keys (ask_request ask)"
    "ask_counts ask = prefix_lengths_of located (ask_keys ask)"
  shows "plan_fits (p_block_tokens c) (ask_request ask) p"
proof -
  let ?ks = "block_keys (ask_request ask)"
  from assms(1) obtain peer m src pull where
    reuse: "priced_reuse (ask_counts ask) (ask_keys ask) inst peer = Inr (m, src, pull)"
    and cand: "candidate c v (ask_request ask) inst (ask_now ask) m src pull = Inr p"
    by (auto simp: price_plan_def res_simps)
  have local: "dget (ask_counts ask) inst 0 \<le> length ?ks"
    using prefix_bound [of located ?ks inst] assms(2,3) by simp
  have "m \<le> length ?ks \<and> (\<exists>n. pull = slice n m ?ks) \<and> (src = None \<longrightarrow> pull = [])"
  proof (cases "head peer")
    case None
    with reuse local show ?thesis by (auto simp: priced_reuse_def Let_def slice_def)
  next
    case (Some s)
    have "m \<le> length ?ks" if "dindex (ask_counts ask) s = Inr m"
      using that prefix_bound [of located ?ks s] assms(2,3) by (auto simp: dindex_def dget_def split: option.splits)
    with Some reuse local show ?thesis
      by (auto simp: priced_reuse_def Let_def slice_def res_simps assms(2) split: if_splits)
  qed
  with candidate_fits [OF cand] show ?thesis by blast
qed


lemma settled_plan_fits:
  assumes "settle s dir now req requester = Inr (Some r)"
  shows "plan_fits (k_block_tokens (s_knobs s)) req (resp_plan r)"
  using assms
proof (rule settle_Some)
  fix d ask prefill
  let ?v = "view_of s dir now d"
  assume posed: "pose_ask s ?v req now requester = Inr ask"
    and pre: "select (prefill_chain s) ?v ask requester = Inr prefill" "head prefill = Some (prefill_host r)"
    "first_dim prefill (prefill_host r) = Inr (Held (resp_plan r))"
  obtain inst where priced: "price_plan (pricing_of s) ?v ask inst = Inr (resp_plan r)"
    using prefill_ttft_wins [OF _ pre(1,2)] prefill_load_wins [OF _ pre(1,2)] pre(3)
    by (cases "k_rank (s_knobs s) = LOAD") auto
  from posed obtain located where "locate (v_dir ?v) (v_pin ?v) (block_keys req) = Inr located"
    "ask_request ask = req" "ask_keys ask = block_keys req"
    "ask_counts ask = prefix_lengths_of located (block_keys req)"
    by (auto simp: pose_ask_def Let_def res_simps)
  then show ?thesis
    using price_plan_fits [OF priced, of located] by (simp add: pricing_of_def Let_def)
qed

subsection \<open>Blocks and keys\<close>

lemma blocks_for_rest:
  assumes "0 < acc_block_tokens a" "0 \<le> t" "0 \<le> m" "m \<le> blocks_for t a"
  shows "blocks_for (t - min (m * acc_block_tokens a) t) a = blocks_for t a - m"
proof (cases "m * acc_block_tokens a \<le> t")
  case True
  then have "(m * acc_block_tokens a - t) div acc_block_tokens a = m + (- t) div acc_block_tokens a"
    using div_mult_self3 [of "acc_block_tokens a" m "- t"] assms(1) by simp
  with True assms(3,4) show ?thesis by (simp add: blocks_for_def max_def split: if_splits)
next
  case False
  have "(blocks_for t a - 1) * acc_block_tokens a < m * acc_block_tokens a"
    using blocks_for_ceiling(2,4) [OF assms(1,2)] False assms(1,2,3) by (smt (verit) mult_neg_pos mult_nonneg_nonneg)
  then have "blocks_for t a \<le> m" using assms(1) by (simp add: mult_less_cancel_right)
  with assms(4) False blocks_for_ceiling(4) [OF assms(1,2)] show ?thesis by simp
qed

lemma fdiv_refuses: "fdiv x y = Inl e \<Longrightarrow> e = ZeroDivisionError"
  by (cases y) (auto split: if_splits)

lemma prefill_cost_refuses: "prefill_cost n a = Inl e \<Longrightarrow> e = ZeroDivisionError"
  unfolding prefill_cost_def prefill_time_def
  by (auto simp: compute_time_def bindr_def dest: fdiv_refuses split: if_splits sum.splits)

subsection \<open>The prefill leg, step by step\<close>

text \<open>
  The one thing asked of what a host reaches: none of its calls answers with the \<^verbatim>\<open>ValueError\<close> that
  the store's own arity check raises.
\<close>

definition quiet :: "'w ports \<Rightarrow> bool" where
  "quiet ps \<longleftrightarrow>
     (\<forall>ask ks i w. p_sources ps = Some ask \<longrightarrow> snd (ask ks i w) \<noteq> Inl ValueError) \<and>
     (\<forall>i kvs w. snd (p_put ps i kvs w) \<noteq> Inl ValueError) \<and>
     (\<forall>i prefer ks w. snd (p_get ps i prefer ks w) \<noteq> Inl ValueError) \<and>
     (\<forall>i ks w. snd (p_touch ps i ks w) \<noteq> Inl ValueError) \<and>
     (\<forall>act w. snd (p_tell ps act w) \<noteq> Inl ValueError)"

abbreviation no_arity :: "('w serving \<Rightarrow> bool) \<Rightarrow> py_error \<Rightarrow> 'w serving \<Rightarrow> bool" where
  "no_arity P \<equiv> \<lambda>e s. P s \<and> e \<noteq> ValueError"

lemma triple_pure: "(b \<Longrightarrow> triple P m Q X) \<Longrightarrow> triple (\<lambda>s. P s \<and> b) m Q X"
  by (auto simp: triple_def)

lemma triple_quiet:
  assumes "keeps_metrics P" "\<And>w. snd (f w) \<noteq> Inl ValueError"
  shows "triple P (call_io f) (\<lambda>_. P) (no_arity P)"
  using triple_call [of P f "\<lambda>e. e \<noteq> ValueError"] assms by metis

lemma reuse_triple:
  assumes "quiet ps" "keeps_metrics P"
  shows "triple P (reuse_keys ps inst ks) (\<lambda>_. P) (no_arity P)"
  using assms unfolding reuse_keys_def
  by (intro triple_if triple_answer triple_quiet) (simp_all add: quiet_def)

lemma fetch_triple:
  assumes "quiet ps" "keeps_metrics P"
  shows "triple P (fetch ps inst ks) (\<lambda>kv s. P s \<and> length kv = length ks) (no_arity P)"
proof -
  have sources: "triple P (peer_sources ps inst ks) (\<lambda>_. P) (no_arity P)"
    using assms unfolding peer_sources_def
    by (cases "p_sources ps") (auto intro!: triple_answer triple_quiet simp: quiet_def)
  have got: "triple P (call_io (p_get ps inst wish ks)) (\<lambda>_. P) (no_arity P)" for wish
    using assms by (intro triple_quiet) (simp_all add: quiet_def)
  have "res_map (dindex got) ks \<noteq> Inl ValueError" for got :: "(key \<times> int) list"
    by (induction ks) (auto simp: dindex_def bindr_def split: sum.splits option.splits)
  then have "triple P (lift_io (res_map (dindex got) ks)) (\<lambda>kv s. P s \<and> length kv = length ks) (no_arity P)"
    for got :: "(key \<times> int) list"
    by (intro triple_lift) (auto dest: res_map_length)
  with sources got show ?thesis
    unfolding fetch_def by (auto intro!: triple_if triple_answer triple_then)
qed

lemma publish_triple:
  assumes "quiet ps" "keeps_metrics P" "length ks = length blocks"
  shows "triple P (publish ps inst ks blocks) (\<lambda>_. P) (no_arity P)"
proof -
  have "triple P (call_io (p_put ps inst kvs)) (\<lambda>_. P) (no_arity P)" for kvs
    using assms by (intro triple_quiet) (simp_all add: quiet_def)
  then have "triple P (then_io (call_io (p_put ps inst kvs)) (\<lambda>_. answer_io True)) (\<lambda>_. P) (no_arity P)" for kvs
    by (rule triple_then) (rule triple_answer)
  then have "triple P (then_io (call_io (p_put ps inst kvs)) (\<lambda>_. answer_io True)) (\<lambda>_. P)
      (\<lambda>e s. if e = StorageFull then P s else no_arity P e s)" for kvs
    by (rule triple_weaken) auto
  then show ?thesis
    unfolding publish_def using assms(3) by (auto intro!: triple_if triple_answer triple_except)
qed

lemma recompute_prefill_triple:
  assumes "sh_prefill h = Some a" "\<And>rr. good rr \<Longrightarrow> adds_up req rr"
    "0 \<le> recompute_cached a req p" "recompute_cached a req p \<le> prompt_tokens req"
  shows "triple (holding earlier good) (recompute_prefill ps h req p (length earlier))
     (\<lambda>u s. holding earlier (adds_up req) s \<and> u = prompt_tokens req - recompute_cached a req p)
     (\<lambda>e s. e \<noteq> ValueError)"
  unfolding recompute_prefill_def Let_def
proof (rule triple_then [where R = "\<lambda>a' s. holding earlier good s \<and> a' = a"])
  show "triple (holding earlier good) (lift_io (prefill_engine h)) (\<lambda>a' s. holding earlier good s \<and> a' = a)
      (\<lambda>e s. e \<noteq> ValueError)"
    using assms(1) by (intro triple_lift) (auto simp: prefill_engine_def)
next
  fix a'
  show "triple (\<lambda>s. holding earlier good s \<and> a' = a)
     (then_io (amend_io (length earlier) (\<lambda>r. r\<lparr>rr_cached_tokens := recompute_cached a' req p,
          rr_uncached_tokens := prompt_tokens req - recompute_cached a' req p, rr_transfer_bytes := 0\<rparr>)) (\<lambda>_.
      then_io (lift_io (prefill_cost (prompt_tokens req - recompute_cached a' req p) a')) (\<lambda>c.
      then_io (amend_io (length earlier) (\<lambda>r. r\<lparr>rr_ttft := rr_ttft r + (c - prefill_t p)\<rparr>)) (\<lambda>_.
      then_io (trace_io ps (Restale (req_id req) (length (pull_keys p)) (reuse_source p) (sh_me h))) (\<lambda>_.
      answer_io (prompt_tokens req - recompute_cached a' req p))))))
     (\<lambda>u s. holding earlier (adds_up req) s \<and> u = prompt_tokens req - recompute_cached a req p)
     (\<lambda>e s. e \<noteq> ValueError)"
    using assms(3,4)
    by (intro triple_pure triple_then [where R = "\<lambda>_. holding earlier (adds_up req)"] triple_amend triple_trace
        triple_lift triple_answer)
      (auto dest!: assms(2) prefill_cost_refuses simp: adds_up_def)
qed

lemma pull_triple:
  assumes "quiet ps" "sh_prefill h = Some a" "0 < acc_block_tokens a" "0 \<le> prompt_tokens req"
    "plan_fits (acc_block_tokens a) req p" "int (length (block_keys req)) = blocks_for (prompt_tokens req) a"
  shows "triple (holding earlier (adds_up req)) (pull_prefix ps h req p (length earlier))
     (\<lambda>(u, kv) s. holding earlier (adds_up req) s \<and> 0 \<le> u \<and> u \<le> prompt_tokens req \<and>
        int (length kv) + blocks_for u a = int (length (block_keys req)) - local_blocks p \<and> 0 \<le> local_blocks p)
     (\<lambda>e s. e \<noteq> ValueError)"
proof -
  let ?bt = "acc_block_tokens a" and ?T = "prompt_tokens req"
  from assms(5) obtain m n where p: "match_blocks p = int m" "m \<le> length (block_keys req)"
    "pull_keys p = slice n m (block_keys req)" "cached_tokens p = min (int m * ?bt) ?T"
    "uncached_tokens p = ?T - cached_tokens p" "reuse_source p = None \<longrightarrow> pull_keys p = []"
    by (auto simp: plan_fits_def)
  have pulled: "length (pull_keys p) = m - n" using p by (simp add: slice_length)
  then have local: "0 \<le> local_blocks p" "local_blocks p \<le> int (length (block_keys req))" using p by (simp_all add: local_blocks_def)
  have plain: "blocks_for (uncached_tokens p) a = int (length (block_keys req)) - int m" "0 \<le> uncached_tokens p" "uncached_tokens p \<le> ?T"
    using blocks_for_rest [OF assms(3,4), of "int m"] p assms(3,4,6) by auto
  have stale: "blocks_for (?T - recompute_cached a req p) a = int (length (block_keys req)) - local_blocks p"
    "0 \<le> recompute_cached a req p" "recompute_cached a req p \<le> ?T"
    using blocks_for_rest [OF assms(3,4) local(1)] local assms(3,4,6) by (auto simp: recompute_cached_def)
  have empty: "m \<le> n" if "pull_keys p = []" using pulled that by simp
  note [simp] = plain(1) stale(1) local_blocks_def p(1) pulled
  show ?thesis
    unfolding pull_prefix_def
    using plain stale local p(6)
    by (intro triple_if triple_answer triple_except [where R = "holding earlier (adds_up req)"]
        triple_then [OF triple_weaken [OF fetch_triple [OF assms(1) holding_keeps]]]
        triple_then [OF recompute_prefill_triple [OF assms(2)]])
      (auto dest: empty)
qed

text \<open>A step that leaves the request's row as it is.\<close>

lemma triple_step:
  assumes "triple P m (\<lambda>_. P) (no_arity P)" "\<And>x. triple P (f x) Q (\<lambda>e s. e \<noteq> ValueError)"
  shows "triple P (then_io m f) Q (\<lambda>e s. e \<noteq> ValueError)"
  by (rule triple_then [OF triple_weaken [OF assms(1)] assms(2)]) simp_all

lemma triple_pair:
  "(\<And>u v. triple (P (u, v)) (f u v) Q X) \<Longrightarrow> triple (P x) (case x of (u, v) \<Rightarrow> f u v) Q X"
  by (cases x) simp

lemma tell_triple:
  "quiet ps \<Longrightarrow> keeps_metrics P \<Longrightarrow> triple P (call_io (p_tell ps act)) (\<lambda>_. P) (no_arity P)"
  by (intro triple_quiet) (simp_all add: quiet_def)

lemma done_triple:
  assumes "keeps_metrics P"
  shows "triple P (prefill_done ps h req r row) (\<lambda>_. P) (no_arity P)"
proof -
  have "triple P (row_io row) (\<lambda>_. P) (no_arity P)" by (simp add: triple_def row_io_def)
  then show ?thesis
    unfolding prefill_done_def Let_def
    by (intro triple_then [where R = "\<lambda>_. P"] triple_if triple_answer triple_trace assms)
qed

lemma wait_triple:
  assumes "sh_prefill h = Some a"
  shows "triple P (lift_io (measured_wait h t t' u)) (\<lambda>_. P) (no_arity P)"
  using assms
  by (intro triple_lift)
    (auto simp: measured_wait_def prefill_engine_def bindr_def dest: prefill_cost_refuses split: sum.splits)

lemma pass_triple:
  assumes "sh_prefill h = Some a" "keeps_metrics P"
  shows "triple P (run_pass ps h n pulled tag) (\<lambda>x s. P s \<and> x = pass_answer n pulled a) (no_arity P)"
  using assms
  by (auto simp: triple_def run_pass_def then_io_def lift_io_def prefill_engine_def call_io_def keeps_metrics_def)

text \<open>The row, once it is in the table: amending its measurements keeps what it adds up to.\<close>

lemma amend_triple:
  assumes "\<And>rr. adds_up req (f rr) = adds_up req rr"
  shows "triple (holding earlier (adds_up req)) (amend_io (length earlier) f)
    (\<lambda>_. holding earlier (adds_up req)) (no_arity (holding earlier (adds_up req)))"
  using assms by (intro triple_amend) simp

lemma adds_up_amends:
  "adds_up req (rr\<lparr>rr_queue_wait := w\<rparr>) = adds_up req rr"
  "adds_up req (rr\<lparr>rr_published := b\<rparr>) = adds_up req rr"
  by (simp_all add: adds_up_def)

lemma after_pull_triple:
  assumes "quiet ps" "sh_prefill h = Some a" "length (block_keys req) - nat (local_blocks (resp_plan r)) = length kv"
    "0 \<le> local_blocks (resp_plan r)"
  shows "triple (holding earlier (adds_up req))
     (then_io (now_io ps) (\<lambda>finished_at.
      then_io (lift_io (measured_wait h submitted_at finished_at uncached)) (\<lambda>wait.
      then_io (amend_io (length earlier) (\<lambda>rr. rr\<lparr>rr_queue_wait := wait\<rparr>)) (\<lambda>_.
      then_io (publish ps (sh_me h) (py_from (local_blocks (resp_plan r)) (block_keys req)) kv) (\<lambda>ok.
      then_io (amend_io (length earlier) (\<lambda>rr. rr\<lparr>rr_published := ok\<rparr>)) (\<lambda>_.
      then_io (now_io ps) (\<lambda>t.
      then_io (call_io (p_tell ps (PrefillFinished (sh_me h) t))) (\<lambda>_.
      then_io (prefill_done ps h req r (length earlier)) (\<lambda>next.
      answer_io \<lparr>pf_elsewhere = None, pf_response = Some r, pf_token = Some first_token,
                 pf_decode = next\<rparr>)))))))))
     (\<lambda>_. holding earlier (adds_up req)) (\<lambda>e s. e \<noteq> ValueError)"
  using assms
  by (intro triple_step triple_now triple_answer wait_triple amend_triple publish_triple tell_triple
      done_triple holding_keeps adds_up_amends)
    (simp_all add: py_from_def)

lemma pass_length:
  "blocks_for n a = int k \<Longrightarrow> length (fst (pass_answer n pulled a)) = length pulled + k"
  by (simp add: pass_answer_def kv_blocks_def)

lemma prefill_here_triple:
  fixes ps :: "'w ports"
  assumes "quiet ps" "sh_prefill h = Some a" "0 < acc_block_tokens a" "0 \<le> prompt_tokens req"
    "plan_fits (acc_block_tokens a) req (resp_plan r)" "prompt_numel req = prompt_tokens req"
    "int (length (block_keys req)) = blocks_for (prompt_tokens req) a"
  shows "triple (\<lambda>s. rows (sv_metrics s) = earlier) (prefill_here ps h req r)
     (\<lambda>_. holding earlier (adds_up req)) (\<lambda>e s. e \<noteq> ValueError)"
proof -
  let ?H = "holding earlier (adds_up req) :: 'w serving \<Rightarrow> bool" and ?p = "resp_plan r"
  have fresh: "adds_up req (make_accepted req r)"
    using assms(3,4,5) by (auto simp: adds_up_def make_accepted_def plan_fits_def new_result_def Let_def)
  have row: "triple (\<lambda>s. rows (sv_metrics s) = earlier) (add_row_io (make_accepted req r))
      (\<lambda>row s. ?H s \<and> row = length earlier) (\<lambda>e s. e \<noteq> ValueError)"
    using fresh by (simp add: triple_def add_row_io_def metrics_add_def ledger_add_def holding_def)
  have pass: "triple ?H
      (then_io (run_pass ps h (suffix_numel (prompt_numel req) (prompt_tokens req - u)) pulled (req_id req)) f)
      (\<lambda>_. ?H) (\<lambda>e s. e \<noteq> ValueError)"
    if fits: "0 \<le> u" "u \<le> prompt_tokens req"
      "int (length pulled) + blocks_for u a = int (length (block_keys req)) - local_blocks ?p" "0 \<le> local_blocks ?p"
      and rest: "\<And>kv tok. length (block_keys req) - nat (local_blocks ?p) = length kv \<Longrightarrow>
        triple ?H (f (kv, tok)) (\<lambda>_. ?H) (\<lambda>e s. e \<noteq> ValueError)" for u pulled f
  proof (rule triple_then [where R = "\<lambda>x s. ?H s \<and> x = pass_answer
        (suffix_numel (prompt_numel req) (prompt_tokens req - u)) pulled a",
        OF triple_weaken [OF pass_triple [OF assms(2) holding_keeps]]])
    have "suffix_numel (prompt_numel req) (prompt_tokens req - u) = u"
      using fits(1,2) by (simp add: suffix_numel_def assms(6))
    moreover obtain k where k: "blocks_for u a = int k"
      using blocks_for_ceiling(3) [OF assms(3) fits(1)] by (metis nonneg_int_cases)
    moreover obtain kv tok where "pass_answer u pulled a = (kv, tok)" by fastforce
    ultimately show "triple (\<lambda>s. ?H s \<and> x = pass_answer (suffix_numel (prompt_numel req) (prompt_tokens req - u)) pulled a)
        (f x) (\<lambda>_. ?H) (\<lambda>e s. e \<noteq> ValueError)" for x
      using fits pass_length [OF k, of pulled] by (intro triple_pure) (auto intro!: rest)
  qed auto
  have reuse: "triple ?H (if local_blocks ?p \<noteq> 0 then reuse_keys ps (sh_me h) ks else answer_io ()) (\<lambda>_. ?H) (no_arity ?H)" for ks
    by (intro triple_if reuse_triple triple_answer holding_keeps assms(1))
  show ?thesis
    unfolding prefill_here_def Let_def
    apply (rule triple_then [OF triple_trace])
     apply (simp add: keeps_metrics_def)
    apply (rule triple_then [OF row], rule triple_pure, simp only:)
    apply (rule triple_step [OF reuse])
    apply (rule triple_then [OF pull_triple [OF assms(1-5,7)]], rule triple_pair, simp only: prod.case)
    apply (rule triple_pure, elim conjE)
    apply (rule triple_step [OF triple_now])
    apply (rule pass, assumption+, simp only: prod.case)
    apply (rule after_pull_triple [OF assms(1,2)], assumption+)
    done
qed

subsection \<open>The leg under the scheduler's own decision\<close>

text \<open>C20: a host serving what the scheduler decided never publishes a chain with a block missing or
  to spare, whether the reuse it was promised arrived or had to be recomputed because the peer no
  longer held it: the store's arity check is never what ends the leg. A leg that ends with an answer
  adds exactly one row, the request's, whose cached and recomputed tokens make up the prompt.\<close>

theorem served_prefill_adds_up:
  assumes "map_of (placed s) (req_id req) = None" "decide s dir now req requester = Inr (s1, Some r)"
    and "sh_prefill h = Some a" "0 < acc_block_tokens a" "acc_block_tokens a = k_block_tokens (s_knobs s)"
    and "0 \<le> prompt_tokens req" "prompt_numel req = prompt_tokens req"
    and "int (length (block_keys req)) = blocks_for (prompt_tokens req) a"
    and "quiet ps"
  shows "case prefill_here ps h req r st of
      (st', Inl e) \<Rightarrow> e \<noteq> ValueError
    | (st', Inr pf) \<Rightarrow> \<exists>row. rows (sv_metrics st') = rows (sv_metrics st) @ [row] \<and> adds_up req row"
proof -
  from decide_cases [OF assms(1,2)] have "settle s dir now req requester = Inr (Some r)" by (cases, auto)
  then have "plan_fits (acc_block_tokens a) req (resp_plan r)"
    using settled_plan_fits by (simp add: assms(5))
  from prefill_here_triple [OF assms(9,3,4,6) this assms(7,8), of "rows (sv_metrics st)"]
  show ?thesis by (auto simp: triple_def holding_def split: prod.splits sum.splits)
qed

text \<open>The worked decision served by a world where the peer still has the blocks.\<close>

definition calm :: "unit ports" where
  "calm = \<lparr>p_now = (\<lambda>_. 0), p_decide = (\<lambda>_ _ w. (w, Inr None)), p_sources = None,
     p_put = (\<lambda>_ _ w. (w, Inr ())), p_get = (\<lambda>_ _ ks w. (w, Inr (map (\<lambda>k. (k, 16)) ks))),
     p_touch = (\<lambda>_ _ w. (w, Inr ())), p_pass = (\<lambda>_ _ _ w. w), p_admit = (\<lambda>_ _ w. (w, Inl KeyError)),
     p_tell = (\<lambda>_ w. (w, Inr ()))\<rparr>"

definition demo_engine :: accelerator where
  "demo_engine = (case acc_init (\<lambda>_. Some 1) DEFAULT_PROFILE DEFAULT_MODEL 16 of Inr a \<Rightarrow> a)"

definition demo_host :: serving_host where
  "demo_host = \<lparr>sh_me = ''a'', sh_prefill = Some demo_engine, sh_decode = True, sh_models_decode = True\<rparr>"

definition idle_host :: "unit serving" where
  "idle_host = \<lparr>world = (), sv_metrics = metrics_init, sv_trace = []\<rparr>"

lemma served_prefill_adds_up_witness:
  "case prefill_here calm demo_host demo_request demo_answer idle_host of
      (st', Inl e) \<Rightarrow> e \<noteq> ValueError
    | (st', Inr pf) \<Rightarrow> \<exists>row. rows (sv_metrics st') = rows (sv_metrics idle_host) @ [row] \<and> adds_up demo_request row"
  by (rule served_prefill_adds_up [OF demo_unplaced demo_decide(1) [of "''b''"], of _ demo_engine])
    (simp_all add: demo_host_def demo_engine_def acc_init_def demo_block_bytes Let_def busy_b_eq demo_knobs_def demo_request_def blocks_for_def quiet_def calm_def)

lemma demo_leg_answers: "\<exists>st' pf. prefill_here calm demo_host demo_request demo_answer idle_host = (st', Inr pf)"
  by (simp add: prefill_here_def Let_def then_io_def trace_io_def add_row_io_def answer_io_def pull_prefix_def
      fetch_def peer_sources_def call_io_def lift_io_def except_io_def now_io_def run_pass_def prefill_engine_def
      measured_wait_def amend_io_def metrics_io_def publish_def prefill_done_def row_io_def reuse_keys_def
      prefill_cost_def demo_host_def demo_answer_fields plan_a_def local_blocks_def calm_def demo_request_def
      dindex_def demo_engine_def acc_init_def demo_block_bytes demo_prefill_time suffix_numel_def py_from_def
      pass_answer_def kv_blocks_def blocks_for_def)

end
