(* ===== verification/Workload.thy ===== *)
theory Workload
  imports KvModel Accelerator
begin

section \<open>Synthetic conversations\<close>

text \<open>
  \<^verbatim>\<open>kvcache_sim/workload/_generator.py\<close>. A \<^verbatim>\<open>random.Random\<close> is its state and \<open>rnd\<close>, which draws the
  next \<^verbatim>\<open>random()\<close>; an exponential draw is the library's formula over it. A prompt is the number of
  elements of its tensor, torch's answer (\<open>numel\<close>) to the shape asked for.
\<close>

record turn =
  tn_request :: request
  tn_think :: time

record conversation_of =
  cv_id :: string
  cv_arrival :: time
  cv_turns :: "turn list"

definition conversation_requests :: "conversation_of \<Rightarrow> request list" where
  "conversation_requests c = map tn_request (cv_turns c)"

text \<open>The chain a prompt's segments continue.\<close>

fun extend_chain :: "key \<Rightarrow> int list \<Rightarrow> key list" where
  "extend_chain acc [] = []"
| "extend_chain acc (seg # segs) = (let acc' = acc @ ''|'' @ str_int seg in acc' # extend_chain acc' segs)"

definition zipf_weights :: "int \<Rightarrow> real \<Rightarrow> real list" where
  "zipf_weights n s =
     (let raw = map (\<lambda>rank. 1 / (real (rank + 1) powr s)) [0..<nat n]; whole = sum_list raw
      in map (\<lambda>w. w / whole) raw)"

text \<open>The dialogue under construction.\<close>

record dialogue =
  dl_id :: string
  dl_rank :: string
  dl_arrival :: time
  dl_planned :: time
  dl_turns :: "turn list"

definition dialogue_init :: "string \<Rightarrow> string \<Rightarrow> time \<Rightarrow> dialogue" where
  "dialogue_init i rank t = \<lparr>dl_id = i, dl_rank = rank, dl_arrival = t, dl_planned = t, dl_turns = []\<rparr>"

subsection \<open>Draws\<close>

definition expovariate :: "('g \<Rightarrow> real \<times> 'g) \<Rightarrow> real \<Rightarrow> 'g \<Rightarrow> (real \<times> 'g) res" where
  "expovariate rnd lambd g =
     (case rnd g of (u, g') \<Rightarrow> if lambd = 0 then Inl ZeroDivisionError else Inr (- ln (1 - u) / lambd, g'))"

text \<open>
  The first index whose cumulative weight reaches the draw. Over no weights at all the code answers
  \<open>-1\<close> and this answers \<open>0\<close>; the count of that index raises the same way, on an empty list.
\<close>

fun sample_from :: "real \<Rightarrow> real \<Rightarrow> real list \<Rightarrow> nat \<Rightarrow> nat option" where
  "sample_from x acc [] i = None"
| "sample_from x acc (w # ws) i = (if x \<le> acc + w then Some i else sample_from x (acc + w) ws (Suc i))"

definition sample :: "('g \<Rightarrow> real \<times> 'g) \<Rightarrow> real list \<Rightarrow> 'g \<Rightarrow> nat \<times> 'g" where
  "sample rnd weights g =
     (case rnd g of (x, g') \<Rightarrow>
        (case sample_from x 0 weights 0 of Some i \<Rightarrow> (i, g') | None \<Rightarrow> (length weights - 1, g')))"

fun draw_ranks :: "('g \<Rightarrow> real \<times> 'g) \<Rightarrow> real list \<Rightarrow> nat \<Rightarrow> 'g \<Rightarrow> nat list \<times> 'g" where
  "draw_ranks rnd weights 0 g = ([], g)"
| "draw_ranks rnd weights (Suc n) g =
     (case sample rnd weights g of (c, g') \<Rightarrow>
      case draw_ranks rnd weights n g' of (cs, g'') \<Rightarrow> (c # cs, g''))"

fun tally :: "nat list \<Rightarrow> nat list \<Rightarrow> nat list res" where
  "tally [] counts = Inr counts"
| "tally (c # cs) counts =
     (if c < length counts then tally cs (counts[c := counts ! c + 1]) else Inl IndexError)"

subsection \<open>Building the stream\<close>

record workload_args =
  g_requests :: int
  g_conversations :: int
  g_system :: int
  g_base :: int
  g_query :: int
  g_zipf :: real
  g_rate :: real
  g_block_tokens :: int
  g_output :: int
  g_max_turns :: int
  g_think :: real
  g_model :: string

definition py_range :: "int \<Rightarrow> int \<Rightarrow> int list" where
  "py_range a b = [a..b - 1]"

fun openings :: "int list \<Rightarrow> int \<Rightarrow> nat \<Rightarrow> int \<Rightarrow> int list list \<times> int" where
  "openings system base 0 fresh = ([], fresh)"
| "openings system base (Suc n) fresh =
     (case openings system base n (fresh + base) of (rest, fresh') \<Rightarrow>
        ((system @ py_range fresh (fresh + base)) # rest, fresh'))"

text \<open>\<^verbatim>\<open>active\<close> holds dialogues by reference: a position of \<^verbatim>\<open>built\<close>.\<close>

record 'g building =
  bd_rng :: 'g
  bd_fresh :: int
  bd_built :: "dialogue list"
  bd_active :: "(nat \<times> nat) list"
  bd_started :: "nat list"
  bd_t :: time

definition open_dialogue :: "('g \<Rightarrow> real \<times> 'g) \<Rightarrow> real \<Rightarrow> nat \<Rightarrow> 'g building \<Rightarrow> ('g building \<times> nat) res" where
  "open_dialogue rnd conv_rate c b =
     bindr (expovariate rnd conv_rate (bd_rng b)) (\<lambda>(dt, g).
       let t = bd_t b + dt; n = bd_started b ! c;
           d = dialogue_init (''c'' @ str_nat c @ ''.'' @ str_nat n) (''c'' @ str_nat c) t
       in Inr (b\<lparr>bd_rng := g, bd_t := t, bd_started := (bd_started b)[c := n + 1],
                 bd_active := AList.update c (length (bd_built b)) (bd_active b),
                 bd_built := bd_built b @ [d]\<rparr>, length (bd_built b)))"

definition dialogue_for ::
  "workload_args \<Rightarrow> ('g \<Rightarrow> real \<times> 'g) \<Rightarrow> real \<Rightarrow> nat \<Rightarrow> 'g building \<Rightarrow> ('g building \<times> nat) res" where
  "dialogue_for wa rnd conv_rate c b =
     (case map_of (bd_active b) c of
        None \<Rightarrow> open_dialogue rnd conv_rate c b
      | Some d \<Rightarrow> if g_max_turns wa \<le> int (length (dl_turns (bd_built b ! d)))
                  then open_dialogue rnd conv_rate c b else Inr (b, d))"

definition turn_keys :: "workload_args \<Rightarrow> int \<Rightarrow> int list \<Rightarrow> int list \<Rightarrow> turn list \<Rightarrow> key list res" where
  "turn_keys wa generated_blocks opening query turns =
     (if turns = [] then Inr (extend_chain (g_model wa) (opening @ query))
      else let previous = tn_request (last turns);
               history = block_keys previous @ continuation_keys previous generated_blocks
           in if history = [] then Inl IndexError else Inr (history @ extend_chain (last history) query))"

definition turn_think ::
  "workload_args \<Rightarrow> ('g \<Rightarrow> real \<times> 'g) \<Rightarrow> turn list \<Rightarrow> 'g \<Rightarrow> (time \<times> 'g) res" where
  "turn_think wa rnd turns g =
     (if turns = [] then Inr (0, g)
      else if 0 < g_think wa then expovariate rnd (1 / g_think wa) g else Inr (0, g))"

definition take_turn ::
  "workload_args \<Rightarrow> ('g \<Rightarrow> real \<times> 'g) \<Rightarrow> (int \<Rightarrow> int res) \<Rightarrow> real \<Rightarrow> int \<Rightarrow> int list list \<Rightarrow>
   nat \<Rightarrow> nat \<Rightarrow> 'g building \<Rightarrow> 'g building res" where
  "take_turn wa rnd numel conv_rate generated_blocks opening i c b =
     bindr (dialogue_for wa rnd conv_rate c b) (\<lambda>(b1, d).
     let dl = bd_built b1 ! d; turns = dl_turns dl; fresh = bd_fresh b1;
         query = py_range fresh (fresh + g_query wa) in
     bindr (turn_keys wa generated_blocks (opening ! c) query turns) (\<lambda>keys.
     bindr (turn_think wa rnd turns (bd_rng b1)) (\<lambda>(think, g).
     let planned = dl_planned dl + think; tokens = int (length keys) * g_block_tokens wa in
     bindr (numel tokens) (\<lambda>n.
     bindr (check_request \<lparr>req_id = ''r'' @ str_nat i, arrival = planned, block_keys = keys,
              prompt_tokens = tokens, output_tokens = g_output wa, prompt_numel = n,
              conversation = dl_rank dl\<rparr>) (\<lambda>req.
     Inr (b1\<lparr>bd_rng := g, bd_fresh := fresh + g_query wa,
             bd_built := (bd_built b1)[d := dl\<lparr>dl_planned := planned,
               dl_turns := turns @ [\<lparr>tn_request = req, tn_think = think\<rparr>]\<rparr>]\<rparr>))))))"

fun take_turns ::
  "(nat \<Rightarrow> nat \<Rightarrow> 'g building \<Rightarrow> 'g building res) \<Rightarrow> nat \<Rightarrow> nat list \<Rightarrow> 'g building \<Rightarrow> 'g building res" where
  "take_turns step i [] b = Inr b"
| "take_turns step i (c # cs) b = bindr (step i c b) (take_turns step (Suc i) cs)"

definition freeze :: "dialogue \<Rightarrow> conversation_of" where
  "freeze d = \<lparr>cv_id = dl_id d, cv_arrival = dl_arrival d, cv_turns = dl_turns d\<rparr>"

definition dialogues_of :: "int \<Rightarrow> nat list \<Rightarrow> int" where
  "dialogues_of cap counts = (\<Sum>n\<leftarrow>counts. - ((- int n) div cap))"

definition make_workload ::
  "(string \<Rightarrow> int option) \<Rightarrow> (int \<Rightarrow> int res) \<Rightarrow> ('g \<Rightarrow> real \<times> 'g) \<Rightarrow> workload_args \<Rightarrow> 'g \<Rightarrow>
   conversation_of list res" where
  "make_workload element_size numel rnd wa g =
     (let weights = zipf_weights (g_conversations wa) (g_zipf wa) in
      bindr (acc_init element_size DEFAULT_PROFILE DEFAULT_MODEL (g_block_tokens wa)) (\<lambda>geometry.
      if g_block_tokens wa = 0 then Inl ZeroDivisionError
      else
        let generated_blocks = blocks_for (max (g_output wa - 1) 0) geometry;
            system = py_range 0 (g_system wa);
            (opening, fresh) = openings system (g_base wa) (nat (g_conversations wa)) 1000;
            (draws, g1) = draw_ranks rnd weights (nat (g_requests wa)) g in
        bindr (tally draws (List.replicate (nat (g_conversations wa)) 0)) (\<lambda>counts.
        if g_max_turns wa = 0 \<and> counts \<noteq> [] then Inl ZeroDivisionError
        else
          let conv_rate = (if g_requests wa \<noteq> 0
                then g_rate wa * of_int (dialogues_of (g_max_turns wa) counts) / of_int (g_requests wa)
                else g_rate wa) in
          bindr (take_turns (take_turn wa rnd numel conv_rate generated_blocks opening) 0 draws
             \<lparr>bd_rng = g1, bd_fresh = fresh, bd_built = [], bd_active = [],
              bd_started = List.replicate (nat (g_conversations wa)) 0, bd_t = 0\<rparr>) (\<lambda>b.
          Inr (sort_key (\<lambda>c. (cv_arrival c, cv_id c)) (map freeze (bd_built b)))))))"

end
