(* ===== verification/Client.thy ===== *)
theory Client
  imports ServingFacts Workload "HOL-Library.Word"
begin

unbundle bit_operations_syntax

section \<open>The caller off the box\<close>

text \<open>
  \<^verbatim>\<open>proposed/routed.py\<close>, \<^verbatim>\<open>realsim/seams/link.py\<close> and the client of
  \<^verbatim>\<open>kvcache_sim/workload/_serving.py\<close>: reaching a host over a charged boundary, going where its
  answer sends the call, and walking a conversation. The bodies are those of \<open>Serving\<close>; sleeping is
  what everybody else does to the world meanwhile.
\<close>

subsection \<open>The boundary\<close>

definition sleep_io :: "(time \<Rightarrow> 'w \<Rightarrow> 'w) \<Rightarrow> time \<Rightarrow> ('w, unit) io" where
  "sleep_io sleep dt = call_io (\<lambda>w. (sleep dt w, Inr ()))"

definition hop_leg :: "(time \<Rightarrow> 'w \<Rightarrow> 'w) \<Rightarrow> time \<Rightarrow> ('w, unit) io" where
  "hop_leg sleep rtt = (if rtt \<noteq> 0 then sleep_io sleep rtt else answer_io ())"

definition hop_call :: "(time \<Rightarrow> 'w \<Rightarrow> 'w) \<Rightarrow> time \<Rightarrow> ('w, 'a) io \<Rightarrow> ('w, 'a) io" where
  "hop_call sleep rtt thunk =
     then_io (hop_leg sleep rtt) (\<lambda>_. then_io thunk (\<lambda>out. then_io (hop_leg sleep rtt) (\<lambda>_. answer_io out)))"

subsection \<open>A call that may be sent on\<close>

text \<open>
  \<^verbatim>\<open>RoutedPlane._call\<close>. \<open>chase n\<close> is the loop's first \<open>n\<close> turns: the answer nobody has to take
  anywhere, or the host the call is still being sent to.
\<close>

definition MAX_HOPS :: nat where
  "MAX_HOPS = 8"

fun chase ::
  "nat \<Rightarrow> ('a \<Rightarrow> vid option) option \<Rightarrow> (vid \<Rightarrow> ('w, 'a option) io) \<Rightarrow> vid \<Rightarrow> ('w, 'a option + vid) io" where
  "chase 0 route call host = answer_io (Inr host)"
| "chase (Suc n) route call host =
     then_io (call host) (\<lambda>answered.
       case (route, answered) of
         (Some address, Some a) \<Rightarrow>
           (case address a of None \<Rightarrow> answer_io (Inl answered) | Some sent_on \<Rightarrow> chase n route call sent_on)
       | _ \<Rightarrow> answer_io (Inl answered))"

definition routed_call ::
  "nat \<Rightarrow> ('a \<Rightarrow> vid option) option \<Rightarrow> (vid \<Rightarrow> ('w, 'a option) io) \<Rightarrow> vid \<Rightarrow> ('w, 'a option) io" where
  "routed_call max_hops route call host =
     then_io (chase max_hops route call host) (\<lambda>r.
       case r of Inl answered \<Rightarrow> answer_io answered | Inr _ \<Rightarrow> raise_io RuntimeError)"

subsection \<open>Where a request lands\<close>

text \<open>\<^verbatim>\<open>zlib.crc32\<close>, bit by bit; a conversation's characters are the bytes it encodes to.\<close>

fun crc_bits :: "nat \<Rightarrow> 32 word \<Rightarrow> 32 word" where
  "crc_bits 0 c = c"
| "crc_bits (Suc n) c = crc_bits n (if bit c 0 then drop_bit 1 c XOR 0xEDB88320 else drop_bit 1 c)"

definition crc32 :: "string \<Rightarrow> 32 word" where
  "crc32 s = foldl (\<lambda>c b. crc_bits 8 (c XOR of_nat (of_char b))) 0xFFFFFFFF s XOR 0xFFFFFFFF"

definition affinity :: "vid list \<Rightarrow> request \<Rightarrow> vid res" where
  "affinity ids req =
     (let ordered = sort ids
      in if ordered = [] then Inl ZeroDivisionError
         else Inr (ordered ! (unat (crc32 (conversation req)) mod length ordered)))"

subsection \<open>The client\<close>

record 'w client =
  cl_hosts :: "vid \<Rightarrow> serving_host res"
  cl_rtt :: time
  cl_sleep :: "time \<Rightarrow> 'w \<Rightarrow> 'w"
  cl_ids :: "vid list"

definition prefill_member :: "'w client \<Rightarrow> 'w ports \<Rightarrow> request \<Rightarrow> vid \<Rightarrow> ('w, prefilled option) io" where
  "prefill_member cl ps req host =
     then_io (lift_io (cl_hosts cl host)) (\<lambda>h. hop_call (cl_sleep cl) (cl_rtt cl) (prefill_leg ps h req))"

definition decode_member ::
  "'w client \<Rightarrow> 'w ports \<Rightarrow> request \<Rightarrow> response option \<Rightarrow> vid \<Rightarrow> ('w, token list option) io" where
  "decode_member cl ps req r host =
     then_io (lift_io (cl_hosts cl host)) (\<lambda>h. hop_call (cl_sleep cl) (cl_rtt cl)
       (case r of None \<Rightarrow> raise_io AttributeError
        | Some r \<Rightarrow> then_io (decode_leg ps h req r) (\<lambda>ts. answer_io (Some ts))))"

definition client_turn :: "'w client \<Rightarrow> 'w ports \<Rightarrow> request \<Rightarrow> ('w, unit) io" where
  "client_turn cl ps req =
     then_io (lift_io (affinity (cl_ids cl) req)) (\<lambda>host.
     then_io (routed_call MAX_HOPS (Some pf_elsewhere) (prefill_member cl ps req) host) (\<lambda>prefilled.
       case prefilled of
         None \<Rightarrow> answer_io ()
       | Some pf \<Rightarrow>
           (case pf_decode pf of
              None \<Rightarrow> answer_io ()
            | Some d \<Rightarrow>
                then_io (routed_call MAX_HOPS None (decode_member cl ps req (pf_response pf)) d) (\<lambda>rest.
                  case rest of
                    None \<Rightarrow> raise_io TypeError
                  | Some ts \<Rightarrow>
                      then_io (now_io ps) (\<lambda>t.
                      metrics_io (completed (req_id req) (t - arrival req) (1 + int (length ts))))))))"

fun client_submit :: "'w client \<Rightarrow> 'w ports \<Rightarrow> turn list \<Rightarrow> ('w, unit) io" where
  "client_submit cl ps [] = answer_io ()"
| "client_submit cl ps (t # ts) =
     then_io (if tn_think t \<noteq> 0 then sleep_io (cl_sleep cl) (tn_think t) else answer_io ()) (\<lambda>_.
     then_io (now_io ps) (\<lambda>now.
     then_io (lift_io (check_request ((tn_request t)\<lparr>arrival := now\<rparr>))) (\<lambda>req.
     then_io (client_turn cl ps req) (\<lambda>_. client_submit cl ps ts))))"

end
