(* ===== verification/WorkloadFacts.thy ===== *)
theory WorkloadFacts
  imports Workload "HOL-Library.Multiset"
begin

section \<open>What the generated conversations are\<close>

text \<open>
  Facts of \<open>Workload\<close>: the shape of every turn, how a turn continues the one before it, that the
  stream offers each request once, and that no two requests generate the same key.
\<close>

subsection \<open>Chains\<close>

text \<open>A chain: every key properly extends the ones before it.\<close>

abbreviation key_chain :: "key list \<Rightarrow> bool" where
  "key_chain \<equiv> sorted_wrt strict_prefix"

lemma extend_chain_length [simp]: "length (extend_chain acc segs) = length segs"
  by (induction segs arbitrary: acc) (simp_all add: Let_def)

lemma extend_chain_Nil [simp]: "extend_chain acc segs = [] \<longleftrightarrow> segs = []"
  by (cases segs) (simp_all add: Let_def)

lemma extend_chain_append:
  "extend_chain acc (xs @ ys) = extend_chain acc xs @ extend_chain (last (acc # extend_chain acc xs)) ys"
  by (induction xs arbitrary: acc) (simp_all add: Let_def)

lemma last_extend_chain: "segs \<noteq> [] \<Longrightarrow> \<exists>p. last (extend_chain acc segs) = p @ ''|'' @ str_int (last segs)"
proof (induction segs arbitrary: acc)
  case (Cons s segs)
  then show ?case by (cases "segs = []") (auto simp: Let_def)
qed simp

lemma key_chain_step: "strict_prefix acc acc' \<Longrightarrow> key_chain (acc' # ks) \<Longrightarrow> key_chain (acc # acc' # ks)"
  by (auto intro: prefix_order.less_trans)

lemma extend_key_chain: "key_chain (acc # extend_chain acc segs)"
proof (induction segs arbitrary: acc)
  case (Cons s segs)
  let ?acc = "acc @ ''|'' @ str_int s"
  have "strict_prefix acc ?acc" by (simp add: strict_prefix_def)
  from key_chain_step [OF this Cons.IH] show ?case by (simp add: Let_def)
qed simp

lemma continue_key_chain: "key_chain (acc # continue_from acc i n)"
proof (induction n arbitrary: acc i)
  case (Suc n)
  let ?acc = "acc @ ''|g'' @ str_nat i"
  have "strict_prefix acc ?acc" by (simp add: strict_prefix_def)
  from key_chain_step [OF this Suc.IH] show ?case by (simp add: Let_def)
qed simp

lemma key_chain_append:
  assumes "key_chain xs" "xs \<noteq> []" "key_chain (last xs # ys)"
  shows "key_chain (xs @ ys)"
proof -
  obtain zs z where xs: "xs = zs @ [z]" using assms(2) by (cases xs rule: rev_cases) auto
  have "strict_prefix x y" if "x \<in> set xs" "y \<in> set ys" for x y
    using that assms(1,3) unfolding xs by (auto simp: sorted_wrt_append intro: prefix_order.less_trans)
  with assms(1,3) show ?thesis by (simp add: sorted_wrt_append)
qed

lemma key_chain_distinct: "key_chain ks \<Longrightarrow> distinct ks"
  by (induction ks) auto

text \<open>What a finished request leaves in the store: its prompt's chain and what it generated.\<close>

definition history :: "int \<Rightarrow> request \<Rightarrow> key list" where
  "history gb r = block_keys r @ continuation_keys r gb"

lemma history_chain:
  assumes "key_chain (block_keys r)"
  shows "key_chain (history gb r)"
proof (cases "block_keys r = []")
  case True
  then show ?thesis
    using continue_key_chain [of "chain_end r" 1 "nat gb"] by (simp add: history_def continuation_keys_def)
next
  case False
  with assms continue_key_chain [of "chain_end r" 1 "nat gb"] show ?thesis
    unfolding history_def continuation_keys_def by (intro key_chain_append) (simp_all add: chain_end_def)
qed

subsection \<open>Turns and dialogues\<close>

definition addressed :: "workload_args \<Rightarrow> request \<Rightarrow> bool" where
  "addressed wa r \<longleftrightarrow> prompt_tokens r = int (length (block_keys r)) * g_block_tokens wa \<and>
     prompt_numel r = prompt_tokens r \<and> output_tokens r = g_output wa \<and> key_chain (block_keys r)"

definition follows :: "workload_args \<Rightarrow> int \<Rightarrow> request \<Rightarrow> request \<Rightarrow> bool" where
  "follows wa gb p r \<longleftrightarrow> history gb p \<noteq> [] \<and>
     (\<exists>segs. length segs = nat (g_query wa) \<and> block_keys r = history gb p @ extend_chain (last (history gb p)) segs)"

definition dialogue_ok :: "workload_args \<Rightarrow> int \<Rightarrow> string \<Rightarrow> turn list \<Rightarrow> bool" where
  "dialogue_ok wa gb rank turns \<longleftrightarrow>
     int (length turns) \<le> max 1 (g_max_turns wa) \<and> successively (follows wa gb) (map tn_request turns) \<and>
     (\<forall>t \<in> set turns. addressed wa (tn_request t) \<and> conversation (tn_request t) = rank)"

lemma successively_snoc:
  "successively P (xs @ [x]) \<longleftrightarrow> successively P xs \<and> (xs \<noteq> [] \<longrightarrow> P (last xs) x)"
  by (auto simp: successively_append_iff)

lemma py_range_length [simp]: "length (py_range a b) = nat (b - a)"
  by (simp add: py_range_def)

lemma last_py_range: "0 < q \<Longrightarrow> last (py_range a (a + q)) = a + q - 1 \<and> py_range a (a + q) \<noteq> []"
  by (simp add: py_range_def upto_rec2)

lemma turn_keys_shape:
  assumes "turn_keys wa gb leads (py_range fresh (fresh + g_query wa)) turns = Inr keys"
    and "dialogue_ok wa gb rank turns"
  shows "key_chain keys"
    and "turns \<noteq> [] \<Longrightarrow> history gb (tn_request (last turns)) \<noteq> [] \<and> (\<exists>segs. length segs = nat (g_query wa) \<and>
      keys = history gb (tn_request (last turns)) @ extend_chain (last (history gb (tn_request (last turns)))) segs)"
    and "0 < g_query wa \<Longrightarrow> \<exists>p. last keys = p @ ''|'' @ str_int (fresh + g_query wa - 1)"
    and "0 < g_query wa \<Longrightarrow> keys \<noteq> []"
proof -
  let ?q = "py_range fresh (fresh + g_query wa)" and ?h = "history gb (tn_request (last turns))"
  have keys: "turns = [] \<Longrightarrow> keys = extend_chain (g_model wa) (leads @ ?q)"
    "turns \<noteq> [] \<Longrightarrow> ?h \<noteq> [] \<and> keys = ?h @ extend_chain (last ?h) ?q"
    using assms(1) by (auto simp: turn_keys_def history_def Let_def split: if_splits)
  have len: "length ?q = nat (g_query wa)" by simp
  show "key_chain keys"
  proof (cases "turns = []")
    case True
    with keys(1) extend_key_chain [of "g_model wa" "leads @ ?q"] show ?thesis by simp
  next
    case False
    then have "key_chain (block_keys (tn_request (last turns)))"
      using assms(2) by (simp add: dialogue_ok_def addressed_def)
    from history_chain [OF this, of gb] keys(2) [OF False] extend_key_chain [of "last ?h" ?q]
    show ?thesis by (auto intro: key_chain_append)
  qed
  show "?h \<noteq> [] \<and> (\<exists>segs. length segs = nat (g_query wa) \<and> keys = ?h @ extend_chain (last ?h) segs)"
    if "turns \<noteq> []"
    using keys(2) [OF that] len by blast
  show "\<exists>p. last keys = p @ ''|'' @ str_int (fresh + g_query wa - 1)" "keys \<noteq> []" if q: "0 < g_query wa"
  proof -
    have ne: "extend_chain acc ?q \<noteq> []" for acc
      using last_py_range [OF q, of fresh] by simp
    have tail: "\<exists>acc front. keys = front @ extend_chain acc ?q"
    proof (cases "turns = []")
      case True
      then show ?thesis unfolding keys(1) [OF True] extend_chain_append by blast
    next
      case False
      then show ?thesis using keys(2) by blast
    qed
    from last_py_range [OF q, of fresh] last_extend_chain [of ?q]
    have "\<exists>p. last (extend_chain acc ?q) = p @ ''|'' @ str_int (fresh + g_query wa - 1)" for acc by metis
    with tail ne show "\<exists>p. last keys = p @ ''|'' @ str_int (fresh + g_query wa - 1)" "keys \<noteq> []"
      by (metis append_is_Nil_conv last_appendR, metis append_is_Nil_conv)
  qed
qed

subsection \<open>Every turn the loop takes\<close>

abbreviation rid :: "nat \<Rightarrow> string" where
  "rid i \<equiv> ''r'' @ str_nat i"

definition requests_of :: "dialogue list \<Rightarrow> request list" where
  "requests_of ds = concat (map (\<lambda>d. map tn_request (dl_turns d)) ds)"

lemma dialogue_for_cases:
  assumes "dialogue_for wa rnd rate c b = Inr (b1, d)"
  obtains (same) "b1 = b" "map_of (bd_active b) c = Some d"
      "int (length (dl_turns (bd_built b ! d))) < g_max_turns wa"
  | (opened) new where "bd_built b1 = bd_built b @ [new]" "d = length (bd_built b)" "dl_turns new = []"
      "bd_fresh b1 = bd_fresh b" "bd_active b1 = AList.update c d (bd_active b)"
      "bd_started b1 = (bd_started b)[c := bd_started b ! c + 1]"
      "case map_of (bd_active b) c of None \<Rightarrow> True
       | Some e \<Rightarrow> g_max_turns wa \<le> int (length (dl_turns (bd_built b ! e)))"
  using assms
  by (auto simp: dialogue_for_def open_dialogue_def dialogue_init_def Let_def res_simps split: option.splits if_splits)

lemma take_turn_cases:
  assumes "take_turn wa rnd numel rate gb leads i c b = Inr b'"
  obtains b1 d keys think planned req where "dialogue_for wa rnd rate c b = Inr (b1, d)"
    "turn_keys wa gb (leads ! c) (py_range (bd_fresh b1) (bd_fresh b1 + g_query wa)) (dl_turns (bd_built b1 ! d)) = Inr keys"
    "req_id req = rid i" "block_keys req = keys" "prompt_tokens req = int (length keys) * g_block_tokens wa"
    "output_tokens req = g_output wa" "prompt_numel req = prompt_tokens req"
    "conversation req = dl_rank (bd_built b1 ! d)"
    "bd_fresh b' = bd_fresh b1 + g_query wa" "bd_active b' = bd_active b1" "bd_started b' = bd_started b1"
    "bd_built b' = (bd_built b1)[d := (bd_built b1 ! d)\<lparr>dl_planned := planned,
       dl_turns := dl_turns (bd_built b1 ! d) @ [\<lparr>tn_request = req, tn_think = think\<rparr>]\<rparr>]"
proof -
  note q = that
  from assms obtain b1 d keys think g n req where d: "dialogue_for wa rnd rate c b = Inr (b1, d)"
    "turn_keys wa gb (leads ! c) (py_range (bd_fresh b1) (bd_fresh b1 + g_query wa)) (dl_turns (bd_built b1 ! d)) = Inr keys"
    and req: "check_request \<lparr>req_id = rid i, arrival = dl_planned (bd_built b1 ! d) + think, block_keys = keys,
      prompt_tokens = int (length keys) * g_block_tokens wa, output_tokens = g_output wa, prompt_numel = n,
      conversation = dl_rank (bd_built b1 ! d)\<rparr> = Inr req"
    and b': "b' = b1\<lparr>bd_rng := g, bd_fresh := bd_fresh b1 + g_query wa,
      bd_built := (bd_built b1)[d := (bd_built b1 ! d)\<lparr>dl_planned := dl_planned (bd_built b1 ! d) + think,
        dl_turns := dl_turns (bd_built b1 ! d) @ [\<lparr>tn_request = req, tn_think = think\<rparr>]\<rparr>]\<rparr>"
    by (auto simp: take_turn_def Let_def res_simps split: prod.splits)
  show ?thesis
    by (rule q [OF d, of req think "dl_planned (bd_built b1 ! d) + think"])
      (use req in \<open>auto simp: b' check_request_def split: if_splits\<close>)
qed

definition stream_ok :: "workload_args \<Rightarrow> int \<Rightarrow> int \<Rightarrow> nat \<Rightarrow> 'g building \<Rightarrow> bool" where
  "stream_ok wa gb fresh i b \<longleftrightarrow>
     (\<forall>d \<in> set (bd_built b). dl_turns d \<noteq> [] \<and> dialogue_ok wa gb (dl_rank d) (dl_turns d)) \<and>
     (\<forall>c d. map_of (bd_active b) c = Some d \<longrightarrow> d < length (bd_built b)) \<and>
     bd_fresh b = fresh + int i * g_query wa \<and>
     mset (map req_id (requests_of (bd_built b))) = mset (map rid [0..<i]) \<and>
     (0 < g_query wa \<longrightarrow> (\<forall>r \<in> set (requests_of (bd_built b)). \<exists>j p.
        req_id r = rid j \<and> chain_end r = p @ ''|'' @ str_int (fresh + (int j + 1) * g_query wa - 1)))"

lemma mset_requests_update:
  assumes "d < length ds"
  shows "mset (requests_of (ds[d := (ds ! d)\<lparr>dl_planned := p, dl_turns := dl_turns (ds ! d) @ [t]\<rparr>])) =
    add_mset (tn_request t) (mset (requests_of ds))"
  using assms
proof (induction ds arbitrary: d)
  case (Cons e ds)
  then show ?case by (cases d) (simp_all add: requests_of_def)
qed simp

lemma requests_of_snoc: "requests_of (ds @ [new]) = requests_of ds @ map tn_request (dl_turns new)"
  by (simp add: requests_of_def)

lemma stream_ok_step:
  assumes ok: "stream_ok wa gb fresh i b" and step: "take_turn wa rnd numel rate gb leads i c b = Inr b'"
  shows "stream_ok wa gb fresh (Suc i) b'"
proof -
  from step obtain b1 d keys think planned req where found: "dialogue_for wa rnd rate c b = Inr (b1, d)"
    and ks: "turn_keys wa gb (leads ! c) (py_range (bd_fresh b1) (bd_fresh b1 + g_query wa)) (dl_turns (bd_built b1 ! d)) = Inr keys"
    and req: "req_id req = rid i" "block_keys req = keys" "prompt_tokens req = int (length keys) * g_block_tokens wa"
    "output_tokens req = g_output wa" "prompt_numel req = prompt_tokens req"
    "conversation req = dl_rank (bd_built b1 ! d)"
    and b': "bd_fresh b' = bd_fresh b1 + g_query wa" "bd_active b' = bd_active b1"
    "bd_built b' = (bd_built b1)[d := (bd_built b1 ! d)\<lparr>dl_planned := planned,
       dl_turns := dl_turns (bd_built b1 ! d) @ [\<lparr>tn_request = req, tn_think = think\<rparr>]\<rparr>]"
    by (rule take_turn_cases)
  define old where "old = dl_turns (bd_built b1 ! d)"
  note ok = ok [unfolded stream_ok_def]
  have b1: "d < length (bd_built b1)" "dialogue_ok wa gb (dl_rank (bd_built b1 ! d)) old"
    "int (length old) < max 1 (g_max_turns wa)"
    "\<forall>e < length (bd_built b1). e \<noteq> d \<longrightarrow> bd_built b1 ! e \<in> set (bd_built b)"
    "\<forall>c e. map_of (bd_active b1) c = Some e \<longrightarrow> e < length (bd_built b1)"
    "bd_fresh b1 = fresh + int i * g_query wa" "requests_of (bd_built b1) = requests_of (bd_built b)"
    using found
    by (cases rule: dialogue_for_cases; use ok in \<open>force simp: old_def dialogue_ok_def nth_append requests_of_snoc
          AList.update_conv' split: if_splits\<close>)+
  let ?turns = "old @ [\<lparr>tn_request = req, tn_think = think\<rparr>]"
  note keys = turn_keys_shape [OF ks [folded old_def] b1(2)]
  have "addressed wa req" using req keys(1) by (simp add: addressed_def)
  moreover have "follows wa gb (tn_request (last old)) req" if "old \<noteq> []"
    using keys(2) [OF that] req(2) by (auto simp: follows_def)
  ultimately have turns: "dialogue_ok wa gb (dl_rank (bd_built b1 ! d)) ?turns"
    using b1(2,3) req(6) by (auto simp: dialogue_ok_def successively_snoc last_map)
  have built: "bd_built b' = (bd_built b1)[d := (bd_built b1 ! d)\<lparr>dl_planned := planned, dl_turns := ?turns\<rparr>]"
    by (simp add: b'(3) old_def)
  have "dl_turns e \<noteq> [] \<and> dialogue_ok wa gb (dl_rank e) (dl_turns e)" if "e \<in> set (bd_built b')" for e
  proof -
    from that obtain j where j: "j < length (bd_built b1)" "e = bd_built b' ! j"
      by (auto simp: in_set_conv_nth built)
    show ?thesis
    proof (cases "j = d")
      case True
      with j turns show ?thesis by (simp add: built)
    next
      case False
      with j b1(4) ok show ?thesis by (simp add: built)
    qed
  qed
  moreover have reqs: "mset (requests_of (bd_built b')) = add_mset req (mset (requests_of (bd_built b)))"
    using mset_requests_update [OF b1(1)] b1(7) by (simp add: b'(3))
  then have "mset (map req_id (requests_of (bd_built b'))) = mset (map rid [0..<Suc i])"
    using ok req(1) by simp
  moreover have "\<exists>j p. req_id r = rid j \<and> chain_end r = p @ ''|'' @ str_int (fresh + (int j + 1) * g_query wa - 1)"
    if "0 < g_query wa" "r \<in> set (requests_of (bd_built b'))" for r
  proof -
    from that(2) reqs consider "r = req" | "r \<in> set (requests_of (bd_built b))"
      by (metis insert_iff set_mset_add_mset_insert set_mset_mset)
    then show ?thesis
    proof cases
      case 1
      from keys(3,4) [OF that(1)] obtain p where
        "chain_end req = p @ ''|'' @ str_int (bd_fresh b1 + g_query wa - 1)"
        by (auto simp: chain_end_def req(2))
      then show ?thesis using 1 req(1) b1(6) by (auto simp: algebra_simps)
    qed (use ok that(1) in blast)
  qed
  ultimately show ?thesis
    unfolding stream_ok_def using b1(1,5,6) b'(1,2) by (auto simp: built algebra_simps)
qed

lemma take_turns_ok:
  "stream_ok wa gb fresh i b \<Longrightarrow> take_turns (take_turn wa rnd numel rate gb leads) i cs b = Inr b' \<Longrightarrow>
     stream_ok wa gb fresh (i + length cs) b'"
proof (induction cs arbitrary: i b)
  case (Cons c cs)
  then obtain b1 where b1: "take_turn wa rnd numel rate gb leads i c b = Inr b1"
    "take_turns (take_turn wa rnd numel rate gb leads) (Suc i) cs b1 = Inr b'" by (auto simp: res_simps)
  from Cons.IH [OF stream_ok_step [OF Cons.prems(1) b1(1)] b1(2)] show ?case by simp
qed simp

subsection \<open>How many dialogues there are\<close>

text \<open>
  After the turns \<open>done\<close>: every rank's dialogues but its active one are full, and the active one
  holds the rest of what the rank drew.
\<close>

definition rank_ok :: "nat \<Rightarrow> nat list \<Rightarrow> 'g building \<Rightarrow> nat \<Rightarrow> bool" where
  "rank_ok cap past b c \<longleftrightarrow>
     (case map_of (bd_active b) c of
        None \<Rightarrow> bd_started b ! c = 0 \<and> count_list past c = 0
      | Some d \<Rightarrow> d < length (bd_built b) \<and> 0 < bd_started b ! c \<and>
          0 < length (dl_turns (bd_built b ! d)) \<and> length (dl_turns (bd_built b ! d)) \<le> cap \<and>
          count_list past c + cap = bd_started b ! c * cap + length (dl_turns (bd_built b ! d)))"

definition count_ok :: "nat \<Rightarrow> nat \<Rightarrow> nat list \<Rightarrow> 'g building \<Rightarrow> bool" where
  "count_ok cap nc past b \<longleftrightarrow> length (bd_started b) = nc \<and> length (bd_built b) = sum_list (bd_started b) \<and>
     (\<forall>c < nc. rank_ok cap past b c) \<and>
     (\<forall>c c' d. map_of (bd_active b) c = Some d \<longrightarrow> map_of (bd_active b) c' = Some d \<longrightarrow> c = c')"

lemma sum_list_bump: "c < length xs \<Longrightarrow> sum_list (xs[c := Suc (xs ! c)]) = Suc (sum_list xs)"
  by (induction xs arbitrary: c) (auto simp: nth_Cons split: nat.splits)

lemma count_ok_step:
  assumes ok: "count_ok cap nc past b" and cap: "g_max_turns wa = int cap" "0 < cap" and c: "c < nc"
    and step: "take_turn wa rnd numel rate gb leads i c b = Inr b'"
    and range: "\<forall>c d. map_of (bd_active b) c = Some d \<longrightarrow> d < length (bd_built b)"
  shows "count_ok cap nc (past @ [c]) b'"
proof -
  from step obtain b1 d planned req think where found: "dialogue_for wa rnd rate c b = Inr (b1, d)"
    and b': "bd_active b' = bd_active b1" "bd_started b' = bd_started b1"
    "bd_built b' = (bd_built b1)[d := (bd_built b1 ! d)\<lparr>dl_planned := planned,
       dl_turns := dl_turns (bd_built b1 ! d) @ [\<lparr>tn_request = req, tn_think = think\<rparr>]\<rparr>]"
    by (rule take_turn_cases)
  note ok = ok [unfolded count_ok_def]
  have mine: "rank_ok cap past b c" using ok c by blast
  show ?thesis
    using found
  proof (cases rule: dialogue_for_cases)
    case same
    have "rank_ok cap (past @ [c]) b' e" if "e < nc" for e
    proof (cases "e = c")
      case True
      with mine same cap show ?thesis by (auto simp: rank_ok_def b')
    next
      case False
      with ok that same(2) have "rank_ok cap past b e" "map_of (bd_active b) e \<noteq> Some d" by blast+
      with False same(1) show ?thesis by (auto simp: rank_ok_def b' split: option.splits)
    qed
    with ok same(1) show ?thesis by (simp add: count_ok_def b')
  next
    case (opened new)
    have full: "count_list past c = bd_started b ! c * cap"
      using mine opened(7) cap by (auto simp: rank_ok_def split: option.splits)
    have "rank_ok cap (past @ [c]) b' e" if "e < nc" for e
    proof (cases "e = c")
      case True
      have "c < length (bd_started b)" using ok c by simp
      with True full opened cap show ?thesis by (simp add: rank_ok_def b' AList.update_conv')
    next
      case False
      with ok that have "rank_ok cap past b e" by blast
      with False opened range show ?thesis
        by (auto simp: rank_ok_def b' AList.update_conv' nth_append less_SucI split: option.splits)
    qed
    moreover have "length (bd_built b') = sum_list (bd_started b')"
      using ok c opened by (simp add: b' sum_list_bump)
    moreover have "e = e'" if "map_of (bd_active b') e = Some x" "map_of (bd_active b') e' = Some x" for e e' x
      using that ok range opened(2,5) by (auto simp: b' AList.update_conv' split: if_splits)
    ultimately show ?thesis using ok opened(6) by (simp add: count_ok_def b')
  qed
qed

lemma take_turns_count:
  "count_ok cap nc past b \<Longrightarrow> stream_ok wa gb fresh i b \<Longrightarrow> g_max_turns wa = int cap \<Longrightarrow> 0 < cap \<Longrightarrow>
     set cs \<subseteq> {..<nc} \<Longrightarrow> take_turns (take_turn wa rnd numel rate gb leads) i cs b = Inr b' \<Longrightarrow>
     count_ok cap nc (past @ cs) b'"
proof (induction cs arbitrary: i b past)
  case (Cons c cs)
  then obtain b1 where b1: "take_turn wa rnd numel rate gb leads i c b = Inr b1"
    "take_turns (take_turn wa rnd numel rate gb leads) (Suc i) cs b1 = Inr b'" by (auto simp: res_simps)
  have "count_ok cap nc (past @ [c]) b1"
    using Cons.prems by (intro count_ok_step [OF _ _ _ _ b1(1)]) (auto simp: stream_ok_def)
  from Cons.IH [OF this stream_ok_step [OF Cons.prems(2) b1(1)] _ _ _ b1(2)] Cons.prems show ?case by simp
qed simp

lemma started_ceiling:
  assumes "rank_ok cap past b c" "0 < cap"
  shows "int (bd_started b ! c) = - ((- int (count_list past c)) div int cap)"
proof (cases "map_of (bd_active b) c")
  case None
  with assms(1) show ?thesis by (simp add: rank_ok_def)
next
  case (Some d)
  define k s l where "k = int (count_list past c)" and "s = int (bd_started b ! c)"
    and "l = int (length (dl_turns (bd_built b ! d)))"
  have "k + int cap = s * int cap + l" "0 < l" "l \<le> int cap"
    using assms(1) Some unfolding k_def s_def l_def rank_ok_def
    by (simp_all flip: of_nat_add of_nat_mult)
  then have "- k = (- s) * int cap + (int cap - l)" "0 \<le> int cap - l" "int cap - l < int cap" by (simp_all add: algebra_simps)
  then have "(- k) div int cap = - s" using assms(2)
    by (metis div_mult_self3 add.right_neutral div_pos_pos_trivial of_nat_0_less_iff less_numeral_extra(3) of_nat_eq_0_iff mult.commute add.commute)
  then show ?thesis by (simp add: k_def s_def)
qed

subsection \<open>The stream\<close>

lemma draw_ranks_length: "length (fst (draw_ranks rnd ws n g)) = n"
  by (induction n arbitrary: g) (simp_all split: prod.splits, metis fst_conv)

lemma tally_counts:
  "tally cs counts = Inr counts' \<Longrightarrow>
     set cs \<subseteq> {..<length counts} \<and> counts' = map (\<lambda>c. counts ! c + count_list cs c) [0..<length counts]"
proof (induction cs arbitrary: counts)
  case Nil
  then show ?case by (simp add: map_nth)
next
  case (Cons c cs)
  then have c: "c < length counts" "tally cs (counts[c := counts ! c + 1]) = Inr counts'" by (auto split: if_splits)
  from Cons.IH [OF this(2)] c(1) show ?case by (auto simp: nth_list_update)
qed

lemma make_workload_cases:
  assumes "make_workload element_size numel rnd wa g = Inr convs"
  obtains geometry leads fresh g1 rate b b0 where
    "acc_init element_size DEFAULT_PROFILE DEFAULT_MODEL (g_block_tokens wa) = Inr geometry"
    "g_block_tokens wa \<noteq> 0"
    "b0 = \<lparr>bd_rng = g1, bd_fresh = fresh, bd_built = [], bd_active = [],
       bd_started = List.replicate (nat (g_conversations wa)) 0, bd_t = 0\<rparr>"
    "set (fst (draw_ranks rnd (zipf_weights (g_conversations wa) (g_zipf wa)) (nat (g_requests wa)) g))
       \<subseteq> {..<nat (g_conversations wa)}"
    "take_turns (take_turn wa rnd numel rate (blocks_for (max (g_output wa - 1) 0) geometry) leads) 0
       (fst (draw_ranks rnd (zipf_weights (g_conversations wa) (g_zipf wa)) (nat (g_requests wa)) g)) b0 = Inr b"
    "convs = sort_key (\<lambda>c. (cv_arrival c, cv_id c)) (map freeze (bd_built b))"
proof -
  note q = that
  from assms show ?thesis
    by (auto simp: make_workload_def Let_def res_simps split: prod.splits if_splits dest!: tally_counts
        intro!: q [OF _ _ refl])
qed

text \<open>How many blocks of KV a turn's generation leaves behind: the accelerator's answer.\<close>

definition output_blocks :: "workload_args \<Rightarrow> int" where
  "output_blocks wa = max 0 (- ((- max (g_output wa - 1) 0) div g_block_tokens wa))"

lemma int_sum_list: "int (sum_list xs) = sum_list (map int xs)"
  by (induction xs) simp_all

lemma workload_stream:
  fixes g :: 'g
  assumes "make_workload element_size numel rnd wa g = Inr convs"
  obtains b :: "'g building" and fresh where
    "stream_ok wa (output_blocks wa) fresh (nat (g_requests wa)) b"
    "convs = sort_key (\<lambda>c. (cv_arrival c, cv_id c)) (map freeze (bd_built b))"
    "0 < g_max_turns wa \<Longrightarrow> int (length (bd_built b)) = dialogues_of (g_max_turns wa)
       (map (count_list (fst (draw_ranks rnd (zipf_weights (g_conversations wa) (g_zipf wa)) (nat (g_requests wa)) g)))
         [0..<nat (g_conversations wa)])"
  using assms
proof (rule make_workload_cases)
  fix geometry leads fresh g1 rate b b0
  let ?cs = "fst (draw_ranks rnd (zipf_weights (g_conversations wa) (g_zipf wa)) (nat (g_requests wa)) g)"
  let ?nc = "nat (g_conversations wa)"
  assume acc: "acc_init element_size DEFAULT_PROFILE DEFAULT_MODEL (g_block_tokens wa) = Inr geometry"
    and b0: "b0 = \<lparr>bd_rng = g1, bd_fresh = fresh, bd_built = [], bd_active = [],
       bd_started = List.replicate ?nc 0, bd_t = 0\<rparr>"
    and ranks: "set ?cs \<subseteq> {..<?nc}"
    and run: "take_turns (take_turn wa rnd numel rate (blocks_for (max (g_output wa - 1) 0) geometry) leads) 0 ?cs b0 = Inr b"
    and convs: "convs = sort_key (\<lambda>c. (cv_arrival c, cv_id c)) (map freeze (bd_built b))"
  have gb: "blocks_for (max (g_output wa - 1) 0) geometry = output_blocks wa"
    using acc by (auto simp: acc_init_def blocks_for_def output_blocks_def Let_def split: option.splits if_splits)
  have start: "stream_ok wa (output_blocks wa) fresh 0 b0" by (simp add: b0 stream_ok_def requests_of_def)
  from take_turns_ok [OF start run [unfolded gb]]
  have "stream_ok wa (output_blocks wa) fresh (nat (g_requests wa)) b" by (simp add: draw_ranks_length)
  moreover have "int (length (bd_built b)) = dialogues_of (g_max_turns wa) (map (count_list ?cs) [0..<?nc])"
    if cap: "0 < g_max_turns wa"
  proof -
    define cap where "cap = nat (g_max_turns wa)"
    have m: "g_max_turns wa = int cap" "0 < cap" using cap by (simp_all add: cap_def)
    have "count_ok cap ?nc [] b0" by (simp add: count_ok_def rank_ok_def b0 sum_list_replicate)
    from take_turns_count [OF this start m ranks run [unfolded gb]]
    have final: "length (bd_started b) = ?nc" "length (bd_built b) = sum_list (bd_started b)"
      "\<And>c. c < ?nc \<Longrightarrow> rank_ok cap ?cs b c" by (auto simp: count_ok_def)
    have "map int (bd_started b) = map (\<lambda>c. - ((- int (count_list ?cs c)) div int cap)) [0..<?nc]"
      using final(1) started_ceiling [OF final(3) m(2)] by (intro nth_equalityI) simp_all
    then have "int (sum_list (bd_started b)) = (\<Sum>c\<leftarrow>[0..<?nc]. - ((- int (count_list ?cs c)) div int cap))"
      by (metis int_sum_list)
    then show ?thesis by (simp add: final(2) dialogues_of_def m(1) o_def)
  qed
  ultimately show thesis using that convs by blast
qed

subsection \<open>Numbers in keys\<close>

lemma after_last_bar:
  assumes "CHR ''|'' \<notin> set s" "CHR ''|'' \<notin> set s'" "p @ ''|'' @ s = p' @ ''|'' @ s'"
  shows "s = s'"
proof -
  have tail: "rev (takeWhile (\<lambda>c. c \<noteq> CHR ''|'') (rev (q @ ''|'' @ u))) = u" if "CHR ''|'' \<notin> set u" for q u
    using that by (auto simp: takeWhile_append)
  show ?thesis using tail [OF assms(1), of p] tail [OF assms(2), of p'] unfolding assms(3) by simp
qed

text \<open>The generated suffix of length \<open>n\<close>: what the \<open>n\<close>-th generated key adds to the chain's end.\<close>

definition generated_suffix :: "nat \<Rightarrow> nat \<Rightarrow> string" where
  "generated_suffix i n = concat (map (\<lambda>k. ''|g'' @ str_nat k) [i..<i + n])"

lemma continue_from_suffix:
  "k \<in> set (continue_from acc i n) \<Longrightarrow> \<exists>j. k = acc @ generated_suffix i (Suc j)"
proof (induction n arbitrary: acc i)
  case (Suc n)
  let ?acc = "acc @ ''|g'' @ str_nat i"
  from Suc.prems consider "k = ?acc" | "k \<in> set (continue_from ?acc (Suc i) n)" by (auto simp: Let_def)
  then show ?case
  proof cases
    case 1
    then show ?thesis by (intro exI [of _ 0]) (simp add: generated_suffix_def)
  next
    case 2
    then obtain j where "k = ?acc @ generated_suffix (Suc i) (Suc j)" using Suc.IH by blast
    moreover have "generated_suffix i (Suc (Suc j)) = ''|g'' @ str_nat i @ generated_suffix (Suc i) (Suc j)"
      by (simp add: generated_suffix_def upt_conv_Cons del: upt_Suc)
    ultimately show ?thesis by (intro exI [of _ "Suc j"]) simp
  qed
qed simp

lemma generated_suffix_last: "\<exists>p. generated_suffix i (Suc j) = p @ ''|'' @ (CHR ''g'' # str_nat (i + j))"
  by (simp add: generated_suffix_def)

lemma generated_keys_split:
  assumes "acc @ generated_suffix 1 (Suc j) = acc' @ generated_suffix 1 (Suc j')"
  shows "acc = acc'"
proof -
  obtain p p' where "generated_suffix 1 (Suc j) = p @ ''|'' @ (CHR ''g'' # str_nat (1 + j))"
    "generated_suffix 1 (Suc j') = p' @ ''|'' @ (CHR ''g'' # str_nat (1 + j'))"
    using generated_suffix_last by metis
  with assms have "(acc @ p) @ ''|'' @ (CHR ''g'' # str_nat (1 + j)) = (acc' @ p') @ ''|'' @ (CHR ''g'' # str_nat (1 + j'))"
    by simp
  from after_last_bar [OF _ _ this] no_bar(1) have "str_nat (1 + j) = str_nat (1 + j')" by auto
  then have "j = j'" using str_nat_inj by fastforce
  with assms show ?thesis by simp
qed

subsection \<open>What the stream offers\<close>

lemma stream_requests:
  "mset (concat (map conversation_requests (sort_key f (map freeze ds)))) = mset (requests_of ds)"
proof -
  have "conversation_requests (freeze d) = map tn_request (dl_turns d)" for d
    by (simp add: conversation_requests_def freeze_def)
  then show ?thesis
    by (simp add: mset_concat requests_of_def o_def flip: sum_mset_sum_list)
      (simp add: sum_mset_sum_list [symmetric] image_mset.compositionality o_def)
qed

text \<open>C23: every conversation the generator makes is a dialogue a store can serve: never empty, never
  longer than the cap, and each turn's chain is the whole of the previous turn's, then exactly the
  keys the decode host publishes that turn's output under, then a fresh message; and every request
  has one key per block of its prompt, each key properly extending the ones before it.\<close>

theorem conversations_grow:
  fixes g :: 'g
  assumes "make_workload element_size numel rnd wa g = Inr convs" and "c \<in> set convs"
  shows "conversation_requests c \<noteq> [] \<and> int (length (conversation_requests c)) \<le> max 1 (g_max_turns wa) \<and>
    successively (follows wa (output_blocks wa)) (conversation_requests c) \<and>
    (\<forall>r \<in> set (conversation_requests c). addressed wa r)"
proof -
  from workload_stream [OF assms(1)] obtain b :: "'g building" and fresh where
    "stream_ok wa (output_blocks wa) fresh (nat (g_requests wa)) b"
    "convs = sort_key (\<lambda>c. (cv_arrival c, cv_id c)) (map freeze (bd_built b))" by blast
  with assms(2) obtain d where "c = freeze d" "dl_turns d \<noteq> []" "dialogue_ok wa (output_blocks wa) (dl_rank d) (dl_turns d)"
    by (auto simp: stream_ok_def)
  then show ?thesis by (auto simp: dialogue_ok_def conversation_requests_def freeze_def)
qed

text \<open>The stream offers exactly the requests asked for, \<open>r0\<close>, \<open>r1\<close>, ..., each in one turn of one
  conversation; it starts as many conversations as the arrival rate was computed for; and it is
  sorted by arrival, then id.\<close>

theorem each_request_offered_once:
  fixes g :: 'g
  assumes "make_workload element_size numel rnd wa g = Inr convs"
  shows "mset (map req_id (concat (map conversation_requests convs))) = mset (map rid [0..<nat (g_requests wa)]) \<and>
    distinct (map rid [0..<nat (g_requests wa)]) \<and> sorted (map (\<lambda>c. (cv_arrival c, cv_id c)) convs) \<and>
    (0 < g_max_turns wa \<longrightarrow> int (length convs) = dialogues_of (g_max_turns wa)
       (map (count_list (fst (draw_ranks rnd (zipf_weights (g_conversations wa) (g_zipf wa)) (nat (g_requests wa)) g)))
         [0..<nat (g_conversations wa)]))"
proof -
  from workload_stream [OF assms] obtain b :: "'g building" and fresh where
    ok: "stream_ok wa (output_blocks wa) fresh (nat (g_requests wa)) b"
    and convs: "convs = sort_key (\<lambda>c. (cv_arrival c, cv_id c)) (map freeze (bd_built b))"
    and len: "0 < g_max_turns wa \<Longrightarrow> int (length (bd_built b)) = dialogues_of (g_max_turns wa)
       (map (count_list (fst (draw_ranks rnd (zipf_weights (g_conversations wa) (g_zipf wa)) (nat (g_requests wa)) g)))
         [0..<nat (g_conversations wa)])" by blast
  have "mset (map req_id (concat (map conversation_requests convs))) = mset (map rid [0..<nat (g_requests wa)])"
    using ok stream_requests [of "\<lambda>c. (cv_arrival c, cv_id c)" "bd_built b"]
    by (simp add: convs stream_ok_def)
  moreover have "distinct (map rid [0..<nat (g_requests wa)])"
    by (simp add: distinct_map inj_on_def) (blast dest: str_nat_inj)
  ultimately show ?thesis using len by (simp add: convs)
qed

text \<open>C24: with a message in every turn, two requests of the stream never generate the same key: what
  one publishes of its output is never found under another's, as deep as either goes.\<close>

theorem generated_keys_never_collide:
  fixes g :: 'g
  assumes "make_workload element_size numel rnd wa g = Inr convs" and "0 < g_query wa"
    and "r \<in> set (concat (map conversation_requests convs))"
    and "r' \<in> set (concat (map conversation_requests convs))" and "req_id r \<noteq> req_id r'"
  shows "set (continuation_keys r n) \<inter> set (continuation_keys r' m) = {}"
proof -
  from workload_stream [OF assms(1)] obtain b :: "'g building" and fresh where
    ok: "stream_ok wa (output_blocks wa) fresh (nat (g_requests wa)) b"
    and convs: "convs = sort_key (\<lambda>c. (cv_arrival c, cv_id c)) (map freeze (bd_built b))" by blast
  have ends: "\<exists>j p. req_id q = rid j \<and> chain_end q = p @ ''|'' @ str_int (fresh + (int j + 1) * g_query wa - 1)"
    if "q \<in> set (concat (map conversation_requests convs))" for q
    using ok that assms(2) stream_requests [of "\<lambda>c. (cv_arrival c, cv_id c)" "bd_built b"]
    unfolding stream_ok_def convs by (metis set_mset_mset)
  from ends [OF assms(3)] ends [OF assms(4)] obtain j p j' p' where
    r: "req_id r = rid j" "chain_end r = p @ ''|'' @ str_int (fresh + (int j + 1) * g_query wa - 1)"
    "req_id r' = rid j'" "chain_end r' = p' @ ''|'' @ str_int (fresh + (int j' + 1) * g_query wa - 1)" by metis
  have "chain_end r \<noteq> chain_end r'"
  proof
    assume "chain_end r = chain_end r'"
    then have "str_int (fresh + (int j + 1) * g_query wa - 1) = str_int (fresh + (int j' + 1) * g_query wa - 1)"
      unfolding r(2,4) by (rule after_last_bar [OF no_bar(2) no_bar(2)])
    then have "(int j + 1) * g_query wa = (int j' + 1) * g_query wa" by (auto dest: str_int_inj)
    with assms(2) have "j = j'" by simp
    with r assms(5) show False by simp
  qed
  moreover have "chain_end r = chain_end r'"
    if "k \<in> set (continuation_keys r n)" "k \<in> set (continuation_keys r' m)" for k
  proof -
    from that obtain i i' where "k = chain_end r @ generated_suffix 1 (Suc i)" "k = chain_end r' @ generated_suffix 1 (Suc i')"
      unfolding continuation_keys_def using continue_from_suffix by blast
    then have "chain_end r @ generated_suffix 1 (Suc i) = chain_end r' @ generated_suffix 1 (Suc i')" by simp
    then show ?thesis by (rule generated_keys_split)
  qed
  ultimately show ?thesis by blast
qed

subsection \<open>A stream worked through\<close>

text \<open>One rank, two turns of one dialogue; every draw is the generator's least.\<close>

definition least_draw :: "unit \<Rightarrow> real \<times> unit" where
  "least_draw g = (0, ())"

definition two_turns :: workload_args where
  "two_turns = \<lparr>g_requests = 2, g_conversations = 1, g_system = 1, g_base = 1, g_query = 1, g_zipf = 0,
     g_rate = 1, g_block_tokens = 16, g_output = 17, g_max_turns = 2, g_think = 0, g_model = ''m''\<rparr>"

definition first_turn :: request where
  "first_turn = \<lparr>req_id = ''r0'', arrival = 0, block_keys = [''m|0'', ''m|0|1000'', ''m|0|1000|1001''],
     prompt_tokens = 48, output_tokens = 17, prompt_numel = 48, conversation = ''c0''\<rparr>"

definition second_turn :: request where
  "second_turn = \<lparr>req_id = ''r1'', arrival = 0, block_keys = [''m|0'', ''m|0|1000'', ''m|0|1000|1001'',
     ''m|0|1000|1001|g1'', ''m|0|1000|1001|g1|1002''], prompt_tokens = 80, output_tokens = 17,
     prompt_numel = 80, conversation = ''c0''\<rparr>"

lemma demo_numbers: "str_nat 0 = ''0''" "str_nat 1 = ''1''" "str_nat (Suc 0) = ''1''" "str_int 0 = ''0''"
  "str_int 1000 = ''1000''" "str_int 1001 = ''1001''" "str_int 1002 = ''1002''"
  by (simp_all add: str_int_def str_nat.simps char_of_def bit_0 flip: bit_Suc numeral_eq_Suc)

lemma two_turns_stream:
  "make_workload (\<lambda>_. Some 1) Inr least_draw two_turns () = Inr [\<lparr>cv_id = ''c0.0'', cv_arrival = 0,
     cv_turns = [\<lparr>tn_request = first_turn, tn_think = 0\<rparr>, \<lparr>tn_request = second_turn, tn_think = 0\<rparr>]\<rparr>]"
proof -
  have bytes: "block_bytes DEFAULT_MODEL 1 16 = 16" by (simp add: block_bytes_def DEFAULT_MODEL_def)
  have draws: "draw_ranks least_draw (zipf_weights 1 0) 2 () = ([0, 0], ())"
    by (simp add: numeral_2_eq_2 sample_def least_draw_def zipf_weights_def)
  have weights: "dialogues_of 2 [2] = 1" by (simp add: dialogues_of_def)
  show ?thesis
    by (simp add: make_workload_def Let_def two_turns_def acc_init_def bytes draws weights openings.simps
        py_range_def take_turn_def dialogue_for_def open_dialogue_def expovariate_def least_draw_def dialogue_init_def
        turn_keys_def turn_think_def check_request_def blocks_for_def demo_numbers continuation_keys_def chain_end_def
        freeze_def first_turn_def second_turn_def numeral_2_eq_2 [symmetric])
qed

lemma conversations_grow_witness:
  "successively (follows two_turns (output_blocks two_turns)) [first_turn, second_turn] \<and>
   addressed two_turns second_turn"
  using conversations_grow [OF two_turns_stream] by (simp add: conversation_requests_def)

lemma each_request_offered_once_witness: "mset [req_id first_turn, req_id second_turn] = mset (map rid [0..<2])"
proof -
  have "nat (g_requests two_turns) = 2" by (simp add: two_turns_def)
  with each_request_offered_once [OF two_turns_stream] show ?thesis by (simp add: conversation_requests_def)
qed

lemma generated_keys_never_collide_witness:
  "set (continuation_keys first_turn 3) \<inter> set (continuation_keys second_turn 5) = {}"
  by (rule generated_keys_never_collide [OF two_turns_stream])
    (simp_all add: two_turns_def conversation_requests_def first_turn_def second_turn_def)

text \<open>A prompt that was built from whole blocks is priced and produced in as many blocks as it has keys.\<close>

lemma addressed_blocks:
  assumes "addressed wa r" "acc_block_tokens a = g_block_tokens wa" "0 < g_block_tokens wa"
  shows "int (length (block_keys r)) = blocks_for (prompt_tokens r) a" "prompt_numel r = prompt_tokens r"
    "0 \<le> prompt_tokens r"
proof -
  have "- (int (length (block_keys r)) * g_block_tokens wa) div g_block_tokens wa = - int (length (block_keys r))"
    using assms(3) by (metis minus_mult_left nonzero_mult_div_cancel_right order_less_irrefl)
  then show "int (length (block_keys r)) = blocks_for (prompt_tokens r) a"
    using assms by (simp add: addressed_def blocks_for_def)
  show "prompt_numel r = prompt_tokens r" "0 \<le> prompt_tokens r" using assms by (simp_all add: addressed_def)
qed

end
