(* ===== verification/ClientFacts.thy ===== *)
theory ClientFacts
  imports Client WorkloadFacts
begin

section \<open>What the caller can count on\<close>

text \<open>
  Facts of \<open>Client\<close>: under the scheduler's decisions a prefill is sent on at most once, however
  many other requests are decided meanwhile, and a conversation leaves one row per turn.
\<close>

subsection \<open>Triples that only look at the world\<close>

definition keeps_world :: "('w serving \<Rightarrow> bool) \<Rightarrow> bool" where
  "keeps_world P \<longleftrightarrow> (\<forall>s s'. world s' = world s \<longrightarrow> P s \<longrightarrow> P s')"

abbreviation anything :: "'a \<Rightarrow> 'w serving \<Rightarrow> bool" where
  "anything \<equiv> \<lambda>_ _. True"

lemma triple_any: "(\<And>x s. Q x s) \<Longrightarrow> triple P m Q anything"
  by (auto simp: triple_def split: prod.splits sum.splits)

lemma triple_trace_world: "keeps_world P \<Longrightarrow> triple P (trace_io ps ev) (\<lambda>_. P) anything"
  by (auto simp: triple_def trace_io_def keeps_world_def)

lemma triple_last: "(\<And>x. triple (\<lambda>_. True) (f x) Q anything) \<Longrightarrow> triple P (then_io m f) Q anything"
  by (rule triple_then [where R = "\<lambda>_ _. True"]) (simp_all add: triple_any)

lemma triple_leg:
  assumes "\<And>dt s. P s \<Longrightarrow> P (s\<lparr>world := sleep dt (world s)\<rparr>)"
  shows "triple P (hop_leg sleep rtt) (\<lambda>_. P) X"
  using assms by (auto simp: hop_leg_def sleep_io_def call_io_def triple_def answer_io_def)

lemma triple_hop:
  assumes "\<And>dt s. P s \<Longrightarrow> P (s\<lparr>world := sleep dt (world s)\<rparr>)"
    "\<And>x dt s. Q x s \<Longrightarrow> Q x (s\<lparr>world := sleep dt (world s)\<rparr>)" "triple P m Q X"
  shows "triple P (hop_call sleep rtt m) Q X"
  unfolding hop_call_def
  by (rule triple_then [OF triple_leg triple_then [OF assms(3) triple_then [OF triple_leg triple_answer]]])
    (simp_all add: assms(1,2))

subsection \<open>A chase that ends\<close>

lemma chase_more:
  "\<forall>h. snd (chase n route call host s) \<noteq> Inr (Inr h) \<Longrightarrow> chase (n + k) route call host s = chase n route call host s"
proof (induction n arbitrary: host s)
  case 0
  then show ?case by (simp add: answer_io_def)
next
  case (Suc n)
  then show ?case by (auto simp: then_io_def split: prod.splits sum.splits option.splits)
qed

lemma routed_more:
  assumes "\<forall>h. snd (chase n route call host s) \<noteq> Inr (Inr h)" "n \<le> m"
  shows "routed_call m route call host s = routed_call n route call host s"
  using chase_more [OF assms(1), of "m - n"] assms(2) by (simp add: routed_call_def then_io_def)

text \<open>
  The decision behind a host's control port is the scheduler's. Whatever else happens to the cluster
  while the question travels, or while anybody sleeps, leaves this request's placed answer alone.
\<close>

definition entry :: "('w \<Rightarrow> scheduler) \<Rightarrow> request \<Rightarrow> 'w \<Rightarrow> response option" where
  "entry sched req w = map_of (placed (sched w)) (req_id req)"

definition decided_by ::
  "('w \<Rightarrow> scheduler) \<Rightarrow> ('w \<Rightarrow> 'i directory) \<Rightarrow> 'w ports \<Rightarrow> 'w client \<Rightarrow> request \<Rightarrow> bool" where
  "decided_by sched dirs ps cl req \<longleftrightarrow>
     (\<forall>me w w' ans. p_decide ps req me w = (w', Inr ans) \<longrightarrow>
        (\<exists>w1 w2 now. entry sched req w1 = entry sched req w \<and>
           decide (sched w1) (dirs w1) now req me = Inr (sched w2, ans) \<and>
           entry sched req w' = entry sched req w2)) \<and>
     (\<forall>dt w. entry sched req (cl_sleep cl dt w) = entry sched req w)"

text \<open>Deciding another request is such a thing.\<close>

lemma decide_other_entry:
  assumes "decide s dir now req requester = Inr (s', a)" "req_id req \<noteq> i"
  shows "map_of (placed s') i = map_of (placed s) i"
proof (cases "map_of (placed s) (req_id req)")
  case None
  from decide_cases [OF None assms(1)] show ?thesis
    by cases (use assms(2) in \<open>auto simp: book_eq AList.update_conv'\<close>)
next
  case (Some r)
  with assms show ?thesis by (auto simp: decide_def map_of_delete split: if_splits)
qed

lemma decide_fresh_entry:
  assumes "map_of (placed s) (req_id req) = None" "decide s dir now req me = Inr (s', Some r)" "prefill_host r \<noteq> me"
  shows "map_of (placed s') (req_id req) = Some r"
  using decide_cases [OF assms(1,2)] assms(3) by cases (auto simp: book_eq AList.update_conv')

lemma decide_placed_entry:
  "map_of (placed s) (req_id req) = Some r \<Longrightarrow> decide s dir now req me = Inr (s', a) \<Longrightarrow> a = Some r"
  by (auto simp: decide_def split: if_splits)

lemma ask_triple:
  fixes ps :: "'w ports"
  assumes "decided_by sched dirs ps cl req"
  shows "triple (\<lambda>s. entry sched req (world s) = None) (call_io (p_decide ps req me))
      (\<lambda>ans s. \<forall>r. ans = Some r \<longrightarrow> prefill_host r \<noteq> me \<longrightarrow> entry sched req (world s) = Some r) anything"
    and "triple (\<lambda>s. entry sched req (world s) = Some r) (call_io (p_decide ps req me))
      (\<lambda>ans s. ans = Some r) anything"
proof -
  have asked: "\<exists>w1 w2 now. entry sched req w1 = entry sched req (world s) \<and>
      decide (sched w1) (dirs w1) now req me = Inr (sched w2, ans) \<and> entry sched req w' = entry sched req w2"
    if "p_decide ps req me (world s) = (w', Inr ans)" for s :: "'w serving" and w' ans
    using assms that by (auto simp: decided_by_def)
  show "triple (\<lambda>s. entry sched req (world s) = None) (call_io (p_decide ps req me))
      (\<lambda>ans s. \<forall>r. ans = Some r \<longrightarrow> prefill_host r \<noteq> me \<longrightarrow> entry sched req (world s) = Some r) anything"
    unfolding triple_def call_io_def
    by (auto split: prod.splits sum.splits dest!: asked) (auto simp: entry_def dest: decide_fresh_entry)
  show "triple (\<lambda>s. entry sched req (world s) = Some r) (call_io (p_decide ps req me)) (\<lambda>ans s. ans = Some r) anything"
    unfolding triple_def call_io_def
    by (auto split: prod.splits sum.splits dest!: asked) (auto simp: entry_def dest: decide_placed_entry)
qed

lemma here_triple:
  "triple P (prefill_here ps h req r) (\<lambda>pf _. pf_elsewhere pf = None) anything"
proof -
  have answer: "triple P (answer_io x) (\<lambda>pf _. pf_elsewhere pf = None) anything" if "pf_elsewhere x = None"
    for x and P :: "'a serving \<Rightarrow> bool"
    using that by (intro triple_answer)
  show ?thesis
    unfolding prefill_here_def Let_def
    by (intro triple_last) (simp split: prod.split, intro allI impI triple_last, simp split: prod.split,
        intro allI impI triple_last answer, simp)
qed

lemma first_leg:
  assumes "decided_by sched dirs ps cl req" "sh_me h = host"
  shows "triple (\<lambda>s. entry sched req (world s) = None) (prefill_leg ps h req)
      (\<lambda>ans s. \<forall>pf next. ans = Some pf \<longrightarrow> pf_elsewhere pf = Some next \<longrightarrow>
         (\<exists>r. entry sched req (world s) = Some r \<and> prefill_host r = next)) anything"
  unfolding prefill_leg_def
proof (rule triple_then [OF ask_triple(1) [OF assms(1)]])
  fix ans
  show "triple (\<lambda>s. \<forall>r. ans = Some r \<longrightarrow> prefill_host r \<noteq> sh_me h \<longrightarrow> entry sched req (world s) = Some r)
      (case ans of None \<Rightarrow>
           then_io (trace_io ps (Rejected (req_id req))) (\<lambda>_.
           then_io (add_row_io ((new_result (req_id req) False)\<lparr>rr_prompt_tokens := prompt_tokens req\<rparr>)) (\<lambda>_.
           answer_io None))
       | Some r \<Rightarrow>
           if prefill_host r \<noteq> sh_me h then
             then_io (trace_io ps (Redirected (req_id req) (sh_me h) (prefill_host r))) (\<lambda>_.
             answer_io (Some (sent_to (prefill_host r))))
           else then_io (prefill_here ps h req r) (\<lambda>pf. answer_io (Some pf)))
      (\<lambda>ans s. \<forall>pf next. ans = Some pf \<longrightarrow> pf_elsewhere pf = Some next \<longrightarrow>
         (\<exists>r. entry sched req (world s) = Some r \<and> prefill_host r = next)) anything"
  proof (cases ans)
    case None
    then show ?thesis by (simp, intro triple_last triple_answer) simp
  next
    case (Some r)
    have moved: "triple (\<lambda>s. entry sched req (world s) = Some r)
        (then_io (trace_io ps ev) (\<lambda>_. answer_io (Some (sent_to (prefill_host r)))))
        (\<lambda>ans s. \<forall>pf next. ans = Some pf \<longrightarrow> pf_elsewhere pf = Some next \<longrightarrow>
           (\<exists>r. entry sched req (world s) = Some r \<and> prefill_host r = next)) anything" for ev
      by (rule triple_then [OF triple_trace_world triple_answer]) (auto simp: keeps_world_def sent_to_def)
    have here: "triple P (then_io (prefill_here ps h req r) (\<lambda>pf. answer_io (Some pf)))
        (\<lambda>ans s. \<forall>pf next. ans = Some pf \<longrightarrow> pf_elsewhere pf = Some next \<longrightarrow>
           (\<exists>r. entry sched req (world s) = Some r \<and> prefill_host r = next)) anything" for P
      by (rule triple_then [OF here_triple triple_answer]) simp
    show ?thesis using Some moved here by simp
  qed
qed

lemma second_leg:
  assumes "decided_by sched dirs ps cl req" "prefill_host r = sh_me h"
  shows "triple (\<lambda>s. entry sched req (world s) = Some r) (prefill_leg ps h req)
      (\<lambda>ans s. \<forall>pf. ans = Some pf \<longrightarrow> pf_elsewhere pf = None) anything"
  unfolding prefill_leg_def
proof (rule triple_then [OF ask_triple(2) [OF assms(1)]])
  fix ans
  let ?Q = "\<lambda>ans s. \<forall>pf. ans = Some pf \<longrightarrow> pf_elsewhere pf = None"
  have "triple P (then_io (prefill_here ps h req r) (\<lambda>pf. answer_io (Some pf))) ?Q anything" for P
    by (rule triple_then [OF here_triple triple_answer]) simp
  then show "triple (\<lambda>s. ans = Some r)
      (case ans of None \<Rightarrow>
           then_io (trace_io ps (Rejected (req_id req))) (\<lambda>_.
           then_io (add_row_io ((new_result (req_id req) False)\<lparr>rr_prompt_tokens := prompt_tokens req\<rparr>)) (\<lambda>_.
           answer_io None))
       | Some r \<Rightarrow>
           if prefill_host r \<noteq> sh_me h then
             then_io (trace_io ps (Redirected (req_id req) (sh_me h) (prefill_host r))) (\<lambda>_.
             answer_io (Some (sent_to (prefill_host r))))
           else then_io (prefill_here ps h req r) (\<lambda>pf. answer_io (Some pf))) ?Q anything"
    by (cases "ans = Some r") (simp_all add: assms(2) triple_def)
qed

lemma member_triple:
  assumes "decided_by sched dirs ps cl req" "\<forall>host h. cl_hosts cl host = Inr h \<longrightarrow> sh_me h = host"
  shows "triple (\<lambda>s. entry sched req (world s) = None) (prefill_member cl ps req host)
      (\<lambda>ans s. \<forall>pf next. ans = Some pf \<longrightarrow> pf_elsewhere pf = Some next \<longrightarrow>
         (\<exists>r. entry sched req (world s) = Some r \<and> prefill_host r = next)) anything"
    and "prefill_host r = host \<Longrightarrow> triple (\<lambda>s. entry sched req (world s) = Some r) (prefill_member cl ps req host)
      (\<lambda>ans s. \<forall>pf. ans = Some pf \<longrightarrow> pf_elsewhere pf = None) anything"
proof -
  have sleep: "entry sched req (cl_sleep cl dt w) = entry sched req w" for dt w
    using assms(1) by (simp add: decided_by_def)
  have host: "triple P (then_io (lift_io (cl_hosts cl host)) f) Q anything"
    if "\<And>h. sh_me h = host \<Longrightarrow> triple P (f h) Q anything" for P Q and f :: "_ \<Rightarrow> (_, prefilled option) io"
    using that assms(2)
    by (cases "cl_hosts cl host") (auto simp: triple_def then_io_def lift_io_def)
  show "triple (\<lambda>s. entry sched req (world s) = None) (prefill_member cl ps req host)
      (\<lambda>ans s. \<forall>pf next. ans = Some pf \<longrightarrow> pf_elsewhere pf = Some next \<longrightarrow>
         (\<exists>r. entry sched req (world s) = Some r \<and> prefill_host r = next)) anything"
    unfolding prefill_member_def by (intro host triple_hop first_leg [OF assms(1)]) (auto simp: sleep)
  show "triple (\<lambda>s. entry sched req (world s) = Some r) (prefill_member cl ps req host)
      (\<lambda>ans s. \<forall>pf. ans = Some pf \<longrightarrow> pf_elsewhere pf = None) anything" if "prefill_host r = host"
    unfolding prefill_member_def
    by (intro host triple_hop second_leg [OF assms(1)]) (auto simp: sleep that)
qed

text \<open>C21: a request is sent on at most once. Whatever other requests are decided while it travels,
  the second host asked serves it, refuses it or raises: two calls always settle it, so the routing
  cap of eight hops is never what ends a prefill, and raising the cap changes nothing.\<close>

theorem routed_prefill_settles:
  assumes "decided_by sched dirs ps cl req" and "entry sched req (world s) = None"
    and "\<forall>host h. cl_hosts cl host = Inr h \<longrightarrow> sh_me h = host"
  shows "(\<forall>h. snd (chase 2 (Some pf_elsewhere) (prefill_member cl ps req) host s) \<noteq> Inr (Inr h)) \<and>
    routed_call MAX_HOPS (Some pf_elsewhere) (prefill_member cl ps req) host s =
      routed_call 2 (Some pf_elsewhere) (prefill_member cl ps req) host s"
proof -
  let ?call = "prefill_member cl ps req"
  note first = member_triple(1) [OF assms(1,3), of host] and second = member_triple(2) [OF assms(1,3)]
  have "snd (chase 2 (Some pf_elsewhere) ?call host s) \<noteq> Inr (Inr h)" for h
  proof (cases "?call host s")
    case (Pair s1 out)
    show ?thesis
    proof (cases out)
      case (Inl e)
      with Pair show ?thesis by (simp add: numeral_2_eq_2 then_io_def)
    next
      case (Inr ans)
      show ?thesis
      proof (cases "\<exists>pf next. ans = Some pf \<and> pf_elsewhere pf = Some next")
        case False
        with Pair Inr show ?thesis
          by (auto simp: numeral_2_eq_2 then_io_def answer_io_def split: option.splits)
      next
        case True
        then obtain pf "next" where pf: "ans = Some pf" "pf_elsewhere pf = Some next" by blast
        with first [unfolded triple_def, rule_format, OF assms(2)] Pair Inr obtain r where r: "entry sched req (world s1) = Some r" "prefill_host r = next"
          by auto
        have "case ?call next s1 of (s2, Inl e) \<Rightarrow> True | (s2, Inr ans) \<Rightarrow> \<forall>pf. ans = Some pf \<longrightarrow> pf_elsewhere pf = None"
          using second [OF r(2)] r(1) by (simp add: triple_def)
        with Pair Inr pf show ?thesis
          by (auto simp: numeral_2_eq_2 then_io_def answer_io_def split: option.splits prod.splits sum.splits)
      qed
    qed
  qed
  then have settles: "\<forall>h. snd (chase 2 (Some pf_elsewhere) ?call host s) \<noteq> Inr (Inr h)" by blast
  moreover have "2 \<le> MAX_HOPS" by (simp add: MAX_HOPS_def)
  ultimately show ?thesis using routed_more [OF settles] by blast
qed

text \<open>The worked cluster, its scheduler the whole world: asked of \<open>b\<close>, the request moves to \<open>a\<close>.\<close>

definition demo_ports :: "scheduler ports" where
  "demo_ports = \<lparr>p_now = (\<lambda>_. 0),
     p_decide = (\<lambda>req me w. case decide w demo_dir 1 req me of Inl e \<Rightarrow> (w, Inl e) | Inr (w', a) \<Rightarrow> (w', Inr a)),
     p_sources = None, p_put = (\<lambda>_ _ w. (w, Inr ())), p_get = (\<lambda>_ _ ks w. (w, Inr (map (\<lambda>k. (k, 16)) ks))),
     p_touch = (\<lambda>_ _ w. (w, Inr ())), p_pass = (\<lambda>_ _ _ w. w),
     p_admit = (\<lambda>_ _ w. (w, Inr \<lparr>gen_tokens = [MetaToken], gen_kv = []\<rparr>)),
     p_tell = (\<lambda>_ w. (w, Inr ()))\<rparr>"

definition demo_client :: "scheduler client" where
  "demo_client = \<lparr>cl_hosts = (\<lambda>v. if v \<in> {''a'', ''b''} then Inr (demo_host\<lparr>sh_me := v\<rparr>) else Inl KeyError),
     cl_rtt = 0, cl_sleep = (\<lambda>_ w. w), cl_ids = [''a'', ''b'']\<rparr>"

lemma routed_prefill_settles_witness:
  "routed_call MAX_HOPS (Some pf_elsewhere) (prefill_member demo_client demo_ports demo_request) ''b''
      \<lparr>world = busy_b TTFT, sv_metrics = metrics_init, sv_trace = []\<rparr> =
   routed_call 2 (Some pf_elsewhere) (prefill_member demo_client demo_ports demo_request) ''b''
      \<lparr>world = busy_b TTFT, sv_metrics = metrics_init, sv_trace = []\<rparr>"
proof -
  have "decided_by id (\<lambda>_. demo_dir) demo_ports demo_client demo_request"
    by (auto simp: decided_by_def demo_ports_def demo_client_def split: sum.splits)
  from routed_prefill_settles [OF this, of "\<lparr>world = busy_b TTFT, sv_metrics = metrics_init, sv_trace = []\<rparr>" "''b''"]
  show ?thesis by (simp add: entry_def demo_unplaced demo_client_def)
qed

subsection \<open>One row a turn\<close>

text \<open>A body that adds no row and renames none.\<close>

definition row_ids :: "'w serving \<Rightarrow> string list" where
  "row_ids s = map rr_id (rows (sv_metrics s))"

definition leaves_rows :: "('w, 'a) io \<Rightarrow> bool" where
  "leaves_rows m \<longleftrightarrow> (\<forall>s. row_ids (fst (m s)) = row_ids s)"

named_theorems row_rules \<open>which bodies leave the rows' ids alone\<close>

lemma leaves_simple [row_rules]:
  "leaves_rows (answer_io x)" "leaves_rows (raise_io e)" "leaves_rows (lift_io r)" "leaves_rows (call_io f)"
  "leaves_rows (now_io ps)" "leaves_rows (trace_io ps ev)" "leaves_rows (row_io n)" "leaves_rows (hop_leg sleep rtt)"
  by (simp_all add: leaves_rows_def row_ids_def answer_io_def raise_io_def lift_io_def call_io_def now_io_def
      trace_io_def row_io_def hop_leg_def sleep_io_def split: prod.splits)

lemma leaves_then [row_rules]: "leaves_rows m \<Longrightarrow> (\<And>x. leaves_rows (f x)) \<Longrightarrow> leaves_rows (then_io m f)"
  unfolding leaves_rows_def then_io_def by (auto split: prod.split sum.split) (metis fst_conv)+

lemma leaves_except [row_rules]: "leaves_rows m \<Longrightarrow> leaves_rows n \<Longrightarrow> leaves_rows (except_io e m n)"
  unfolding leaves_rows_def except_io_def by (auto split: prod.split sum.split) (metis fst_conv)+

lemma leaves_if [row_rules]: "leaves_rows m \<Longrightarrow> leaves_rows n \<Longrightarrow> leaves_rows (if b then m else n)"
  by simp

lemma leaves_pair [row_rules]: "(\<And>u v. leaves_rows (f u v)) \<Longrightarrow> leaves_rows (case x of (u, v) \<Rightarrow> f u v)"
  by (simp split: prod.split)

lemma leaves_option [row_rules]:
  "leaves_rows m \<Longrightarrow> (\<And>v. leaves_rows (f v)) \<Longrightarrow> leaves_rows (case x of None \<Rightarrow> m | Some v \<Rightarrow> f v)"
  by (simp split: option.split)

lemma leaves_amend [row_rules]: "(\<And>r. rr_id (f r) = rr_id r) \<Longrightarrow> leaves_rows (amend_io n f)"
  by (auto simp: leaves_rows_def row_ids_def amend_io_def metrics_io_def amend_def map_update)
    (metis list_update_beyond list_update_id map_update nth_map not_le length_map)

lemma leaves_metrics [row_rules]:
  "leaves_rows (metrics_io (handed_off i host nbytes missed))"
  "leaves_rows (metrics_io (decode_resident i blocks published))"
  "leaves_rows (metrics_io (completed i took n))"
proof -
  have amended: "leaves_rows (metrics_io (\<lambda>m. bindr (open_row i m) (\<lambda>n. Inr (amend n f m))))"
    if "\<And>r. rr_id (f r) = rr_id r" for f
    using leaves_amend [OF that]
    by (auto simp: leaves_rows_def amend_io_def metrics_io_def row_ids_def open_row_def split: sum.splits option.splits)
  show "leaves_rows (metrics_io (handed_off i host nbytes missed))"
    "leaves_rows (metrics_io (decode_resident i blocks published))"
    "leaves_rows (metrics_io (completed i took n))"
    unfolding handed_off_def decode_resident_def completed_def by (intro amended; simp)+
qed

lemma leaves_store [row_rules]:
  "leaves_rows (publish ps inst ks blocks)" "leaves_rows (reuse_keys ps inst ks)" "leaves_rows (fetch ps inst ks)"
  unfolding publish_def reuse_keys_def fetch_def peer_sources_def by (intro row_rules)+

lemma leaves_prefill [row_rules]:
  "leaves_rows (recompute_prefill ps h req p n)" "leaves_rows (prefill_done ps h req r n)"
  "leaves_rows (run_pass ps h len pulled tag)"
  unfolding recompute_prefill_def prefill_done_def run_pass_def Let_def by (intro row_rules; simp)+

lemma leaves_pull [row_rules]: "leaves_rows (pull_prefix ps h req p n)"
  unfolding pull_prefix_def by (intro row_rules)

lemma leaves_decode [row_rules]: "leaves_rows (decode_leg ps h req r)"
  unfolding decode_leg_def hand_over_def reside_def Let_def by (intro row_rules)

text \<open>A body that adds the row of one request if it answers with what \<open>counts\<close>, and none otherwise.\<close>

definition adds_row :: "string \<Rightarrow> ('a \<Rightarrow> bool) \<Rightarrow> ('w, 'a) io \<Rightarrow> bool" where
  "adds_row i counts m \<longleftrightarrow> (\<forall>s s' x. m s = (s', Inr x) \<longrightarrow>
     row_ids s' = row_ids s @ (if counts x then [i] else []))"

lemma adds_then_leaves:
  assumes "adds_row i counts m" "\<And>x. leaves_rows (f x)"
    "\<And>x s y s'. f x s = (s', Inr y) \<Longrightarrow> counts' y = counts x"
  shows "adds_row i counts' (then_io m f)"
  unfolding adds_row_def
proof (intro allI impI)
  fix s s' y
  assume run: "then_io m f s = (s', Inr y)"
  then obtain s1 x where 1: "m s = (s1, Inr x)" "f x s1 = (s', Inr y)"
    by (auto simp: then_io_def split: prod.splits sum.splits)
  with assms(2) [of x] have "row_ids s' = row_ids s1" by (metis fst_conv leaves_rows_def)
  with 1 assms(1) assms(3) [OF 1(2)] show "row_ids s' = row_ids s @ (if counts' y then [i] else [])"
    by (simp add: adds_row_def)
qed

lemma leaves_then_adds:
  assumes "leaves_rows m" "\<And>x. adds_row i counts (f x)"
  shows "adds_row i counts (then_io m f)"
  using assms unfolding adds_row_def leaves_rows_def
  by (auto simp: then_io_def split: prod.splits sum.splits) (metis fst_conv)+

lemma leaves_adds: "leaves_rows m \<Longrightarrow> adds_row i (\<lambda>_. False) m"
  unfolding adds_row_def leaves_rows_def by (metis append_Nil2 fst_conv)

lemma add_row_adds: "adds_row (rr_id row) (\<lambda>_. True) (add_row_io row)"
  by (simp add: adds_row_def row_ids_def add_row_io_def metrics_add_def ledger_add_def)

lemma adds_then: "adds_row i (\<lambda>_. True) m \<Longrightarrow> (\<And>x. leaves_rows (f x)) \<Longrightarrow> adds_row i (\<lambda>_. True) (then_io m f)"
  by (rule adds_then_leaves) simp_all

lemma here_adds: "adds_row (req_id req) (\<lambda>_. True) (prefill_here ps h req r)"
proof -
  have "adds_row (req_id req) (\<lambda>_. True) (add_row_io (make_accepted req r))"
    using add_row_adds [of "make_accepted req r"] by (simp add: make_accepted_def new_result_def Let_def)
  note row = adds_then [OF this]
  show ?thesis
    unfolding prefill_here_def Let_def by (intro leaves_then_adds row row_rules; simp)
qed

text \<open>The answers a caller keeps; one it takes elsewhere leaves no row.\<close>

definition kept :: "prefilled option \<Rightarrow> bool" where
  "kept ans \<longleftrightarrow> (case ans of None \<Rightarrow> True | Some pf \<Rightarrow> pf_elsewhere pf = None)"

lemma leg_adds: "adds_row (req_id req) kept (prefill_leg ps h req)"
proof -
  have refused: "adds_row (req_id req) kept
      (then_io (add_row_io ((new_result (req_id req) False)\<lparr>rr_prompt_tokens := prompt_tokens req\<rparr>)) (\<lambda>_. answer_io None))"
    using add_row_adds [of "(new_result (req_id req) False)\<lparr>rr_prompt_tokens := prompt_tokens req\<rparr>"]
    by (intro adds_then_leaves [where counts = "\<lambda>_. True"] row_rules) (auto simp: kept_def answer_io_def new_result_def)
  have moved: "adds_row (req_id req) kept (answer_io (Some (sent_to v)))" for v
    by (simp add: adds_row_def answer_io_def kept_def sent_to_def)
  have here: "adds_row (req_id req) kept (then_io (prefill_here ps h req r) (\<lambda>pf. answer_io (Some pf)))" for r
  proof (unfold adds_row_def, intro allI impI)
    fix s s' x
    assume run: "then_io (prefill_here ps h req r) (\<lambda>pf. answer_io (Some pf)) s = (s', Inr x)"
    then obtain pf where pf: "prefill_here ps h req r s = (s', Inr pf)" "x = Some pf"
      by (auto simp: then_io_def answer_io_def split: prod.splits sum.splits)
    have "pf_elsewhere pf = None"
      using here_triple [of "\<lambda>_. True" ps h req r, unfolded triple_def, rule_format, of s] pf(1) by simp
    with here_adds [of req ps h r] pf
    show "row_ids s' = row_ids s @ (if kept x then [req_id req] else [])"
      by (simp add: adds_row_def kept_def)
  qed
  show ?thesis
    unfolding prefill_leg_def
    by (intro leaves_then_adds row_rules)
      (auto split: option.split intro!: leaves_then_adds [OF leaves_simple(6)] refused moved here)
qed

lemma hop_adds: "adds_row i counts m \<Longrightarrow> adds_row i counts (hop_call sleep rtt m)"
  unfolding hop_call_def
  by (intro leaves_then_adds row_rules adds_then_leaves [where counts = counts])
    (auto simp: then_io_def answer_io_def split: prod.splits sum.splits)

lemma hop_leaves [row_rules]: "leaves_rows m \<Longrightarrow> leaves_rows (hop_call sleep rtt m)"
  unfolding hop_call_def by (intro row_rules)

lemma chase_adds:
  assumes "\<And>host. adds_row i kept (call host)"
  shows "adds_row i (\<lambda>r. \<exists>a. r = Inl a) (chase n (Some pf_elsewhere) call host)"
proof (induction n arbitrary: host)
  case 0
  then show ?case by (simp add: adds_row_def answer_io_def)
next
  case (Suc n)
  show ?case
    unfolding adds_row_def
  proof (intro allI impI)
    fix s s' x
    assume run: "chase (Suc n) (Some pf_elsewhere) call host s = (s', Inr x)"
    then obtain s1 ans where 1: "call host s = (s1, Inr ans)"
      and rest: "(case ans of None \<Rightarrow> answer_io (Inl ans)
        | Some pf \<Rightarrow> (case pf_elsewhere pf of None \<Rightarrow> answer_io (Inl ans)
            | Some next \<Rightarrow> chase n (Some pf_elsewhere) call next)) s1 = (s', Inr x)"
      by (auto simp: then_io_def split: prod.splits sum.splits option.splits)
    have row: "row_ids s1 = row_ids s @ (if kept ans then [i] else [])"
      using assms [of host] 1 by (simp add: adds_row_def)
    show "row_ids s' = row_ids s @ (if \<exists>a. x = Inl a then [i] else [])"
    proof (cases "kept ans")
      case True
      with rest row show ?thesis by (auto simp: kept_def answer_io_def split: option.splits)
    next
      case False
      with rest obtain "next" where "chase n (Some pf_elsewhere) call next s1 = (s', Inr x)"
        by (auto simp: kept_def split: option.splits)
      with Suc [of "next"] row False show ?thesis by (simp add: adds_row_def)
    qed
  qed
qed

lemma chase_leaves:
  assumes "\<And>host. leaves_rows (call host)"
  shows "leaves_rows (chase n None call host)"
proof (induction n arbitrary: host)
  case (Suc n)
  show ?case by (simp, intro row_rules assms)
qed (simp add: row_rules)

lemma routed_adds:
  assumes "\<And>host. adds_row i kept (call host)"
  shows "adds_row i (\<lambda>_. True) (routed_call n (Some pf_elsewhere) call host)"
  using chase_adds [of i call n host, OF assms]
  by (auto simp: adds_row_def routed_call_def then_io_def answer_io_def raise_io_def split: prod.splits sum.splits)

lemma routed_leaves [row_rules]:
  assumes "\<And>host. leaves_rows (call host)"
  shows "leaves_rows (routed_call n None call host)"
  unfolding routed_call_def
  by (intro row_rules chase_leaves assms) (simp add: row_rules split: sum.split)

lemma member_adds: "adds_row (req_id req) kept (prefill_member cl ps req host)"
  unfolding prefill_member_def by (intro leaves_then_adds row_rules hop_adds leg_adds)

lemma member_leaves [row_rules]: "leaves_rows (decode_member cl ps req r host)"
  unfolding decode_member_def by (intro row_rules)

lemma turn_adds: "adds_row (req_id req) (\<lambda>_. True) (client_turn cl ps req)"
  unfolding client_turn_def
  by (intro leaves_then_adds adds_then routed_adds member_adds row_rules)

text \<open>C22: a conversation walked to its end leaves exactly one row per turn, in the order the user
  spoke, refused turns included, wherever each was sent and however it was served.\<close>

theorem one_row_per_turn:
  assumes "client_submit cl ps turns s = (s', Inr ())"
  shows "map rr_id (rows (sv_metrics s')) =
    map rr_id (rows (sv_metrics s)) @ map (\<lambda>t. req_id (tn_request t)) turns"
  using assms
proof (induction turns arbitrary: s)
  case Nil
  then show ?case by (simp add: answer_io_def)
next
  case (Cons t ts)
  let ?think = "if tn_think t \<noteq> 0 then sleep_io (cl_sleep cl) (tn_think t) else answer_io ()"
  have think: "leaves_rows ?think" by (simp add: sleep_io_def row_rules)
  from Cons.prems obtain s1 now req s2 where run: "?think s = (s1, Inr ())"
    "check_request ((tn_request t)\<lparr>arrival := now\<rparr>) = Inr req"
    "client_turn cl ps req s1 = (s2, Inr ())" "client_submit cl ps ts s2 = (s', Inr ())"
    by (auto simp: then_io_def now_io_def lift_io_def split: prod.splits sum.splits)
  have "row_ids s1 = row_ids s" using think run(1) by (metis fst_conv leaves_rows_def)
  moreover have "row_ids s2 = row_ids s1 @ [req_id req]"
    using turn_adds [of req cl ps] run(3) by (simp add: adds_row_def)
  moreover have "req_id req = req_id (tn_request t)"
    using run(2) by (auto simp: check_request_def split: if_splits)
  ultimately show ?case using Cons.IH [OF run(4)] by (simp add: row_ids_def)
qed

text \<open>The worked conversation: one turn, asked of \<open>a\<close>, prefilled and decoded there.\<close>

definition demo_turns :: "turn list" where
  "demo_turns = [\<lparr>tn_request = demo_request, tn_think = 0\<rparr>]"

definition demo_start :: "scheduler serving" where
  "demo_start = \<lparr>world = busy_b TTFT, sv_metrics = metrics_init, sv_trace = []\<rparr>"

lemma demo_arrives: "demo_request\<lparr>arrival := 0\<rparr> = demo_request" "check_request demo_request = Inr demo_request"
  by (simp_all add: demo_request_def check_request_def)

lemma chase_max:
  "chase MAX_HOPS route call host = then_io (call host) (\<lambda>answered.
     case (route, answered) of
       (Some address, Some a) \<Rightarrow>
         (case address a of None \<Rightarrow> answer_io (Inl answered) | Some sent_on \<Rightarrow> chase 7 route call sent_on)
     | _ \<Rightarrow> answer_io (Inl answered))"
proof -
  have hops: "MAX_HOPS = Suc 7" by (simp add: MAX_HOPS_def)
  show ?thesis unfolding hops by (rule chase.simps)
qed

lemma demo_served: "\<exists>s'. client_submit (demo_client\<lparr>cl_ids := [''a'']\<rparr>) demo_ports demo_turns demo_start = (s', Inr ())"
proof -
  have lands: "affinity [''a''] r = Inr ''a''" for r by (simp add: affinity_def)
  have told: "p_decide demo_ports demo_request ''a'' (busy_b TTFT) = (demo_after TTFT ''a'', Inr (Some demo_answer))"
    by (simp add: demo_ports_def demo_decide)
  have ports: "p_now demo_ports = (\<lambda>_. 0)" "p_sources demo_ports = None" "p_put demo_ports = (\<lambda>_ _ w. (w, Inr ()))"
    "p_get demo_ports = (\<lambda>_ _ ks w. (w, Inr (map (\<lambda>k. (k, 16)) ks)))" "p_touch demo_ports = (\<lambda>_ _ w. (w, Inr ()))"
    "p_pass demo_ports = (\<lambda>_ _ _ w. w)" "p_tell demo_ports = (\<lambda>_ w. (w, Inr ()))"
    "p_admit demo_ports = (\<lambda>_ _ w. (w, Inr \<lparr>gen_tokens = [MetaToken], gen_kv = []\<rparr>))"
    by (simp_all add: demo_ports_def)
  have req: "req_id demo_request = ''r1''" "block_keys demo_request = [''k1'', ''k2'']" "prompt_tokens demo_request = 32"
    "prompt_numel demo_request = 32" "arrival demo_request = 0" "continuation_keys demo_request 0 = []"
    by (simp_all add: demo_request_def continuation_keys_def)
  show ?thesis
    by (simp add: demo_turns_def demo_start_def demo_arrives client_turn_def lands routed_call_def chase_max req
      prefill_member_def decode_member_def hop_call_def hop_leg_def prefill_leg_def told ports
      prefill_here_def Let_def then_io_def trace_io_def add_row_io_def answer_io_def pull_prefix_def
      fetch_def peer_sources_def call_io_def lift_io_def except_io_def now_io_def run_pass_def prefill_engine_def
      measured_wait_def amend_io_def metrics_io_def publish_def prefill_done_def row_io_def reuse_keys_def
      prefill_cost_def demo_host_def demo_answer_fields plan_a_def local_blocks_def demo_client_def
      dindex_def demo_engine_def acc_init_def demo_block_bytes demo_prefill_time suffix_numel_def py_from_def
      pass_answer_def kv_blocks_def blocks_for_def amend_def metrics_add_def ledger_add_def metrics_init_def
      make_accepted_def new_result_def open_row_def handed_off_def decode_leg_def hand_over_def reside_def
      completed_def)
qed

lemma one_row_per_turn_witness:
  "\<exists>s'. client_submit (demo_client\<lparr>cl_ids := [''a'']\<rparr>) demo_ports demo_turns demo_start = (s', Inr ()) \<and>
     map rr_id (rows (sv_metrics s')) = [''r1'']"
proof -
  from demo_served obtain s' where
    run: "client_submit (demo_client\<lparr>cl_ids := [''a'']\<rparr>) demo_ports demo_turns demo_start = (s', Inr ())" by blast
  from run one_row_per_turn [OF run] show ?thesis
    by (auto simp: demo_start_def metrics_init_def demo_turns_def demo_request_def)
qed

end
