(* ===== verification/StoreReader.thy ===== *)
theory StoreReader
  imports Text "HOL-Library.Sublist" "HOL-Library.Multiset"
begin

section \<open>What the terminal interface is served\<close>

text \<open>
  \<^verbatim>\<open>toso_store_reader.py\<close>: the responses a live store's socket server answers with. The store (its
  controller, its volumes, torch's element size and statistics) is a record of the calls the code
  makes of it; a JSON object is a record, a missing field of a request \<open>None\<close>. What the code only
  logs is left out, and the wall clock is an argument.
\<close>

datatype object_type = OBJECT | TENSOR | TENSOR_SLICE

definition type_tag :: "object_type \<Rightarrow> string" where
  "type_tag t = (case t of OBJECT \<Rightarrow> ''OBJECT'' | TENSOR \<Rightarrow> ''TENSOR'' | TENSOR_SLICE \<Rightarrow> ''TENSOR_SLICE'')"

record tensor_slice =
  sl_coordinates :: "int list"
  sl_offsets :: "int list"
  sl_local_shape :: "int list"
  sl_mesh_shape :: "int list"

record storage_info =
  si_type :: object_type
  si_slices :: "tensor_slice option list"

type_synonym volume_map = "(vid \<times> storage_info) list"

datatype meta_request = FromSlice key tensor_slice | FromAny key

datatype meta_entry = ObjEntry | Sized "int list" string

record 's live_store =
  ls_keys :: "key list res"
  ls_locate :: "key list \<Rightarrow> (key \<times> volume_map) list res"
  ls_meta :: "vid \<Rightarrow> meta_request \<Rightarrow> meta_entry list res"
  ls_itemsize :: "string \<Rightarrow> int"
  ls_hosts :: "(vid \<times> string) list"
  ls_strategy :: string
  ls_stats :: "key \<Rightarrow> 's option"

record shard =
  sh_volume :: vid
  sh_coordinates :: "int list"
  sh_offsets :: "int list"
  sh_local_shape :: "int list"

record key_record =
  kr_key :: key
  kr_type :: object_type
  kr_dtype :: "string option"
  kr_global_shape :: "int list option"
  kr_mesh_shape :: "int list option"
  kr_committed :: bool
  kr_shards :: "shard list"
  kr_bytes :: real
  kr_volumes :: "vid list"

record key_row =
  ke_key :: key
  ke_type :: string
  ke_dtype :: "string option"
  ke_global_shape :: "int list option"
  ke_committed :: bool
  ke_mesh_shape :: "int list option"
  ke_shards :: "shard list"

definition key_entry :: "key_record \<Rightarrow> key_row" where
  "key_entry r = \<lparr>ke_key = kr_key r, ke_type = type_tag (kr_type r), ke_dtype = kr_dtype r,
     ke_global_shape = kr_global_shape r, ke_committed = kr_committed r, ke_mesh_shape = kr_mesh_shape r,
     ke_shards = kr_shards r\<rparr>"

subsection \<open>One key\<close>

text \<open>\<^verbatim>\<open>itertools.product\<close> of the ranges of a mesh shape.\<close>

fun py_product :: "int list \<Rightarrow> int list list" where
  "py_product [] = [[]]"
| "py_product (d # ds) = concat (map (\<lambda>i. map (Cons i) (py_product ds)) [0..d - 1])"

definition slices_of :: "volume_map \<Rightarrow> tensor_slice list" where
  "slices_of vm = concat (map (\<lambda>(_, si). List.map_filter id (si_slices si)) vm)"

definition is_fully_committed :: "object_type \<Rightarrow> volume_map \<Rightarrow> bool" where
  "is_fully_committed t vm =
     (if t \<noteq> TENSOR_SLICE then True
      else let ss = slices_of vm
           in if ss = [] then True
              else set (map sl_coordinates ss) = set (py_product (sl_mesh_shape (last ss))))"

definition pick_meta_request :: "key \<Rightarrow> object_type \<Rightarrow> storage_info \<Rightarrow> meta_request" where
  "pick_meta_request k t si =
     (if t = TENSOR_SLICE
      then (case List.map_filter id (si_slices si) of [] \<Rightarrow> FromAny k | s # _ \<Rightarrow> FromSlice k s)
      else FromAny k)"

definition shards_for_key :: "object_type \<Rightarrow> volume_map \<Rightarrow> int list option \<Rightarrow> shard list" where
  "shards_for_key t vm local_shape =
     (case t of
        OBJECT \<Rightarrow> []
      | TENSOR \<Rightarrow> map (\<lambda>(v, _). \<lparr>sh_volume = v, sh_coordinates = [], sh_offsets = [],
                    sh_local_shape = (case local_shape of None \<Rightarrow> [] | Some s \<Rightarrow> s)\<rparr>) vm
      | TENSOR_SLICE \<Rightarrow> concat (map (\<lambda>(v, si). map (\<lambda>s. \<lparr>sh_volume = v, sh_coordinates = sl_coordinates s,
                    sh_offsets = sl_offsets s, sh_local_shape = sl_local_shape s\<rparr>)
                    (List.map_filter id (si_slices si))) vm))"

definition key_meta ::
  "'s live_store \<Rightarrow> key \<Rightarrow> object_type \<Rightarrow> volume_map \<Rightarrow> (int list option \<times> string option \<times> real) res" where
  "key_meta st k t vm =
     (case vm of
        [] \<Rightarrow> Inl RuntimeError
      | (v, si) # _ \<Rightarrow>
          bindr (ls_meta st v (pick_meta_request k t si)) (\<lambda>entries.
          case entries of
            [] \<Rightarrow> Inl IndexError
          | ObjEntry # _ \<Rightarrow> Inr (None, None, 0)
          | Sized shape dtype # _ \<Rightarrow>
              Inr (Some shape, Some dtype,
                   if shape \<noteq> [] then of_int (prod_list shape * ls_itemsize st dtype) else 0)))"

definition record_of :: "key \<Rightarrow> volume_map \<Rightarrow> int list option \<times> string option \<times> real \<Rightarrow> key_record" where
  "record_of k vm = (\<lambda>(shape, dtype, nbytes).
     let t = si_type (snd (hd vm)) in
     \<lparr>kr_key = k, kr_type = t, kr_dtype = dtype,
      kr_global_shape = (if t = TENSOR_SLICE then shape else None), kr_mesh_shape = None,
      kr_committed = is_fully_committed t vm, kr_shards = shards_for_key t vm shape,
      kr_bytes = nbytes, kr_volumes = map fst vm\<rparr>)"

text \<open>A key that is not located, or whose read raises, is skipped.\<close>

fun collect_keys :: "'s live_store \<Rightarrow> (key \<times> volume_map) list \<Rightarrow> key list \<Rightarrow> key_record list" where
  "collect_keys st located [] = []"
| "collect_keys st located (k # ks) =
     (case map_of located k of
        None \<Rightarrow> collect_keys st located ks
      | Some vm \<Rightarrow>
          if vm = [] then collect_keys st located ks
          else case key_meta st k (si_type (snd (hd vm))) vm of
                 Inl e \<Rightarrow> collect_keys st located ks
               | Inr m \<Rightarrow> record_of k vm m # collect_keys st located ks)"

subsection \<open>The trie of keys\<close>

record prefix_row =
  pr_prefix :: string
  pr_keys :: nat
  pr_objects :: nat
  pr_tensors :: nat
  pr_dtensors :: nat
  pr_partial :: nat
  pr_bytes :: real
  pr_leaf :: bool

definition how_many :: "('a \<Rightarrow> bool) \<Rightarrow> 'a list \<Rightarrow> nat" where
  "how_many P xs = length (filter P xs)"

definition partial :: "key_record \<Rightarrow> bool" where
  "partial m \<longleftrightarrow> kr_type m = TENSOR_SLICE \<and> \<not> kr_committed m"

definition prefix_entry :: "string \<Rightarrow> key_record list \<Rightarrow> prefix_row" where
  "prefix_entry p members =
     \<lparr>pr_prefix = p, pr_keys = length members, pr_objects = how_many (\<lambda>m. kr_type m = OBJECT) members,
      pr_tensors = how_many (\<lambda>m. kr_type m = TENSOR) members,
      pr_dtensors = how_many (\<lambda>m. kr_type m = TENSOR_SLICE) members,
      pr_partial = how_many partial members, pr_bytes = sum_list (map kr_bytes members),
      pr_leaf = (length members = 1 \<and> kr_key (hd members) = p)\<rparr>"

text \<open>A \<^verbatim>\<open>defaultdict(list)\<close> filled in the order of a list, its keys in order of first use.\<close>

definition group_add :: "('a \<Rightarrow> 'k) \<Rightarrow> 'a \<Rightarrow> ('k \<times> 'a list) list \<Rightarrow> ('k \<times> 'a list) list" where
  "group_add f x g = AList.update (f x) (dget g (f x) [] @ [x]) g"

definition group_by :: "('a \<Rightarrow> 'k) \<Rightarrow> 'a list \<Rightarrow> ('k \<times> 'a list) list" where
  "group_by f xs = fold (group_add f) xs []"

definition parent_dot :: "string \<Rightarrow> string" where
  "parent_dot parent = (if parent = [] then [] else parent @ ''.'')"

definition child_of :: "string \<Rightarrow> key \<Rightarrow> string" where
  "child_of parent k = parent_dot parent @ takeWhile (\<lambda>c. c \<noteq> CHR ''.'') (drop (length (parent_dot parent)) k)"

definition stored_under :: "string \<Rightarrow> key \<Rightarrow> bool" where
  "stored_under parent k \<longleftrightarrow> parent = [] \<or> prefix (parent_dot parent) k"

definition children :: "key_record list \<Rightarrow> string \<Rightarrow> prefix_row list" where
  "children records parent =
     map (\<lambda>(child, members). prefix_entry child members)
       (sort_key fst (group_by (\<lambda>r. child_of parent (kr_key r)) (filter (\<lambda>r. stored_under parent (kr_key r)) records)))"

subsection \<open>Volumes and the summary\<close>

record volume_row =
  vr_volume :: vid
  vr_hostname :: string
  vr_transport :: "string option"
  vr_keys :: nat
  vr_bytes :: real
  vr_reachable :: bool

definition volume_members :: "key_record list \<Rightarrow> vid \<Rightarrow> key_record list" where
  "volume_members records v = concat (map (\<lambda>r. map (\<lambda>_. r) (filter (\<lambda>v'. v' = v) (kr_volumes r))) records)"

definition volume_row_of :: "key_record list \<Rightarrow> vid \<times> string \<Rightarrow> volume_row" where
  "volume_row_of records = (\<lambda>(v, hostname).
     let members = volume_members records v in
     \<lparr>vr_volume = v, vr_hostname = hostname, vr_transport = None, vr_keys = length members,
      vr_bytes = sum_list (map kr_bytes members), vr_reachable = True\<rparr>)"

definition build_volumes ::
  "'s live_store \<Rightarrow> key_record list \<Rightarrow> volume_row list \<times> (string \<times> volume_row list) list" where
  "build_volumes st records =
     (let volumes = map (volume_row_of records) (ls_hosts st)
      in (volumes, group_by (\<lambda>v. ''host:'' @ vr_hostname v) volumes))"

record group_row =
  gr_group :: string
  gr_volumes :: nat
  gr_keys :: nat
  gr_bytes :: real
  gr_reachable :: nat

record summary =
  su_schema :: nat
  su_captured :: string
  su_store :: string
  su_strategy :: string
  su_volumes :: nat
  su_keys :: nat
  su_bytes :: real
  su_partial :: nat
  su_groups :: "group_row list"
  su_prefixes :: "prefix_row list"
  su_histogram :: "(nat \<times> nat) list"

definition group_row_of :: "string \<times> volume_row list \<Rightarrow> group_row" where
  "group_row_of = (\<lambda>(g, vs). \<lparr>gr_group = g, gr_volumes = length vs, gr_keys = sum_list (map vr_keys vs),
     gr_bytes = sum_list (map vr_bytes vs), gr_reachable = length vs\<rparr>)"

definition build_summary_dict ::
  "string \<Rightarrow> string \<Rightarrow> string \<Rightarrow> key_record list \<Rightarrow> volume_row list \<Rightarrow> (string \<times> volume_row list) list \<Rightarrow> summary" where
  "build_summary_dict captured_at store_name strategy_name records volumes groups =
     (let n_partial = how_many partial records; committed = length records - n_partial in
      \<lparr>su_schema = 1, su_captured = captured_at, su_store = store_name, su_strategy = strategy_name,
       su_volumes = length volumes, su_keys = length records, su_bytes = sum_list (map kr_bytes records),
       su_partial = n_partial, su_groups = map group_row_of (sort_key fst groups),
       su_prefixes = children records [],
       su_histogram = (if committed \<noteq> 0 then [(100, committed)] else []) @
                      (if n_partial \<noteq> 0 then [(0, n_partial)] else [])\<rparr>)"

subsection \<open>Pages and orders\<close>

definition DEFAULT_LIMIT :: int where
  "DEFAULT_LIMIT = 200"

definition decode_cursor :: "string option \<Rightarrow> int" where
  "decode_cursor cursor =
     (case cursor of
        None \<Rightarrow> 0
      | Some s \<Rightarrow> if s = [] then 0 else (case py_int s of Inl _ \<Rightarrow> 0 | Inr n \<Rightarrow> max 0 n))"

text \<open>\<^verbatim>\<open>xs[a:b]\<close>, an index below zero counted from the end.\<close>

definition py_slice :: "int \<Rightarrow> int \<Rightarrow> 'a list \<Rightarrow> 'a list" where
  "py_slice a b xs =
     (let n = int (length xs); clamp = (\<lambda>i. nat (if i < 0 then max 0 (i + n) else min i n))
      in drop (clamp a) (take (clamp b) xs))"

definition paginate :: "'a list \<Rightarrow> int option \<Rightarrow> string option \<Rightarrow> 'a list \<times> string option" where
  "paginate items limit cursor =
     (let start = decode_cursor cursor;
          lim = (case limit of Some l \<Rightarrow> l | None \<Rightarrow> DEFAULT_LIMIT)
      in (py_slice start (start + lim) items,
          if start + lim < int (length items) then Some (str_int (start + lim)) else None))"

text \<open>\<^verbatim>\<open>sorted(xs, key=..., reverse=...)\<close> keeps equals in their order both ways.\<close>

definition py_sorted :: "('a \<Rightarrow> 'k :: linorder) \<Rightarrow> bool \<Rightarrow> 'a list \<Rightarrow> 'a list" where
  "py_sorted k reverse xs = (if reverse then rev (sort_key k (rev xs)) else sort_key k xs)"

definition or_else :: "string option \<Rightarrow> string \<Rightarrow> string" where
  "or_else x d = (case x of None \<Rightarrow> d | Some s \<Rightarrow> if s = [] then d else s)"

definition reverse_order :: "string \<Rightarrow> string option \<Rightarrow> bool" where
  "reverse_order sort_by order =
     (if order = Some ''asc'' then False else if order = Some ''desc'' then True else sort_by \<noteq> ''name'')"

definition sort_prefixes :: "prefix_row list \<Rightarrow> string option \<Rightarrow> string option \<Rightarrow> prefix_row list" where
  "sort_prefixes rows sort_by order =
     (let k = or_else sort_by ''partial''; r = reverse_order k order in
      if k = ''name'' then py_sorted pr_prefix r rows
      else if k \<in> {''keys'', ''bytes'', ''reachable''} then py_sorted pr_keys r rows
      else py_sorted pr_partial r rows)"

definition sort_volumes :: "volume_row list \<Rightarrow> string option \<Rightarrow> string option \<Rightarrow> volume_row list" where
  "sort_volumes vs sort_by order =
     (let k = or_else sort_by ''bytes''; r = reverse_order k order in
      if k = ''name'' then py_sorted vr_volume r vs
      else if k \<in> {''keys'', ''partial''} then py_sorted vr_keys r vs
      else if k = ''reachable'' then py_sorted vr_reachable r vs
      else py_sorted vr_bytes r vs)"

definition sort_key_matches :: "key_row list \<Rightarrow> string option \<Rightarrow> string option \<Rightarrow> key_row list" where
  "sort_key_matches ms sort_by order =
     (let k = or_else sort_by ''partial''; r = reverse_order k order in
      if k \<in> {''name'', ''keys'', ''bytes''} then py_sorted ke_key r ms
      else if k = ''reachable'' then py_sorted ke_committed r ms
      else py_sorted (\<lambda>m. \<not> ke_committed m) r ms)"

subsection \<open>The responses\<close>

record store_state =
  ss_records :: "key_record list"
  ss_volumes :: "volume_row list"
  ss_groups :: "(string \<times> volume_row list) list"

record list_request =
  rq_target :: "string option"
  rq_kind :: "string option"
  rq_sort_by :: "string option"
  rq_order :: "string option"
  rq_limit :: "int option"
  rq_cursor :: "string option"

definition text_or :: "string option \<Rightarrow> string" where
  "text_or x = (case x of None \<Rightarrow> [] | Some s \<Rightarrow> s)"

definition gather_state :: "'s live_store \<Rightarrow> store_state res" where
  "gather_state st =
     bindr (ls_keys st) (\<lambda>ks.
       let all_keys = sort ks in
       bindr (ls_locate st all_keys) (\<lambda>located.
       let records = collect_keys st located all_keys; (volumes, groups) = build_volumes st records in
       Inr \<lparr>ss_records = records, ss_volumes = volumes, ss_groups = groups\<rparr>))"

definition build_summary :: "'s live_store \<Rightarrow> string \<Rightarrow> string \<Rightarrow> summary res" where
  "build_summary st captured_at store_name =
     bindr (gather_state st) (\<lambda>s.
       Inr (build_summary_dict captured_at store_name (ls_strategy st) (ss_records s) (ss_volumes s) (ss_groups s)))"

definition build_expand_prefix :: "'s live_store \<Rightarrow> list_request \<Rightarrow> (prefix_row list \<times> string option) res" where
  "build_expand_prefix st req =
     bindr (gather_state st) (\<lambda>s.
       Inr (paginate (sort_prefixes (children (ss_records s) (text_or (rq_target req))) (rq_sort_by req) (rq_order req))
              (rq_limit req) (rq_cursor req)))"

definition build_list_volumes :: "'s live_store \<Rightarrow> list_request \<Rightarrow> (volume_row list \<times> string option) res" where
  "build_list_volumes st req =
     bindr (gather_state st) (\<lambda>s.
       Inr (paginate (sort_volumes (dget (ss_groups s) (text_or (rq_target req)) []) (rq_sort_by req) (rq_order req))
              (rq_limit req) (rq_cursor req)))"

definition build_key :: "'s live_store \<Rightarrow> string option \<Rightarrow> key_row res" where
  "build_key st k =
     (if text_or k = [] then Inl KeyError
      else bindr (ls_locate st [text_or k]) (\<lambda>located.
           case collect_keys st located [text_or k] of [] \<Rightarrow> Inl KeyError | r # _ \<Rightarrow> Inr (key_entry r)))"

text \<open>\<^verbatim>\<open>pattern in text\<close>.\<close>

fun occurs_in :: "string \<Rightarrow> string \<Rightarrow> bool" where
  "occurs_in p [] = (p = [])"
| "occurs_in p (c # cs) = (prefix p (c # cs) \<or> occurs_in p cs)"

datatype search_page = VolumePage "volume_row list" "string option" | KeyPage "key_row list" "string option"

definition build_search :: "'s live_store \<Rightarrow> list_request \<Rightarrow> search_page res" where
  "build_search st req =
     (let pattern = text_or (rq_target req) in
      bindr (gather_state st) (\<lambda>s.
        if rq_kind req = Some ''volume'' then
          let matches = filter (\<lambda>v. occurs_in pattern (vr_volume v) \<or> occurs_in pattern (vr_hostname v))
                (concat (map snd (ss_groups s)));
              (window, cursor) = paginate (sort_volumes matches (rq_sort_by req) (rq_order req))
                (rq_limit req) (rq_cursor req)
          in Inr (VolumePage window cursor)
        else
          let matches = map key_entry (filter (\<lambda>r. occurs_in pattern (kr_key r)) (ss_records s));
              (window, cursor) = paginate (sort_key_matches matches (rq_sort_by req) (rq_order req))
                (rq_limit req) (rq_cursor req)
          in Inr (KeyPage window cursor)))"

definition build_peek :: "'s live_store \<Rightarrow> string option \<Rightarrow> 's res" where
  "build_peek st k =
     (if text_or k = [] then Inl KeyError
      else case ls_stats st (text_or k) of None \<Rightarrow> Inl KeyError | Some stats \<Rightarrow> Inr stats)"

subsection \<open>Reading every page\<close>

text \<open>A reader that asks for the next page until there is none.\<close>

fun read_pages :: "nat \<Rightarrow> 'a list \<Rightarrow> int option \<Rightarrow> string option \<Rightarrow> 'a list list option" where
  "read_pages 0 items limit cursor = None"
| "read_pages (Suc fuel) items limit cursor =
     (case paginate items limit cursor of
        (window, None) \<Rightarrow> Some [window]
      | (window, Some c) \<Rightarrow> map_option (Cons window) (read_pages fuel items limit (Some c)))"

lemma decode_printed: "0 \<le> n \<Longrightarrow> decode_cursor (Some (str_int n)) = n"
  by (simp add: decode_cursor_def py_int_str) (simp add: str_int_def)

lemma py_slice_in: "0 \<le> a \<Longrightarrow> a \<le> b \<Longrightarrow> py_slice a b xs = take (nat (b - a)) (drop (nat a) xs)"
  by (simp add: py_slice_def Let_def take_drop min_def nat_diff_distrib)

lemma read_pages_from:
  assumes "0 < page" "decode_cursor cursor = int start" "length items \<le> start + fuel * nat page" "0 < fuel"
  shows "\<exists>pages. read_pages fuel items (Some page) cursor = Some pages \<and> concat pages = drop start items \<and>
    (\<forall>p \<in> set pages. int (length p) \<le> page)"
  using assms
proof (induction fuel arbitrary: cursor start)
  case (Suc fuel)
  let ?w = "take (nat page) (drop start items)"
  have window: "py_slice (int start) (int start + page) items = ?w" using Suc.prems(1) py_slice_in [of "int start" "int start + page" items] by simp
  show ?case
  proof (cases "int start + page < int (length items)")
    case False
    then have "?w = drop start items" using Suc.prems(1) by simp
    with False Suc.prems(1) show ?thesis by (auto simp: paginate_def Suc.prems(2) window Let_def)
  next
    case True
    let ?next = "start + nat page"
    have "decode_cursor (Some (str_int (int start + page))) = int ?next" using Suc.prems(1) by (simp add: decode_printed)
    moreover have "0 < fuel" using True Suc.prems(1,3) by (cases fuel) (auto simp: nat_add_distrib)
    ultimately obtain pages where "read_pages fuel items (Some page) (Some (str_int (int start + page))) = Some pages"
      "concat pages = drop ?next items" "\<forall>p \<in> set pages. int (length p) \<le> page"
      using Suc.IH [of "Some (str_int (int start + page))" ?next] Suc.prems(1,3) by (auto simp: algebra_simps)
    moreover have "paginate items (Some page) cursor = (?w, Some (str_int (int start + page)))"
      using True by (simp add: paginate_def Suc.prems(2) window Let_def)
    moreover have "?w @ drop ?next items = drop start items"
      by (metis append_take_drop_id drop_drop add.commute)
    moreover have "int (length ?w) \<le> page" using Suc.prems(1) by simp
    ultimately show ?thesis by simp
  qed
qed simp

text \<open>C25: reading page after page, each asked for with the cursor the last one came with, gives back
  exactly the list, every row once and in order, in pages of at most the limit: the printed cursor is
  read back as the position it stood for.\<close>

theorem pages_give_back_the_list:
  assumes "0 < page"
  shows "\<exists>pages. read_pages (length items + 1) items (Some page) None = Some pages \<and> concat pages = items \<and>
    (\<forall>p \<in> set pages. int (length p) \<le> page)"
proof -
  have "length items \<le> 0 + (length items + 1) * nat page" using assms by (cases "nat page") auto
  from read_pages_from [OF assms, of None 0, OF _ this] show ?thesis by (simp add: decode_cursor_def)
qed

lemma pages_give_back_the_list_witness:
  "\<exists>pages. read_pages (length [1, 2, 3, 4, 5 :: nat] + 1) [1, 2, 3, 4, 5 :: nat] (Some 2) None = Some pages \<and> concat pages = [1, 2, 3, 4, 5] \<and>
    (\<forall>p \<in> set pages. int (length p) \<le> 2)"
  by (rule pages_give_back_the_list) simp

text \<open>A limit of zero is not refused: its reader is handed the same cursor for ever.\<close>

lemma zero_limit_never_ends: "items \<noteq> [] \<Longrightarrow> read_pages fuel items (Some 0) None = None"
proof -
  assume ne: "items \<noteq> []"
  have "read_pages fuel items (Some 0) cursor = None" if "decode_cursor cursor = 0" for cursor
    using that
  proof (induction fuel arbitrary: cursor)
    case (Suc fuel)
    from Suc.IH [of "Some (str_int 0)"] Suc.prems ne show ?case
      by (simp add: paginate_def Let_def decode_printed)
  qed simp
  then show ?thesis by (simp add: decode_cursor_def)
qed

subsection \<open>Which DTensors are whole\<close>

lemma py_product_iff: "c \<in> set (py_product ds) \<longleftrightarrow> list_all2 (\<lambda>i d. 0 \<le> i \<and> i < d) c ds"
proof (induction ds arbitrary: c)
  case (Cons d ds)
  have "c \<in> set (py_product (d # ds)) \<longleftrightarrow> (\<exists>z zs. c = z # zs \<and> 0 \<le> z \<and> z < d \<and> zs \<in> set (py_product ds))"
    by fastforce
  then show ?case by (simp add: Cons.IH list_all2_Cons2)
qed simp

text \<open>Committed: the coordinates present are exactly the box of the mesh shape.\<close>

lemma committed_iff:
  assumes "slices_of vm \<noteq> []" "\<forall>s \<in> set (slices_of vm). sl_mesh_shape s = shape"
  shows "is_fully_committed TENSOR_SLICE vm \<longleftrightarrow>
    (\<forall>c. list_all2 (\<lambda>i d. 0 \<le> i \<and> i < d) c shape \<longleftrightarrow> (\<exists>s \<in> set (slices_of vm). sl_coordinates s = c))"
proof -
  have "sl_mesh_shape (last (slices_of vm)) = shape" using assms by simp
  then have "is_fully_committed TENSOR_SLICE vm \<longleftrightarrow>
      set (map sl_coordinates (slices_of vm)) = set (py_product shape)"
    using assms(1) by (simp add: is_fully_committed_def Let_def)
  also have "\<dots> \<longleftrightarrow> (\<forall>c. c \<in> set (py_product shape) \<longleftrightarrow> c \<in> sl_coordinates ` set (slices_of vm))"
    by auto
  finally show ?thesis by (auto simp: py_product_iff image_iff)
qed

subsection \<open>What a group holds\<close>

lemma group_by_snoc: "group_by f (xs @ [x]) = group_add f x (group_by f xs)"
  by (simp add: group_by_def)

lemma group_by_map: "map_of (group_by f xs) k = (let ys = filter (\<lambda>x. f x = k) xs in if ys = [] then None else Some ys)"
proof (induction xs arbitrary: k rule: rev_induct)
  case Nil
  then show ?case by (simp add: group_by_def)
next
  case (snoc x xs)
  show ?case
    by (auto simp: group_by_snoc group_add_def AList.update_conv' dget_def snoc Let_def filter_empty_conv)
qed

lemma group_by_distinct: "distinct (map fst (group_by f xs))"
  by (induction xs rule: rev_induct) (simp_all add: group_by_snoc group_add_def distinct_update, simp add: group_by_def)

lemma update_mset:
  "mset (concat (map snd (AList.update k (dget g k [] @ [x]) g))) = add_mset x (mset (concat (map snd g)))"
  by (induction g) (auto simp: dget_def)

lemma group_by_mset: "mset (concat (map snd (group_by f xs))) = mset xs"
proof (induction xs rule: rev_induct)
  case Nil
  then show ?case by (simp add: group_by_def)
next
  case (snoc x xs)
  then show ?case by (simp add: group_by_snoc group_add_def update_mset)
qed

lemma group_by_members: "(k, ms) \<in> set (group_by f xs) \<Longrightarrow> ms = filter (\<lambda>x. f x = k) xs \<and> ms \<noteq> []"
  using map_of_is_SomeI [OF group_by_distinct [of f xs], of k ms] by (auto simp: group_by_map Let_def split: if_splits)

lemma how_many_Nil [simp]: "how_many P [] = 0"
  by (simp add: how_many_def)

lemma how_many_kinds:
  "how_many (\<lambda>m. kr_type m = OBJECT) ms + how_many (\<lambda>m. kr_type m = TENSOR) ms +
   how_many (\<lambda>m. kr_type m = TENSOR_SLICE) ms = length ms"
  "how_many partial ms \<le> how_many (\<lambda>m. kr_type m = TENSOR_SLICE) ms"
proof -
  show "how_many (\<lambda>m. kr_type m = OBJECT) ms + how_many (\<lambda>m. kr_type m = TENSOR) ms +
     how_many (\<lambda>m. kr_type m = TENSOR_SLICE) ms = length ms"
  proof (induction ms)
    case (Cons m ms)
    then show ?case by (cases "kr_type m") (simp_all add: how_many_def)
  qed (simp add: how_many_def)
  show "how_many partial ms \<le> how_many (\<lambda>m. kr_type m = TENSOR_SLICE) ms"
    unfolding how_many_def by (induction ms) (auto simp: partial_def)
qed

lemma sum_over_groups:
  "mset (concat (map snd gs)) = mset xs \<Longrightarrow>
     sum_list (map (\<lambda>g. sum_list (map h (snd g))) gs) = (sum_list (map h xs) :: 'b :: comm_monoid_add)"
proof -
  assume m: "mset (concat (map snd gs)) = mset xs"
  have "sum_list (map (\<lambda>g. sum_list (map h (snd g))) gs) = sum_list (map h (concat (map snd gs)))"
    by (induction gs) simp_all
  also have "\<dots> = sum_mset (image_mset h (mset (concat (map snd gs))))" by (metis mset_map sum_mset_sum_list)
  also have "\<dots> = sum_list (map h xs)" unfolding m by (metis mset_map sum_mset_sum_list)
  finally show ?thesis .
qed

lemma sort_groups_mset: "mset (concat (map snd (sort_key fst gs))) = mset (concat (map snd gs))"
  by (simp add: mset_concat flip: sum_mset_sum_list)

lemma sorted_groups_mset: "mset (concat (map snd (sort_key fst (group_by f xs)))) = mset xs"
  by (simp only: sort_groups_mset group_by_mset)

lemma level_counts:
  "sum_list (map pr_keys (children records parent)) = how_many (\<lambda>r. stored_under parent (kr_key r)) records"
  "sum_list (map pr_bytes (children records parent)) =
     sum_list (map kr_bytes (filter (\<lambda>r. stored_under parent (kr_key r)) records))"
proof -
  define rs where "rs = filter (\<lambda>r. stored_under parent (kr_key r)) records"
  define f :: "key_record \<Rightarrow> string" where "f = (\<lambda>r. child_of parent (kr_key r))"
  have ch: "children records parent = map (\<lambda>g. prefix_entry (fst g) (snd g)) (sort_key fst (group_by f rs))"
    by (simp add: children_def rs_def f_def case_prod_beta')
  show "sum_list (map pr_keys (children records parent)) = how_many (\<lambda>r. stored_under parent (kr_key r)) records"
    using sum_over_groups [OF sorted_groups_mset [of f rs], of "\<lambda>_. 1 :: nat"]
    by (simp add: ch o_def prefix_entry_def sum_list_triv rs_def how_many_def)
  show "sum_list (map pr_bytes (children records parent)) =
      sum_list (map kr_bytes (filter (\<lambda>r. stored_under parent (kr_key r)) records))"
    using sum_over_groups [OF sorted_groups_mset [of f rs], of kr_bytes]
    by (simp add: ch o_def prefix_entry_def rs_def)
qed

text \<open>One level of the key trie divides what is stored under it: the rows are strictly ordered,
  each counts exactly the stored keys that continue with its segment, at least one, every one under
  one kind; and the rows together count every key under the parent once, and its bytes.\<close>

theorem children_partition:
  "sorted_wrt (<) (map pr_prefix (children records parent)) \<and>
   (\<forall>row \<in> set (children records parent).
      pr_keys row = how_many (\<lambda>r. stored_under parent (kr_key r) \<and> child_of parent (kr_key r) = pr_prefix row) records \<and>
      0 < pr_keys row \<and> pr_objects row + pr_tensors row + pr_dtensors row = pr_keys row \<and>
      pr_partial row \<le> pr_dtensors row) \<and>
   sum_list (map pr_keys (children records parent)) = how_many (\<lambda>r. stored_under parent (kr_key r)) records \<and>
   sum_list (map pr_bytes (children records parent)) =
     sum_list (map kr_bytes (filter (\<lambda>r. stored_under parent (kr_key r)) records))"
proof -
  define rs where "rs = filter (\<lambda>r. stored_under parent (kr_key r)) records"
  define f :: "key_record \<Rightarrow> string" where "f = (\<lambda>r. child_of parent (kr_key r))"
  let ?gs = "sort_key fst (group_by f rs)"
  have ch: "children records parent = map (\<lambda>g. prefix_entry (fst g) (snd g)) ?gs"
    by (simp add: children_def rs_def f_def case_prod_beta')
  have prefixes: "map pr_prefix (children records parent) = map fst ?gs"
    by (simp add: ch o_def prefix_entry_def)
  have "distinct (map fst ?gs)"
    using group_by_distinct [of f rs] mset_eq_imp_distinct_iff [of "map fst ?gs" "map fst (group_by f rs)"] by simp
  then have "sorted_wrt (<) (map pr_prefix (children records parent))"
    unfolding prefixes by (simp add: strict_sorted_iff)
  moreover have "pr_keys row = how_many (\<lambda>r. stored_under parent (kr_key r) \<and> child_of parent (kr_key r) = pr_prefix row) records \<and>
      0 < pr_keys row \<and> pr_objects row + pr_tensors row + pr_dtensors row = pr_keys row \<and> pr_partial row \<le> pr_dtensors row"
    if "row \<in> set (children records parent)" for row
  proof -
    from that obtain k ms where g: "(k, ms) \<in> set (group_by f rs)" "row = prefix_entry k ms" by (auto simp: ch)
    from group_by_members [OF g(1)] have "ms = filter (\<lambda>r. f r = k) rs" "ms \<noteq> []" by auto
    then show ?thesis
      using how_many_kinds [of ms]
      by (simp add: g(2) prefix_entry_def how_many_def rs_def f_def conj_commute)
  qed
  ultimately show ?thesis using level_counts by blast
qed

definition one_object :: key_record where
  "one_object = \<lparr>kr_key = ''a.b'', kr_type = OBJECT, kr_dtype = None, kr_global_shape = None,
      kr_mesh_shape = None, kr_committed = True, kr_shards = [], kr_bytes = 0, kr_volumes = [''v'']\<rparr>"

lemma children_partition_witness:
  "(\<exists>row \<in> set (children [one_object] []). pr_prefix row = ''a'' \<and> 0 < pr_keys row \<and> pr_partial row \<le> pr_dtensors row) \<and>
   sum_list (map pr_keys (children [one_object] [])) = 1"
proof -
  have rows: "map pr_prefix (children [one_object] []) = [''a'']"
    by (simp add: one_object_def children_def group_by_def group_add_def child_of_def stored_under_def parent_dot_def
        dget_def prefix_entry_def)
  then obtain row where "row \<in> set (children [one_object] [])" "pr_prefix row = ''a''" by (cases "children [one_object] []") auto
  moreover have "how_many (\<lambda>r. stored_under [] (kr_key r)) [one_object] = 1" by (simp add: how_many_def stored_under_def)
  ultimately show ?thesis using children_partition [of "[one_object]" "[]"] unfolding One_nat_def by metis
qed

text \<open>
  A key that is itself a prefix of another is nobody's leaf: the comment beside \<open>is_leaf\<close> calls a
  node a leaf iff it is a stored key, and the code asks as well that nothing is stored below it.
\<close>

lemma shadowed_key_no_leaf:
  assumes "r1 \<in> set records" "r2 \<in> set records" "kr_key r1 = k" "kr_key r2 = k @ ''.'' @ x"
    and "row \<in> set (children records parent)" "pr_prefix row = k"
  shows "\<not> pr_leaf row"
proof -
  define f :: "key_record \<Rightarrow> string" where "f = (\<lambda>r. child_of parent (kr_key r))"
  define rs where "rs = filter (\<lambda>r. stored_under parent (kr_key r)) records"
  from assms(5,6) obtain ms where g: "(k, ms) \<in> set (group_by f rs)" "row = prefix_entry k ms"
    by (auto simp: children_def prefix_entry_def f_def rs_def)
  from group_by_members [OF g(1)] have ms: "ms = filter (\<lambda>r. f r = k) rs" "ms \<noteq> []" by auto
  then obtain r where "r \<in> set rs" "f r = k" by (auto simp: filter_empty_conv)
  then have start: "prefix (parent_dot parent) k" by (auto simp: f_def child_of_def)
  obtain seg where k: "k = parent_dot parent @ seg" using start by (auto simp: prefix_def)
  have "seg = takeWhile (\<lambda>c. c \<noteq> CHR ''.'') (drop (length (parent_dot parent)) (kr_key r))"
    using \<open>f r = k\<close> unfolding f_def child_of_def k by (simp only: same_append_eq)
  then have "\<forall>c \<in> set seg. c \<noteq> CHR ''.''" by (metis set_takeWhileD)
  then have whole: "takeWhile (\<lambda>c. c \<noteq> CHR ''.'') seg = seg" "takeWhile (\<lambda>c. c \<noteq> CHR ''.'') (seg @ ''.'' @ x) = seg"
    by (auto simp: takeWhile_append takeWhile_eq_all_conv)
  have "r1 \<in> set ms" "r2 \<in> set ms"
    using assms(1-4) whole k by (auto simp: ms f_def rs_def child_of_def stored_under_def)
  moreover have "kr_key r1 \<noteq> kr_key r2" using assms(3,4) by simp
  ultimately have "length ms \<noteq> 1" by (cases ms) auto
  then show ?thesis by (simp add: g(2) prefix_entry_def)
qed

text \<open>Of a scalar tensor the code reports no bytes, as of an object.\<close>

lemma scalar_has_no_bytes:
  "ls_meta st v (FromAny k) = Inr [Sized [] dtype] \<Longrightarrow> si_type si = TENSOR \<Longrightarrow>
     key_meta st k TENSOR ((v, si) # vm) = Inr (Some [], Some dtype, 0)"
  by (simp add: key_meta_def pick_meta_request_def)

text \<open>The totals of a summary agree with everything below them: every located key is counted in one
  prefix and one bar of the histogram, its bytes in one prefix, and each volume, with its keys, in one
  group.\<close>

theorem summary_adds_up:
  assumes "gather_state st = Inr s" and "build_summary st captured_at store_name = Inr su"
  shows "su_keys su = length (ss_records s) \<and> sum_list (map pr_keys (su_prefixes su)) = su_keys su \<and>
    sum_list (map pr_bytes (su_prefixes su)) = su_bytes su \<and> sum_list (map snd (su_histogram su)) = su_keys su \<and>
    su_volumes su = length (ls_hosts st) \<and> sum_list (map gr_volumes (su_groups su)) = su_volumes su \<and>
    sum_list (map gr_keys (su_groups su)) = sum_list (map vr_keys (ss_volumes s)) \<and>
    sum_list (map gr_bytes (su_groups su)) = sum_list (map vr_bytes (ss_volumes s))"
proof -
  have su: "su = build_summary_dict captured_at store_name (ls_strategy st) (ss_records s) (ss_volumes s) (ss_groups s)"
    using assms by (simp add: build_summary_def)
  have groups: "ss_groups s = group_by (\<lambda>v. ''host:'' @ vr_hostname v) (ss_volumes s)"
    "length (ss_volumes s) = length (ls_hosts st)"
    using assms(1) by (auto simp: gather_state_def build_volumes_def Let_def res_simps)
  note sums = sum_over_groups [OF sorted_groups_mset [of "\<lambda>v. ''host:'' @ vr_hostname v" "ss_volumes s"]]
  have every: "filter (\<lambda>r. stored_under [] (kr_key r)) rs = rs" for rs :: "key_record list" by (simp add: stored_under_def)
  have prefixes: "sum_list (map pr_keys (children (ss_records s) [])) = length (ss_records s)"
    "sum_list (map pr_bytes (children (ss_records s) [])) = sum_list (map kr_bytes (ss_records s))"
    using level_counts [of "ss_records s" "[]"] by (simp_all add: how_many_def every)
  moreover have "sum_list (map gr_volumes (su_groups su)) = length (ss_volumes s)"
    using sums [of "\<lambda>_. 1 :: nat"] by (simp add: su build_summary_dict_def group_row_of_def groups(1) o_def case_prod_beta' sum_list_triv Let_def)
  moreover have "sum_list (map gr_keys (su_groups su)) = sum_list (map vr_keys (ss_volumes s))"
    using sums [of vr_keys] by (simp add: su build_summary_dict_def group_row_of_def groups(1) o_def case_prod_beta' Let_def)
  moreover have "sum_list (map gr_bytes (su_groups su)) = sum_list (map vr_bytes (ss_volumes s))"
    using sums [of vr_bytes] by (simp add: su build_summary_dict_def group_row_of_def groups(1) o_def case_prod_beta' Let_def)
  moreover have "sum_list (map snd (su_histogram su)) = length (ss_records s)"
  proof -
    have "how_many partial (ss_records s) \<le> length (ss_records s)" by (simp add: how_many_def)
    then show ?thesis unfolding su build_summary_dict_def Let_def by (simp split: if_split)
  qed
  ultimately show ?thesis
    using groups(2) by (simp add: su build_summary_dict_def Let_def)
qed

text \<open>A store of one object and one whole tensor, on one volume each.\<close>

definition small_store :: "unit live_store" where
  "small_store = \<lparr>ls_keys = Inr [''w.b'', ''w.a''],
     ls_locate = (\<lambda>ks. Inr (map (\<lambda>k. (k, if k = ''w.a'' then [(''v1'', \<lparr>si_type = OBJECT, si_slices = []\<rparr>)]
        else [(''v2'', \<lparr>si_type = TENSOR, si_slices = []\<rparr>)])) ks)),
     ls_meta = (\<lambda>v _. Inr [if v = ''v1'' then ObjEntry else Sized [2, 3] ''float32'']),
     ls_itemsize = (\<lambda>_. 4), ls_hosts = [(''v1'', ''h''), (''v2'', ''h'')], ls_strategy = ''host'', ls_stats = (\<lambda>_. None)\<rparr>"

lemma small_gathered: "\<exists>s. gather_state small_store = Inr s \<and> length (ss_records s) = 2 \<and>
    sum_list (map kr_bytes (ss_records s)) = 24 \<and> length (ss_groups s) = 1"
  by (simp add: gather_state_def small_store_def build_volumes_def volume_row_of_def key_meta_def record_of_def
      pick_meta_request_def group_by_def group_add_def dget_def Let_def)

lemma summary_adds_up_witness:
  "\<exists>su. build_summary small_store ''now'' ''torchstore'' = Inr su \<and> su_keys su = 2 \<and>
     sum_list (map pr_keys (su_prefixes su)) = 2 \<and> sum_list (map gr_volumes (su_groups su)) = 2"
proof -
  from small_gathered obtain s where s: "gather_state small_store = Inr s" "length (ss_records s) = 2" by blast
  moreover obtain su where su: "build_summary small_store ''now'' ''torchstore'' = Inr su"
    using s(1) by (simp add: build_summary_def)
  moreover have "length (ls_hosts small_store) = 2" by (simp add: small_store_def)
  ultimately show ?thesis using summary_adds_up [OF s(1) su] by auto
qed

end
