(* ===== verification/Directory.thy ===== *)
theory Directory
  imports Prelude "HOL-Library.Sublist"
begin

section \<open>A directory that is a dict\<close>

text \<open>
  \<^verbatim>\<open>realsim/seams/dict_directory.py\<close>: the stand-in for the controller's trie. A key is split into tokens
  on a separator; a prefix matches token by token. An abstract directory is a finite map from keys.
\<close>

text \<open>\<^verbatim>\<open>s.split(sep)\<close>: left to right, not overlapping.\<close>

function split_go :: "string \<Rightarrow> string \<Rightarrow> string \<Rightarrow> string list" where
  "split_go sep acc [] = [rev acc]"
| "split_go sep acc (c # cs) =
     (if sep \<noteq> [] \<and> prefix sep (c # cs) then rev acc # split_go sep [] (drop (length sep) (c # cs))
      else split_go sep (c # acc) cs)"
  by pat_completeness auto
termination
  by (relation "measure (\<lambda>(sep, acc, s). length s)") auto

definition py_split :: "string \<Rightarrow> string \<Rightarrow> string list res" where
  "py_split sep s = (if sep = [] then Inl ValueError else Inr (split_go sep [] s))"

record 'v dict_directory =
  dd_data :: "(key \<times> 'v) list"
  dd_separator :: string

definition directory_init :: "string \<Rightarrow> 'v dict_directory" where
  "directory_init sep = \<lparr>dd_data = [], dd_separator = sep\<rparr>"

definition getitem :: "'v dict_directory \<Rightarrow> key \<Rightarrow> 'v res" where
  "getitem d k = dindex (dd_data d) k"

definition setitem :: "key \<Rightarrow> 'v \<Rightarrow> 'v dict_directory \<Rightarrow> 'v dict_directory" where
  "setitem k v d = d\<lparr>dd_data := AList.update k v (dd_data d)\<rparr>"

definition delitem :: "key \<Rightarrow> 'v dict_directory \<Rightarrow> 'v dict_directory res" where
  "delitem k d =
     (case map_of (dd_data d) k of
        None \<Rightarrow> Inl KeyError
      | Some _ \<Rightarrow> Inr (d\<lparr>dd_data := AList.delete k (dd_data d)\<rparr>))"

definition dir_iter :: "'v dict_directory \<Rightarrow> key list" where
  "dir_iter d = map fst (dd_data d)"

definition dir_len :: "'v dict_directory \<Rightarrow> nat" where
  "dir_len d = length (dd_data d)"

definition dir_contains :: "key \<Rightarrow> 'v dict_directory \<Rightarrow> bool" where
  "dir_contains k d = (k \<in> set (map fst (dd_data d)))"

definition filter_by_prefix :: "'v dict_directory \<Rightarrow> string \<Rightarrow> key list res" where
  "filter_by_prefix d p =
     bindr (py_split (dd_separator d) p) (\<lambda>prefix_tokens.
       let n = length prefix_tokens in
       bindr (res_map (\<lambda>k. bindr (py_split (dd_separator d) k) (\<lambda>ts. Inr (k, take n ts = prefix_tokens))) (dir_iter d))
         (\<lambda>marked. Inr (map fst (filter snd marked))))"

subsection \<open>Tokens of a one-character separator\<close>

fun tokens :: "char \<Rightarrow> string \<Rightarrow> string list" where
  "tokens c [] = [[]]"
| "tokens c (x # xs) =
     (if x = c then [] # tokens c xs else (x # hd (tokens c xs)) # tl (tokens c xs))"

lemma tokens_ne [simp]: "tokens c s \<noteq> []" "[] \<noteq> tokens c s"
  by (cases s; auto)+

lemma split_go_tokens: "split_go [c] acc s = (rev acc @ hd (tokens c s)) # tl (tokens c s)"
  by (induction "[c]" acc s rule: split_go.induct) auto

lemma py_split_char: "py_split [c] s = Inr (tokens c s)"
  using split_go_tokens [of c "[]" s] by (simp add: py_split_def)

lemma tokens_head_empty: "hd (tokens c s) = [] \<longleftrightarrow> s = [] \<or> hd s = c"
  by (cases s) auto

lemma tokens_prefix:
  "take (length (tokens c p)) (tokens c k) = tokens c p \<longleftrightarrow> k = p \<or> prefix (p @ [c]) k"
proof (induction p arbitrary: k)
  case Nil
  have "take 1 (tokens c k) = [[]] \<longleftrightarrow> hd (tokens c k) = []" by (cases "tokens c k") auto
  then show ?case by (cases k) (auto simp: tokens_head_empty)
next
  case (Cons x xs)
  show ?case
  proof (cases k)
    case Nil
    then show ?thesis by (cases "tokens c xs") auto
  next
    case (Cons y ys)
    obtain a as where as: "tokens c xs = a # as" by (cases "tokens c xs") auto
    obtain b bs where bs: "tokens c ys = b # bs" by (cases "tokens c ys") auto
    show ?thesis using Cons.IH [of ys] by (auto simp: \<open>k = y # ys\<close> as bs)
  qed
qed

subsection \<open>The directory as a map\<close>

definition directory_map :: "'v dict_directory \<Rightarrow> key \<rightharpoonup> 'v" where
  "directory_map d = map_of (dd_data d)"

definition directory_wf :: "char \<Rightarrow> 'v dict_directory \<Rightarrow> bool" where
  "directory_wf c d \<longleftrightarrow> distinct (map fst (dd_data d)) \<and> dd_separator d = [c]"

text \<open>What a map answers to a prefix: the key itself and everything below it.\<close>

definition below :: "char \<Rightarrow> (key \<rightharpoonup> 'v) \<Rightarrow> string \<Rightarrow> key set" where
  "below c m p = {k \<in> dom m. k = p \<or> prefix (p @ [c]) k}"

text \<open>C26: \<open>DictDirectory\<close> is a finite map: each operation does to the map what its name says, refuses
  exactly an absent key, and keeps the representation; and its prefix filter, which splits every key
  into tokens, answers each key that is the prefix or continues it past a separator, once.\<close>

theorem directory_refines_map:
  assumes "directory_wf c d"
  shows "directory_wf c (setitem k v d) \<and> directory_map (setitem k v d) = (directory_map d)(k \<mapsto> v) \<and>
    (case delitem k d of
       Inl e \<Rightarrow> e = KeyError \<and> directory_map d k = None
     | Inr d' \<Rightarrow> k \<in> dom (directory_map d) \<and> directory_wf c d' \<and> directory_map d' = (directory_map d)(k := None)) \<and>
    (case getitem d k of
       Inl e \<Rightarrow> e = KeyError \<and> directory_map d k = None | Inr v' \<Rightarrow> directory_map d k = Some v') \<and>
    dir_contains k d = (k \<in> dom (directory_map d)) \<and> dir_len d = card (dom (directory_map d)) \<and>
    set (dir_iter d) = dom (directory_map d) \<and>
    (\<exists>ks. filter_by_prefix d p = Inr ks \<and> distinct ks \<and> set ks = below c (directory_map d) p)"
proof -
  note wf = assms [unfolded directory_wf_def]
  have sep: "dd_separator d = [c]" using wf by simp
  have split: "py_split (dd_separator d) s = Inr (tokens c s)" for s unfolding sep by (rule py_split_char)
  have "filter_by_prefix d p = Inr (filter (\<lambda>k. take (length (tokens c p)) (tokens c k) = tokens c p) (dir_iter d))"
    by (simp add: filter_by_prefix_def split Let_def o_def filter_map)
  moreover have "set (filter (\<lambda>k. take (length (tokens c p)) (tokens c k) = tokens c p) (dir_iter d)) =
      below c (directory_map d) p"
    by (auto simp: below_def tokens_prefix dir_iter_def directory_map_def dom_map_of_conv_image_fst)
  moreover have "distinct (filter (\<lambda>k. take (length (tokens c p)) (tokens c k) = tokens c p) (dir_iter d))"
    using wf by (simp add: dir_iter_def)
  moreover have "directory_wf c (setitem k v d)" "directory_map (setitem k v d) = (directory_map d)(k \<mapsto> v)"
    using wf by (simp_all add: directory_wf_def directory_map_def setitem_def distinct_update update_conv')
  moreover have "case delitem k d of Inl e \<Rightarrow> e = KeyError \<and> directory_map d k = None
      | Inr d' \<Rightarrow> k \<in> dom (directory_map d) \<and> directory_wf c d' \<and> directory_map d' = (directory_map d)(k := None)"
    using wf by (auto simp: delitem_def directory_wf_def directory_map_def delete_conv' distinct_delete split: option.splits)
  moreover have "case getitem d k of Inl e \<Rightarrow> e = KeyError \<and> directory_map d k = None | Inr v' \<Rightarrow> directory_map d k = Some v'"
    by (simp add: getitem_def dindex_def directory_map_def split: option.splits)
  moreover have "dir_len d = card (dom (directory_map d))"
    using wf by (simp add: dir_len_def directory_map_def dom_map_of_conv_image_fst distinct_card flip: set_map length_map)
  ultimately show ?thesis
    by (simp add: dir_contains_def dir_iter_def directory_map_def dom_map_of_conv_image_fst)
qed

lemma directory_refines_map_witness:
  "\<exists>ks. filter_by_prefix (setitem ''a.b'' (1 :: nat) (setitem ''a.bc'' 2 (directory_init ''.''))) ''a.b'' = Inr ks \<and>
     set ks = {''a.b''}"
proof -
  let ?d = "setitem ''a.b'' (1 :: nat) (setitem ''a.bc'' 2 (directory_init ''.''))"
  have "directory_wf CHR ''.'' ?d" by (simp add: directory_wf_def setitem_def directory_init_def)
  from directory_refines_map [OF this, of "''a.b''" 1 "''a.b''"]
  have "\<exists>ks. filter_by_prefix ?d ''a.b'' = Inr ks \<and> set ks = below CHR ''.'' (directory_map ?d) ''a.b''" by blast
  moreover have "below CHR ''.'' (directory_map ?d) ''a.b'' = {''a.b''}"
    by (auto simp: below_def directory_map_def setitem_def directory_init_def split: if_splits)
  ultimately show ?thesis by simp
qed

end
