(* ===== verification/Resources.thy ===== *)
theory Resources
  imports CostModel
begin

section \<open>Contention for a shared resource\<close>

text \<open>
  \<^verbatim>\<open>sim_common/resources.py\<close>: a channel is one resource (a source's egress, a volume's read or
  write side). A transfer's future is known by its seq; a timer the channel keeps on the loop is
  the time it is due. Capacities are finite here unless an \<open>ext\<close> says otherwise: a channel divides
  by them.
\<close>

record transfer =
  tr_seq :: nat
  remaining :: real
  tr_latency :: time
  tr_capacity :: real

definition solo_cost :: "transfer \<Rightarrow> time" where
  "solo_cost t = tr_latency t + remaining t / tr_capacity t"

subsection \<open>One transfer at a time\<close>

text \<open>The state of the channel, and the one timer it has on the loop while busy.\<close>

record serialize_channel =
  sc_queue :: "transfer list"
  sc_busy :: bool
  sc_timer :: "(time \<times> transfer) option"

definition serialize_init :: serialize_channel where
  "serialize_init = \<lparr>sc_queue = [], sc_busy = False, sc_timer = None\<rparr>"

definition start_next :: "time \<Rightarrow> serialize_channel \<Rightarrow> serialize_channel" where
  "start_next now ch =
     (case sc_queue ch of
        [] \<Rightarrow> ch\<lparr>sc_busy := False, sc_timer := None\<rparr>
      | t # q \<Rightarrow> ch\<lparr>sc_queue := q, sc_busy := True, sc_timer := Some (now + solo_cost t, t)\<rparr>)"

definition serialize_register :: "time \<Rightarrow> transfer \<Rightarrow> serialize_channel \<Rightarrow> serialize_channel" where
  "serialize_register now t ch =
     (let ch' = ch\<lparr>sc_queue := sc_queue ch @ [t]\<rparr>
      in if \<not> sc_busy ch then start_next now ch' else ch')"

text \<open>The timer firing: the transfer it was set for is resolved at that instant.\<close>

definition serialize_finish :: "time \<Rightarrow> serialize_channel \<Rightarrow> serialize_channel" where
  "serialize_finish now ch = start_next now ch"

text \<open>
  A channel driven by a loop: arrivals in time order, each timer firing when due, a timer due at
  the instant of an arrival first. The answer is who finished, in order, and when.
\<close>

lemma start_next_le:
  "length (sc_queue (start_next now ch)) + (if sc_timer (start_next now ch) = None then 0 else 1) \<le> length (sc_queue ch)"
  by (auto simp: start_next_def split: list.splits)

lemma register_le:
  "length (sc_queue (serialize_register now t ch)) + (if sc_timer (serialize_register now t ch) = None then 0 else 1)
     \<le> Suc (length (sc_queue ch) + (if sc_timer ch = None then 0 else 1))"
  using start_next_le [of now "ch\<lparr>sc_queue := sc_queue ch @ [t]\<rparr>"]
  by (auto simp: serialize_register_def Let_def)

function serialize_run :: "(time \<times> transfer) list \<Rightarrow> serialize_channel \<Rightarrow> (nat \<times> time) list" where
  "serialize_run arrivals ch =
     (case sc_timer ch of
        None \<Rightarrow>
          (case arrivals of [] \<Rightarrow> [] | (tm, u) # rest \<Rightarrow> serialize_run rest (serialize_register tm u ch))
      | Some (due, t) \<Rightarrow>
          if arrivals = [] \<or> due \<le> fst (hd arrivals)
          then (tr_seq t, due) # serialize_run arrivals (serialize_finish due ch)
          else serialize_run (tl arrivals) (serialize_register (fst (hd arrivals)) (snd (hd arrivals)) ch))"
  by auto

termination
proof (relation "measure (\<lambda>(arrivals, ch). 2 * length arrivals + (length (sc_queue ch) +
        (if sc_timer ch = None then 0 else 1)))", goal_cases)
  case 1
  then show ?case by simp
next
  case (2 arrivals ch a rest tm u)
  with register_le [of tm u ch] show ?case by simp
next
  case (3 arrivals ch d due t)
  with start_next_le [of due ch] show ?case by (simp add: serialize_finish_def)
next
  case (4 arrivals ch d due t)
  then obtain a rest where "arrivals = a # rest" by (cases arrivals) auto
  with 4 register_le [of "fst a" "snd a" ch] show ?case by simp
qed

declare serialize_run.simps [simp del]

text \<open>The reference: each transfer starts when it has arrived and the one before it is done.\<close>

fun fifo_finish :: "time \<Rightarrow> (time \<times> transfer) list \<Rightarrow> (nat \<times> time) list" where
  "fifo_finish free [] = []"
| "fifo_finish free ((tm, t) # rest) =
     (let done = max tm free + solo_cost t in (tr_seq t, done) # fifo_finish done rest)"

text \<open>Only an arrival after the resource is free shows.\<close>

lemma fifo_finish_cong:
  "list_all2 (\<lambda>(a, t) (b, u). t = u \<and> 0 \<le> solo_cost t \<and> (a = b \<or> (a \<le> free \<and> b \<le> free))) xs ys \<Longrightarrow>
     fifo_finish free xs = fifo_finish free ys"
proof (induction free xs arbitrary: ys rule: fifo_finish.induct)
  case (2 free tm t rest)
  then obtain b ys' where ys: "ys = (b, t) # ys'" and cost: "0 \<le> solo_cost t"
    and same: "tm = b \<or> (tm \<le> free \<and> b \<le> free)"
    and rest: "list_all2 (\<lambda>(a, t) (b, u). t = u \<and> 0 \<le> solo_cost t \<and> (a = b \<or> (a \<le> free \<and> b \<le> free))) rest ys'"
    by (auto simp: list_all2_Cons1)
  have m: "max tm free = max b free" using same by auto
  have "list_all2 (\<lambda>(a, t) (b, u). t = u \<and> 0 \<le> solo_cost t \<and>
      (a = b \<or> (a \<le> max tm free + solo_cost t' \<and> b \<le> max tm free + solo_cost t'))) rest ys'"
    if "0 \<le> solo_cost t'" for t'
    using rest
  proof (rule list.rel_mono_strong)
    fix y z :: "real \<times> transfer"
    have "free \<le> max tm free + solo_cost t'" using that by simp
    moreover assume "(case y of (a, t) \<Rightarrow> \<lambda>(b, u). t = u \<and> 0 \<le> solo_cost t \<and> (a = b \<or> (a \<le> free \<and> b \<le> free))) z"
    ultimately show "(case y of (a, t) \<Rightarrow> \<lambda>(b, u). t = u \<and> 0 \<le> solo_cost t \<and>
        (a = b \<or> (a \<le> max tm free + solo_cost t' \<and> b \<le> max tm free + solo_cost t'))) z"
      by (auto split: prod.splits)
  qed
  from "2.IH" [OF refl this [OF cost]] ys m show ?case by (simp add: Let_def)
qed simp

abbreviation same_start :: "time \<Rightarrow> time \<times> transfer \<Rightarrow> time \<times> transfer \<Rightarrow> bool" where
  "same_start free \<equiv> (\<lambda>(a, t) (b, u). t = u \<and> 0 \<le> solo_cost t \<and> (a = b \<or> (a \<le> free \<and> b \<le> free)))"

lemma same_start_refl: "\<forall>u \<in> snd ` set xs. 0 \<le> solo_cost u \<Longrightarrow> list_all2 (same_start free) xs xs"
  by (induction xs) auto

lemma same_start_queue:
  "\<forall>u \<in> set q. 0 \<le> solo_cost u \<Longrightarrow> a \<le> free \<Longrightarrow> b \<le> free \<Longrightarrow>
     list_all2 (same_start free) (map (Pair a) q) (map (Pair b) q)"
  by (induction q) auto

definition serialize_wf :: "serialize_channel \<Rightarrow> bool" where
  "serialize_wf ch \<longleftrightarrow> (sc_busy ch \<longleftrightarrow> sc_timer ch \<noteq> None) \<and> (sc_timer ch = None \<longrightarrow> sc_queue ch = [])"

lemma serialize_wf_init: "serialize_wf serialize_init"
  by (simp add: serialize_wf_def serialize_init_def)

lemma serialize_run_fifo:
  assumes "serialize_wf ch" "sorted (map fst arrivals)"
    and "\<forall>u \<in> set (sc_queue ch) \<union> snd ` set arrivals. 0 \<le> solo_cost u"
  shows "serialize_run arrivals ch =
    (case sc_timer ch of
       None \<Rightarrow> (case arrivals of [] \<Rightarrow> [] | (tm, u) # rest \<Rightarrow> fifo_finish tm arrivals)
     | Some (due, t) \<Rightarrow> (tr_seq t, due) # fifo_finish due (map (Pair due) (sc_queue ch) @ arrivals))"
  using assms
proof (induction arrivals ch rule: serialize_run.induct)
  case (1 arrivals ch)
  show ?case
  proof (cases "sc_timer ch")
    case None
    show ?thesis
    proof (cases arrivals)
      case Nil
      with None show ?thesis by (simp add: serialize_run.simps)
    next
      case (Cons a rest)
      obtain tm u where a: "a = (tm, u)" by (cases a)
      let ?ch = "serialize_register tm u ch"
      have reg: "?ch = ch\<lparr>sc_queue := [], sc_busy := True, sc_timer := Some (tm + solo_cost u, u)\<rparr>"
        using None "1.prems"(1) by (simp add: serialize_register_def start_next_def serialize_wf_def)
      have "serialize_run rest ?ch = (tr_seq u, tm + solo_cost u) # fifo_finish (tm + solo_cost u) rest"
        using "1.IH"(1) [OF None Cons a [symmetric]] "1.prems" Cons a reg
        by (simp add: serialize_wf_def)
      moreover have "serialize_run arrivals ch = serialize_run rest ?ch"
        using None Cons a by (subst serialize_run.simps) simp
      ultimately show ?thesis using None Cons a by (simp add: Let_def)
    qed
  next
    case (Some d)
    obtain due t where d: "d = (due, t)" by (cases d)
    have busy: "sc_busy ch" using "1.prems"(1) Some by (simp add: serialize_wf_def)
    show ?thesis
    proof (cases "arrivals = [] \<or> due \<le> fst (hd arrivals)")
      case True
      have run: "serialize_run arrivals ch = (tr_seq t, due) # serialize_run arrivals (serialize_finish due ch)"
        using Some d True by (subst serialize_run.simps) simp
      note ih = "1.IH"(2) [OF Some d [symmetric] True]
      show ?thesis
      proof (cases "sc_queue ch")
        case Nil
        have fin: "serialize_finish due ch = ch\<lparr>sc_busy := False, sc_timer := None\<rparr>"
          using Nil by (simp add: serialize_finish_def start_next_def)
        have "fifo_finish tm arrivals = fifo_finish due arrivals" if "arrivals = (tm, u) # rest" for tm u rest
          using True that by (simp add: max_absorb1)
        with ih run Some d fin Nil "1.prems" show ?thesis
          by (auto simp: serialize_wf_def split: list.splits)
      next
        case (Cons u q)
        have fin: "serialize_finish due ch = ch\<lparr>sc_queue := q, sc_busy := True, sc_timer := Some (due + solo_cost u, u)\<rparr>"
          using Cons by (simp add: serialize_finish_def start_next_def)
        have "fifo_finish (due + solo_cost u) (map (Pair (due + solo_cost u)) q @ arrivals) =
            fifo_finish (due + solo_cost u) (map (Pair due) q @ arrivals)"
          using "1.prems"(3) Cons
          by (intro fifo_finish_cong list_all2_appendI same_start_refl same_start_queue) auto
        with ih run Some d fin Cons "1.prems" show ?thesis
          by (simp add: serialize_wf_def Let_def)
      qed
    next
      case False
      then obtain tm u rest where arr: "arrivals = (tm, u) # rest" "tm < due"
        by (cases arrivals) auto
      have run: "serialize_run arrivals ch = serialize_run rest (serialize_register tm u ch)"
        using Some d False arr by (subst serialize_run.simps) simp
      have reg: "serialize_register tm u ch = ch\<lparr>sc_queue := sc_queue ch @ [u]\<rparr>"
        using busy by (simp add: serialize_register_def)
      have "serialize_run rest (serialize_register tm u ch) =
          (tr_seq t, due) # fifo_finish due (map (Pair due) (sc_queue ch @ [u]) @ rest)"
        using "1.IH"(3) [OF Some d [symmetric] False] "1.prems" arr reg Some d by (simp add: serialize_wf_def)
      moreover have "fifo_finish due (map (Pair due) (sc_queue ch @ [u]) @ rest) =
          fifo_finish due (map (Pair due) (sc_queue ch) @ arrivals)"
        using "1.prems"(3) arr
        by (auto intro!: fifo_finish_cong list_all2_appendI same_start_refl same_start_queue
            simp: less_imp_le)
      ultimately show ?thesis using run Some d by simp
    qed
  qed
qed

text \<open>What a transfer must be for its cost to be one.\<close>

definition wf_transfer :: "transfer \<Rightarrow> bool" where
  "wf_transfer t \<longleftrightarrow> 0 \<le> tr_latency t \<and> 0 \<le> remaining t \<and> 0 < tr_capacity t"

lemma solo_cost_nonneg: "wf_transfer t \<Longrightarrow> 0 \<le> solo_cost t"
  by (simp add: wf_transfer_def solo_cost_def)

text \<open>C9: a serialized resource serves its transfers first come first served and back to back:
  driven by the loop, each finishes at its own analytic cost after the later of its arrival and
  its predecessor's end, and so the last of \<open>n\<close> that arrive together ends at the sum of their
  solo costs.\<close>

theorem serialize_is_fifo:
  assumes "sorted (map fst arrivals)" and "\<forall>(tm, t) \<in> set arrivals. 0 \<le> tm \<and> wf_transfer t"
  shows "serialize_run arrivals serialize_init = fifo_finish 0 arrivals"
proof -
  have costs: "\<forall>u \<in> set (sc_queue serialize_init) \<union> snd ` set arrivals. 0 \<le> solo_cost u"
    using assms(2) by (fastforce simp: serialize_init_def intro: solo_cost_nonneg)
  show ?thesis
    using serialize_run_fifo [OF serialize_wf_init assms(1) costs] assms(2)
    by (auto simp: serialize_init_def split: list.splits)
qed

lemma fifo_finish_nonempty: "xs \<noteq> [] \<Longrightarrow> fifo_finish free xs \<noteq> []"
  by (cases xs) (auto simp: Let_def)

lemma fifo_together:
  "ts \<noteq> [] \<Longrightarrow> \<forall>t \<in> set ts. 0 \<le> solo_cost t \<Longrightarrow> a \<le> free \<Longrightarrow>
     snd (last (fifo_finish free (map (Pair a) ts))) = free + sum_list (map solo_cost ts)"
proof (induction ts arbitrary: free)
  case (Cons t ts)
  have step: "max a free = free" "a \<le> free + solo_cost t" using Cons.prems by auto
  show ?case
  proof (cases "ts = []")
    case True
    with step show ?thesis by (simp add: Let_def)
  next
    case False
    from Cons.IH [OF this _ step(2)] Cons.prems step(1) False fifo_finish_nonempty
    show ?thesis by (simp add: Let_def)
  qed
qed simp

lemma serialize_is_fifo_witness:
  "serialize_run [(0, \<lparr>tr_seq = 1, remaining = 10, tr_latency = 1, tr_capacity = 5\<rparr>),
                  (2, \<lparr>tr_seq = 2, remaining = 10, tr_latency = 1, tr_capacity = 5\<rparr>)] serialize_init =
     [(1, 3), (2, 6)]"
  by (subst serialize_is_fifo) (auto simp: wf_transfer_def solo_cost_def Let_def)

subsection \<open>Max-min fair sharing\<close>

text \<open>
  A transfer enters after its latency; from then on every active one gets an equal share of the
  capacity. \<open>pc_handles\<close> is the completion timer each active transfer has on the loop.
\<close>

record progressive_channel =
  pc_capacity :: real
  pc_active :: "(nat \<times> transfer) list"
  pc_rate :: real
  pc_last :: time
  pc_handles :: "(nat \<times> time) list"

definition progressive_init :: "real \<Rightarrow> time \<Rightarrow> progressive_channel" where
  "progressive_init capacity now =
     \<lparr>pc_capacity = capacity, pc_active = [], pc_rate = 0, pc_last = now, pc_handles = []\<rparr>"

text \<open>Registering only sets the warm-up timer: the instant the transfer enters.\<close>

definition progressive_register :: "time \<Rightarrow> transfer \<Rightarrow> time" where
  "progressive_register now t = now + tr_latency t"

definition debit :: "real \<Rightarrow> transfer \<Rightarrow> transfer" where
  "debit moved t = t\<lparr>remaining := (if remaining t - moved < 0 then 0 else remaining t - moved)\<rparr>"

definition advance :: "time \<Rightarrow> progressive_channel \<Rightarrow> progressive_channel" where
  "advance now ch =
     (let elapsed = now - pc_last ch; moved = elapsed * pc_rate ch
      in ch\<lparr>pc_active := (if 0 < elapsed then map (\<lambda>(s, t). (s, debit moved t)) (pc_active ch) else pc_active ch),
            pc_last := now\<rparr>)"

definition recompute :: "time \<Rightarrow> progressive_channel \<Rightarrow> progressive_channel" where
  "recompute now ch =
     (let k = length (pc_active ch);
          rate = (if k = 0 then 0 else pc_capacity ch / real k)
      in ch\<lparr>pc_rate := rate,
            pc_handles := map (\<lambda>s. (s, now + remaining (the (map_of (pc_active ch) s)) / rate))
              (sort (dkeys (pc_active ch)))\<rparr>)"

definition enter :: "time \<Rightarrow> transfer \<Rightarrow> progressive_channel \<Rightarrow> progressive_channel" where
  "enter now t ch =
     (let ch' = advance now ch
      in recompute now (ch'\<lparr>pc_active := AList.update (tr_seq t) t (pc_active ch')\<rparr>))"

definition complete :: "time \<Rightarrow> nat \<Rightarrow> progressive_channel \<Rightarrow> progressive_channel \<times> bool" where
  "complete now s ch =
     (let ch' = advance now ch
      in case map_of (pc_active ch') s of
           None \<Rightarrow> (ch', False)
         | Some t \<Rightarrow> (recompute now (ch'\<lparr>pc_active := AList.delete s (pc_active ch')\<rparr>), True))"

text \<open>Bytes still to move on the channel.\<close>

definition backlog :: "progressive_channel \<Rightarrow> real" where
  "backlog ch = sum_list (map (\<lambda>(s, t). remaining t) (pc_active ch))"

text \<open>
  The invariant between events: the share is equal and uses the whole capacity, and every active
  transfer has one completion timer, at the instant its bytes run out at that share.
\<close>

definition fair :: "progressive_channel \<Rightarrow> bool" where
  "fair ch \<longleftrightarrow> 0 < pc_capacity ch \<and> dwf (pc_active ch) \<and>
     (\<forall>(s, t) \<in> set (pc_active ch). 0 \<le> remaining t) \<and>
     (pc_active ch \<noteq> [] \<longrightarrow> pc_rate ch * real (length (pc_active ch)) = pc_capacity ch) \<and>
     mset (pc_handles ch) = mset (map (\<lambda>(s, t). (s, pc_last ch + remaining t / pc_rate ch)) (pc_active ch))"

lemma fair_init: "0 < c \<Longrightarrow> fair (progressive_init c now)"
  by (simp add: fair_def progressive_init_def)

lemma recompute_fair:
  assumes "0 < pc_capacity ch" "dwf (pc_active ch)" "\<forall>(s, t) \<in> set (pc_active ch). 0 \<le> remaining t"
    and "pc_last ch = now"
  shows "fair (recompute now ch)"
proof -
  let ?r = "if length (pc_active ch) = 0 then 0 else pc_capacity ch / real (length (pc_active ch))"
  let ?h = "\<lambda>s. (s, now + remaining (the (map_of (pc_active ch) s)) / ?r)"
  have "mset (map ?h (sort (dkeys (pc_active ch)))) = mset (map ?h (dkeys (pc_active ch)))"
    by (simp only: mset_map mset_sort)
  also have "map ?h (dkeys (pc_active ch)) = map (\<lambda>(s, t). (s, now + remaining t / ?r)) (pc_active ch)"
    unfolding map_map
  proof (rule map_cong [OF refl])
    fix p assume p: "p \<in> set (pc_active ch)"
    obtain s t where st: "p = (s, t)" by (cases p)
    then have "map_of (pc_active ch) s = Some t" using assms(2) p by (simp add: map_of_is_SomeI)
    then show "(?h \<circ> fst) p = (\<lambda>(s, t). (s, now + remaining t / ?r)) p" using st by simp
  qed
  finally have handles: "mset (map ?h (sort (dkeys (pc_active ch)))) =
      mset (map (\<lambda>(s, t). (s, now + remaining t / ?r)) (pc_active ch))" .
  have shape: "pc_active (recompute now ch) = pc_active ch" "pc_capacity (recompute now ch) = pc_capacity ch"
    "pc_rate (recompute now ch) = ?r" "pc_last (recompute now ch) = now"
    "pc_handles (recompute now ch) = map ?h (sort (dkeys (pc_active ch)))"
    using assms(4) by (simp_all add: recompute_def Let_def)
  have "pc_active ch \<noteq> [] \<longrightarrow> ?r * real (length (pc_active ch)) = pc_capacity ch" by simp
  with handles assms(1-3) show ?thesis unfolding fair_def shape by blast
qed

lemma advance_simps [simp]:
  "pc_capacity (advance now ch) = pc_capacity ch" "pc_last (advance now ch) = now"
  "dkeys (pc_active (advance now ch)) = dkeys (pc_active ch)"
  "pc_rate (advance now ch) = pc_rate ch"
  "length (pc_active (advance now ch)) = length (pc_active ch)"
  by (auto simp: advance_def Let_def comp_def case_prod_beta)

text \<open>Up to the earliest timer nothing is clamped: every active transfer moves its whole share.\<close>

lemma fair_rate:
  assumes "fair ch" "pc_active ch \<noteq> []"
  shows "0 < pc_rate ch"
proof -
  have "0 < pc_rate ch * real (length (pc_active ch))" using assms by (simp add: fair_def)
  moreover have "0 < real (length (pc_active ch))" using assms(2) by simp
  ultimately show ?thesis by (simp only: zero_less_mult_pos2)
qed

lemma fair_handle:
  "fair ch \<Longrightarrow> (s, t) \<in> set (pc_active ch) \<Longrightarrow> (s, pc_last ch + remaining t / pc_rate ch) \<in> set (pc_handles ch)"
proof -
  assume f: "fair ch" and m: "(s, t) \<in> set (pc_active ch)"
  have "set (pc_handles ch) = set (map (\<lambda>(s, t). (s, pc_last ch + remaining t / pc_rate ch)) (pc_active ch))"
    using f by (metis fair_def mset_eq_setD)
  with m show ?thesis by force
qed

lemma advance_exact:
  assumes "fair ch" "pc_last ch \<le> now" "\<forall>(s, due) \<in> set (pc_handles ch). now \<le> due"
  shows "pc_active (advance now ch) =
    map (\<lambda>(s, t). (s, t\<lparr>remaining := remaining t - (now - pc_last ch) * pc_rate ch\<rparr>)) (pc_active ch)"
    and "\<forall>(s, t) \<in> set (pc_active (advance now ch)). 0 \<le> remaining t"
proof -
  have enough: "(now - pc_last ch) * pc_rate ch \<le> remaining t" if m: "(s, t) \<in> set (pc_active ch)" for s t
  proof -
    have r: "0 < pc_rate ch" using m by (intro fair_rate [OF assms(1)]) auto
    have "now \<le> pc_last ch + remaining t / pc_rate ch"
      using fair_handle [OF assms(1) m] assms(3) by auto
    then have "now - pc_last ch \<le> remaining t / pc_rate ch" by simp
    with r show ?thesis by (simp add: pos_le_divide_eq)
  qed
  show eq: "pc_active (advance now ch) =
    map (\<lambda>(s, t). (s, t\<lparr>remaining := remaining t - (now - pc_last ch) * pc_rate ch\<rparr>)) (pc_active ch)"
    using assms(2) enough
    by (auto simp: advance_def Let_def debit_def intro!: map_idI [symmetric]) (fastforce)+
  show "\<forall>(s, t) \<in> set (pc_active (advance now ch)). 0 \<le> remaining t"
    unfolding eq using enough by auto
qed

lemma advance_fair:
  assumes "fair ch" "pc_last ch \<le> now" "\<forall>(s, due) \<in> set (pc_handles ch). now \<le> due"
  shows "fair (advance now ch)"
proof -
  let ?r = "pc_rate ch" and ?m = "(now - pc_last ch) * pc_rate ch"
  have act: "pc_active (advance now ch) = map (\<lambda>(s, t). (s, t\<lparr>remaining := remaining t - ?m\<rparr>)) (pc_active ch)"
    by (rule advance_exact(1) [OF assms])
  have same: "now + (remaining t - ?m) / ?r = pc_last ch + remaining t / ?r" if "pc_active ch \<noteq> []" for t
    using fair_rate [OF assms(1) that] by (simp add: field_simps)
  have handles: "map (\<lambda>(s, t). (s, now + remaining t / ?r)) (pc_active (advance now ch)) =
      map (\<lambda>(s, t). (s, pc_last ch + remaining t / ?r)) (pc_active ch)"
    unfolding act map_map
  proof (rule map_cong [OF refl])
    fix p assume p: "p \<in> set (pc_active ch)"
    then have "pc_active ch \<noteq> []" by auto
    from same [OF this] show "((\<lambda>(s, t). (s, now + remaining t / ?r)) \<circ>
        (\<lambda>(s, t). (s, t\<lparr>remaining := remaining t - ?m\<rparr>))) p = (\<lambda>(s, t). (s, pc_last ch + remaining t / ?r)) p"
      by (cases p) simp
  qed
  have shape: "pc_handles (advance now ch) = pc_handles ch" by (simp add: advance_def Let_def)
  have keys: "dkeys (pc_active (advance now ch)) = dkeys (pc_active ch)" by simp
  have empty: "pc_active (advance now ch) = [] \<longleftrightarrow> pc_active ch = []" using act by simp
  show ?thesis
    using assms(1) advance_exact(2) [OF assms] handles keys empty
    unfolding fair_def advance_simps shape by simp
qed

lemma backlog_advance:
  assumes "fair ch" "pc_last ch \<le> now" "\<forall>(s, due) \<in> set (pc_handles ch). now \<le> due"
  shows "backlog (advance now ch) =
    backlog ch - (if pc_active ch = [] then 0 else (now - pc_last ch) * pc_capacity ch)"
proof -
  let ?m = "(now - pc_last ch) * pc_rate ch"
  have sum: "sum_list (map (\<lambda>(s, t). remaining t - ?m) d) =
      sum_list (map (\<lambda>(s, t). remaining t) d) - ?m * real (length d)" for d :: "(nat \<times> transfer) list"
    by (induction d) (auto simp: algebra_simps)
  have "backlog (advance now ch) = sum_list (map (\<lambda>(s, t). remaining t - ?m) (pc_active ch))"
    unfolding backlog_def advance_exact(1) [OF assms] map_map
    by (intro arg_cong [where f = sum_list] map_cong) auto
  also have "\<dots> = backlog ch - ?m * real (length (pc_active ch))" unfolding sum backlog_def ..
  also have "?m * real (length (pc_active ch)) =
      (if pc_active ch = [] then 0 else (now - pc_last ch) * pc_capacity ch)"
    using assms(1) by (auto simp: fair_def)
  finally show ?thesis .
qed

lemma recompute_simps [simp]:
  "pc_active (recompute now ch) = pc_active ch" "pc_capacity (recompute now ch) = pc_capacity ch"
  "pc_last (recompute now ch) = pc_last ch"
  by (simp_all add: recompute_def Let_def)

lemma backlog_recompute [simp]: "backlog (recompute now ch) = backlog ch"
  by (simp add: backlog_def)

lemma recompute_keeps_fair:
  assumes "fair ch" and "dwf d" "\<forall>(s, t) \<in> set d. 0 \<le> remaining t" and "pc_last ch = now"
  shows "fair (recompute now (ch\<lparr>pc_active := d\<rparr>))"
  using assms by (intro recompute_fair) (auto simp: fair_def)

lemma enter_fair:
  assumes "fair ch" "pc_last ch \<le> now" "\<forall>(s, due) \<in> set (pc_handles ch). now \<le> due"
    and "tr_seq t \<notin> set (dkeys (pc_active ch))" "0 \<le> remaining t"
  shows "fair (enter now t ch)" and "backlog (enter now t ch) = backlog (advance now ch) + remaining t"
    and "pc_last (enter now t ch) = now"
proof -
  let ?a = "advance now ch"
  have f: "fair ?a" by (rule advance_fair [OF assms(1-3)])
  have "tr_seq t \<notin> set (dkeys (pc_active ?a))" using assms(4) by simp
  then have up: "AList.update (tr_seq t) t (pc_active ?a) = pc_active ?a @ [(tr_seq t, t)]"
    by (rule update_append_absent)
  have "dwf (pc_active ?a @ [(tr_seq t, t)])" using f assms(4) by (auto simp: fair_def)
  moreover have "\<forall>(s, u) \<in> set (pc_active ?a @ [(tr_seq t, t)]). 0 \<le> remaining u"
    using advance_exact(2) [OF assms(1-3)] assms(5) by auto
  ultimately show "fair (enter now t ch)"
    unfolding enter_def Let_def up by (intro recompute_keeps_fair [OF f]) auto
  show "backlog (enter now t ch) = backlog ?a + remaining t"
    unfolding enter_def Let_def up by (simp add: backlog_def)
  show "pc_last (enter now t ch) = now" by (simp add: enter_def Let_def)
qed

text \<open>At the earliest timer, its transfer has nothing left to move.\<close>

lemma complete_fair:
  assumes "fair ch" "(s, due) \<in> set (pc_handles ch)" "\<forall>(u, d) \<in> set (pc_handles ch). due \<le> d"
  obtains t ch' where "complete due s ch = (ch', True)" "fair ch'"
    "map_of (pc_active (advance due ch)) s = Some t" "remaining t = 0"
    "backlog ch' = backlog ch - (due - pc_last ch) * pc_capacity ch"
    "pc_active ch' = AList.delete s (pc_active (advance due ch))" "pc_last ch' = due"
    "pc_capacity ch' = pc_capacity ch"
proof -
  let ?a = "advance due ch"
  have "set (pc_handles ch) = set (map (\<lambda>(s, t). (s, pc_last ch + remaining t / pc_rate ch)) (pc_active ch))"
    using assms(1) by (metis fair_def mset_eq_setD)
  with assms(2) obtain t where t: "(s, t) \<in> set (pc_active ch)" "due = pc_last ch + remaining t / pc_rate ch"
    by auto
  have ne: "pc_active ch \<noteq> []" using t(1) by auto
  have r: "0 < pc_rate ch" by (rule fair_rate [OF assms(1) ne])
  have "0 \<le> remaining t" using assms(1) t(1) by (auto simp: fair_def)
  with t(2) r have le: "pc_last ch \<le> due" by simp
  note adv = advance_fair [OF assms(1) le assms(3)] advance_exact [OF assms(1) le assms(3)]
  let ?t = "t\<lparr>remaining := remaining t - (due - pc_last ch) * pc_rate ch\<rparr>"
  have "(s, ?t) \<in> set (pc_active ?a)" unfolding adv(2) using t(1) by force
  moreover have dw: "dwf (pc_active ?a)" using adv(1) by (simp add: fair_def)
  ultimately have look: "map_of (pc_active ?a) s = Some ?t" by (simp add: map_of_is_SomeI)
  have zero: "remaining ?t = 0" using t(2) r by simp
  let ?ch = "recompute due (?a\<lparr>pc_active := AList.delete s (pc_active ?a)\<rparr>)"
  have comp: "complete due s ch = (?ch, True)" using look by (simp add: complete_def Let_def)
  have "fair ?ch"
  proof (rule recompute_keeps_fair [OF adv(1)])
    show "\<forall>(s, t) \<in> set (AList.delete s (pc_active ?a)). 0 \<le> remaining t"
      using adv(3) by (auto simp: AList.delete_eq)
  qed (use dw in \<open>auto\<close>)
  moreover have "backlog ?ch = backlog ?a"
  proof -
    have drop: "dwf d \<Longrightarrow> map_of d s = Some u \<Longrightarrow> remaining u = 0 \<Longrightarrow>
        sum_list (map (\<lambda>(s, t). remaining t) (AList.delete s d)) = sum_list (map (\<lambda>(s, t). remaining t) d)"
      for d :: "(nat \<times> transfer) list" and u
      by (induction d) (auto simp: delete_absent image_iff split: if_splits)
    show ?thesis unfolding backlog_recompute using drop [OF dw look zero] by (simp add: backlog_def)
  qed
  ultimately show thesis
    using that [OF comp _ look zero] backlog_advance [OF assms(1) le assms(3)] ne by simp
qed

text \<open>With no arrival left the loop fires the timers, the earliest first.\<close>

primrec drain :: "nat \<Rightarrow> progressive_channel \<Rightarrow> (nat \<times> time) list" where
  "drain 0 ch = []"
| "drain (Suc n) ch =
     (if pc_handles ch = [] then []
      else let (s, due) = arg_min_list snd (pc_handles ch)
           in (s, due) # drain n (fst (complete due s ch)))"

lemma backlog_empty: "pc_active ch = [] \<Longrightarrow> backlog ch = 0"
  by (simp add: backlog_def)

lemma fair_handles_Nil: "fair ch \<Longrightarrow> pc_handles ch = [] \<longleftrightarrow> pc_active ch = []"
  by (auto simp: fair_def)

text \<open>C8: fair sharing wastes no bandwidth: from any fair state, once nothing more arrives, the
  channel finishes every active transfer, each with all its bytes moved and once, and the last one
  at the instant the whole backlog has gone through at full capacity.\<close>

theorem sharing_conserves_work:
  assumes "fair ch" and "pc_active ch \<noteq> []"
  shows "mset (map fst (drain (length (pc_active ch)) ch)) = mset (dkeys (pc_active ch)) \<and>
    snd (last (drain (length (pc_active ch)) ch)) = pc_last ch + backlog ch / pc_capacity ch"
  using assms
proof (induction "length (pc_active ch)" arbitrary: ch)
  case (Suc n)
  obtain s due where sd: "arg_min_list snd (pc_handles ch) = (s, due)" by (cases "arg_min_list snd (pc_handles ch)")
  have ne: "pc_handles ch \<noteq> []" using Suc.prems by (simp add: fair_handles_Nil)
  have mem: "(s, due) \<in> set (pc_handles ch)" using arg_min_list_in [OF ne, of snd] sd by simp
  have least: "\<forall>(u, d) \<in> set (pc_handles ch). due \<le> d"
    using f_arg_min_list_f [OF ne, of snd] sd by (auto intro!: Min_le image_eqI [where x = "(_, _)"])
  obtain t ch' where c: "complete due s ch = (ch', True)" "fair ch'"
    "map_of (pc_active (advance due ch)) s = Some t"
    "backlog ch' = backlog ch - (due - pc_last ch) * pc_capacity ch"
    "pc_active ch' = AList.delete s (pc_active (advance due ch))" "pc_last ch' = due"
    "pc_capacity ch' = pc_capacity ch"
    by (rule complete_fair [OF Suc.prems(1) mem least])
  have dw: "dwf (pc_active ch)" using Suc.prems(1) by (simp add: fair_def)
  have keys: "dkeys (pc_active ch') = remove1 s (dkeys (pc_active ch))"
  proof -
    have del: "dkeys (AList.delete s d) = filter ((\<noteq>) s) (dkeys d)" for d :: "(nat \<times> transfer) list"
      by (induction d) auto
    have "dkeys (pc_active ch') = filter ((\<noteq>) s) (dkeys (pc_active ch))"
      unfolding c(5) del by (simp only: advance_simps)
    also have "\<dots> = remove1 s (dkeys (pc_active ch))" using dw by (simp add: distinct_remove1_removeAll removeAll_filter_not_eq)
    finally show ?thesis .
  qed
  have s_in: "s \<in> set (dkeys (pc_active ch))"
    using map_of_key_in [OF c(3)] by simp
  have "length (dkeys (pc_active ch')) = n"
    unfolding keys using Suc.hyps(2) s_in by (simp only: length_remove1 length_map) simp
  then have len: "n = length (pc_active ch')" by simp
  have drain: "drain (Suc n) ch = (s, due) # drain n ch'" using ne sd c(1) by simp
  have step: "mset (map fst (drain n ch')) = mset (dkeys (pc_active ch')) \<and>
      snd (last ((s, due) # drain n ch')) = due + backlog ch' / pc_capacity ch'"
  proof (cases "pc_active ch' = []")
    case True
    with len show ?thesis by (simp add: backlog_empty)
  next
    case False
    note ih = Suc.hyps(1) [OF len c(2) False, folded len]
    from False len obtain m where "n = Suc m" by (metis length_0_conv not0_implies_Suc)
    then have "drain n ch' \<noteq> []" using False c(2) by (auto simp: fair_handles_Nil split: prod.splits)
    with ih c(6) show ?thesis by simp
  qed
  have "mset (map fst (drain (Suc n) ch)) = mset (dkeys (pc_active ch))"
    unfolding drain using step s_in keys by simp
  moreover have "due + backlog ch' / pc_capacity ch' = pc_last ch + backlog ch / pc_capacity ch"
    using c(4,7) Suc.prems(1) by (simp add: fair_def field_simps)
  ultimately show ?case using step drain Suc.hyps(2) by simp
qed simp

text \<open>Two transfers, the second entering when the first is half done.\<close>

lemma sharing_conserves_work_witness:
  "let ch = enter 1 \<lparr>tr_seq = 3, remaining = 2, tr_latency = 1, tr_capacity = 2\<rparr>
        (enter 0 \<lparr>tr_seq = 2, remaining = 4, tr_latency = 0, tr_capacity = 2\<rparr> (progressive_init 2 0))
   in pc_active ch \<noteq> [] \<and> snd (last (drain (length (pc_active ch)) ch)) = 3"
proof -
  let ?c1 = "enter 0 \<lparr>tr_seq = 2, remaining = 4, tr_latency = 0, tr_capacity = 2\<rparr> (progressive_init 2 0)"
  let ?t = "\<lparr>tr_seq = 3, remaining = 2, tr_latency = 1, tr_capacity = 2\<rparr>"
  have c1: "fair ?c1" by (intro enter_fair fair_init) (auto simp: progressive_init_def)
  have v: "pc_active ?c1 = [(2, \<lparr>tr_seq = 2, remaining = 4, tr_latency = 0, tr_capacity = 2\<rparr>)]"
    "pc_handles ?c1 = [(2, 2)]" "pc_last ?c1 = 0" "pc_capacity ?c1 = 2" "pc_rate ?c1 = 2"
    by (simp_all add: enter_def advance_def recompute_def progressive_init_def Let_def)
  have f: "fair (enter 1 ?t ?c1)" by (rule enter_fair(1) [OF c1]) (simp_all add: v)
  have b: "backlog (enter 1 ?t ?c1) = 4"
    unfolding enter_fair(2) [OF c1, of 1 ?t, simplified v, simplified]
    by (subst backlog_advance [OF c1]) (simp_all add: v backlog_def)
  have p: "pc_active (enter 1 ?t ?c1) \<noteq> []" "pc_last (enter 1 ?t ?c1) = 1" "pc_capacity (enter 1 ?t ?c1) = 2"
    using v by (simp_all add: enter_def advance_def Let_def)
  from sharing_conserves_work [OF f p(1)] b p show ?thesis by (simp add: Let_def)
qed

end
