(* ===== verification/Retention.thy ===== *)
theory Retention
  imports Prelude
begin

section \<open>A bounded volume and what it drops\<close>

text \<open>
  \<^verbatim>\<open>realsim/seams/_retention.py\<close> and \<^verbatim>\<open>realsim/seams/volume_service.py\<close>. The ranking a volume asks
  for victims is swappable in the code, so it is a record of its four verbs here (\<open>policy\<close>), and
  the laws the volume relies on are the locale \<open>retention\<close>, interpreted on the code's own LRU. The
  backing \<^verbatim>\<open>InMemoryStore\<close> is torchstore's: its verbs are a record too (\<open>store_ops\<close>).
\<close>

subsection \<open>Least recently used\<close>

record lru =
  used :: "(key \<times> int) list"
  lru_bytes :: "(key \<times> int) list"
  lru_clock :: int

definition lru_init :: lru where
  "lru_init = \<lparr>used = [], lru_bytes = [], lru_clock = 0\<rparr>"

definition lru_note :: "key \<Rightarrow> int option \<Rightarrow> lru \<Rightarrow> lru" where
  "lru_note k nb r =
     (let c = lru_clock r + 1;
          r' = r\<lparr>lru_clock := c, used := AList.update k c (used r)\<rparr>
      in case nb of None \<Rightarrow> r' | Some n \<Rightarrow> r'\<lparr>lru_bytes := AList.update k n (lru_bytes r)\<rparr>)"

definition lru_forget :: "key \<Rightarrow> lru \<Rightarrow> lru" where
  "lru_forget k r = r\<lparr>used := AList.delete k (used r), lru_bytes := AList.delete k (lru_bytes r)\<rparr>"

definition coldest :: "lru \<Rightarrow> key list" where
  "coldest r = sort_key (\<lambda>k. (dget (used r) k 0, k)) (dkeys (used r))"

fun take_victims :: "(key \<Rightarrow> int) \<Rightarrow> int \<Rightarrow> key list \<Rightarrow> key list \<Rightarrow> int \<Rightarrow> key list" where
  "take_victims bytes_of need excl [] freed = []"
| "take_victims bytes_of need excl (k # ks) freed =
     (if need \<le> freed then []
      else if k \<in> set excl then take_victims bytes_of need excl ks freed
      else k # take_victims bytes_of need excl ks (freed + bytes_of k))"

definition lru_victims :: "int \<Rightarrow> key list \<Rightarrow> lru \<Rightarrow> key list" where
  "lru_victims need excl r = take_victims (\<lambda>k. dget (lru_bytes r) k 0) need excl (coldest r) 0"

definition lru_held :: "lru \<Rightarrow> key list" where
  "lru_held r = dkeys (used r)"

text \<open>What is taken: a prefix of the ranking less the excluded keys, just long enough.\<close>

lemma take_victims_prefix:
  "\<exists>n. take_victims bytes_of need excl ks freed = take n (filter (\<lambda>k. k \<notin> set excl) ks)"
proof (induction ks arbitrary: freed)
  case (Cons k ks)
  show ?case
  proof (cases "need \<le> freed")
    case True
    then show ?thesis by (intro exI [of _ 0]) simp
  next
    case False
    from Cons.IH [of freed] obtain n where n: "take_victims bytes_of need excl ks freed =
        take n (filter (\<lambda>k. k \<notin> set excl) ks)" ..
    from Cons.IH [of "freed + bytes_of k"] obtain m where m: "take_victims bytes_of need excl ks (freed + bytes_of k) =
        take m (filter (\<lambda>k. k \<notin> set excl) ks)" ..
    show ?thesis
    proof (cases "k \<in> set excl")
      case True
      with False n show ?thesis by auto
    next
      case k: False
      with False m show ?thesis by (intro exI [of _ "Suc m"]) simp
    qed
  qed
qed simp

lemma take_victims_enough:
  "need \<le> freed + sum_list (map bytes_of (take_victims bytes_of need excl ks freed)) \<or>
   take_victims bytes_of need excl ks freed = filter (\<lambda>k. k \<notin> set excl) ks"
proof (induction ks arbitrary: freed)
  case (Cons k ks)
  from Cons.IH [of freed] Cons.IH [of "freed + bytes_of k"] show ?case by (auto simp: algebra_simps)
qed simp

lemma take_victims_minimal:
  "take_victims bytes_of need excl ks freed = vs @ [v] \<Longrightarrow> freed + sum_list (map bytes_of vs) < need"
proof (induction ks arbitrary: freed vs)
  case (Cons k ks)
  show ?case
  proof (cases "need \<le> freed \<or> k \<in> set excl")
    case True
    with Cons show ?thesis by (auto split: if_splits)
  next
    case False
    show ?thesis
    proof (cases vs)
      case Nil
      with False show ?thesis by simp
    next
      case (Cons w ws)
      with False Cons.prems Cons.IH [of "freed + bytes_of k" ws] show ?thesis by (auto simp: algebra_simps)
    qed
  qed
qed simp

lemma lru_victims_take:
  "\<exists>n. lru_victims need excl r = take n (filter (\<lambda>k. k \<notin> set excl) (coldest r))"
  unfolding lru_victims_def by (rule take_victims_prefix)

lemma set_coldest [simp]: "set (coldest r) = set (dkeys (used r))"
  by (simp add: coldest_def)

subsection \<open>The contract of a ranking\<close>

record 'r policy =
  p_note :: "key \<Rightarrow> int option \<Rightarrow> 'r \<Rightarrow> 'r"
  p_forget :: "key \<Rightarrow> 'r \<Rightarrow> 'r"
  p_victims :: "int \<Rightarrow> key list \<Rightarrow> 'r \<Rightarrow> key list"
  p_held :: "'r \<Rightarrow> key list"

definition lru_policy :: "lru policy" where
  "lru_policy = \<lparr>p_note = lru_note, p_forget = lru_forget, p_victims = lru_victims, p_held = lru_held\<rparr>"

text \<open>
  \<open>weight\<close> is what the ranking believes a key frees. A ranking knows what it was told of and not
  told is gone, and its victims cover the need or are everything it may name.
\<close>

locale retention =
  fixes P :: "'r policy" and rank_ok :: "'r \<Rightarrow> bool" and weight :: "'r \<Rightarrow> key \<Rightarrow> int"
  assumes note_wf: "rank_ok r \<Longrightarrow> rank_ok (p_note P k nb r)"
    and forget_wf: "rank_ok r \<Longrightarrow> rank_ok (p_forget P k r)"
    and note_held: "set (p_held P (p_note P k nb r)) = insert k (set (p_held P r))"
    and forget_held: "rank_ok r \<Longrightarrow> set (p_held P (p_forget P k r)) = set (p_held P r) - {k}"
    and note_weight: "weight (p_note P k nb r) k' = (case nb of None \<Rightarrow> weight r k' | Some n \<Rightarrow> if k' = k then n else weight r k')"
    and forget_weight: "weight (p_forget P k r) k' = (if k' = k then 0 else weight r k')"
    and victims_held: "rank_ok r \<Longrightarrow> set (p_victims P need excl r) \<subseteq> set (p_held P r) - set excl"
    and victims_distinct: "rank_ok r \<Longrightarrow> distinct (p_victims P need excl r)"
    and victims_cover: "rank_ok r \<Longrightarrow> need \<le> sum_list (map (weight r) (p_victims P need excl r)) \<or>
      set (p_victims P need excl r) = set (p_held P r) - set excl"

interpretation least_recent: retention lru_policy "\<lambda>r. dwf (used r)" "\<lambda>r k. dget (lru_bytes r) k 0"
proof unfold_locales
  fix r :: lru and k k' :: key and nb :: "int option" and need :: int and excl :: "key list"
  show "dwf (used r) \<Longrightarrow> dwf (used (p_note lru_policy k nb r))"
    by (auto simp: lru_policy_def lru_note_def Let_def split: option.splits)
  show "dwf (used r) \<Longrightarrow> dwf (used (p_forget lru_policy k r))"
    by (auto simp: lru_policy_def lru_forget_def)
  show "set (p_held lru_policy (p_note lru_policy k nb r)) = insert k (set (p_held lru_policy r))"
    by (cases nb) (simp_all add: lru_policy_def lru_note_def lru_held_def Let_def dom_update)
  show "dwf (used r) \<Longrightarrow> set (p_held lru_policy (p_forget lru_policy k r)) = set (p_held lru_policy r) - {k}"
    using dkeys_delete [of k "used r"] by (simp add: lru_policy_def lru_forget_def lru_held_def)
  show "dget (lru_bytes (p_note lru_policy k nb r)) k' 0 =
      (case nb of None \<Rightarrow> dget (lru_bytes r) k' 0 | Some n \<Rightarrow> if k' = k then n else dget (lru_bytes r) k' 0)"
    by (cases nb) (simp_all add: lru_policy_def lru_note_def Let_def)
  show "dget (lru_bytes (p_forget lru_policy k r)) k' 0 = (if k' = k then 0 else dget (lru_bytes r) k' 0)"
    by (simp add: lru_policy_def lru_forget_def)
next
  fix r :: lru and need :: int and excl :: "key list"
  obtain n where n: "p_victims lru_policy need excl r = take n (filter (\<lambda>k. k \<notin> set excl) (coldest r))"
    using lru_victims_take [of need excl r] by (auto simp: lru_policy_def)
  show "set (p_victims lru_policy need excl r) \<subseteq> set (p_held lru_policy r) - set excl"
    unfolding n by (auto simp: lru_policy_def lru_held_def dest!: in_set_takeD)
  show "dwf (used r) \<Longrightarrow> distinct (p_victims lru_policy need excl r)"
    unfolding n by (simp add: coldest_def)
  show "need \<le> sum_list (map (\<lambda>k. dget (lru_bytes r) k 0) (p_victims lru_policy need excl r)) \<or>
      set (p_victims lru_policy need excl r) = set (p_held lru_policy r) - set excl"
    using take_victims_enough [of need 0 "\<lambda>k. dget (lru_bytes r) k 0" excl "coldest r"]
    by (force simp: lru_policy_def lru_held_def lru_victims_def)
qed

text \<open>C13: the victims are the coldest keys that may go, and no more of them than the need takes:
  each was used no later than any other candidate, they cover the need unless nothing is left to
  name, and without the last of them they would not.\<close>

theorem victims_coldest_and_few:
  assumes "dwf (used r)"
  shows "(\<exists>n. lru_victims need excl r = take n (filter (\<lambda>k. k \<notin> set excl) (coldest r))) \<and>
    sorted (map (\<lambda>k. dget (used r) k 0) (coldest r)) \<and> mset (coldest r) = mset (dkeys (used r)) \<and>
    (need \<le> sum_list (map (\<lambda>k. dget (lru_bytes r) k 0) (lru_victims need excl r)) \<or>
     set (lru_victims need excl r) = set (dkeys (used r)) - set excl) \<and>
    (lru_victims need excl r \<noteq> [] \<longrightarrow>
     sum_list (map (\<lambda>k. dget (lru_bytes r) k 0) (butlast (lru_victims need excl r))) < need)"
proof (intro conjI impI)
  have "sorted (map (\<lambda>k. (dget (used r) k 0, k)) (coldest r))" unfolding coldest_def by (rule sorted_sort_key)
  then have "sorted (map fst (map (\<lambda>k. (dget (used r) k 0, k)) (coldest r)))"
    by (rule sorted_map_mono) (auto simp: mono_on_def less_eq_prod_def)
  then show "sorted (map (\<lambda>k. dget (used r) k 0) (coldest r))" by (simp add: comp_def)
  show "mset (coldest r) = mset (dkeys (used r))" by (simp add: coldest_def)
  show "need \<le> sum_list (map (\<lambda>k. dget (lru_bytes r) k 0) (lru_victims need excl r)) \<or>
      set (lru_victims need excl r) = set (dkeys (used r)) - set excl"
    using least_recent.victims_cover [OF assms, of need excl] by (simp add: lru_policy_def lru_held_def)
  assume "lru_victims need excl r \<noteq> []"
  then have "lru_victims need excl r = butlast (lru_victims need excl r) @ [last (lru_victims need excl r)]" by simp
  then show "sum_list (map (\<lambda>k. dget (lru_bytes r) k 0) (butlast (lru_victims need excl r))) < need"
    using take_victims_minimal [where freed = 0] unfolding lru_victims_def by fastforce
qed (rule lru_victims_take)

lemma victims_coldest_and_few_witness:
  "let r = lru_note ''a'' None (lru_note ''c'' (Some 5) (lru_note ''b'' (Some 5) (lru_note ''a'' (Some 5) lru_init)))
   in lru_victims 7 [''c''] r = [''b'', ''a''] \<and> sorted (map (\<lambda>k. dget (used r) k 0) (coldest r))"
proof -
  let ?r = "lru_note ''a'' None (lru_note ''c'' (Some 5) (lru_note ''b'' (Some 5) (lru_note ''a'' (Some 5) lru_init)))"
  have "lru_victims 7 [''c''] ?r = [''b'', ''a'']" by code_simp
  moreover have "dwf (used ?r)" by code_simp
  ultimately show ?thesis using victims_coldest_and_few [of ?r 7 "[''c'']"] by (simp add: Let_def)
qed

end
