(* ===== verification/Volume.thy ===== *)
theory Volume
  imports Retention
begin

section \<open>The storage service of one volume\<close>

text \<open>
  \<^verbatim>\<open>realsim/seams/volume_service.py\<close>. The backing store is torchstore's \<^verbatim>\<open>InMemoryStore\<close>: what it
  holds under a key after its own put is what \<open>st_kv\<close> reads. A put is split where the code awaits:
  \<open>put_land\<close> up to the question of room, \<open>make_room\<close> which ends by telling the directory (a hop that
  takes time when the run charges one), and \<open>put_commit\<close>; \<open>vol_put\<close> is the three in a row, which is
  what runs when the hop is free. The keys of a put are a Python set: the order it iterates in is
  an argument.
\<close>

subsection \<open>What a stored value weighs\<close>

datatype payload = Tensor nat nat | Descriptor "nat list" nat | Payload

fun nbytes :: "payload \<Rightarrow> int" where
  "nbytes (Tensor numel element_size) = int (numel * element_size)"
| "nbytes (Descriptor shape element_size) = int (prod_list shape * element_size)"
| "nbytes Payload = 0"

datatype stored = Full payload | Object payload | Shards "payload option list" | Unknown

fun stored_nbytes :: "stored option \<Rightarrow> int" where
  "stored_nbytes (Some (Full v)) = nbytes v"
| "stored_nbytes (Some (Object v)) = nbytes v"
| "stored_nbytes (Some (Shards vs)) = sum_list (map (\<lambda>v. case v of None \<Rightarrow> 0 | Some p \<Rightarrow> nbytes p) vs)"
| "stored_nbytes (Some Unknown) = 0"
| "stored_nbytes None = 0"

lemma nbytes_nonneg [simp]: "0 \<le> nbytes v"
  by (cases v) auto

lemma stored_nbytes_nonneg [simp]: "0 \<le> stored_nbytes v"
  by (cases v rule: stored_nbytes.cases) (auto intro!: sum_list_nonneg split: option.splits)

record ('s, 'q) store_ops =
  st_put :: "(key \<times> 'q) list \<Rightarrow> 's \<Rightarrow> 's"
  st_kv :: "'s \<Rightarrow> key \<Rightarrow> stored option"
  st_delete :: "key \<Rightarrow> 's \<Rightarrow> 's"
  st_release :: "key \<Rightarrow> 's \<Rightarrow> 's"
  st_reset :: "'s \<Rightarrow> 's"

subsection \<open>State and operations\<close>

text \<open>\<open>told\<close> is every \<^verbatim>\<open>notify_delete_batch\<close> sent to the directory, in order.\<close>

record ('s, 'r) volume =
  backing :: 's
  vol_id :: vid
  capacity_bytes :: ext
  has_controller :: bool
  resident_by_key :: "(key \<times> int) list"
  resident_bytes :: int
  peak_resident_bytes :: int
  ranking :: 'r
  told :: "(vid \<times> key list) list"

definition vol_init :: "'s \<Rightarrow> vid \<Rightarrow> ext \<Rightarrow> bool \<Rightarrow> 'r \<Rightarrow> ('s, 'r) volume" where
  "vol_init s v capacity controller r =
     \<lparr>backing = s, vol_id = v, capacity_bytes = capacity, has_controller = controller,
      resident_by_key = [], resident_bytes = 0, peak_resident_bytes = 0, ranking = r, told = []\<rparr>"

definition vol_forget :: "'r policy \<Rightarrow> key \<Rightarrow> ('s, 'r) volume \<Rightarrow> ('s, 'r) volume" where
  "vol_forget P k v =
     v\<lparr>resident_bytes := resident_bytes v - dget (resident_by_key v) k 0,
       resident_by_key := AList.delete k (resident_by_key v),
       ranking := p_forget P k (ranking v)\<rparr>"

definition use_keys :: "'r policy \<Rightarrow> key list \<Rightarrow> ('s, 'r) volume \<Rightarrow> ('s, 'r) volume" where
  "use_keys P ks v =
     v\<lparr>ranking := foldl (\<lambda>r k. p_note P k (map_of (resident_by_key v) k) r) (ranking v) ks\<rparr>"

definition vol_delete :: "('s, 'q) store_ops \<Rightarrow> 'r policy \<Rightarrow> key \<Rightarrow> ('s, 'r) volume \<Rightarrow> ('s, 'r) volume" where
  "vol_delete S P k v = vol_forget P k (v\<lparr>backing := st_release S k (st_delete S k (backing v))\<rparr>)"

definition vol_delete_batch :: "('s, 'q) store_ops \<Rightarrow> 'r policy \<Rightarrow> key list \<Rightarrow> ('s, 'r) volume \<Rightarrow> ('s, 'r) volume" where
  "vol_delete_batch S P ks v =
     foldl (\<lambda>v k. vol_forget P k v)
       (v\<lparr>backing := foldl (\<lambda>s k. st_release S k s) (foldl (\<lambda>s k. st_delete S k s) (backing v) ks) ks\<rparr>) ks"

definition vol_reset :: "('s, 'q) store_ops \<Rightarrow> 'r policy \<Rightarrow> ('s, 'r) volume \<Rightarrow> ('s, 'r) volume" where
  "vol_reset S P v =
     v\<lparr>backing := st_reset S (backing v), resident_by_key := [], resident_bytes := 0,
       ranking := foldl (\<lambda>r k. p_forget P k r) (ranking v) (p_held P (ranking v))\<rparr>"

definition vol_get :: "'r policy \<Rightarrow> key list \<Rightarrow> ('s, 'r) volume \<Rightarrow> ('s, 'r) volume" where
  "vol_get P ks v = use_keys P ks v"

definition vol_touch :: "'r policy \<Rightarrow> key list \<Rightarrow> ('s, 'r) volume \<Rightarrow> ('s, 'r) volume" where
  "vol_touch P ks v = use_keys P (filter (\<lambda>k. k \<in> set (dkeys (resident_by_key v))) ks) v"

text \<open>\<^verbatim>\<open>projected > capacity\<close>, and \<^verbatim>\<open>int(projected - capacity)\<close>, which truncates.\<close>

definition over :: "int \<Rightarrow> ('s, 'r) volume \<Rightarrow> bool" where
  "over projected v \<longleftrightarrow> \<not> at_most (of_int projected) (capacity_bytes v)"

definition overshoot :: "int \<Rightarrow> ('s, 'r) volume \<Rightarrow> int" where
  "overshoot projected v =
     (case capacity_bytes v of
        Inf \<Rightarrow> 0
      | Fin c \<Rightarrow> if 0 \<le> of_int projected - c then \<lfloor>of_int projected - c\<rfloor> else \<lceil>of_int projected - c\<rceil>)"

text \<open>Let the store's own put run, then size what landed: the new bytes of each key, and the total.\<close>

definition put_land :: "('s, 'q) store_ops \<Rightarrow> key list \<Rightarrow> (key \<times> 'q) list \<Rightarrow> ('s, 'r) volume \<Rightarrow>
    ((key \<times> int) list \<times> int) \<times> ('s, 'r) volume" where
  "put_land S ks reqs v =
     (let v' = v\<lparr>backing := st_put S reqs (backing v)\<rparr>;
          new_by_key = dict_over (\<lambda>k. stored_nbytes (st_kv S (backing v') k)) ks;
          projected = resident_bytes v + sum_list (map (\<lambda>(k, n). n - dget (resident_by_key v) k 0) new_by_key)
      in ((new_by_key, projected), v'))"

definition evict :: "('s, 'q) store_ops \<Rightarrow> 'r policy \<Rightarrow> int \<times> ('s, 'r) volume \<Rightarrow> key \<Rightarrow> int \<times> ('s, 'r) volume" where
  "evict S P st k =
     (case st of (projected, v) \<Rightarrow> (projected - dget (resident_by_key v) k 0, vol_delete S P k v))"

definition make_room :: "('s, 'q) store_ops \<Rightarrow> 'r policy \<Rightarrow> int \<Rightarrow> key list \<Rightarrow> ('s, 'r) volume \<Rightarrow> int \<times> ('s, 'r) volume" where
  "make_room S P projected incoming v =
     (if \<not> has_controller v then (projected, v)
      else let victims = filter (\<lambda>k. k \<in> set (dkeys (resident_by_key v)))
                 (p_victims P (overshoot projected v) incoming (ranking v));
               (projected', v') = foldl (evict S P) (projected, v) victims
           in (projected', if victims \<noteq> [] then v'\<lparr>told := told v' @ [(vol_id v', victims)]\<rparr> else v'))"

definition put_commit :: "('s, 'q) store_ops \<Rightarrow> 'r policy \<Rightarrow> key list \<Rightarrow> (key \<times> int) list \<Rightarrow> int \<Rightarrow>
    ('s, 'r) volume \<Rightarrow> py_error option \<times> ('s, 'r) volume" where
  "put_commit S P ks new_by_key projected v =
     (if over projected v
      then (Some StorageFull,
            v\<lparr>backing := foldl (\<lambda>s k. if k \<in> set (dkeys (resident_by_key v)) then s else st_delete S k s)
                (backing v) ks\<rparr>)
      else let v1 = use_keys P ks (v\<lparr>resident_by_key :=
                 foldl (\<lambda>d (k, n). AList.update k n d) (resident_by_key v) new_by_key\<rparr>)
           in (None, v1\<lparr>resident_bytes := projected,
                        peak_resident_bytes := max (peak_resident_bytes v1) projected\<rparr>))"

definition vol_put :: "('s, 'q) store_ops \<Rightarrow> 'r policy \<Rightarrow> key list \<Rightarrow> (key \<times> 'q) list \<Rightarrow> ('s, 'r) volume \<Rightarrow>
    py_error option \<times> ('s, 'r) volume" where
  "vol_put S P ks reqs v =
     (let ((new_by_key, projected), v1) = put_land S ks reqs v;
          (projected', v2) = (if over projected v1 then make_room S P projected ks v1 else (projected, v1))
      in put_commit S P ks new_by_key projected' v2)"

subsection \<open>The accounting invariant\<close>

definition accounts :: "('s, 'r) volume \<Rightarrow> bool" where
  "accounts v \<longleftrightarrow> dwf (resident_by_key v) \<and> (\<forall>n \<in> snd ` set (resident_by_key v). 0 \<le> n) \<and>
     resident_bytes v = dsum (resident_by_key v) \<and>
     at_most (of_int (resident_bytes v)) (capacity_bytes v) \<and> resident_bytes v \<le> peak_resident_bytes v"

text \<open>The ranking knows every resident key, by the bytes the volume accounts it with.\<close>

definition ranked :: "'r policy \<Rightarrow> ('r \<Rightarrow> bool) \<Rightarrow> ('r \<Rightarrow> key \<Rightarrow> int) \<Rightarrow> ('s, 'r) volume \<Rightarrow> bool" where
  "ranked P rank_ok weight v \<longleftrightarrow> rank_ok (ranking v) \<and>
     (\<forall>k. weight (ranking v) k = dget (resident_by_key v) k 0) \<and>
     set (dkeys (resident_by_key v)) \<subseteq> set (p_held P (ranking v))"

lemma dget_nonneg: "\<forall>n \<in> snd ` set d. 0 \<le> n \<Longrightarrow> 0 \<le> dget d k (0 :: int)"
  by (induction d) auto

lemma dsum_nonneg: "\<forall>n \<in> snd ` set d. 0 \<le> n \<Longrightarrow> 0 \<le> (dsum d :: int)"
  unfolding dsum_def by (intro sum_list_nonneg) auto

lemma values_delete: "\<forall>n \<in> snd ` set d. 0 \<le> n \<Longrightarrow> \<forall>n \<in> snd ` set (AList.delete k d). 0 \<le> (n :: int)"
  by (auto simp: AList.delete_eq)

lemma values_update:
  "\<forall>n \<in> snd ` set d. 0 \<le> n \<Longrightarrow> 0 \<le> m \<Longrightarrow> \<forall>n \<in> snd ` set (AList.update k m d). 0 \<le> (n :: int)"
  by (induction d) auto

lemma dsum_updates:
  "dwf d \<Longrightarrow> distinct (dkeys new) \<Longrightarrow>
   dsum (foldl (\<lambda>d (k, n). AList.update k n d) d new) =
     dsum d + sum_list (map (\<lambda>(k, n). n - dget d k 0) new) \<and>
   dwf (foldl (\<lambda>d (k, n). AList.update k n d) d new)" for d :: "(key \<times> int) list"
proof (induction new arbitrary: d)
  case (Cons p new)
  obtain k n where p: "p = (k, n)" by (cases p)
  have other: "map (\<lambda>(k', n'). n' - dget (AList.update k n d) k' 0) new = map (\<lambda>(k', n'). n' - dget d k' 0) new"
    using Cons.prems(2) p by (intro map_cong) (auto simp: image_iff)
  have "dwf (AList.update k n d)" using Cons.prems(1) by (rule dwf_update)
  note ih = Cons.IH [OF this, unfolded other]
  from ih Cons.prems p show ?case by (simp add: dsum_update del: dget_update)
qed simp

lemma values_updates:
  "\<forall>n \<in> snd ` set d. 0 \<le> n \<Longrightarrow> \<forall>n \<in> snd ` set new. 0 \<le> n \<Longrightarrow>
   \<forall>n \<in> snd ` set (foldl (\<lambda>d (k, n). AList.update k n d) d new). 0 \<le> (n :: int)"
proof (induction new arbitrary: d)
  case (Cons p new)
  obtain k n where p: "p = (k, n)" by (cases p)
  have "0 \<le> n" "\<forall>n \<in> snd ` set new. 0 \<le> n" using Cons.prems(2) p by auto
  from Cons.IH [OF values_update [OF Cons.prems(1) this(1)] this(2)] show ?case unfolding p by simp
qed simp

lemma dsum_over:
  "dwf d \<Longrightarrow> set (dkeys d) \<subseteq> set ks \<Longrightarrow> distinct ks \<Longrightarrow> dsum d = sum_list (map (\<lambda>k. dget d k (0 :: int)) ks)"
proof (induction d)
  case (Cons p d)
  obtain k n where p: "p = (k, n)" by (cases p)
  have none: "dget d k 0 = 0" using Cons.prems(1) p by (metis dget_def distinct.simps(2) fst_conv list.simps(9) map_of_None_iff option.case(1))
  have "sum_list (map (\<lambda>k'. if k' = k then n else dget d k' 0) ks) =
      (\<Sum>k' \<in> set ks. (if k' = k then n else 0) + dget d k' 0)"
    using Cons.prems(3) none by (auto simp: sum_list_distinct_conv_sum_set intro!: sum.cong)
  also have "\<dots> = n + sum_list (map (\<lambda>k'. dget d k' 0) ks)"
    using Cons.prems(2,3) p by (simp add: sum.distrib sum_list_distinct_conv_sum_set)
  finally have "sum_list (map (\<lambda>k'. if k' = k then n else dget d k' 0) ks) = n + dsum d"
    using Cons.IH Cons.prems p by simp
  then show ?case using p by (simp add: dsum_def)
qed (simp add: sum_list_0)

lemma map_of_updates:
  "distinct (dkeys new) \<Longrightarrow> map_of (foldl (\<lambda>d (k, n). AList.update k n d) d new) k =
     (case map_of new k of None \<Rightarrow> map_of d k | Some n \<Rightarrow> Some n)"
proof (induction new arbitrary: d)
  case (Cons p new)
  obtain j n where p: "p = (j, n)" by (cases p)
  with Cons.prems have "map_of new j = None" by (simp add: map_of_None_iff)
  with Cons p show ?case by (auto split: option.splits)
qed simp

lemma at_most_less: "(a :: int) \<le> b \<Longrightarrow> at_most (of_int b) c \<Longrightarrow> at_most (of_int a) c"
  by (cases c) auto

lemma forget_accounts:
  assumes "accounts v"
  shows "accounts (vol_forget P k v)"
proof -
  let ?d = "resident_by_key v" and ?v = "vol_forget P k v"
  from assms have v: "dwf ?d" "\<forall>n \<in> snd ` set ?d. 0 \<le> n" "resident_bytes v = dsum ?d"
    "at_most (of_int (resident_bytes v)) (capacity_bytes v)" "resident_bytes v \<le> peak_resident_bytes v"
    unfolding accounts_def by blast+
  have shape: "resident_by_key ?v = AList.delete k ?d" "capacity_bytes ?v = capacity_bytes v"
    "peak_resident_bytes ?v = peak_resident_bytes v" "resident_bytes ?v = resident_bytes v - dget ?d k 0"
    by (simp_all add: vol_forget_def)
  have less: "resident_bytes v - dget ?d k 0 \<le> resident_bytes v" using dget_nonneg [OF v(2), of k] by simp
  have "resident_bytes v - dget ?d k 0 = dsum (AList.delete k ?d)" using dsum_delete [OF v(1), of k] v(3) by simp
  moreover note dwf_delete [OF v(1), of k] values_delete [OF v(2), of k] at_most_less [OF less v(4)] order_trans [OF less v(5)]
  ultimately show ?thesis unfolding accounts_def shape by blast
qed

lemma forget_simps [simp]:
  "resident_by_key (vol_forget P k v) = AList.delete k (resident_by_key v)"
  "ranking (vol_forget P k v) = p_forget P k (ranking v)" "backing (vol_forget P k v) = backing v"
  "capacity_bytes (vol_forget P k v) = capacity_bytes v" "vol_id (vol_forget P k v) = vol_id v"
  "has_controller (vol_forget P k v) = has_controller v" "told (vol_forget P k v) = told v"
  "resident_bytes (vol_forget P k v) = resident_bytes v - dget (resident_by_key v) k 0"
  by (simp_all add: vol_forget_def)

lemma delete_accounts: "accounts v \<Longrightarrow> accounts (vol_delete S P k v)"
  unfolding vol_delete_def by (rule forget_accounts) (auto simp: accounts_def)

lemma delete_simps [simp]:
  "resident_by_key (vol_delete S P k v) = AList.delete k (resident_by_key v)"
  "ranking (vol_delete S P k v) = p_forget P k (ranking v)"
  "capacity_bytes (vol_delete S P k v) = capacity_bytes v" "vol_id (vol_delete S P k v) = vol_id v"
  "has_controller (vol_delete S P k v) = has_controller v" "told (vol_delete S P k v) = told v"
  "resident_bytes (vol_delete S P k v) = resident_bytes v - dget (resident_by_key v) k 0"
  by (simp_all add: vol_delete_def)

lemma use_keys_simps [simp]:
  "resident_by_key (use_keys P ks v) = resident_by_key v" "resident_bytes (use_keys P ks v) = resident_bytes v"
  "capacity_bytes (use_keys P ks v) = capacity_bytes v" "peak_resident_bytes (use_keys P ks v) = peak_resident_bytes v"
  "backing (use_keys P ks v) = backing v" "told (use_keys P ks v) = told v" "vol_id (use_keys P ks v) = vol_id v"
  "has_controller (use_keys P ks v) = has_controller v"
  by (simp_all add: use_keys_def)

lemma use_keys_accounts: "accounts (use_keys P ks v) \<longleftrightarrow> accounts v"
  by (simp add: accounts_def)

text \<open>What a run of evictions takes out.\<close>

lemma evict_fold:
  "distinct vs \<Longrightarrow> foldl (evict S P) (p, v) vs = (p', v') \<Longrightarrow>
   p' = p - sum_list (map (\<lambda>k. dget (resident_by_key v) k 0) vs) \<and>
   resident_bytes v' = resident_bytes v - sum_list (map (\<lambda>k. dget (resident_by_key v) k 0) vs) \<and>
   (\<forall>k. map_of (resident_by_key v') k = (if k \<in> set vs then None else map_of (resident_by_key v) k)) \<and>
   capacity_bytes v' = capacity_bytes v \<and> has_controller v' = has_controller v \<and>
   vol_id v' = vol_id v \<and> told v' = told v \<and> (accounts v \<longrightarrow> accounts v')"
proof (induction vs arbitrary: p v)
  case (Cons k vs)
  let ?v = "vol_delete S P k v"
  have rest: "map (\<lambda>k'. dget (resident_by_key ?v) k' 0) vs = map (\<lambda>k'. dget (resident_by_key v) k' 0) vs"
    using Cons.prems(1) by (intro map_cong) auto
  have "evict S P (p, v) k = (p - dget (resident_by_key v) k 0, ?v)" by (simp add: evict_def)
  with Cons.prems(2) have "foldl (evict S P) (p - dget (resident_by_key v) k 0, ?v) vs = (p', v')" by simp
  note ih = Cons.IH [OF _ this, unfolded rest]
  have "distinct vs" "k \<notin> set vs" using Cons.prems(1) by auto
  with ih delete_accounts [of v S P k] show ?case by auto
qed auto

lemma land_state:
  "put_land S ks reqs v = ((new, projected), v1) \<Longrightarrow>
     new = dict_over (\<lambda>k. stored_nbytes (st_kv S (backing v1) k)) ks \<and>
     projected = resident_bytes v + sum_list (map (\<lambda>(k, n). n - dget (resident_by_key v) k 0) new) \<and>
     backing v1 = st_put S reqs (backing v) \<and> v1 = v\<lparr>backing := st_put S reqs (backing v)\<rparr>"
  by (auto simp: put_land_def Let_def)

lemma accounts_backing [simp]: "accounts (v\<lparr>backing := s\<rparr>) \<longleftrightarrow> accounts v"
  unfolding accounts_def by simp

lemma accounts_told [simp]: "accounts (v\<lparr>told := l\<rparr>) \<longleftrightarrow> accounts v"
  unfolding accounts_def by simp

lemma forgets_capacity: "capacity_bytes (foldl (\<lambda>v k. vol_forget P k v) v ks) = capacity_bytes v"
  by (induction ks arbitrary: v) simp_all

lemma ranked_backing [simp]: "ranked P ok w (v\<lparr>backing := s\<rparr>) \<longleftrightarrow> ranked P ok w v"
  unfolding ranked_def by simp

lemma ranked_told [simp]: "ranked P ok w (v\<lparr>told := l\<rparr>) \<longleftrightarrow> ranked P ok w v"
  unfolding ranked_def by simp

context retention
begin

lemma use_keys_ranked:
  assumes "ranked P rank_ok weight v"
  shows "ranked P rank_ok weight (use_keys P ks v)"
proof -
  let ?d = "resident_by_key v"
  have "rank_ok r \<Longrightarrow> \<forall>k. weight r k = dget ?d k 0 \<Longrightarrow> set (dkeys ?d) \<subseteq> set (p_held P r) \<Longrightarrow>
      rank_ok (foldl (\<lambda>r k. p_note P k (map_of ?d k) r) r ks) \<and>
      (\<forall>k. weight (foldl (\<lambda>r k. p_note P k (map_of ?d k) r) r ks) k = dget ?d k 0) \<and>
      set (dkeys ?d) \<subseteq> set (p_held P (foldl (\<lambda>r k. p_note P k (map_of ?d k) r) r ks))" for r
  proof (induction ks arbitrary: r)
    case (Cons j ks)
    let ?r = "p_note P j (map_of ?d j) r"
    have "\<forall>k. weight ?r k = dget ?d k 0"
      using Cons.prems(2) by (auto simp: note_weight dget_def split: option.splits)
    moreover have "set (dkeys ?d) \<subseteq> set (p_held P ?r)" using Cons.prems(3) by (auto simp: note_held)
    ultimately have "rank_ok (foldl (\<lambda>r k. p_note P k (map_of ?d k) r) ?r ks) \<and>
      (\<forall>k. weight (foldl (\<lambda>r k. p_note P k (map_of ?d k) r) ?r ks) k = dget ?d k 0) \<and>
      set (dkeys ?d) \<subseteq> set (p_held P (foldl (\<lambda>r k. p_note P k (map_of ?d k) r) ?r ks))"
      using Cons.IH [OF note_wf [OF Cons.prems(1)]] by blast
    then show ?case by simp
  qed simp
  with assms show ?thesis by (simp add: ranked_def use_keys_def)
qed

lemma forget_ranked:
  assumes "ranked P rank_ok weight v"
  shows "ranked P rank_ok weight (vol_forget P k v)"
  using assms forget_wf [of "ranking v" k] forget_held [of "ranking v" k] dkeys_delete [of k "resident_by_key v"]
  by (auto simp: ranked_def forget_weight)

lemma delete_ranked: "ranked P rank_ok weight v \<Longrightarrow> ranked P rank_ok weight (vol_delete S P k v)"
  unfolding vol_delete_def by (rule forget_ranked) (auto simp: ranked_def)

lemma evict_ranked:
  "ranked P rank_ok weight v \<Longrightarrow> foldl (evict S P) (p, v) vs = (p', v') \<Longrightarrow> ranked P rank_ok weight v'"
proof (induction vs arbitrary: p v)
  case (Cons k vs)
  have "evict S P (p, v) k = (p - dget (resident_by_key v) k 0, vol_delete S P k v)" by (simp add: evict_def)
  with Cons.prems(2) have "foldl (evict S P) (p - dget (resident_by_key v) k 0, vol_delete S P k v) vs = (p', v')"
    by simp
  with Cons.IH delete_ranked [OF Cons.prems(1)] show ?case by blast
qed auto

text \<open>
  Room is made by dropping other keys only; it is enough, or everything but the incoming keys went.
  With a whole capacity truncating the overshoot loses nothing.
\<close>

lemma make_room_spec:
  assumes "ranked P rank_ok weight v" "accounts v" "make_room S P p ks v = (p', v')"
  shows "ranked P rank_ok weight v' \<and> accounts v' \<and> capacity_bytes v' = capacity_bytes v \<and>
    p' - resident_bytes v' = p - resident_bytes v \<and>
    (\<forall>k \<in> set ks. map_of (resident_by_key v') k = map_of (resident_by_key v) k) \<and>
    (has_controller v \<longrightarrow> p' \<le> p - overshoot p v \<or> set (dkeys (resident_by_key v')) \<subseteq> set ks)"
proof (cases "has_controller v")
  case False
  with assms show ?thesis by (auto simp: make_room_def)
next
  case True
  let ?d = "resident_by_key v" and ?pv = "p_victims P (overshoot p v) ks (ranking v)"
  let ?vs = "filter (\<lambda>k. k \<in> set (dkeys ?d)) ?pv"
  obtain q u where qu: "foldl (evict S P) (p, v) ?vs = (q, u)" by (cases "foldl (evict S P) (p, v) ?vs")
  have shape: "p' = q" "v' = u \<or> v' = u\<lparr>told := told u @ [(vol_id u, ?vs)]\<rparr>"
    using assms(3) True qu by (auto simp: make_room_def Let_def split: if_splits)
  have wf: "rank_ok (ranking v)" and weight: "weight (ranking v) = (\<lambda>k. dget ?d k 0)"
    using assms(1) by (auto simp: ranked_def)
  have dist: "distinct ?vs" using victims_distinct [OF wf] by simp
  note ev = evict_fold [OF dist qu]
  have rk: "ranked P rank_ok weight u" by (rule evict_ranked [OF assms(1) qu])
  have excl: "\<forall>k \<in> set ks. k \<notin> set ?vs" using victims_held [OF wf] by fastforce
  have freed: "sum_list (map (\<lambda>k. dget ?d k 0) ?pv) = sum_list (map (\<lambda>k. dget ?d k 0) ?vs)"
  proof -
    have "dget ?d k 0 = 0" if "k \<notin> set (dkeys ?d)" for k
      using that by (metis dget_def map_of_None_iff option.case(1))
    then have "sum_list (map (\<lambda>k. dget ?d k 0) l) = sum_list (map (\<lambda>k. dget ?d k 0) (filter (\<lambda>k. k \<in> set (dkeys ?d)) l))" for l
      by (induction l) (simp_all del: set_map)
    then show ?thesis .
  qed
  have "p' \<le> p - overshoot p v \<or> set (dkeys (resident_by_key v')) \<subseteq> set ks"
  proof -
    from victims_cover [OF wf, of "overshoot p v" ks]
    show ?thesis
    proof
      assume "overshoot p v \<le> sum_list (map (weight (ranking v)) ?pv)"
      then show ?thesis using ev shape freed unfolding weight by simp
    next
      assume all: "set ?pv = set (p_held P (ranking v)) - set ks"
      have "set (dkeys ?d) \<subseteq> set (p_held P (ranking v))" using assms(1) by (simp add: ranked_def)
      then have gone: "set (dkeys ?d) - set ks \<subseteq> set ?vs" using all by auto
      have keys: "k \<in> set (dkeys (resident_by_key u)) \<longleftrightarrow> k \<in> set (dkeys ?d) - set ?vs" for k
      proof -
        have "map_of (resident_by_key u) k = (if k \<in> set ?vs then None else map_of ?d k)" using ev by blast
        then show ?thesis by (metis DiffE DiffI map_of_None_iff)
      qed
      have "set (dkeys (resident_by_key u)) \<subseteq> set ks" using keys gone by blast
      moreover have "resident_by_key v' = resident_by_key u" using shape(2) by auto
      ultimately show ?thesis by simp
    qed
  qed
  moreover have "ranked P rank_ok weight v'" using rk shape by auto
  ultimately show ?thesis using ev shape excl assms(2) by auto
qed

lemma note_fresh:
  assumes "rank_ok r" "\<forall>k. k \<notin> set ks \<longrightarrow> weight r k = dget d k 0"
    "set (dkeys d) \<subseteq> set (p_held P r) \<union> set ks" "set ks \<subseteq> set (dkeys d)"
  shows "rank_ok (foldl (\<lambda>r k. p_note P k (map_of d k) r) r ks) \<and>
    (\<forall>k. weight (foldl (\<lambda>r k. p_note P k (map_of d k) r) r ks) k = dget d k 0) \<and>
    set (dkeys d) \<subseteq> set (p_held P (foldl (\<lambda>r k. p_note P k (map_of d k) r) r ks))"
  using assms
proof (induction ks arbitrary: r)
  case (Cons j ks)
  let ?r = "p_note P j (map_of d j) r"
  obtain n where n: "map_of d j = Some n"
    using Cons.prems(4) map_of_None_iff [of d j] by fastforce
  have "\<forall>k. k \<notin> set ks \<longrightarrow> weight ?r k = dget d k 0"
    using Cons.prems(2) n by (auto simp: note_weight dget_def)
  moreover have "set (dkeys d) \<subseteq> set (p_held P ?r) \<union> set ks" using Cons.prems(3) by (auto simp: note_held)
  moreover have "set ks \<subseteq> set (dkeys d)" using Cons.prems(4) by simp
  ultimately show ?case using Cons.IH [OF note_wf [OF Cons.prems(1)], of j "map_of d j"] by simp
qed auto

lemma commit_spec:
  assumes "accounts v" "ranked P rank_ok weight v" "distinct ks" "\<forall>k. 0 \<le> f k"
    and "p = resident_bytes v + sum_list (map (\<lambda>k. f k - dget (resident_by_key v) k 0) ks)"
    and "put_commit S P ks (dict_over f ks) p v = (e, v')"
  shows "accounts v' \<and> ranked P rank_ok weight v' \<and> capacity_bytes v' = capacity_bytes v \<and>
    (e = None \<longleftrightarrow> at_most (of_int p) (capacity_bytes v)) \<and>
    (e = None \<longrightarrow> resident_bytes v' = p \<and>
      (\<forall>k. map_of (resident_by_key v') k = (if k \<in> set ks then Some (f k) else map_of (resident_by_key v) k)))"
proof (cases "over p v")
  case True
  with assms(6) have out: "e = Some StorageFull" "\<exists>s. v' = v\<lparr>backing := s\<rparr>" by (auto simp: put_commit_def)
  then have "ranked P rank_ok weight v'" using assms(2) by auto
  with out True assms(1) show ?thesis by (auto simp: over_def)
next
  case False
  let ?d = "foldl (\<lambda>d (k, n). AList.update k n d) (resident_by_key v) (dict_over f ks)"
  have look: "map_of ?d k = (if k \<in> set ks then Some (f k) else map_of (resident_by_key v) k)" for k
    using map_of_updates [of "dict_over f ks" "resident_by_key v" k] assms(3) by simp
  have v: "dwf (resident_by_key v)" "\<forall>n \<in> snd ` set (resident_by_key v). 0 \<le> n"
    "resident_bytes v = dsum (resident_by_key v)" using assms(1) unfolding accounts_def by blast+
  have sum: "dsum ?d = p" "dwf ?d"
    using dsum_updates [OF v(1), of "dict_over f ks"] assms(3,5) v(3) by (auto simp: dict_over_def comp_def)
  have vals: "\<forall>n \<in> snd ` set ?d. 0 \<le> n"
    by (rule values_updates [OF v(2)]) (use assms(4) in \<open>auto simp: dict_over_def\<close>)
  have dg: "dget ?d k 0 = (if k \<in> set ks then f k else dget (resident_by_key v) k 0)" for k
    unfolding dget_def look by simp
  have keys: "k \<in> set (dkeys ?d) \<longleftrightarrow> k \<in> set ks \<or> k \<in> set (dkeys (resident_by_key v))" for k
    using map_of_None_iff [of ?d k] map_of_None_iff [of "resident_by_key v" k] look [of k] by (auto split: if_splits)
  have rk: "rank_ok (ranking v)" "\<forall>k. weight (ranking v) k = dget (resident_by_key v) k 0"
    "set (dkeys (resident_by_key v)) \<subseteq> set (p_held P (ranking v))"
    using assms(2) unfolding ranked_def by blast+
  let ?r = "foldl (\<lambda>r k. p_note P k (map_of ?d k) r) (ranking v) ks"
  have "rank_ok ?r \<and> (\<forall>k. weight ?r k = dget ?d k 0) \<and> set (dkeys ?d) \<subseteq> set (p_held P ?r)"
  proof (rule note_fresh [OF rk(1)])
    show "\<forall>k. k \<notin> set ks \<longrightarrow> weight (ranking v) k = dget ?d k 0" using rk(2) dg by simp
    show "set (dkeys ?d) \<subseteq> set (p_held P (ranking v)) \<union> set ks" using keys rk(3) by blast
    show "set ks \<subseteq> set (dkeys ?d)" using keys by blast
  qed
  moreover have shape: "e = None" "resident_by_key v' = ?d" "ranking v' = ?r" "resident_bytes v' = p"
    "capacity_bytes v' = capacity_bytes v" "peak_resident_bytes v' = max (peak_resident_bytes v) p"
    using assms(6) False by (auto simp: put_commit_def Let_def use_keys_def)
  moreover have "at_most (of_int p) (capacity_bytes v)" using False by (simp add: over_def)
  ultimately show ?thesis
    using sum vals look unfolding accounts_def ranked_def shape by auto
qed

lemma put_spec:
  assumes "accounts v" "ranked P rank_ok weight v" "distinct ks" "vol_put S P ks reqs v = (e, v')"
  defines "f \<equiv> \<lambda>k. stored_nbytes (st_kv S (st_put S reqs (backing v)) k)"
  shows "accounts v' \<and> ranked P rank_ok weight v' \<and> capacity_bytes v' = capacity_bytes v \<and>
    (e = None \<longrightarrow> (\<forall>k \<in> set ks. map_of (resident_by_key v') k = Some (f k))) \<and>
    (has_controller v \<longrightarrow> capacity_bytes v = Fin (of_int c) \<longrightarrow> e \<noteq> None \<longrightarrow> c < sum_list (map f ks))"
proof -
  let ?v = "v\<lparr>backing := st_put S reqs (backing v)\<rparr>"
  let ?p = "resident_bytes v + sum_list (map (\<lambda>k. f k - dget (resident_by_key v) k 0) ks)"
  have land: "put_land S ks reqs v = ((dict_over f ks, ?p), ?v)"
    by (simp add: put_land_def Let_def f_def dict_over_def comp_def)
  have f0: "\<forall>k. 0 \<le> f k" by (simp add: f_def)
  have start: "accounts ?v" "ranked P rank_ok weight ?v" using assms(1,2) by simp_all
  show ?thesis
  proof (cases "over ?p ?v")
    case False
    then have c: "put_commit S P ks (dict_over f ks) ?p ?v = (e, v')"
      using assms(4) unfolding vol_put_def land by simp
    from commit_spec [OF start assms(3) f0 _ c] False show ?thesis by (auto simp: over_def)
  next
    case True
    obtain p2 v2 where room: "make_room S P ?p ks ?v = (p2, v2)" by (cases "make_room S P ?p ks ?v")
    then have c: "put_commit S P ks (dict_over f ks) p2 v2 = (e, v')"
      using assms(4) True unfolding vol_put_def land by simp
    note r = make_room_spec [OF start(2,1) room]
    have deltas: "map (\<lambda>k. f k - dget (resident_by_key v2) k 0) ks = map (\<lambda>k. f k - dget (resident_by_key v) k 0) ks"
      using r by (intro map_cong) (auto simp: dget_def)
    have p2: "p2 = resident_bytes v2 + sum_list (map (\<lambda>k. f k - dget (resident_by_key v2) k 0) ks)"
      unfolding deltas using r by simp
    have v2: "accounts v2" "ranked P rank_ok weight v2" "capacity_bytes v2 = capacity_bytes v" using r by auto
    note cs = commit_spec [OF v2(1,2) assms(3) f0 p2 c, unfolded v2(3)]
    have "c < sum_list (map f ks)" if h: "has_controller v" "capacity_bytes v = Fin (of_int c)" "e \<noteq> None" for c
    proof -
      have "overshoot ?p ?v = ?p - c" using True h(2) by (simp add: overshoot_def over_def)
      moreover have "c < p2" using cs h(2,3) by auto
      ultimately have "set (dkeys (resident_by_key v2)) \<subseteq> set ks" using r h(1) by auto
      then have "dsum (resident_by_key v2) = sum_list (map (\<lambda>k. dget (resident_by_key v2) k 0) ks)"
        using v2(1) assms(3) by (intro dsum_over) (auto simp: accounts_def)
      moreover have "resident_bytes v2 = dsum (resident_by_key v2)" using v2(1) unfolding accounts_def by blast
      ultimately have "p2 = sum_list (map f ks)" using p2 by (simp add: sum_list_subtractf)
      with \<open>c < p2\<close> show ?thesis by simp
    qed
    with cs show ?thesis by auto
  qed
qed

lemma forgets_keep:
  "accounts u \<Longrightarrow> ranked P rank_ok weight u \<Longrightarrow>
   accounts (foldl (\<lambda>v k. vol_forget P k v) u ks) \<and> ranked P rank_ok weight (foldl (\<lambda>v k. vol_forget P k v) u ks)"
  by (induction ks arbitrary: u) (simp_all add: forget_accounts forget_ranked)

lemma delete_batch_keeps:
  assumes "accounts v" "ranked P rank_ok weight v"
  shows "accounts (vol_delete_batch S P ks v) \<and> ranked P rank_ok weight (vol_delete_batch S P ks v)"
  unfolding vol_delete_batch_def by (rule forgets_keep) (simp_all add: assms)

lemma forget_all:
  "rank_ok r \<Longrightarrow> rank_ok (foldl (\<lambda>r k. p_forget P k r) r ks) \<and>
     (\<forall>k. weight (foldl (\<lambda>r k. p_forget P k r) r ks) k = (if k \<in> set ks then 0 else weight r k)) \<and>
     set (p_held P (foldl (\<lambda>r k. p_forget P k r) r ks)) = set (p_held P r) - set ks"
  by (induction ks arbitrary: r) (auto simp: forget_wf forget_weight forget_held)

text \<open>A reset needs the ranking to weigh nothing it does not hold, which a ranked volume's does.\<close>

lemma reset_keeps:
  assumes "accounts v" "ranked P rank_ok weight v" "at_most 0 (capacity_bytes v)"
  shows "accounts (vol_reset S P v) \<and> ranked P rank_ok weight (vol_reset S P v)"
proof -
  let ?r = "foldl (\<lambda>r k. p_forget P k r) (ranking v) (p_held P (ranking v))"
  have v: "rank_ok (ranking v)" "\<forall>k. weight (ranking v) k = dget (resident_by_key v) k 0"
    "set (dkeys (resident_by_key v)) \<subseteq> set (p_held P (ranking v))"
    using assms(2) unfolding ranked_def by blast+
  have "weight (ranking v) k = 0" if "k \<notin> set (p_held P (ranking v))" for k
    using v that by (metis dget_def map_of_None_iff option.case(1) subsetD)
  with forget_all [OF v(1), of "p_held P (ranking v)"]
  have "rank_ok ?r" "\<forall>k. weight ?r k = 0" by auto
  moreover have "0 \<le> peak_resident_bytes v"
    using assms(1) dsum_nonneg [of "resident_by_key v"] unfolding accounts_def by linarith
  ultimately show ?thesis using assms(3) by (simp add: accounts_def ranked_def vol_reset_def)
qed

end

subsection \<open>Runs of calls\<close>

datatype 'q vol_call = Put "key list" "(key \<times> 'q) list" | Get "key list" | Touch "key list"
  | Delete key | DeleteBatch "key list" | Reset

fun vol_step :: "('s, 'q) store_ops \<Rightarrow> 'r policy \<Rightarrow> 'q vol_call \<Rightarrow> ('s, 'r) volume \<Rightarrow> ('s, 'r) volume" where
  "vol_step S P (Put ks reqs) v = snd (vol_put S P ks reqs v)"
| "vol_step S P (Get ks) v = vol_get P ks v"
| "vol_step S P (Touch ks) v = vol_touch P ks v"
| "vol_step S P (Delete k) v = vol_delete S P k v"
| "vol_step S P (DeleteBatch ks) v = vol_delete_batch S P ks v"
| "vol_step S P Reset v = vol_reset S P v"

text \<open>A put's keys are iterated as a set: each once.\<close>

fun call_ok :: "'q vol_call \<Rightarrow> bool" where
  "call_ok (Put ks reqs) = (distinct ks \<and> set ks = fst ` set reqs)"
| "call_ok c = True"

context retention
begin

lemma step_keeps:
  assumes "accounts v" "ranked P rank_ok weight v" "at_most 0 (capacity_bytes v)" "call_ok c"
  shows "accounts (vol_step S P c v) \<and> ranked P rank_ok weight (vol_step S P c v) \<and>
    capacity_bytes (vol_step S P c v) = capacity_bytes v"
proof (cases c)
  case (Put ks reqs)
  obtain e v' where p: "vol_put S P ks reqs v = (e, v')" by (cases "vol_put S P ks reqs v")
  have "distinct ks" using assms(4) Put by simp
  from put_spec [OF assms(1,2) this p] p Put show ?thesis by simp
next
  case (Get ks)
  with assms show ?thesis by (simp add: vol_get_def use_keys_accounts use_keys_ranked)
next
  case (Touch ks)
  with assms show ?thesis by (simp add: vol_touch_def use_keys_accounts use_keys_ranked)
next
  case (Delete k)
  with assms show ?thesis by (simp add: delete_accounts delete_ranked)
next
  case (DeleteBatch ks)
  with delete_batch_keeps [OF assms(1,2)] show ?thesis by (simp add: vol_delete_batch_def forgets_capacity)
next
  case Reset
  with reset_keeps [OF assms(1-3)] show ?thesis by (simp add: vol_reset_def)
qed

lemma run_keeps:
  "accounts v \<Longrightarrow> ranked P rank_ok weight v \<Longrightarrow> at_most 0 (capacity_bytes v) \<Longrightarrow> list_all call_ok cs \<Longrightarrow>
   accounts (foldl (\<lambda>v c. vol_step S P c v) v cs) \<and> ranked P rank_ok weight (foldl (\<lambda>v c. vol_step S P c v) v cs) \<and>
   capacity_bytes (foldl (\<lambda>v c. vol_step S P c v) v cs) = capacity_bytes v"
proof (induction cs arbitrary: v)
  case (Cons c cs)
  then have "accounts (vol_step S P c v) \<and> ranked P rank_ok weight (vol_step S P c v) \<and>
      capacity_bytes (vol_step S P c v) = capacity_bytes v"
    by (intro step_keeps) auto
  with Cons show ?case by simp
qed simp

end

definition vol_run :: "('s, 'q) store_ops \<Rightarrow> 'q vol_call list \<Rightarrow> ('s, lru) volume \<Rightarrow> ('s, lru) volume" where
  "vol_run S cs v = foldl (\<lambda>v c. vol_step S lru_policy c v) v cs"

lemma evict_controller: "has_controller (snd (foldl (evict S P) (p, v) vs)) = has_controller v"
  by (induction vs arbitrary: p v) (simp_all add: evict_def)

lemma put_controller: "has_controller (snd (vol_put S P ks reqs v)) = has_controller v"
proof -
  obtain new p v1 where l: "put_land S ks reqs v = ((new, p), v1)" by (cases "put_land S ks reqs v") auto
  have "has_controller v1 = has_controller v" using land_state [OF l] by simp
  moreover have "has_controller (snd (make_room S P p ks v1)) = has_controller v1"
    by (auto simp: make_room_def Let_def evict_controller split: prod.splits)
      (metis evict_controller snd_conv)+
  moreover have "has_controller (snd (put_commit S P ks new q u)) = has_controller u" for q u
    by (auto simp: put_commit_def Let_def)
  ultimately show ?thesis unfolding vol_put_def l by (auto split: prod.splits)
qed

lemma forgets_controller: "has_controller (foldl (\<lambda>v k. vol_forget P k v) v ks) = has_controller v"
  by (induction ks arbitrary: v) simp_all

lemma step_controller: "has_controller (vol_step S P c v) = has_controller v"
  by (cases c) (simp_all add: put_controller vol_get_def vol_touch_def vol_delete_batch_def vol_reset_def forgets_controller)

lemma run_state:
  fixes S :: "('s, 'q) store_ops" and s :: 's and vid :: vid and b :: bool
  assumes "at_most 0 c" "list_all call_ok cs"
  defines "v \<equiv> vol_run S cs (vol_init s vid c b lru_init)"
  shows "accounts v" "ranked lru_policy (\<lambda>r. dwf (used r)) (\<lambda>r k. dget (lru_bytes r) k 0) v"
    "capacity_bytes v = c" "has_controller v = b"
proof -
  let ?i = "vol_init s vid c b lru_init"
  have i: "accounts ?i" "ranked lru_policy (\<lambda>r. dwf (used r)) (\<lambda>r k. dget (lru_bytes r) k 0) ?i" "capacity_bytes ?i = c"
    using assms(1) by (simp_all add: accounts_def ranked_def vol_init_def lru_init_def)
  have "at_most 0 (capacity_bytes ?i)" using i(3) assms(1) by simp
  from least_recent.run_keeps [OF i(1,2) this assms(2), of S] i(3)
  show "accounts v" "ranked lru_policy (\<lambda>r. dwf (used r)) (\<lambda>r k. dget (lru_bytes r) k 0) v" "capacity_bytes v = c"
    unfolding v_def vol_run_def by auto
  have "has_controller (foldl (\<lambda>v c. vol_step S lru_policy c v) u cs) = has_controller u" for u :: "('s, lru) volume"
    by (induction cs arbitrary: u) (simp_all add: step_controller)
  then show "has_controller v = b" unfolding v_def vol_run_def by (simp add: vol_init_def)
qed

text \<open>C11: as long as the calls on a volume run one after another, each to its end, its resident total
  is exactly the sum of what it accounts each key with, never exceeds the capacity (not negative),
  and never passes the recorded peak. The calls are any sequence of puts, gets, touches, deletes,
  batch deletes and resets, puts that are refused included, under LRU retention and over any backing
  store whose put and delete do not raise. Calls that overlap are not covered: a put that runs while
  another one waits for the directory breaks both the sum and the bound (\<open>interleaved_put_lost\<close>
  below).\<close>

theorem residency_exact_and_bounded:
  assumes "at_most 0 c" and "list_all call_ok cs"
  shows "let v = vol_run S cs (vol_init s vid c b lru_init)
    in resident_bytes v = dsum (resident_by_key v) \<and> at_most (of_int (resident_bytes v)) c \<and>
       resident_bytes v \<le> peak_resident_bytes v \<and> dwf (resident_by_key v)"
  using run_state(1,3) [OF assms] unfolding accounts_def Let_def by metis


subsection \<open>A small volume\<close>

definition dict_store :: "((key \<times> stored) list, stored) store_ops" where
  "dict_store = \<lparr>st_put = \<lambda>reqs s. foldl (\<lambda>s (k, x). AList.update k x s) s reqs, st_kv = map_of,
     st_delete = AList.delete, st_release = \<lambda>k s. s, st_reset = \<lambda>s. []\<rparr>"

abbreviation block :: "nat \<Rightarrow> stored" where
  "block n \<equiv> Full (Tensor n 1)"

definition small_calls :: "stored vol_call list" where
  "small_calls = [Put [''a''] [(''a'', block 4)], Put [''b''] [(''b'', block 5)], Touch [''a'']]"

lemma small_calls_ok: "list_all call_ok small_calls" "call_ok (Put [''c''] [(''c'', block 6)])"
  by (simp_all add: small_calls_def)

definition small_volume :: "((key \<times> stored) list, lru) volume" where
  "small_volume = vol_run dict_store small_calls (vol_init [] ''v'' (Fin (of_int 10)) True lru_init)"

lemma residency_exact_and_bounded_witness:
  "resident_bytes small_volume = 9 \<and> at_most (of_int (resident_bytes small_volume)) (Fin (of_int 10))"
proof -
  have "resident_bytes small_volume = 9" by code_simp
  moreover have "at_most 0 (Fin (of_int 10))" by simp
  from residency_exact_and_bounded [OF this small_calls_ok(1), of dict_store "[]" "''v''" True]
  have "at_most (of_int (resident_bytes small_volume)) (Fin (of_int 10))"
    unfolding Let_def small_volume_def by blast
  ultimately show ?thesis by blast
qed


subsection \<open>Where the accounting stops holding\<close>

text \<open>
  A put that has to make room waits for the directory before it commits, and commits the total it
  projected before waiting. If the hop takes time, a second put runs in between: its bytes are then
  missing from the total, and the volume holds more than its capacity.
\<close>

lemma interleaved_put_lost:
  "let v0 = vol_run dict_store [Put [''a''] [(''a'', block 6)]] (vol_init [] ''v'' (Fin (of_int 10)) True lru_init);
       ((new_by_key, projected), v1) = put_land dict_store [''b''] [(''b'', block 6)] v0;
       (projected', v2) = make_room dict_store lru_policy projected [''b''] v1;
       (e, v3) = vol_put dict_store lru_policy [''c''] [(''c'', block 5)] v2;
       (e', v4) = put_commit dict_store lru_policy [''b''] new_by_key projected' v3
   in e = None \<and> e' = None \<and> resident_bytes v4 = 6 \<and> dsum (resident_by_key v4) = 11"
  by code_simp

text \<open>
  A refused put rolls back only the keys that are new: an overwrite stays in the store at its new
  size and is still accounted with the old one.
\<close>

lemma refused_overwrite_stays:
  "let v0 = vol_run dict_store [Put [''a''] [(''a'', block 4)]] (vol_init [] ''v'' (Fin (of_int 10)) True lru_init);
       (e, v1) = vol_put dict_store lru_policy [''a''] [(''a'', block 12)] v0
   in e = Some StorageFull \<and> resident_bytes v1 = 4 \<and> stored_nbytes (st_kv dict_store (backing v1) ''a'') = 12"
  by code_simp

text \<open>
  The keys of one put are noted in the order a Python set of strings iterates in, which differs
  between processes: which of them is colder, and so evicted first, differs with it.
\<close>

lemma eviction_follows_set_order:
  "let reqs = [(''a'', block 4), (''b'', block 4)];
       put = (\<lambda>ks. snd (vol_put dict_store lru_policy ks reqs (vol_init [] ''v'' (Fin (of_int 10)) True lru_init)))
   in lru_victims 1 [] (ranking (put [''a'', ''b''])) = [''a''] \<and> lru_victims 1 [] (ranking (put [''b'', ''a''])) = [''b'']"
  by code_simp

end
