(* ===== verification/Transport.thy ===== *)
theory Transport
  imports Resources Volume
begin

section \<open>Moving bytes between a client and a volume\<close>

text \<open>
  The registry of \<^verbatim>\<open>sim_common/resources.py\<close> and \<^verbatim>\<open>realsim/seams/transport.py\<close>. A coroutine is its
  sequence of awaits: a \<open>proc\<close> returns, raises, suspends on a request and goes on with the instant at
  which it is resumed, has an effect, or reads the clock. What torchstore's own put and get do before the charges is a
  \<open>proc\<close> argument. A contended resource is modelled for finite bandwidths (a channel divides by them).
\<close>

subsection \<open>The registry\<close>

datatype resource_key = Net vid | Store vid string

text \<open>A progressive channel with the timers of the transfers still warming up on it.\<close>

datatype channel =
    Serialized serialize_channel
  | Shared progressive_channel "(time \<times> transfer) list"

record registry =
  rg_mode :: string
  rg_channels :: "(resource_key \<times> channel) list"
  rg_seq :: nat

definition CONTENTION_MODES :: "string list" where
  "CONTENTION_MODES = [''none'', ''serialize'', ''progressive'']"

definition registry_init :: "string \<Rightarrow> registry res" where
  "registry_init mode =
     (if mode \<in> set CONTENTION_MODES then Inr \<lparr>rg_mode = mode, rg_channels = [], rg_seq = 0\<rparr> else Inl ValueError)"

definition from_config :: "string option \<Rightarrow> string \<Rightarrow> registry res" where
  "from_config contention current = registry_init (case contention of Some c \<Rightarrow> c | None \<Rightarrow> current)"

definition new_channel :: "string \<Rightarrow> real \<Rightarrow> time \<Rightarrow> channel" where
  "new_channel mode capacity now =
     (if mode = ''serialize'' then Serialized serialize_init else Shared (progressive_init capacity now) [])"

fun channel_register :: "time \<Rightarrow> transfer \<Rightarrow> channel \<Rightarrow> channel" where
  "channel_register now t (Serialized ch) = Serialized (serialize_register now t ch)"
| "channel_register now t (Shared ch warm) = Shared ch (warm @ [(progressive_register now t, t)])"

text \<open>Up to the await: the future awaited is known by the transfer's seq.\<close>

definition registry_transfer ::
  "time \<Rightarrow> resource_key \<Rightarrow> real \<Rightarrow> time \<Rightarrow> int \<Rightarrow> registry \<Rightarrow> nat \<times> registry" where
  "registry_transfer now k capacity latency n r =
     (let s = rg_seq r + 1;
          t = \<lparr>tr_seq = s, remaining = of_int n, tr_latency = latency, tr_capacity = capacity\<rparr>;
          ch = (case map_of (rg_channels r) k of Some ch \<Rightarrow> ch | None \<Rightarrow> new_channel (rg_mode r) capacity now)
      in (s, r\<lparr>rg_seq := s, rg_channels := AList.update k (channel_register now t ch) (rg_channels r)\<rparr>))"

text \<open>
  The next timer of a channel firing: when, what it leaves, and whose future it resolves. At one
  instant a warmed-up transfer enters before another completes.
\<close>

definition earliest :: "(time \<times> transfer) list \<Rightarrow> time \<times> transfer" where
  "earliest ws = arg_min_list fst ws"

fun channel_fire :: "channel \<Rightarrow> (time \<times> channel \<times> nat option) option" where
  "channel_fire (Serialized ch) =
     (case sc_timer ch of
        None \<Rightarrow> None
      | Some (due, t) \<Rightarrow> Some (due, Serialized (serialize_finish due ch), Some (tr_seq t)))"
| "channel_fire (Shared ch warm) =
     (if warm \<noteq> [] \<and> (\<forall>h \<in> set (pc_handles ch). fst (earliest warm) \<le> snd h)
      then let (due, t) = earliest warm in Some (due, Shared (enter due t ch) (remove1 (due, t) warm), None)
      else if pc_handles ch = [] then None
      else let (s, due) = arg_min_list snd (pc_handles ch); (ch', resolved) = complete due s ch
           in Some (due, Shared ch' warm, if resolved then Some s else None))"

fun timers :: "channel \<Rightarrow> nat" where
  "timers (Serialized ch) = length (sc_queue ch) + (if sc_timer ch = None then 0 else 1)"
| "timers (Shared ch warm) = 2 * length warm + length (pc_handles ch)"

text \<open>A future awaited while nobody else acts: the channel's timers fire until it resolves.\<close>

fun await_future :: "nat \<Rightarrow> nat \<Rightarrow> channel \<Rightarrow> (time \<times> channel) option" where
  "await_future 0 s ch = None"
| "await_future (Suc fuel) s ch =
     (case channel_fire ch of
        None \<Rightarrow> None
      | Some (due, ch', resolved) \<Rightarrow> if resolved = Some s then Some (due, ch') else await_future fuel s ch')"

subsection \<open>A coroutine and its awaits\<close>

datatype io_request = Sleep time | Move resource_key time ext int

datatype charge =
    Xfer string vid vid int time
  | Storage string vid int time
  | Staged vid int time
  | Line string string

datatype io_effect = Row time charge | Moved string vid vid int time | Finished string time time

datatype 'a proc =
    Return 'a
  | Raise py_error
  | Await io_request "time \<Rightarrow> 'a proc"
  | Emit io_effect "'a proc"
  | Clock "time \<Rightarrow> 'a proc"

primrec bindp :: "'a proc \<Rightarrow> ('a \<Rightarrow> 'b proc) \<Rightarrow> 'b proc" where
  "bindp (Return x) f = f x"
| "bindp (Raise e) f = Raise e"
| "bindp (Await q k) f = Await q (\<lambda>now. bindp (k now) f)"
| "bindp (Emit e p) f = Emit e (bindp p f)"
| "bindp (Clock k) f = Clock (\<lambda>now. bindp (k now) f)"

definition computed :: "'a res \<Rightarrow> ('a \<Rightarrow> 'b proc) \<Rightarrow> 'b proc" where
  "computed m f = (case m of Inl e \<Rightarrow> Raise e | Inr x \<Rightarrow> f x)"

subsection \<open>The transport\<close>

record put_request =
  pr_tensor :: "payload option"
  pr_object :: payload

definition request_nbytes :: "put_request \<Rightarrow> int" where
  "request_nbytes r = (case pr_tensor r of Some v \<Rightarrow> nbytes v | None \<Rightarrow> nbytes (pr_object r))"

record transport =
  tp_src :: endpoint
  tp_dst :: endpoint
  tp_profile :: machine_profile
  tp_tracing :: bool
  tp_listening :: bool
  tp_mode :: "string option"
  tp_collapse :: bool

text \<open>The registry is shared; what a transport asks of it beside transfers is whether there is one, and its mode.\<close>

definition transport_init ::
  "endpoint \<Rightarrow> endpoint \<Rightarrow> machine_profile option \<Rightarrow> bool \<Rightarrow> bool \<Rightarrow> string option \<Rightarrow> bool option \<Rightarrow> bool \<Rightarrow> transport" where
  "transport_init src dst profile tracing listening mode collapse_charges current =
     (let flag = (case collapse_charges of None \<Rightarrow> current | Some b \<Rightarrow> b);
          contended = (mode \<noteq> None \<and> mode \<noteq> Some ''none'')
      in \<lparr>tp_src = src, tp_dst = dst,
          tp_profile = (case profile of Some p \<Rightarrow> p | None \<Rightarrow> DEFAULT_PROFILE),
          tp_tracing = tracing, tp_listening = listening, tp_mode = mode, tp_collapse = (flag \<and> \<not> contended)\<rparr>)"

definition contended :: "transport \<Rightarrow> time \<Rightarrow> bool" where
  "contended t dt \<longleftrightarrow> tp_mode t \<noteq> None \<and> tp_mode t \<noteq> Some ''none'' \<and> 0 < dt"

definition emit_if :: "bool \<Rightarrow> io_effect \<Rightarrow> 'a proc \<Rightarrow> 'a proc" where
  "emit_if b e p = (if b then Emit e p else p)"

definition emit_network ::
  "transport \<Rightarrow> endpoint \<Rightarrow> endpoint \<Rightarrow> int \<Rightarrow> string \<Rightarrow> time \<Rightarrow> time \<Rightarrow> 'a proc \<Rightarrow> 'a proc" where
  "emit_network t src dst n kind dt now p =
     emit_if (tp_tracing t) (Row now (Xfer kind (ep_id src) (ep_id dst) n dt))
      (emit_if (tp_listening t) (Moved kind (ep_id src) (ep_id dst) n dt) p)"

definition emit_storage :: "transport \<Rightarrow> int \<Rightarrow> string \<Rightarrow> time \<Rightarrow> time \<Rightarrow> 'a proc \<Rightarrow> 'a proc" where
  "emit_storage t n kind dt now p =
     emit_if (tp_tracing t \<and> 0 < dt) (Row now (Storage kind (ep_id (tp_dst t)) n dt)) p"

definition emit_mem :: "transport \<Rightarrow> int \<Rightarrow> time \<Rightarrow> time \<Rightarrow> 'a proc \<Rightarrow> 'a proc" where
  "emit_mem t n dt now p = emit_if (tp_tracing t \<and> 0 < dt) (Row now (Staged (ep_id (tp_dst t)) n dt)) p"

definition charge_network ::
  "transport \<Rightarrow> endpoint \<Rightarrow> endpoint \<Rightarrow> int \<Rightarrow> string \<Rightarrow> 'a proc \<Rightarrow> 'a proc" where
  "charge_network t src dst n kind p =
     computed (network_time src dst n (tp_profile t)) (\<lambda>dt.
       if contended t dt
       then computed (network_rate src dst (tp_profile t)) (\<lambda>(latency, bandwidth).
            Await (Move (Net (ep_id src)) latency bandwidth n) (\<lambda>now. emit_network t src dst n kind dt now p))
       else Await (Sleep dt) (\<lambda>now. emit_network t src dst n kind dt now p))"

definition charge_storage :: "transport \<Rightarrow> int \<Rightarrow> string \<Rightarrow> 'a proc \<Rightarrow> 'a proc" where
  "charge_storage t n kind p =
     computed (storage_time n kind (tp_profile t)) (\<lambda>dt.
       if contended t dt
       then computed (storage_rate kind (tp_profile t)) (\<lambda>(latency, bandwidth).
            Await (Move (Store (ep_id (tp_dst t)) kind) latency bandwidth n) (\<lambda>now. emit_storage t n kind dt now p))
       else Await (Sleep dt) (\<lambda>now. emit_storage t n kind dt now p))"

definition charge_mem :: "transport \<Rightarrow> int \<Rightarrow> 'a proc \<Rightarrow> 'a proc" where
  "charge_mem t n p =
     computed (mem_copy_time n (tp_profile t)) (\<lambda>dt. Await (Sleep dt) (\<lambda>now. emit_mem t n dt now p))"

definition put_to_storage_volume :: "transport \<Rightarrow> unit proc \<Rightarrow> put_request list \<Rightarrow> unit proc" where
  "put_to_storage_volume t lifecycle requests =
     (let n = sum_list (map request_nbytes requests)
      in bindp lifecycle (\<lambda>_.
         if tp_collapse t
         then computed (network_time (tp_src t) (tp_dst t) n (tp_profile t)) (\<lambda>dt_net.
              computed (storage_time n ''write'' (tp_profile t)) (\<lambda>dt_store.
              Await (Sleep (dt_net + dt_store)) (\<lambda>now.
              emit_network t (tp_src t) (tp_dst t) n ''put'' dt_net now
               (emit_storage t n ''write'' dt_store now (Return ())))))
         else charge_network t (tp_src t) (tp_dst t) n ''put'' (charge_storage t n ''write'' (Return ()))))"

definition get_from_storage_volume :: "transport \<Rightarrow> payload list proc \<Rightarrow> payload list proc" where
  "get_from_storage_volume t lifecycle =
     bindp lifecycle (\<lambda>results.
       let n = sum_list (map nbytes results) in
       if tp_collapse t
       then computed (storage_time n ''read'' (tp_profile t)) (\<lambda>dt_store.
            computed (mem_copy_time n (tp_profile t)) (\<lambda>dt_mem.
            computed (network_time (tp_dst t) (tp_src t) n (tp_profile t)) (\<lambda>dt_net.
            Await (Sleep (dt_store + dt_mem + dt_net)) (\<lambda>now.
            emit_storage t n ''read'' dt_store now
             (emit_mem t n dt_mem now
               (emit_network t (tp_dst t) (tp_src t) n ''get'' dt_net now (Return results)))))))
       else charge_storage t n ''read'' (charge_mem t n
             (charge_network t (tp_dst t) (tp_src t) n ''get'' (Return results))))"


subsection \<open>An operation by itself\<close>

text \<open>
  A coroutine run while nobody else starts anything: a sleep ends when it is due, a transfer when its
  channel's timers resolve it. A contended transfer over an infinite bandwidth is not modelled (\<open>None\<close>).
\<close>

record world =
  w_now :: time
  w_registry :: registry
  w_rows :: "(time \<times> charge) list"
  w_moved :: "(string \<times> vid \<times> vid \<times> int \<times> time) list"
  w_finished :: "(string \<times> time \<times> time) list"

fun perform :: "io_effect \<Rightarrow> world \<Rightarrow> world" where
  "perform (Row now c) w = w\<lparr>w_rows := w_rows w @ [(now, c)]\<rparr>"
| "perform (Moved kind a b n cost) w = w\<lparr>w_moved := w_moved w @ [(kind, a, b, n, cost)]\<rparr>"
| "perform (Finished i released now) w = w\<lparr>w_finished := w_finished w @ [(i, released, now)]\<rparr>"

fun resume :: "io_request \<Rightarrow> world \<Rightarrow> world option" where
  "resume (Sleep dt) w = Some (w\<lparr>w_now := w_now w + max 0 dt\<rparr>)"
| "resume (Move k latency Inf n) w = None"
| "resume (Move k latency (Fin capacity) n) w =
     (let (s, r) = registry_transfer (w_now w) k capacity latency n (w_registry w);
          ch = the (map_of (rg_channels r) k)
      in case await_future (timers ch) s ch of
           None \<Rightarrow> None
         | Some (due, ch') \<Rightarrow>
             Some (w\<lparr>w_now := due, w_registry := r\<lparr>rg_channels := AList.update k ch' (rg_channels r)\<rparr>\<rparr>))"

primrec run_alone :: "'a proc \<Rightarrow> world \<Rightarrow> ('a res \<times> world) option" where
  "run_alone (Return x) w = Some (Inr x, w)"
| "run_alone (Raise e) w = Some (Inl e, w)"
| "run_alone (Await q k) w = (case resume q w of None \<Rightarrow> None | Some w' \<Rightarrow> run_alone (k (w_now w')) w')"
| "run_alone (Emit e p) w = run_alone p (perform e w)"
| "run_alone (Clock k) w = run_alone (k (w_now w)) w"

lemma run_alone_bindp:
  "run_alone (bindp p f) w =
     (case run_alone p w of
        None \<Rightarrow> None
      | Some (Inl e, w') \<Rightarrow> Some (Inl e, w')
      | Some (Inr x, w') \<Rightarrow> run_alone (f x) w')"
  by (induction p arbitrary: w) (auto split: option.splits)

lemma computed_Inr [simp]: "computed (Inr x) f = f x"
  by (simp add: computed_def)

lemma run_emit_if [simp]: "run_alone (emit_if b e p) w = run_alone p (if b then perform e w else w)"
  by (simp add: emit_if_def)

subsection \<open>A lone transfer costs its analytic time\<close>

fun idle_channel :: "channel \<Rightarrow> bool" where
  "idle_channel (Serialized ch) = (serialize_wf ch \<and> sc_timer ch = None)"
| "idle_channel (Shared ch warm) = (pc_active ch = [] \<and> pc_handles ch = [] \<and> warm = [])"

text \<open>A progressive channel has the capacity of the transfer that created it.\<close>

definition carries :: "registry \<Rightarrow> resource_key \<Rightarrow> ext \<Rightarrow> bool" where
  "carries r k bw =
     (case map_of (rg_channels r) k of Some (Shared ch warm) \<Rightarrow> Fin (pc_capacity ch) = bw | _ \<Rightarrow> True)"

definition all_idle :: "registry \<Rightarrow> bool" where
  "all_idle r = (\<forall>k. case map_of (rg_channels r) k of None \<Rightarrow> True | Some ch \<Rightarrow> idle_channel ch)"

text \<open>
  On a progressive channel a lone transfer moves at the capacity of the channel, which is that of the
  transfer that created it: its own is not looked at.
\<close>

lemma shared_alone:
  fixes latency now :: time and capacity :: real and s :: nat
  assumes "idle_channel (Shared c warm)" "0 < n" "0 < pc_capacity c"
  defines "t \<equiv> \<lparr>tr_seq = s, remaining = of_int n, tr_latency = latency, tr_capacity = capacity\<rparr>"
  shows "\<exists>c'. await_future (timers (channel_register now t (Shared c warm))) s (channel_register now t (Shared c warm)) =
      Some (now + latency + of_int n / pc_capacity c, Shared c' []) \<and> idle_channel (Shared c' []) \<and>
      pc_capacity c' = pc_capacity c"
proof -
  let ?due = "now + latency"
  let ?c1 = "enter ?due t c"
  have c: "pc_active c = []" "pc_handles c = []" "warm = []" using assms by auto
  have c1: "pc_active ?c1 = [(s, t)]" "pc_handles ?c1 = [(s, ?due + of_int n / pc_capacity c)]" "pc_rate ?c1 = pc_capacity c"
    "pc_last ?c1 = ?due" "pc_capacity ?c1 = pc_capacity c"
    using c by (simp_all add: enter_def advance_def recompute_def Let_def t_def)
  let ?fin = "?due + of_int n / pc_capacity c"
  obtain c2 where c2: "complete ?fin s ?c1 = (c2, True)" "pc_active c2 = []" "pc_handles c2 = []" "pc_capacity c2 = pc_capacity c"
    using c1 by (simp add: complete_def advance_def recompute_def Let_def)
  have reg: "channel_register now t (Shared c warm) = Shared c [(?due, t)]"
    using c by (simp add: progressive_register_def t_def)
  have fires: "channel_fire (Shared c [(?due, t)]) = Some (?due, Shared ?c1 [], None)"
    "channel_fire (Shared ?c1 []) = Some (?fin, Shared c2 [], Some s)"
    using c by (simp_all add: earliest_def c1(2) c2(1))
  have "await_future 2 s (Shared c [(?due, t)]) = Some (?fin, Shared c2 [])"
    by (simp add: numeral_2_eq_2 fires del: channel_fire.simps)
  moreover have "timers (channel_register now t (Shared c warm)) = 2" using reg c by simp
  ultimately show ?thesis using c2 reg by simp
qed

lemma lone_future:
  fixes latency now :: time and s :: nat
  assumes "idle_channel ch" "0 < n"
    and "case ch of Shared c warm \<Rightarrow> pc_capacity c = capacity | _ \<Rightarrow> True" "0 < capacity"
  defines "t \<equiv> \<lparr>tr_seq = s, remaining = of_int n, tr_latency = latency, tr_capacity = capacity\<rparr>"
  shows "\<exists>ch'. await_future (timers (channel_register now t ch)) s (channel_register now t ch) =
      Some (now + latency + of_int n / capacity, ch') \<and> idle_channel ch' \<and>
    (case ch' of Shared c' warm \<Rightarrow> pc_capacity c' = capacity | _ \<Rightarrow> True)"
proof (cases ch)
  case (Serialized c)
  then show ?thesis
    using assms(1) by (auto simp: t_def serialize_register_def serialize_wf_def start_next_def Let_def solo_cost_def
        serialize_finish_def split: list.splits)
next
  case (Shared c warm)
  with assms(1-4) shared_alone [where c = c and warm = warm and n = n and s = s and latency = latency and capacity = capacity and now = now] show ?thesis
    by (fastforce simp: t_def simp del: channel_register.simps idle_channel.simps)
qed

lemma new_channel_idle: "idle_channel (new_channel mode capacity now)"
  using serialize_wf_init by (simp add: new_channel_def progressive_init_def) (simp add: serialize_init_def)

lemma move_alone:
  assumes "all_idle (w_registry w)" "carries (w_registry w) k (Fin capacity)" "0 < n" "0 < capacity"
  shows "\<exists>r'. resume (Move k latency (Fin capacity) n) w =
      Some (w\<lparr>w_now := w_now w + latency + of_int n / capacity, w_registry := r'\<rparr>) \<and>
    all_idle r' \<and> rg_mode r' = rg_mode (w_registry w) \<and> carries r' k (Fin capacity) \<and>
    (\<forall>k' bw. k' \<noteq> k \<longrightarrow> carries r' k' bw = carries (w_registry w) k' bw)"
proof -
  let ?r = "w_registry w"
  let ?ch = "case map_of (rg_channels ?r) k of Some ch \<Rightarrow> ch | None \<Rightarrow> new_channel (rg_mode ?r) capacity (w_now w)"
  let ?t = "\<lparr>tr_seq = rg_seq ?r + 1, remaining = of_int n, tr_latency = latency, tr_capacity = capacity\<rparr>"
  have "idle_channel ?ch"
    using assms(1) new_channel_idle by (auto simp: all_idle_def split: option.splits)
  moreover have "case ?ch of Shared c warm \<Rightarrow> pc_capacity c = capacity | _ \<Rightarrow> True"
    using assms(2) by (auto simp: carries_def new_channel_def progressive_init_def split: option.splits channel.splits)
  ultimately obtain ch' where ch': "await_future (timers (channel_register (w_now w) ?t ?ch)) (rg_seq ?r + 1)
      (channel_register (w_now w) ?t ?ch) = Some (w_now w + latency + of_int n / capacity, ch')"
    "idle_channel ch'" "case ch' of Shared c' warm \<Rightarrow> pc_capacity c' = capacity | _ \<Rightarrow> True"
    using lone_future [OF _ assms(3) _ assms(4)] by blast
  let ?r' = "?r\<lparr>rg_seq := rg_seq ?r + 1, rg_channels := AList.update k ch'
      (AList.update k (channel_register (w_now w) ?t ?ch) (rg_channels ?r))\<rparr>"
  have "resume (Move k latency (Fin capacity) n) w =
      Some (w\<lparr>w_now := w_now w + latency + of_int n / capacity, w_registry := ?r'\<rparr>)"
    using ch'(1) by (simp add: registry_transfer_def Let_def)
  moreover have "all_idle ?r'" using assms(1) ch'(2) by (simp add: all_idle_def)
  moreover have "carries ?r' k (Fin capacity)" using ch'(3) by (auto simp: carries_def split: channel.splits)
  moreover have "\<forall>k' bw. k' \<noteq> k \<longrightarrow> carries ?r' k' bw = carries ?r k' bw" by (simp add: carries_def)
  ultimately show ?thesis by (intro exI [of _ ?r']) simp
qed


subsection \<open>What an operation is charged\<close>

definition net_effects :: "transport \<Rightarrow> endpoint \<Rightarrow> endpoint \<Rightarrow> int \<Rightarrow> string \<Rightarrow> time \<Rightarrow> time \<Rightarrow> io_effect list" where
  "net_effects t src dst n kind dt now =
     (if tp_tracing t then [Row now (Xfer kind (ep_id src) (ep_id dst) n dt)] else []) @
     (if tp_listening t then [Moved kind (ep_id src) (ep_id dst) n dt] else [])"

definition storage_effects :: "transport \<Rightarrow> int \<Rightarrow> string \<Rightarrow> time \<Rightarrow> time \<Rightarrow> io_effect list" where
  "storage_effects t n kind dt now =
     (if tp_tracing t \<and> 0 < dt then [Row now (Storage kind (ep_id (tp_dst t)) n dt)] else [])"

definition mem_effects :: "transport \<Rightarrow> int \<Rightarrow> time \<Rightarrow> time \<Rightarrow> io_effect list" where
  "mem_effects t n dt now = (if tp_tracing t \<and> 0 < dt then [Row now (Staged (ep_id (tp_dst t)) n dt)] else [])"

lemmas effects = net_effects_def storage_effects_def mem_effects_def

lemma run_emit [simp]:
  "run_alone (emit_network t a b n kind dt now p) w = run_alone p (fold perform (net_effects t a b n kind dt now) w)"
  "run_alone (emit_storage t n kind dt now p) w = run_alone p (fold perform (storage_effects t n kind dt now) w)"
  "run_alone (emit_mem t n dt now p) w = run_alone p (fold perform (mem_effects t n dt now) w)"
  by (simp_all add: emit_network_def emit_storage_def emit_mem_def effects)

lemma effects_keep [simp]:
  "w_now (fold perform es w) = w_now w" "w_registry (fold perform es w) = w_registry w"
proof -
  have "w_now (perform e w) = w_now w \<and> w_registry (perform e w) = w_registry w" for e w by (cases e) auto
  then show "w_now (fold perform es w) = w_now w" "w_registry (fold perform es w) = w_registry w"
    by (induction es arbitrary: w) auto
qed

lemma effects_commute [simp]:
  "(fold perform es w)\<lparr>w_now := x\<rparr> = fold perform es (w\<lparr>w_now := x\<rparr>)"
  "(fold perform es w)\<lparr>w_registry := r\<rparr> = fold perform es (w\<lparr>w_registry := r\<rparr>)"
proof -
  have "(perform e w)\<lparr>w_now := x\<rparr> = perform e (w\<lparr>w_now := x\<rparr>) \<and>
      (perform e w)\<lparr>w_registry := r\<rparr> = perform e (w\<lparr>w_registry := r\<rparr>)" for e w by (cases e) auto
  then show "(fold perform es w)\<lparr>w_now := x\<rparr> = fold perform es (w\<lparr>w_now := x\<rparr>)"
    "(fold perform es w)\<lparr>w_registry := r\<rparr> = fold perform es (w\<lparr>w_registry := r\<rparr>)"
    by (induction es arbitrary: w) auto
qed

lemma world_order: "w\<lparr>w_registry := r, w_now := x\<rparr> = w\<lparr>w_now := x, w_registry := r\<rparr>"
  by simp

text \<open>The resources a transport moves bytes over, with their bandwidths.\<close>

definition moves_over :: "transport \<Rightarrow> resource_key \<Rightarrow> ext \<Rightarrow> bool" where
  "moves_over t k bw \<longleftrightarrow>
     ep_id (tp_src t) \<noteq> ep_id (tp_dst t) \<and>
       (k = Net (ep_id (tp_src t)) \<and> map_option snd (map_of (mp_tiers (tp_profile t)) (locality (tp_src t) (tp_dst t))) = Some bw \<or>
        k = Net (ep_id (tp_dst t)) \<and> map_option snd (map_of (mp_tiers (tp_profile t)) (locality (tp_dst t) (tp_src t))) = Some bw) \<or>
     k = Store (ep_id (tp_dst t)) ''read'' \<and> bw = storage_read_bw (tp_profile t) \<or>
     k = Store (ep_id (tp_dst t)) ''write'' \<and> bw = storage_write_bw (tp_profile t)"

text \<open>An infinite bandwidth is one that costs nothing, so that no transfer over it is ever contended.\<close>

definition finite_or_free :: "machine_profile \<Rightarrow> bool" where
  "finite_or_free p \<longleftrightarrow> (\<forall>(t, lat, bw) \<in> set (mp_tiers p). bw = Inf \<longrightarrow> lat = 0) \<and>
     (storage_read_bw p = Inf \<or> storage_write_bw p = Inf \<longrightarrow> storage_latency p = 0)"

text \<open>
  A quiet run: nobody else is moving bytes, the transport's registry is the run's, and each channel it
  uses was created with the bandwidth it moves at (the \<^emph>\<open>homogeneous egress\<close> of the code's comment).
\<close>

definition quiet_for :: "transport \<Rightarrow> registry \<Rightarrow> bool" where
  "quiet_for t r \<longleftrightarrow> tp_mode t \<in> {None, Some ''none''} \<or>
     tp_mode t = Some (rg_mode r) \<and> finite_or_free (tp_profile t) \<and> all_idle r \<and>
     (\<forall>k bw. moves_over t k bw \<longrightarrow> carries r k bw)"

lemma moves_over_functional: "moves_over t k bw \<Longrightarrow> moves_over t k bw' \<Longrightarrow> bw = bw'"
  by (auto simp: moves_over_def)

lemma quiet_move:
  assumes "quiet_for t (w_registry w)" "contended t dt" "moves_over t k (Fin capacity)" "0 < n" "0 < capacity"
  shows "\<exists>r'. resume (Move k latency (Fin capacity) n) w =
      Some (w\<lparr>w_now := w_now w + latency + of_int n / capacity, w_registry := r'\<rparr>) \<and> quiet_for t r'"
proof -
  have q: "tp_mode t = Some (rg_mode (w_registry w))" "finite_or_free (tp_profile t)" "all_idle (w_registry w)"
    "\<forall>k bw. moves_over t k bw \<longrightarrow> carries (w_registry w) k bw"
    using assms(1,2) by (auto simp: quiet_for_def contended_def)
  from move_alone [OF q(3) _ assms(4,5)] q(4) assms(3) obtain r' where
    r': "resume (Move k latency (Fin capacity) n) w =
      Some (w\<lparr>w_now := w_now w + latency + of_int n / capacity, w_registry := r'\<rparr>)"
    "all_idle r'" "rg_mode r' = rg_mode (w_registry w)" "carries r' k (Fin capacity)"
    "\<forall>k' bw. k' \<noteq> k \<longrightarrow> carries r' k' bw = carries (w_registry w) k' bw"
    by blast
  have "carries r' k' bw" if "moves_over t k' bw" for k' bw
    using that q(4) r'(4,5) assms(3) moves_over_functional by metis
  with r' q show ?thesis by (auto simp: quiet_for_def)
qed

lemma charge_network_alone:
  assumes wf: "wf_profile (tp_profile t)" and q: "quiet_for t (w_registry w)" and n: "0 \<le> n"
    and ends: "(src, dst) = (tp_src t, tp_dst t) \<or> (src, dst) = (tp_dst t, tp_src t)"
    and dt: "network_time src dst n (tp_profile t) = Inr dt"
  shows "\<exists>r'. quiet_for t r' \<and> run_alone (charge_network t src dst n kind p) w =
    run_alone p (fold perform (net_effects t src dst n kind dt (w_now w + dt)) (w\<lparr>w_now := w_now w + dt, w_registry := r'\<rparr>))"
proof (cases "contended t dt")
  case False
  have "0 \<le> dt" using network_time_wf [OF wf n, of src dst] dt by auto
  with False dt show ?thesis
    by (intro exI [of _ "w_registry w"]) (simp add: charge_network_def max_absorb2 q)
next
  case True
  then have pos: "0 < dt" by (simp add: contended_def)
  have ids: "ep_id src \<noteq> ep_id dst" "n \<noteq> 0" using dt pos by (auto simp: cost_defs)
  obtain lat bw where tr: "map_of (mp_tiers (tp_profile t)) (locality src dst) = Some (lat, bw)" "0 \<le> lat" "pos_ext bw"
    using wf_tier [OF wf] by blast
  have "finite_or_free (tp_profile t)" using q True by (auto simp: quiet_for_def contended_def)
  moreover have "(locality src dst, lat, bw) \<in> set (mp_tiers (tp_profile t))" using tr(1) by (rule map_of_SomeD)
  ultimately obtain c where c: "bw = Fin c" "0 < c"
    using tr dt ids pos by (cases bw) (auto simp: finite_or_free_def cost_defs)
  have mv: "moves_over t (Net (ep_id src)) (Fin c)" using ends ids tr(1) c by (auto simp: moves_over_def)
  from quiet_move [OF q True mv _ c(2), of n lat] ids n obtain r' where
    r': "resume (Move (Net (ep_id src)) lat (Fin c) n) w = Some (w\<lparr>w_now := w_now w + lat + of_int n / c, w_registry := r'\<rparr>)"
    "quiet_for t r'" by auto
  have "dt = lat + of_int n / c" using dt ids tr(1) c by (auto simp: cost_defs)
  with r' True dt show ?thesis
    by (intro exI [of _ r']) (simp add: charge_network_def network_rate_def dindex_def tr(1) c(1) add.assoc)
qed

lemma charge_storage_alone:
  assumes wf: "wf_profile (tp_profile t)" and q: "quiet_for t (w_registry w)" and n: "0 \<le> n"
    and kind: "kind = ''read'' \<or> kind = ''write''"
    and dt: "storage_time n kind (tp_profile t) = Inr dt"
  shows "\<exists>r'. quiet_for t r' \<and> run_alone (charge_storage t n kind p) w =
    run_alone p (fold perform (storage_effects t n kind dt (w_now w + dt)) (w\<lparr>w_now := w_now w + dt, w_registry := r'\<rparr>))"
proof (cases "contended t dt")
  case False
  have "0 \<le> dt" using storage_time_wf [OF wf, of kind n] kind dt by auto
  with False dt show ?thesis
    by (intro exI [of _ "w_registry w"]) (simp add: charge_storage_def max_absorb2 q)
next
  case True
  then have pos: "0 < dt" by (simp add: contended_def)
  obtain bw where bw: "storage_bw kind (tp_profile t) = Inr bw" "pos_ext bw"
    "bw = (if kind = ''read'' then storage_read_bw (tp_profile t) else storage_write_bw (tp_profile t))"
    using wf kind by (auto simp: storage_bw_def wf_profile_def)
  have n0: "0 < n" using dt pos bw(1) by (auto simp: storage_time_def split: if_splits)
  have "finite_or_free (tp_profile t)" using q True by (auto simp: quiet_for_def contended_def)
  then have "bw \<noteq> Inf" using bw(1,3) dt pos n0 by (auto simp: finite_or_free_def storage_time_def split: if_splits)
  with bw(2) obtain c where c: "bw = Fin c" "0 < c" by (cases bw) auto
  have mv: "moves_over t (Store (ep_id (tp_dst t)) kind) (Fin c)" using kind bw(3) c by (auto simp: moves_over_def)
  let ?lat = "storage_latency (tp_profile t)"
  from quiet_move [OF q True mv n0 c(2), of ?lat] obtain r' where
    r': "resume (Move (Store (ep_id (tp_dst t)) kind) ?lat (Fin c) n) w = Some (w\<lparr>w_now := w_now w + ?lat + of_int n / c, w_registry := r'\<rparr>)"
    "quiet_for t r'" by auto
  have "dt = ?lat + of_int n / c" using dt n0 bw(1) c by (auto simp: storage_time_def)
  with r' True dt show ?thesis
    by (intro exI [of _ r']) (simp add: charge_storage_def storage_rate_def bw(1) c(1) add.assoc)
qed

lemma charge_mem_alone:
  assumes "wf_profile (tp_profile t)" "mem_copy_time n (tp_profile t) = Inr dt"
  shows "run_alone (charge_mem t n p) w =
    run_alone p (fold perform (mem_effects t n dt (w_now w + dt)) (w\<lparr>w_now := w_now w + dt\<rparr>))"
  using assms mem_copy_time_wf [OF assms(1), of n] by (auto simp: charge_mem_def max_absorb2)


definition get_effects :: "transport \<Rightarrow> int \<Rightarrow> time \<Rightarrow> time \<Rightarrow> time \<Rightarrow> time \<Rightarrow> io_effect list" where
  "get_effects t n s m d start =
     (let e = start + (s + m + d); i = (\<lambda>x. if tp_collapse t then e else x) in
      storage_effects t n ''read'' s (i (start + s)) @ mem_effects t n m (i (start + s + m)) @
      net_effects t (tp_dst t) (tp_src t) n ''get'' d e)"

definition put_effects :: "transport \<Rightarrow> int \<Rightarrow> time \<Rightarrow> time \<Rightarrow> time \<Rightarrow> io_effect list" where
  "put_effects t n d s start =
     (let e = start + (d + s); i = (\<lambda>x. if tp_collapse t then e else x) in
      net_effects t (tp_src t) (tp_dst t) n ''put'' d (i (start + d)) @ storage_effects t n ''write'' s e)"

lemma nbytes_total_nonneg: "0 \<le> sum_list (map nbytes vs)" "0 \<le> sum_list (map request_nbytes rs)"
  by (auto intro!: sum_list_nonneg simp: request_nbytes_def split: option.splits)

text \<open>Both ways of charging an operation, its components' times and what each leaves behind.\<close>

lemma get_alone:
  assumes wf: "wf_profile (tp_profile t)" and q: "quiet_for t (w_registry w0)"
    and life: "run_alone lifecycle w = Some (Inr results, w0)"
  defines "n \<equiv> sum_list (map nbytes results)"
  obtains s m d r' where "storage_time n ''read'' (tp_profile t) = Inr s" "mem_copy_time n (tp_profile t) = Inr m"
    "network_time (tp_dst t) (tp_src t) n (tp_profile t) = Inr d" "quiet_for t r'"
    "run_alone (get_from_storage_volume t lifecycle) w = Some (Inr results,
      fold perform (get_effects t n s m d (w_now w0)) (w0\<lparr>w_now := w_now w0 + (s + m + d), w_registry := r'\<rparr>))"
proof -
  have n: "0 \<le> n" by (simp add: n_def nbytes_total_nonneg)
  obtain s m d where c: "storage_time n ''read'' (tp_profile t) = Inr s" "mem_copy_time n (tp_profile t) = Inr m"
    "network_time (tp_dst t) (tp_src t) n (tp_profile t) = Inr d" "0 \<le> s" "0 \<le> m" "0 \<le> d"
    using storage_time_wf [OF wf, of "''read''" n] mem_copy_time_wf [OF wf, of n]
      network_time_wf [OF wf n, of "tp_dst t" "tp_src t"] by auto
  show thesis
  proof (cases "tp_collapse t")
    case True
    have "run_alone (get_from_storage_volume t lifecycle) w = Some (Inr results,
      fold perform (storage_effects t n ''read'' s (w_now w0 + (s + m + d)) @ mem_effects t n m (w_now w0 + (s + m + d)) @
        net_effects t (tp_dst t) (tp_src t) n ''get'' d (w_now w0 + (s + m + d))) (w0\<lparr>w_now := w_now w0 + (s + m + d)\<rparr>))"
      using True c by (simp add: get_from_storage_volume_def run_alone_bindp life Let_def n_def [symmetric] max_absorb2)
    with True show thesis by (intro that [OF c(1-3) q]) (simp add: get_effects_def Let_def)
  next
    case False
    let ?net = "charge_network t (tp_dst t) (tp_src t) n ''get'' (Return results)"
    obtain r1 where r1: "quiet_for t r1" "run_alone (charge_storage t n ''read'' (charge_mem t n ?net)) w0 =
        run_alone (charge_mem t n ?net) (fold perform (storage_effects t n ''read'' s (w_now w0 + s))
          (w0\<lparr>w_now := w_now w0 + s, w_registry := r1\<rparr>))"
      using charge_storage_alone [OF wf q n _ c(1)] by blast
    let ?w2 = "fold perform (storage_effects t n ''read'' s (w_now w0 + s) @ mem_effects t n m (w_now w0 + s + m))
          (w0\<lparr>w_now := w_now w0 + s + m, w_registry := r1\<rparr>)"
    have "run_alone (get_from_storage_volume t lifecycle) w = run_alone ?net ?w2"
      using False by (simp add: get_from_storage_volume_def run_alone_bindp life Let_def n_def [symmetric] r1(2)
          charge_mem_alone [OF wf c(2)] effects_commute world_order)
    moreover obtain r2 where "quiet_for t r2" "run_alone ?net ?w2 = run_alone (Return results)
        (fold perform (net_effects t (tp_dst t) (tp_src t) n ''get'' d (w_now ?w2 + d)) (?w2\<lparr>w_now := w_now ?w2 + d, w_registry := r2\<rparr>))"
      using charge_network_alone [OF wf _ n _ c(3), of ?w2] r1(1) by fastforce
    ultimately show thesis using False
      by (intro that [OF c(1-3), of r2]) (simp_all add: get_effects_def Let_def effects_commute world_order add.assoc)
  qed
qed

lemma put_alone:
  fixes requests :: "put_request list"
  assumes wf: "wf_profile (tp_profile t)" and q: "quiet_for t (w_registry w0)"
    and life: "run_alone lifecycle w = Some (Inr (), w0)"
  defines "n \<equiv> sum_list (map request_nbytes requests)"
  obtains d s r' where "network_time (tp_src t) (tp_dst t) n (tp_profile t) = Inr d"
    "storage_time n ''write'' (tp_profile t) = Inr s" "quiet_for t r'"
    "run_alone (put_to_storage_volume t lifecycle requests) w = Some (Inr (),
      fold perform (put_effects t n d s (w_now w0)) (w0\<lparr>w_now := w_now w0 + (d + s), w_registry := r'\<rparr>))"
proof -
  have n: "0 \<le> n" by (simp add: n_def nbytes_total_nonneg)
  obtain d s where c: "network_time (tp_src t) (tp_dst t) n (tp_profile t) = Inr d"
    "storage_time n ''write'' (tp_profile t) = Inr s" "0 \<le> d" "0 \<le> s"
    using storage_time_wf [OF wf, of "''write''" n] network_time_wf [OF wf n, of "tp_src t" "tp_dst t"] by auto
  show thesis
  proof (cases "tp_collapse t")
    case True
    then show thesis using c
      by (intro that [OF c(1,2) q])
        (simp add: put_to_storage_volume_def put_effects_def run_alone_bindp life Let_def n_def [symmetric] max_absorb2)
  next
    case False
    let ?store = "charge_storage t n ''write'' (Return ())"
    obtain r1 where r1: "quiet_for t r1" "run_alone (charge_network t (tp_src t) (tp_dst t) n ''put'' ?store) w0 =
        run_alone ?store (fold perform (net_effects t (tp_src t) (tp_dst t) n ''put'' d (w_now w0 + d))
          (w0\<lparr>w_now := w_now w0 + d, w_registry := r1\<rparr>))"
      using charge_network_alone [OF wf q n _ c(1)] by blast
    let ?w1 = "fold perform (net_effects t (tp_src t) (tp_dst t) n ''put'' d (w_now w0 + d))
          (w0\<lparr>w_now := w_now w0 + d, w_registry := r1\<rparr>)"
    obtain r2 where "quiet_for t r2" "run_alone ?store ?w1 = run_alone (Return ())
        (fold perform (storage_effects t n ''write'' s (w_now ?w1 + s)) (?w1\<lparr>w_now := w_now ?w1 + s, w_registry := r2\<rparr>))"
      using charge_storage_alone [OF wf _ n _ c(2), of ?w1] r1(1) by fastforce
    then show thesis using False r1(2)
      by (intro that [OF c(1,2), of r2])
        (simp_all add: put_to_storage_volume_def put_effects_def run_alone_bindp life Let_def n_def [symmetric] effects_commute world_order add.assoc)
  qed
qed

text \<open>C27: what a get costs is what a scheduler priced it at: by itself, under any contention mode and
  collapsed or not, it advances the clock by exactly the environment's read time for the bytes that came
  back, and leaves the resources as quiet as it found them.\<close>

theorem get_charged_as_priced:
  assumes "wf_profile (tp_profile t)" "env_profile env = Some (tp_profile t)"
    and "map_of (env_topology env) server = Some (tp_dst t)" "map_of (env_topology env) reader = Some (tp_src t)"
    and "run_alone lifecycle w = Some (Inr results, w0)" "quiet_for t (w_registry w0)"
  shows "\<exists>price w'. env_read_time env server reader (sum_list (map nbytes results)) = Inr price \<and>
    run_alone (get_from_storage_volume t lifecycle) w = Some (Inr results, w') \<and>
    w_now w' = w_now w0 + price \<and> quiet_for t (w_registry w')"
proof -
  let ?n = "sum_list (map nbytes results)"
  obtain s m d r' where r: "storage_time ?n ''read'' (tp_profile t) = Inr s" "mem_copy_time ?n (tp_profile t) = Inr m"
    "network_time (tp_dst t) (tp_src t) ?n (tp_profile t) = Inr d" "quiet_for t r'"
    "run_alone (get_from_storage_volume t lifecycle) w = Some (Inr results,
      fold perform (get_effects t ?n s m d (w_now w0)) (w0\<lparr>w_now := w_now w0 + (s + m + d), w_registry := r'\<rparr>))"
    by (rule get_alone [OF assms(1,6,5)])
  have "read_time (tp_dst t) (tp_src t) ?n (tp_profile t) = Inr (s + m + d)"
    using r(1-3) nbytes_total_nonneg(1) [of results]
    by (auto simp: read_time_def storage_time_def mem_copy_time_def network_time_def transfer_time_def res_simps split: if_splits)
  with assms(2-4) r(4,5) show ?thesis by (simp add: env_read_time_def dindex_def)
qed


text \<open>Two runs that differ only in the instants of their rows.\<close>

definition same_charges :: "world \<Rightarrow> world \<Rightarrow> bool" where
  "same_charges v w \<longleftrightarrow> w_now v = w_now w \<and> w_moved v = w_moved w \<and> map snd (w_rows v) = map snd (w_rows w)"

fun same_effect :: "io_effect \<Rightarrow> io_effect \<Rightarrow> bool" where
  "same_effect (Row _ c) (Row _ d) = (c = d)"
| "same_effect e f = (e = f)"

lemma same_effects_same_charges:
  "list_all2 same_effect es fs \<Longrightarrow> same_charges v w \<Longrightarrow> same_charges (fold perform es v) (fold perform fs w)"
proof (induction arbitrary: v w rule: list_all2_induct)
  case (Cons e es f fs)
  have "same_charges (perform e v) (perform f w)"
    using Cons by (cases e; cases f) (auto simp: same_charges_def)
  with Cons.IH show ?case by simp
qed simp

lemma same_charges_start [simp]: "same_charges (w\<lparr>w_now := x, w_registry := r\<rparr>) (w\<lparr>w_now := x, w_registry := s\<rparr>)"
  by (simp add: same_charges_def)

lemma effects_alike:
  assumes "tp_tracing t = tp_tracing u" "tp_listening t = tp_listening u" "tp_src t = tp_src u" "tp_dst t = tp_dst u"
  shows "list_all2 same_effect (get_effects t n s m d start) (get_effects u n s m d start)"
    and "list_all2 same_effect (put_effects t n d s start) (put_effects u n d s start)"
  using assms unfolding get_effects_def put_effects_def Let_def
  by (auto simp: effects intro!: list_all2_appendI)

lemma transport_init_fields:
  "tp_src (transport_init s d p tr li m c cur) = s" "tp_dst (transport_init s d p tr li m c cur) = d"
  "tp_profile (transport_init s d p tr li m c cur) = (case p of Some q \<Rightarrow> q | None \<Rightarrow> DEFAULT_PROFILE)"
  "tp_tracing (transport_init s d p tr li m c cur) = tr" "tp_listening (transport_init s d p tr li m c cur) = li"
  "tp_mode (transport_init s d p tr li m c cur) = m"
  by (simp_all add: transport_init_def Let_def)

lemma quiet_for_same:
  "quiet_for (transport_init s d p tr li m c cur) r = quiet_for (transport_init s d p tr li m c' cur) r"
  by (simp add: quiet_for_def moves_over_def transport_init_fields)

text \<open>C28: collapsing an operation's charges into one sleep is visible only in the instants of its trace
  rows: by itself a get, or a put, ends at the same instant with the same answer, the same rows in the
  same order and the same bytes reported, whatever the contention mode.\<close>

theorem collapse_moves_only_instants:
  fixes src dst :: endpoint and profile :: "machine_profile option" and tracing listening current :: bool
    and mode :: "string option"
  defines "t b \<equiv> transport_init src dst profile tracing listening mode (Some b) current"
  assumes wf: "wf_profile (case profile of Some p \<Rightarrow> p | None \<Rightarrow> DEFAULT_PROFILE)"
    and q: "quiet_for (t True) (w_registry w0)" "quiet_for (t True) (w_registry v0)"
    and life: "run_alone got w = Some (Inr results, w0)" "run_alone stored v = Some (Inr (), v0)"
  shows "(\<exists>x y. run_alone (get_from_storage_volume (t True) got) w = Some (Inr results, x) \<and>
      run_alone (get_from_storage_volume (t False) got) w = Some (Inr results, y) \<and> same_charges x y) \<and>
    (\<exists>x y. run_alone (put_to_storage_volume (t True) stored requests) v = Some (Inr (), x) \<and>
      run_alone (put_to_storage_volume (t False) stored requests) v = Some (Inr (), y) \<and> same_charges x y)"
proof
  note t = t_def transport_init_fields
  have wft: "wf_profile (tp_profile (t b))" for b using wf by (simp add: t)
  have qt: "quiet_for (t b) (w_registry w0)" "quiet_for (t b) (w_registry v0)" for b
    using q unfolding t_def by (metis quiet_for_same)+
  have alike: "tp_tracing (t True) = tp_tracing (t False)" "tp_listening (t True) = tp_listening (t False)"
    "tp_src (t True) = tp_src (t False)" "tp_dst (t True) = tp_dst (t False)"
    and profile: "tp_profile (t True) = tp_profile (t False)" by (simp_all add: t)
  note same = same_effects_same_charges [OF effects_alike(1) [OF alike] same_charges_start]
    same_effects_same_charges [OF effects_alike(2) [OF alike] same_charges_start]
  show "\<exists>x y. run_alone (get_from_storage_volume (t True) got) w = Some (Inr results, x) \<and>
      run_alone (get_from_storage_volume (t False) got) w = Some (Inr results, y) \<and> same_charges x y"
    by (rule get_alone [OF wft qt(1) life(1), of True], rule get_alone [OF wft qt(1) life(1), of False])
      (simp add: alike profile same(1))
  show "\<exists>x y. run_alone (put_to_storage_volume (t True) stored requests) v = Some (Inr (), x) \<and>
      run_alone (put_to_storage_volume (t False) stored requests) v = Some (Inr (), y) \<and> same_charges x y"
    by (rule put_alone [OF wft qt(2) life(2), of True requests], rule put_alone [OF wft qt(2) life(2), of False requests])
      (simp add: alike profile same(2))
qed


subsection \<open>A cross-node read, priced and charged\<close>

definition demo_transport :: "bool \<Rightarrow> string \<Rightarrow> transport" where
  "demo_transport b mode =
     transport_init \<lparr>ep_id = ''cli'', ep_host = ''h1'', ep_node = ''n1''\<rparr> \<lparr>ep_id = ''srv'', ep_host = ''h0'', ep_node = ''n0''\<rparr>
       None True True (Some mode) (Some b) False"

definition demo_world :: "string \<Rightarrow> world" where
  "demo_world mode = \<lparr>w_now = 0, w_registry = \<lparr>rg_mode = mode, rg_channels = [], rg_seq = 0\<rparr>, w_rows = [], w_moved = [], w_finished = []\<rparr>"

lemma demo_quiet:
  "quiet_for (demo_transport b mode) (w_registry (demo_world mode))"
  by (simp add: quiet_for_def demo_transport_def transport_init_fields demo_world_def finite_or_free_def
      DEFAULT_PROFILE_def all_idle_def carries_def)

lemma get_charged_as_priced_witness:
  "\<exists>w'. run_alone (get_from_storage_volume (demo_transport False ''progressive'') (Return [Tensor 1000 2])) (demo_world ''progressive'') =
      Some (Inr [Tensor 1000 2], w') \<and> w_now w' = 31205 / 100000"
proof -
  let ?t = "demo_transport False ''progressive''"
  let ?env = "\<lparr>env_topology = [(''srv'', tp_dst ?t), (''cli'', tp_src ?t)], env_profile = Some DEFAULT_PROFILE\<rparr>"
  have profile: "tp_profile ?t = DEFAULT_PROFILE" by (simp add: demo_transport_def transport_init_fields)
  have "env_read_time ?env ''srv'' ''cli'' 2000 = Inr (31205 / 100000)"
    by (simp add: env_read_time_def dindex_def read_time_def cost_defs DEFAULT_PROFILE_def demo_transport_def
        transport_init_fields locality_def)
  with get_charged_as_priced [of ?t ?env "''srv''" "''cli''" "Return [Tensor 1000 2]" "demo_world ''progressive''"
      "[Tensor 1000 2]" "demo_world ''progressive''"] demo_quiet [of False "''progressive''"]
  show ?thesis by (auto simp: profile wf_DEFAULT_PROFILE demo_world_def)
qed

lemma collapse_moves_only_instants_witness:
  "\<exists>x y. run_alone (get_from_storage_volume (demo_transport True ''none'') (Return [Tensor 1000 2])) (demo_world ''none'') =
        Some (Inr [Tensor 1000 2], x) \<and>
      run_alone (get_from_storage_volume (demo_transport False ''none'') (Return [Tensor 1000 2])) (demo_world ''none'') =
        Some (Inr [Tensor 1000 2], y) \<and> same_charges x y"
  unfolding demo_transport_def
  by (rule collapse_moves_only_instants [where v = "demo_world ''none''" and stored = "Return ()" and requests = "[]", THEN conjunct1])
    (use demo_quiet [of True "''none''"] in \<open>simp_all add: wf_DEFAULT_PROFILE demo_transport_def\<close>)

end
