(* ===== verification/Gather.thy ===== *)
theory Gather
  imports Transport Metrics
begin

section \<open>Coroutines run together\<close>

text \<open>
  \<^verbatim>\<open>asyncio.gather\<close> of coroutines that only sleep, on the virtual clock: each is resumed when it is due,
  the earliest first and in the order they were scheduled among equals, and runs to its next await.
\<close>

datatype 'a slice = Ended "'a res" | Suspended io_request "time \<Rightarrow> 'a proc"

primrec run_slice :: "'a proc \<Rightarrow> time \<Rightarrow> io_effect list \<times> 'a slice" where
  "run_slice (Return x) now = ([], Ended (Inr x))"
| "run_slice (Raise e) now = ([], Ended (Inl e))"
| "run_slice (Await q k) now = ([], Suspended q k)"
| "run_slice (Emit e p) now = (case run_slice p now of (es, s) \<Rightarrow> (e # es, s))"
| "run_slice (Clock k) now = run_slice (k now) now"

record 'a task =
  tk_wake :: time
  tk_seq :: nat
  tk_id :: nat
  tk_proc :: "'a proc"

record 'a gathering =
  ga_tasks :: "'a task list"
  ga_next :: nat
  ga_log :: "(nat \<times> io_effect) list"
  ga_ended :: "(nat \<times> time \<times> 'a res) list"

definition next_task :: "'a task list \<Rightarrow> 'a task" where
  "next_task ts = hd (sort_key (\<lambda>t. (tk_wake t, tk_seq t)) ts)"

text \<open>One task resumed. A request that is not a sleep is outside this loop: the task stays as it is.\<close>

definition gather_step :: "'a gathering \<Rightarrow> 'a gathering" where
  "gather_step g =
     (let t = next_task (ga_tasks g); now = tk_wake t; rest = remove1 t (ga_tasks g) in
      case run_slice (tk_proc t) now of
        (es, Ended r) \<Rightarrow>
          g\<lparr>ga_tasks := rest, ga_log := ga_log g @ map (Pair (tk_id t)) es,
            ga_ended := ga_ended g @ [(tk_id t, now, r)]\<rparr>
      | (es, Suspended (Sleep dt) k) \<Rightarrow>
          g\<lparr>ga_tasks := rest @ [\<lparr>tk_wake = now + max 0 dt, tk_seq = ga_next g, tk_id = tk_id t,
                                 tk_proc = k (now + max 0 dt)\<rparr>],
            ga_next := ga_next g + 1, ga_log := ga_log g @ map (Pair (tk_id t)) es\<rparr>
      | (es, Suspended (Move _ _ _ _) k) \<Rightarrow> g)"

fun gather_loop :: "nat \<Rightarrow> 'a gathering \<Rightarrow> 'a gathering" where
  "gather_loop 0 g = g"
| "gather_loop (Suc fuel) g = (if ga_tasks g = [] then g else gather_loop fuel (gather_step g))"

definition gather_start :: "time \<Rightarrow> 'a proc list \<Rightarrow> 'a gathering" where
  "gather_start now ps =
     \<lparr>ga_tasks = map (\<lambda>(i, p). \<lparr>tk_wake = now, tk_seq = i, tk_id = i, tk_proc = p\<rparr>) (enumerate 0 ps),
      ga_next = length ps, ga_log = [], ga_ended = []\<rparr>"

subsection \<open>A coroutine alone\<close>

primrec only_sleeps :: "'a proc \<Rightarrow> bool" where
  "only_sleeps (Return x) = True"
| "only_sleeps (Raise e) = True"
| "only_sleeps (Await q k) = ((case q of Sleep _ \<Rightarrow> True | Move _ _ _ _ \<Rightarrow> False) \<and> (\<forall>now. only_sleeps (k now)))"
| "only_sleeps (Emit e p) = only_sleeps p"
| "only_sleeps (Clock k) = (\<forall>now. only_sleeps (k now))"

text \<open>What a sleeping coroutine does, when it ends and with what, and how often it is resumed.\<close>

primrec alone :: "'a proc \<Rightarrow> time \<Rightarrow> io_effect list \<times> time \<times> 'a res" where
  "alone (Return x) now = ([], now, Inr x)"
| "alone (Raise e) now = ([], now, Inl e)"
| "alone (Await q k) now = (let t = now + (case q of Sleep dt \<Rightarrow> max 0 dt | Move _ _ _ _ \<Rightarrow> 0) in alone (k t) t)"
| "alone (Emit e p) now = (case alone p now of (es, r) \<Rightarrow> (e # es, r))"
| "alone (Clock k) now = alone (k now) now"

primrec resumes :: "'a proc \<Rightarrow> time \<Rightarrow> nat" where
  "resumes (Return x) now = 1"
| "resumes (Raise e) now = 1"
| "resumes (Await q k) now = (let t = now + (case q of Sleep dt \<Rightarrow> max 0 dt | Move _ _ _ _ \<Rightarrow> 0) in Suc (resumes (k t) t))"
| "resumes (Emit e p) now = resumes p now"
| "resumes (Clock k) now = resumes (k now) now"

lemma run_alone_alone:
  assumes "only_sleeps p" "alone p (w_now w) = (es, t, r)"
  shows "run_alone p w = Some (r, fold perform es (w\<lparr>w_now := t\<rparr>))"
  using assms
proof (induction p arbitrary: w es)
  case (Await q k)
  then obtain dt where q: "q = Sleep dt" by (cases q) auto
  let ?w = "w\<lparr>w_now := w_now w + max 0 dt\<rparr>"
  have "run_alone (k (w_now ?w)) ?w = Some (r, fold perform es (?w\<lparr>w_now := t\<rparr>))"
    using Await q by (intro Await.IH) (auto simp: Let_def)
  then show ?case by (simp add: q)
next
  case (Emit e p)
  then obtain es' where es: "alone p (w_now w) = (es', t, r)" "es = e # es'" by (auto split: prod.splits)
  have now: "w_now (perform e w) = w_now w" and set: "(perform e w)\<lparr>w_now := t\<rparr> = perform e (w\<lparr>w_now := t\<rparr>)"
    by (cases e; simp)+
  show ?case using Emit.IH [of "perform e w" es'] Emit.prems(1) es now set by simp
qed (auto split: prod.splits)

lemma run_slice_alone:
  assumes "only_sleeps p" "run_slice p now = (es, s)"
  shows "case s of
      Ended r \<Rightarrow> alone p now = (es, now, r) \<and> resumes p now = 1
    | Suspended q k \<Rightarrow> \<exists>dt. q = Sleep dt \<and> only_sleeps (k (now + max 0 dt)) \<and>
        alone p now = (es @ fst (alone (k (now + max 0 dt)) (now + max 0 dt)), snd (alone (k (now + max 0 dt)) (now + max 0 dt))) \<and>
        resumes p now = Suc (resumes (k (now + max 0 dt)) (now + max 0 dt))"
  using assms
proof (induction p arbitrary: es)
  case (Await q k)
  then show ?case by (cases q) (auto simp: Let_def split: prod.splits)
next
  case (Emit e p)
  then obtain es' where es: "run_slice p now = (es', s)" "es = e # es'" by (auto split: prod.splits)
  with Emit.IH [of es'] Emit.prems(1) show ?case by (cases s) auto
next
  case (Clock k)
  then have "run_slice (k now) now = (es, s)" "only_sleeps (k now)" by simp_all
  with Clock.IH [of "k now" es] show ?case by (cases s) auto
qed auto

lemma resumes_pos: "0 < resumes p now"
  by (induction p arbitrary: now) (auto simp: Let_def)

subsection \<open>Together as alone\<close>

definition own :: "nat \<Rightarrow> (nat \<times> io_effect) list \<Rightarrow> io_effect list" where
  "own i es = map snd (filter (\<lambda>e. fst e = i) es)"

lemma own_append [simp]: "own i (xs @ ys) = own i xs @ own i ys"
  by (simp add: own_def)

lemma own_pairs [simp]: "own i (map (Pair j) es) = (if i = j then es else [])"
  by (simp add: own_def filter_map comp_def)

definition on_course :: "time \<Rightarrow> 'a proc list \<Rightarrow> 'a gathering \<Rightarrow> bool" where
  "on_course now ps g \<longleftrightarrow>
     mset (map tk_id (ga_tasks g)) + mset (map fst (ga_ended g)) = mset [0..<length ps] \<and>
     (\<forall>t \<in> set (ga_tasks g). only_sleeps (tk_proc t) \<and>
        alone (ps ! tk_id t) now = (own (tk_id t) (ga_log g) @ fst (alone (tk_proc t) (tk_wake t)), snd (alone (tk_proc t) (tk_wake t)))) \<and>
     (\<forall>(i, t, r) \<in> set (ga_ended g). alone (ps ! i) now = (own i (ga_log g), t, r)) \<and>
     (\<forall>e \<in> set (ga_log g). fst e < length ps)"

definition work_left :: "'a gathering \<Rightarrow> nat" where
  "work_left g = sum_list (map (\<lambda>t. resumes (tk_proc t) (tk_wake t)) (ga_tasks g))"

lemma map_over_enumerate: "map (\<lambda>x. f (snd x)) (enumerate n ps) = map f ps"
  by (induction ps arbitrary: n) auto

lemma start_on_course: "\<forall>p \<in> set ps. only_sleeps p \<Longrightarrow> on_course now ps (gather_start now ps)"
proof -
  assume a: "\<forall>p \<in> set ps. only_sleeps p"
  have ids: "map tk_id (ga_tasks (gather_start now ps)) = [0..<length ps]"
    by (simp add: gather_start_def comp_def case_prod_beta flip: map_fst_enumerate [of 0])
  have "\<exists>i < length ps. t = \<lparr>tk_wake = now, tk_seq = i, tk_id = i, tk_proc = ps ! i\<rparr>"
    if "t \<in> set (ga_tasks (gather_start now ps))" for t
    using that by (auto simp: gather_start_def in_set_enumerate_eq)
  with a ids show ?thesis
    unfolding on_course_def by (fastforce simp: gather_start_def own_def)
qed

lemma next_task_in: "ts \<noteq> [] \<Longrightarrow> next_task ts \<in> set ts"
  unfolding next_task_def by (metis hd_in_set length_0_conv length_sort set_sort)

lemma step_on_course:
  assumes ok: "on_course now ps g" and ne: "ga_tasks g \<noteq> []"
  shows "on_course now ps (gather_step g) \<and> Suc (work_left (gather_step g)) = work_left g"
proof -
  define t where "t = next_task (ga_tasks g)"
  have t: "t \<in> set (ga_tasks g)" unfolding t_def by (rule next_task_in [OF ne])
  let ?rest = "remove1 t (ga_tasks g)" and ?i = "tk_id t" and ?now = "tk_wake t"
  have tasks: "mset (ga_tasks g) = add_mset t (mset ?rest)" using t by simp
  have "mset (map tk_id (ga_tasks g)) = mset (?i # map tk_id ?rest)"
    by (simp only: mset_map tasks mset.simps list.map image_mset_add_mset)
  then have ids: "mset (?i # map tk_id ?rest @ map fst (ga_ended g)) = mset [0..<length ps]"
    using ok by (simp add: on_course_def)
  then have dist: "distinct (?i # map tk_id ?rest @ map fst (ga_ended g))" by (metis distinct_upt mset_eq_imp_distinct_iff)
  have lt: "?i < length ps" using mset_eq_setD [OF ids] by auto
  have rest: "only_sleeps (tk_proc u) \<and> tk_id u \<noteq> ?i \<and>
      alone (ps ! tk_id u) now = (own (tk_id u) (ga_log g) @ fst (alone (tk_proc u) (tk_wake u)), snd (alone (tk_proc u) (tk_wake u)))"
    if "u \<in> set ?rest" for u
    using that ok dist notin_set_remove1 [of u "ga_tasks g" t] by (auto simp: on_course_def image_iff)
  have ended: "i \<noteq> ?i \<and> alone (ps ! i) now = (own i (ga_log g), e, r)" if "(i, e, r) \<in> set (ga_ended g)" for i e r
    using that ok dist by (auto simp: on_course_def image_iff)
  have me: "only_sleeps (tk_proc t)"
    "alone (ps ! ?i) now = (own ?i (ga_log g) @ fst (alone (tk_proc t) ?now), snd (alone (tk_proc t) ?now))"
    using ok t by (auto simp: on_course_def)
  have work: "work_left g = resumes (tk_proc t) ?now + sum_list (map (\<lambda>t. resumes (tk_proc t) (tk_wake t)) ?rest)"
    unfolding work_left_def by (rule sum_list_map_remove1 [OF t])
  obtain es s where slice: "run_slice (tk_proc t) ?now = (es, s)" by fastforce
  note sl = run_slice_alone [OF me(1) slice]
  show ?thesis
  proof (cases s)
    case (Ended r)
    have g': "gather_step g = g\<lparr>ga_tasks := ?rest, ga_log := ga_log g @ map (Pair ?i) es,
        ga_ended := ga_ended g @ [(?i, ?now, r)]\<rparr>"
      using slice Ended by (simp add: gather_step_def Let_def flip: t_def)
    have "on_course now ps (gather_step g)"
      unfolding on_course_def g' using ids rest ended me sl Ended lt ok
      by (auto simp: on_course_def)
    moreover have "Suc (work_left (gather_step g)) = work_left g" using sl Ended work by (simp add: work_left_def g')
    ultimately show ?thesis ..
  next
    case (Suspended q k)
    then obtain dt where q: "q = Sleep dt" and k: "only_sleeps (k (?now + max 0 dt))"
      "alone (tk_proc t) ?now = (es @ fst (alone (k (?now + max 0 dt)) (?now + max 0 dt)), snd (alone (k (?now + max 0 dt)) (?now + max 0 dt)))"
      "resumes (tk_proc t) ?now = Suc (resumes (k (?now + max 0 dt)) (?now + max 0 dt))"
      using sl by auto
    have g': "gather_step g = g\<lparr>ga_tasks := ?rest @ [\<lparr>tk_wake = ?now + max 0 dt, tk_seq = ga_next g, tk_id = ?i,
        tk_proc = k (?now + max 0 dt)\<rparr>], ga_next := ga_next g + 1, ga_log := ga_log g @ map (Pair ?i) es\<rparr>"
      using slice Suspended q by (simp add: gather_step_def Let_def flip: t_def)
    have "on_course now ps (gather_step g)"
      unfolding on_course_def g' using ids rest ended me k lt ok
      by (auto simp: on_course_def)
    moreover have "Suc (work_left (gather_step g)) = work_left g" using k(3) work by (simp add: work_left_def g')
    ultimately show ?thesis ..
  qed
qed

lemma loop_on_course:
  "on_course now ps g \<Longrightarrow> work_left g \<le> fuel \<Longrightarrow>
     on_course now ps (gather_loop fuel g) \<and> ga_tasks (gather_loop fuel g) = []"
proof (induction fuel arbitrary: g)
  case 0
  have "ga_tasks g = []"
  proof (rule ccontr)
    assume "ga_tasks g \<noteq> []"
    with step_on_course [OF 0(1)] 0(2) show False by simp
  qed
  with 0 show ?case by simp
next
  case (Suc fuel)
  show ?case
  proof (cases "ga_tasks g = []")
    case False
    with step_on_course [OF Suc.prems(1)] Suc.prems(2) Suc.IH [of "gather_step g"] show ?thesis by simp
  qed (use Suc.prems in simp)
qed

text \<open>The steps a gathering needs: one for every time a coroutine is resumed.\<close>

definition gather :: "time \<Rightarrow> 'a proc list \<Rightarrow> 'a gathering" where
  "gather now ps = gather_loop (sum_list (map (\<lambda>p. resumes p now) ps)) (gather_start now ps)"

text \<open>Coroutines that only sleep do not disturb one another: gathered, they all end, each at the
  instant, with the answer and with the effects, in order, that it has by itself.\<close>

lemma gathered_as_alone:
  assumes "\<forall>p \<in> set ps. only_sleeps p"
  shows "ga_tasks (gather now ps) = [] \<and>
    mset (map fst (ga_ended (gather now ps))) = mset [0..<length ps] \<and>
    (\<forall>(i, t, r) \<in> set (ga_ended (gather now ps)). alone (ps ! i) now = (own i (ga_log (gather now ps)), t, r)) \<and>
    (\<forall>e \<in> set (ga_log (gather now ps)). fst e < length ps)"
proof -
  have "work_left (gather_start now ps) = sum_list (map (\<lambda>p. resumes p now) ps)"
    by (simp add: work_left_def gather_start_def comp_def case_prod_beta map_over_enumerate [of "\<lambda>p. resumes p now"])
  with loop_on_course [OF start_on_course [OF assms], of now "sum_list (map (\<lambda>p. resumes p now) ps)"]
  show ?thesis by (auto simp: gather_def on_course_def)
qed

end
