(* ===== verification/Runs.thy ===== *)
theory Runs
  imports Gather Text
begin

section \<open>A workload released on the clock\<close>

text \<open>
  \<^verbatim>\<open>realsim/runner.py\<close>, \<^verbatim>\<open>Simulation.run\<close> of \<^verbatim>\<open>realsim/simulation.py\<close> and the burst of
  \<^verbatim>\<open>putget_sim/workload/put_get.py\<close>. What a coroutine reports is an effect; the ledger is the fold of the
  effects in the order they happened. The store's client (its get and its put, made of torchstore's
  client over the transport) is an argument. Whether some other mesh has its factory installed is
  \<open>busy\<close>: only one may, process-wide.
\<close>

subsection \<open>The runner\<close>












subsection \<open>A run of a workload\<close>



subsection \<open>One key, many readers\<close>











subsection \<open>Items that only sleep\<close>


lemma alone_emit_if [simp]:
  "alone (emit_if b e p) now = (case alone p now of (es, r) \<Rightarrow> ((if b then [e] else []) @ es, r))"
  by (simp add: emit_if_def split: prod.splits)

lemma only_sleeps_emit_if [simp]: "only_sleeps (emit_if b e p) = only_sleeps p"
  by (simp add: emit_if_def)









subsection \<open>A burst, from end to end\<close>

















end
