(* ===== verification/DedupSensors.thy ===== *)
theory DedupSensors
  imports Dispatch Sensing
begin

section \<open>What the dedup router knows\<close>

text \<open>
  \<^verbatim>\<open>dedup_sim/control/_sensor\<close>. A publication is a declaration id and the volume it will land
  on; id 0 is a volume that already serves. \<open>DedupDirectorySensor\<close> knows the declarations in
  flight, \<open>FanoutSensor\<close> who reads behind which volume and when a pending copy is due. The
  \<^verbatim>\<open>frozenset\<close> of an action is a list without repetitions; \<open>fan_assigned\<close> holds sets as such
  lists too. A fold that raises answers with the raise alone: that none does is proved below.
\<close>

type_synonym publication = "int \<times> vid"

datatype dedup_action =
    Asked publication
  | Published publication
  | Routed publication "vid list" "publication list" time

fun dedup_type :: "dedup_action \<Rightarrow> string" where
  "dedup_type (Asked _) = ''Asked''"
| "dedup_type (Published _) = ''Published''"
| "dedup_type (Routed _ _ _ _) = ''Routed''"

subsection \<open>Readers behind a volume\<close>

record fanout =
  fan_cap :: int
  fan_arrival :: "(publication \<times> time) list"
  fan_behind :: "(vid \<times> int) list"
  fan_assigned :: "(vid \<times> vid list) list"
  fan_gates :: "(publication \<times> (vid \<times> publication list) list) list"

definition fanout_init :: "int \<Rightarrow> fanout" where
  "fanout_init cap = \<lparr>fan_cap = cap, fan_arrival = [], fan_behind = [], fan_assigned = [], fan_gates = []\<rparr>"

definition decrement :: "vid \<Rightarrow> (vid \<times> int) list \<Rightarrow> (vid \<times> int) list res" where
  "decrement v b =
     bindr (dindex b v) (\<lambda>n.
       let remaining = n - 1
       in Inr (if remaining \<noteq> 0 then AList.update v remaining b else AList.delete v b))"

definition add_gate ::
  "vid list \<Rightarrow> publication \<Rightarrow> (vid \<times> publication list) list \<Rightarrow> (vid \<times> publication list) list" where
  "add_gate now p m =
     (if snd p \<in> set now then AList.update (snd p) (List.insert p (dget m (snd p) [])) m else m)"

definition gates_by_volume :: "vid list \<Rightarrow> publication list \<Rightarrow> (vid \<times> publication list) list" where
  "gates_by_volume now gate_pubs = fold (add_gate now) gate_pubs []"

definition fan_routed ::
  "publication \<Rightarrow> vid list \<Rightarrow> publication list \<Rightarrow> time \<Rightarrow> fanout \<Rightarrow> fanout res" where
  "fan_routed requester_pub sources gate_pubs arrival f =
     (let requester = snd requester_pub;
          due = (if map_of (fan_arrival f) requester_pub = None
                 then AList.update requester_pub arrival (fan_arrival f) else fan_arrival f)
      in bindr (res_fold decrement (dget (fan_assigned f) requester []) (fan_behind f)) (\<lambda>b0.
           let kept = filter (\<lambda>(p, _). snd p \<noteq> requester) (fan_gates f);
               now = take 1 sources;
               b1 = fold (\<lambda>s b. AList.update s (dget b s 0 + 1) b) now b0;
               by_volume = gates_by_volume now gate_pubs
           in Inr (f\<lparr>fan_arrival := due, fan_behind := b1,
                     fan_assigned := AList.update requester now (AList.delete requester (fan_assigned f)),
                     fan_gates := (if by_volume = [] then kept
                                   else AList.update requester_pub by_volume kept)\<rparr>)))"

text \<open>
  One turn of the loop over the gates: what is left of the gate (nothing, when its last
  publication landed), who still reads behind the volume, and what its requester is assigned.
\<close>

fun publish_gate ::
  "publication \<Rightarrow> publication \<times> (vid \<times> publication list) list \<Rightarrow>
     (publication \<times> (vid \<times> publication list) list) list \<times> (vid \<times> int) list \<times> (vid \<times> vid list) list \<Rightarrow>
     ((publication \<times> (vid \<times> publication list) list) list \<times> (vid \<times> int) list \<times> (vid \<times> vid list) list) res" where
  "publish_gate pub (requester, by_volume) (done, b, a) =
     (case map_of by_volume (snd pub) of
        None \<Rightarrow> Inr (done @ [(requester, by_volume)], b, a)
      | Some pubs \<Rightarrow>
          if pub \<notin> set pubs then Inr (done @ [(requester, by_volume)], b, a)
          else if removeAll pub pubs \<noteq> [] then
            Inr (done @ [(requester, AList.update (snd pub) (removeAll pub pubs) by_volume)], b, a)
          else
            bindr (decrement (snd pub) b) (\<lambda>b'.
              let left = AList.delete (snd pub) by_volume;
                  a' = (case map_of a (snd requester) of None \<Rightarrow> a
                        | Some vs \<Rightarrow> AList.update (snd requester) (removeAll (snd pub) vs) a)
              in Inr (if left = [] then done else done @ [(requester, left)], b', a')))"

definition fan_published :: "publication \<Rightarrow> fanout \<Rightarrow> fanout res" where
  "fan_published pub f =
     bindr (res_fold (publish_gate pub) (fan_gates f) ([], fan_behind f, fan_assigned f)) (\<lambda>(gs, b, a).
       Inr (f\<lparr>fan_arrival := AList.delete pub (fan_arrival f), fan_behind := b,
              fan_assigned := a, fan_gates := gs\<rparr>))"

fun fan_fold :: "dedup_action \<Rightarrow> fanout \<Rightarrow> fanout res" where
  "fan_fold (Published p) f = fan_published p f"
| "fan_fold (Routed p sources gate_pubs arrival) f = fan_routed p sources gate_pubs arrival f"
| "fan_fold (Asked _) f = Inr f"

subsection \<open>Declarations in flight\<close>

text \<open>
  The directory is the store's: what a declaration answers (the new publication's id), dropping
  a publication, who serves a batch, and which of a ranking a batch is covered by.
\<close>

record ('d, 'r) directory_ops =
  op_declare :: "'r list \<Rightarrow> vid \<Rightarrow> 'd \<Rightarrow> int \<times> 'd"
  op_drop :: "int \<Rightarrow> 'd \<Rightarrow> 'd"
  op_serving :: "'d \<Rightarrow> 'r list \<Rightarrow> publication list"
  op_cover :: "'d \<Rightarrow> 'r list \<Rightarrow> publication list \<Rightarrow> publication list"

record 'd dedup_directory =
  store :: 'd
  in_flight :: "(int \<times> publication) list"

definition dedup_declare ::
  "('d, 'r) directory_ops \<Rightarrow> vid \<Rightarrow> 'r list \<Rightarrow> 'd dedup_directory \<Rightarrow> publication \<times> 'd dedup_directory" where
  "dedup_declare ops requester requests d =
     (case op_declare ops requests requester (store d) of
        (pub, s) \<Rightarrow> ((pub, requester), d\<lparr>store := s\<rparr>))"

fun dir_fold :: "('d, 'r) directory_ops \<Rightarrow> dedup_action \<Rightarrow> 'd dedup_directory \<Rightarrow> 'd dedup_directory res" where
  "dir_fold ops (Asked p) d = Inr (d\<lparr>in_flight := AList.update (fst p) p (in_flight d)\<rparr>)"
| "dir_fold ops (Published p) d =
     Inr (d\<lparr>store := op_drop ops (fst p) (store d), in_flight := AList.delete (fst p) (in_flight d)\<rparr>)"
| "dir_fold ops (Routed _ _ _ _) d = Inr d"

definition is_in_flight :: "publication \<Rightarrow> 'd dedup_directory \<Rightarrow> bool" where
  "is_in_flight p d \<longleftrightarrow> map_of (in_flight d) (fst p) = Some p"

subsection \<open>The two of them on one dispatcher\<close>

record 'd dedup_state =
  ds_dir :: "'d dedup_directory"
  ds_fan :: fanout

definition dir_reducer :: "('d, 'r) directory_ops \<Rightarrow> (dedup_action, 'd dedup_state) reducer" where
  "dir_reducer ops =
     map (\<lambda>t. (t, owns ds_dir (\<lambda>d s. s\<lparr>ds_dir := d\<rparr>) (dir_fold ops))) [''Asked'', ''Published'']"

definition fan_reducer :: "(dedup_action, 'd dedup_state) reducer" where
  "fan_reducer =
     map (\<lambda>t. (t, owns ds_fan (\<lambda>f s. s\<lparr>ds_fan := f\<rparr>) fan_fold)) [''Published'', ''Routed'']"

definition dedup_dispatcher :: "('d, 'r) directory_ops \<Rightarrow> (dedup_action, 'd dedup_state) dispatcher" where
  "dedup_dispatcher ops = compose fan_reducer (compose (dir_reducer ops) dispatcher_init)"

interpretation dedup_owners: disjoint_owners ds_dir "\<lambda>d s. s\<lparr>ds_dir := d\<rparr>" ds_fan "\<lambda>f s. s\<lparr>ds_fan := f\<rparr>"
  by unfold_locales auto

subsection \<open>The counts are the readers\<close>

definition readers :: "(vid \<times> vid list) list \<Rightarrow> vid \<Rightarrow> nat" where
  "readers a v = card {r. v \<in> set (dget a r [])}"

definition counts :: "(vid \<Rightarrow> nat) \<Rightarrow> (vid \<times> int) list \<Rightarrow> bool" where
  "counts g b \<longleftrightarrow> (\<forall>v. map_of b v = (if g v = 0 then None else Some (int (g v))))"

text \<open>
  One gate a requester, each naming only publications of volumes that requester is assigned.
\<close>

definition on_volume :: "vid \<Rightarrow> publication list \<Rightarrow> bool" where
  "on_volume v ps \<longleftrightarrow> ps \<noteq> [] \<and> snd ` set ps \<subseteq> {v}"

definition gate_ok :: "(vid \<times> vid list) list \<Rightarrow> publication \<times> (vid \<times> publication list) list \<Rightarrow> bool" where
  "gate_ok a g \<longleftrightarrow> snd g \<noteq> [] \<and> dwf (snd g) \<and>
     (\<forall>(v, ps) \<in> set (snd g). v \<in> set (dget a (snd (fst g)) []) \<and> on_volume v ps)"

definition gates_ok :: "(vid \<times> vid list) list \<Rightarrow> (publication \<times> (vid \<times> publication list) list) list \<Rightarrow> bool" where
  "gates_ok a gs \<longleftrightarrow> distinct (map (\<lambda>g. snd (fst g)) gs) \<and> (\<forall>g \<in> set gs. gate_ok a g)"

definition fan_ok :: "fanout \<Rightarrow> bool" where
  "fan_ok f \<longleftrightarrow> counts (readers (fan_assigned f)) (fan_behind f) \<and>
     (\<forall>r. distinct (dget (fan_assigned f) r [])) \<and> gates_ok (fan_assigned f) (fan_gates f)"

definition others :: "(vid \<times> vid list) list \<Rightarrow> vid \<Rightarrow> vid \<Rightarrow> nat" where
  "others a r v = card {r'. r' \<noteq> r \<and> v \<in> set (dget a r' [])}"

lemma on_volume_remove: "on_volume v ps \<Longrightarrow> removeAll p ps \<noteq> [] \<Longrightarrow> on_volume v (removeAll p ps)"
  by (auto simp: on_volume_def)

lemma on_volume_insert: "ps = [] \<or> on_volume (snd p) ps \<Longrightarrow> on_volume (snd p) (List.insert p ps)"
  by (auto simp: on_volume_def List.insert_def)

lemma finite_readers [simp]: "finite {r. v \<in> set (dget a r [])}"
proof (rule finite_subset)
  show "{r. v \<in> set (dget a r [])} \<subseteq> fst ` set a"
  proof
    fix r assume "r \<in> {r. v \<in> set (dget a r [])}"
    then have "map_of a r \<noteq> None" by (cases "map_of a r") (simp_all add: dget_def)
    then show "r \<in> fst ` set a" by (simp add: map_of_eq_None_iff)
  qed
qed simp

lemma readers_split: "readers a v = others a r v + (if v \<in> set (dget a r []) then 1 else 0)"
proof -
  let ?S = "{r. v \<in> set (dget a r [])}"
  have S: "{r'. r' \<noteq> r \<and> v \<in> set (dget a r' [])} = ?S - {r}" by blast
  show ?thesis
  proof (cases "r \<in> ?S")
    case True
    then show ?thesis
      unfolding readers_def others_def S using card_Suc_Diff1 [OF finite_readers True] by simp
  next
    case False
    then show ?thesis unfolding readers_def others_def S by simp
  qed
qed

lemma readers_update: "readers (AList.update r vs a) v = others a r v + (if v \<in> set vs then 1 else 0)"
proof -
  have "others (AList.update r vs a) r v = others a r v" by (auto simp: others_def intro!: arg_cong [where f = card])
  then show ?thesis by (simp add: readers_split [of "AList.update r vs a" v r])
qed

lemma others_delete [simp]: "others (AList.delete r a) r v = others a r v"
  by (auto simp: others_def intro!: arg_cong [where f = card])

lemma counts_decrement:
  assumes "counts g b" "0 < g v"
  shows "\<exists>b'. decrement v b = Inr b' \<and> counts (g(v := g v - 1)) b'"
  using assms by (auto simp: counts_def decrement_def dindex_def Let_def)

lemma counts_increment: "counts g b \<Longrightarrow> counts (g(v := g v + 1)) (AList.update v (dget b v 0 + 1) b)"
  by (auto simp: counts_def dget_def)

lemma counts_decrements:
  assumes "counts g b" "distinct vs" "\<And>v. v \<in> set vs \<Longrightarrow> 0 < g v"
  shows "\<exists>b'. res_fold decrement vs b = Inr b' \<and> counts (\<lambda>v. g v - (if v \<in> set vs then 1 else 0)) b'"
  using assms
proof (induction vs arbitrary: g b)
  case Nil
  then show ?case by simp
next
  case (Cons v vs)
  obtain b1 where b1: "decrement v b = Inr b1" "counts (g(v := g v - 1)) b1"
    using counts_decrement [OF Cons.prems(1)] Cons.prems(3) by (metis list.set_intros(1))
  have pos: "0 < (g(v := g v - 1)) w" if "w \<in> set vs" for w
    using Cons.prems(2,3) that by auto
  have eq: "(\<lambda>w. (g(v := g v - 1)) w - (if w \<in> set vs then 1 else 0)) =
      (\<lambda>w. g w - (if w \<in> set (v # vs) then 1 else 0))"
    using Cons.prems(2) by (auto simp: fun_eq_iff)
  obtain b2 where "res_fold decrement vs b1 = Inr b2"
    "counts (\<lambda>w. (g(v := g v - 1)) w - (if w \<in> set vs then 1 else 0)) b2"
    using Cons.IH [OF b1(2) _ pos] Cons.prems(2) by auto
  then show ?case using b1(1) unfolding eq by simp
qed

subsection \<open>A landing keeps them\<close>

lemma gate_ok_cong:
  "gate_ok a g \<Longrightarrow> dget a' (snd (fst g)) [] = dget a (snd (fst g)) [] \<Longrightarrow> gate_ok a' g"
  by (simp add: gate_ok_def)

lemma gate_okD:
  "gate_ok a g \<Longrightarrow> (v, ps) \<in> set (snd g) \<Longrightarrow>
     v \<in> set (dget a (snd (fst g)) []) \<and> on_volume v ps"
  by (auto simp: gate_ok_def)

text \<open>What one turn of the loop keeps, whatever gates stand before and after.\<close>

definition landed :: "(vid \<times> vid list) list \<Rightarrow> (vid \<times> vid list) list \<Rightarrow> vid \<Rightarrow> bool" where
  "landed a a' r \<longleftrightarrow> (\<forall>r'. r' \<noteq> r \<longrightarrow> dget a' r' [] = dget a r' [])"

lemma publish_gate_keeps:
  assumes cnt: "counts (readers a) b" and dist: "\<forall>r. distinct (dget a r [])" and ok: "gate_ok a g"
  obtains g' b' a' where
    "\<forall>done. publish_gate pub g (done, b, a) = Inr (done @ g', b', a')"
    "counts (readers a') b'" "\<forall>r. distinct (dget a' r [])" "landed a a' (snd (fst g))"
    "g' = [] \<or> (\<exists>bv. g' = [(fst g, bv)] \<and> gate_ok a' (fst g, bv) \<and> set (dkeys bv) \<subseteq> set (dkeys (snd g)))"
proof -
  obtain q bv where g: "g = (q, bv)" by (cases g)
  let ?v = "snd pub"
  show thesis
  proof (cases "map_of bv ?v")
    case None
    then show thesis using ok cnt dist by (intro that [of "[g]" b a]) (auto simp: g landed_def)
  next
    case (Some ps)
    have v: "?v \<in> set (dget a (snd q) [])" "dwf bv" "on_volume ?v ps"
      using gate_okD [OF ok, of ?v ps] ok map_of_SomeD [OF Some] by (simp_all add: g gate_ok_def)
    consider (out) "pub \<notin> set ps" | (more) "pub \<in> set ps" "removeAll pub ps \<noteq> []"
      | (last) "pub \<in> set ps" "removeAll pub ps = []" by blast
    then show thesis
    proof cases
      case out
      then show thesis using Some ok cnt dist by (intro that [of "[g]" b a]) (auto simp: g landed_def)
    next
      case more
      have "gate_ok a (q, AList.update ?v (removeAll pub ps) bv)"
        using ok more(2) v on_volume_remove [OF v(3) more(2)]
        by (auto simp: g gate_ok_def distinct_update dest!: set_mp [OF set_update_subset])
      moreover have "set (dkeys (AList.update ?v (removeAll pub ps) bv)) \<subseteq> set (dkeys bv)"
        using map_of_key_in [OF Some] unfolding dkeys_update by blast
      ultimately show thesis using Some more cnt dist
        by (intro that [of "[(q, AList.update ?v (removeAll pub ps) bv)]" b a]) (auto simp: g landed_def)
    next
      case last
      obtain vs where vs: "map_of a (snd q) = Some vs" "?v \<in> set vs"
        using v(1) by (cases "map_of a (snd q)") (auto simp: dget_def)
      define a' where "a' = AList.update (snd q) (removeAll ?v vs) a"
      have vs': "dget a (snd q) [] = vs" using vs by (simp add: dget_def)
      have "0 < readers a ?v" using readers_split [of a ?v "snd q"] vs vs' by simp
      then obtain b' where b': "decrement ?v b = Inr b'"
        "counts ((readers a)(?v := readers a ?v - 1)) b'"
        using counts_decrement [OF cnt] by blast
      have "(readers a)(?v := readers a ?v - 1) = readers a'"
        using vs(2) by (auto simp: fun_eq_iff a'_def readers_update readers_split [of a _ "snd q"] vs')
      then have 1: "counts (readers a') b'" using b'(2) by simp
      have 2: "\<forall>r. distinct (dget a' r [])" using dist vs' by (auto simp: a'_def distinct_removeAll)
      have 3: "landed a a' (snd q)" by (simp add: landed_def a'_def)
      let ?left = "AList.delete ?v bv"
      have sub: "set ?left \<subseteq> {x \<in> set bv. fst x \<noteq> ?v}" by (auto simp: AList.delete_eq)
      have 4: "gate_ok a' (q, ?left)" if "?left \<noteq> []"
      proof -
        have "w \<in> set (dget a' (snd q) []) \<and> on_volume w ps" if "(w, ps) \<in> set ?left" for w ps
        proof -
          have "(w, ps) \<in> set bv" "w \<noteq> ?v" using sub that by auto
          then show ?thesis using ok vs' by (auto simp: g gate_ok_def a'_def)
        qed
        then show ?thesis using that v(2) by (auto simp: gate_ok_def distinct_delete)
      qed
      have 5: "set (dkeys ?left) \<subseteq> set (dkeys bv)" by (simp only: dkeys_delete Diff_subset)
      have run: "\<forall>done. publish_gate pub g (done, b, a) =
          Inr (done @ (if ?left = [] then [] else [(q, ?left)]), b', a')"
        using Some last vs(1) b'(1) by (simp add: g a'_def Let_def)
      have lg: "landed a a' (snd (fst g))" using 3 by (simp add: g)
      have 6: "(if ?left = [] then [] else [(q, ?left)]) = [] \<or> (\<exists>bv'. (if ?left = [] then [] else [(q, ?left)]) = [(fst g, bv')] \<and>
          gate_ok a' (fst g, bv') \<and> set (dkeys bv') \<subseteq> set (dkeys (snd g)))"
        using 4 5 by (cases "?left = []") (simp_all add: g)
      show thesis by (rule that [OF run 1 2 lg 6])
    qed
  qed
qed

text \<open>Which requesters hold a gate on a volume.\<close>

definition gated :: "(publication \<times> (vid \<times> publication list) list) list \<Rightarrow> vid \<Rightarrow> vid set" where
  "gated gs v = {r. \<exists>g \<in> set gs. snd (fst g) = r \<and> v \<in> set (dkeys (snd g))}"

lemma gated_simps [simp]:
  "gated [] v = {}"
  "gated (g # gs) v = (if v \<in> set (dkeys (snd g)) then {snd (fst g)} else {}) \<union> gated gs v"
  "gated (gs @ hs) v = gated gs v \<union> gated hs v"
  by (auto simp: gated_def)

definition landing_ok where
  "landing_ok a gs b' a' gs' \<longleftrightarrow>
     counts (readers a') b' \<and> (\<forall>r. distinct (dget a' r [])) \<and> gates_ok a' gs' \<and>
     (\<forall>v. gated gs' v \<subseteq> gated gs v) \<and> (\<lambda>g. snd (fst g)) ` set gs' \<subseteq> (\<lambda>g. snd (fst g)) ` set gs \<and>
     (\<forall>r. r \<notin> (\<lambda>g. snd (fst g)) ` set gs \<longrightarrow> dget a' r [] = dget a r [])"

lemma publish_gates_keep:
  assumes "counts (readers a) b" "\<forall>r. distinct (dget a r [])" "gates_ok a gs"
  shows "\<exists>gs' b' a'. (\<forall>done. res_fold (publish_gate pub) gs (done, b, a) = Inr (done @ gs', b', a')) \<and>
    landing_ok a gs b' a' gs'"
  using assms
proof (induction gs arbitrary: a b)
  case Nil
  then show ?case by (simp add: landing_ok_def)
next
  case (Cons g gs)
  let ?r = "\<lambda>g. snd (fst g)"
  have g: "gate_ok a g" and gs: "gates_ok a gs" and new: "?r g \<notin> ?r ` set gs"
    using Cons.prems(3) by (auto simp: gates_ok_def)
  obtain g' b1 a1 where
    run: "\<forall>done. publish_gate pub g (done, b, a) = Inr (done @ g', b1, a1)"
    and cnt: "counts (readers a1) b1" and dist: "\<forall>r. distinct (dget a1 r [])"
    and land: "landed a a1 (?r g)"
    and g': "g' = [] \<or> (\<exists>bv. g' = [(fst g, bv)] \<and> gate_ok a1 (fst g, bv) \<and> set (dkeys bv) \<subseteq> set (dkeys (snd g)))"
    by (rule publish_gate_keeps [OF Cons.prems(1,2) g, of pub]) blast
  have "dget a1 (?r h) [] = dget a (?r h) []" if "h \<in> set gs" for h
  proof -
    have "?r h \<noteq> ?r g" using new that by (metis imageI)
    then show ?thesis using land by (simp add: landed_def)
  qed
  then have "gates_ok a1 gs" using gs by (auto simp: gates_ok_def intro: gate_ok_cong)
  from Cons.IH [OF cnt dist this] obtain gs' b' a' where
    rest: "\<forall>done. res_fold (publish_gate pub) gs (done, b1, a1) = Inr (done @ gs', b', a')"
    and ih: "landing_ok a1 gs b' a' gs'" by blast
  have sub: "?r ` set gs' \<subseteq> ?r ` set gs" and ok': "gates_ok a' gs'"
    and same: "\<And>r. r \<notin> ?r ` set gs \<Longrightarrow> dget a' r [] = dget a1 r []"
    using ih unfolding landing_ok_def by blast+
  have out: "?r g \<notin> ?r ` set gs'" using new sub by blast
  have "gates_ok a' (g' @ gs')"
    using g'
  proof (elim disjE exE conjE)
    fix bv
    assume bv: "g' = [(fst g, bv)]" "gate_ok a1 (fst g, bv)"
    then have "gate_ok a' (fst g, bv)" by (elim gate_ok_cong) (use same [OF new] in simp)
    with bv(1) ok' out show ?thesis by (simp add: gates_ok_def)
  qed (use ok' in simp)
  moreover have "gated g' v \<subseteq> gated [g] v" for v using g' by (force split: if_splits)
  then have "\<forall>v. gated (g' @ gs') v \<subseteq> gated (g # gs) v"
    using ih unfolding landing_ok_def gated_simps(3) by (metis Un_mono append_Cons append_Nil gated_simps(3))
  moreover have "?r ` set (g' @ gs') \<subseteq> ?r ` set (g # gs)" using g' sub by auto
  moreover have "dget a' r [] = dget a r []" if "r \<notin> ?r ` set (g # gs)" for r
    using same [of r] land that by (simp add: landed_def)
  ultimately have "landing_ok a (g # gs) b' a' (g' @ gs')"
    using ih unfolding landing_ok_def by blast
  moreover have "\<forall>done. res_fold (publish_gate pub) (g # gs) (done, b, a) = Inr (done @ (g' @ gs'), b', a')"
    using run rest by simp
  ultimately show ?case by blast
qed

lemma fan_published_keeps:
  assumes "fan_ok f"
  shows "\<exists>f'. fan_published pub f = Inr f' \<and> fan_ok f' \<and> fan_cap f' = fan_cap f \<and>
    fan_arrival f' = AList.delete pub (fan_arrival f) \<and> (\<forall>v. gated (fan_gates f') v \<subseteq> gated (fan_gates f) v)"
proof -
  from assms have "counts (readers (fan_assigned f)) (fan_behind f)"
    "\<forall>r. distinct (dget (fan_assigned f) r [])" "gates_ok (fan_assigned f) (fan_gates f)"
    unfolding fan_ok_def by blast+
  from publish_gates_keep [OF this, of pub] obtain gs' b' a' where
    run: "\<forall>done. res_fold (publish_gate pub) (fan_gates f) (done, fan_behind f, fan_assigned f) = Inr (done @ gs', b', a')"
    and ok: "landing_ok (fan_assigned f) (fan_gates f) b' a' gs'" by blast
  from run have "res_fold (publish_gate pub) (fan_gates f) ([], fan_behind f, fan_assigned f) = Inr (gs', b', a')"
    by (metis append_Nil)
  then show ?thesis using ok unfolding fan_published_def fan_ok_def landing_ok_def by simp
qed

subsection \<open>A decision keeps them\<close>

definition named_gates :: "(vid \<times> publication list) list \<Rightarrow> bool" where
  "named_gates m \<longleftrightarrow> dwf m \<and> (\<forall>(v, ps) \<in> set m. on_volume v ps)"

lemma add_gate_keys:
  "set (dkeys (add_gate now p m)) = set (dkeys m) \<union> (if snd p \<in> set now then {snd p} else {})"
  unfolding add_gate_def
  by (cases "snd p \<in> set now") (simp_all only: dkeys_update Un_insert_right Un_empty_right if_True if_False)

lemma add_gate_named:
  assumes "named_gates m"
  shows "named_gates (add_gate now p m)"
proof (cases "snd p \<in> set now")
  case True
  have "dget m (snd p) [] = [] \<or> on_volume (snd p) (dget m (snd p) [])"
    using assms by (cases "map_of m (snd p)") (auto simp: dget_def named_gates_def dest: map_of_SomeD)
  then have "on_volume (snd p) (List.insert p (dget m (snd p) []))" by (rule on_volume_insert)
  then show ?thesis using assms True
    by (auto simp: add_gate_def named_gates_def distinct_update dest!: set_mp [OF set_update_subset])
qed (use assms in \<open>simp add: add_gate_def\<close>)

lemma add_gates:
  "named_gates m \<Longrightarrow> named_gates (fold (add_gate now) ps m) \<and>
     set (dkeys (fold (add_gate now) ps m)) = set (dkeys m) \<union> (set now \<inter> snd ` set ps)"
proof (induction ps arbitrary: m)
  case Nil
  then show ?case by simp
next
  case (Cons p ps)
  from Cons.IH [OF add_gate_named [OF Cons.prems], of now p] show ?case
    by (simp only: fold_simps add_gate_keys) auto
qed

lemma gates_by_volume_ok:
  "named_gates (gates_by_volume now ps)" "set (dkeys (gates_by_volume now ps)) = set now \<inter> snd ` set ps"
  using add_gates [of "[]" now ps] by (simp_all add: gates_by_volume_def named_gates_def)

lemma counts_increments:
  assumes "counts g b" "distinct vs"
  shows "counts (\<lambda>v. g v + (if v \<in> set vs then 1 else 0)) (fold (\<lambda>s b. AList.update s (dget b s 0 + 1) b) vs b)"
  using assms
proof (induction vs arbitrary: g b)
  case Nil
  then show ?case by simp
next
  case (Cons v vs)
  have eq: "(\<lambda>w. (g(v := g v + 1)) w + (if w \<in> set vs then 1 else 0)) =
      (\<lambda>w. g w + (if w \<in> set (v # vs) then 1 else 0))"
    using Cons.prems(2) by (auto simp: fun_eq_iff)
  show ?case using Cons.IH [OF counts_increment [OF Cons.prems(1), of v]] Cons.prems(2)
    unfolding eq by simp
qed

lemma gate_filter: "(\<lambda>(p, _). snd p \<noteq> r) = (\<lambda>g. snd (fst g) \<noteq> r)"
  by (auto simp: fun_eq_iff)

lemma gated_filter: "gated (filter (\<lambda>(p, _). snd p \<noteq> r) gs) v = gated gs v - {r}"
  unfolding gate_filter gated_def set_filter by blast

lemma fan_routed_keeps:
  assumes "fan_ok f"
  shows "\<exists>f'. fan_routed rp sources gate_pubs arrival f = Inr f' \<and> fan_ok f' \<and> fan_cap f' = fan_cap f \<and>
    (\<forall>p. map_of (fan_arrival f') p \<noteq> None \<longleftrightarrow> p = rp \<or> map_of (fan_arrival f) p \<noteq> None) \<and>
    (\<forall>v. gated (fan_gates f') v = (gated (fan_gates f) v - {snd rp}) \<union>
       (if v \<in> set (take 1 sources) \<and> v \<in> snd ` set gate_pubs then {snd rp} else {})) \<and>
    (\<forall>v. readers (fan_assigned f') v = others (fan_assigned f) (snd rp) v + (if v \<in> set (take 1 sources) then 1 else 0))"
proof -
  let ?r = "snd rp" and ?a = "fan_assigned f" and ?now = "take 1 sources"
  from assms have cnt: "counts (readers ?a) (fan_behind f)" and dist: "\<forall>r. distinct (dget ?a r [])"
    and gates: "gates_ok ?a (fan_gates f)" unfolding fan_ok_def by blast+
  have now: "distinct ?now" by (cases sources) auto
  have pos: "0 < readers ?a v" if "v \<in> set (dget ?a ?r [])" for v
    using readers_split [of ?a v ?r] that by simp
  have "(\<lambda>v. readers ?a v - (if v \<in> set (dget ?a ?r []) then 1 else 0)) = others ?a ?r"
    using readers_split [of ?a _ ?r] by (auto simp: fun_eq_iff)
  then obtain b0 where b0: "res_fold decrement (dget ?a ?r []) (fan_behind f) = Inr b0" "counts (others ?a ?r) b0"
    using counts_decrements [OF cnt dist [rule_format, of ?r] pos] by auto
  define b1 where "b1 = fold (\<lambda>s b. AList.update s (dget b s 0 + 1) b) ?now b0"
  define a1 where "a1 = AList.update ?r ?now (AList.delete ?r ?a)"
  have rd: "readers a1 = (\<lambda>v. others ?a ?r v + (if v \<in> set ?now then 1 else 0))"
    by (simp add: fun_eq_iff a1_def readers_update)
  have 1: "counts (readers a1) b1" unfolding rd b1_def by (rule counts_increments [OF b0(2) now])
  have 2: "\<forall>r. distinct (dget a1 r [])" using dist now by (simp add: a1_def)
  define kept where "kept = filter (\<lambda>(p, _). snd p \<noteq> ?r) (fan_gates f)"
  have kept: "gates_ok a1 kept" "\<forall>g \<in> set kept. snd (fst g) \<noteq> ?r"
  proof -
    have other: "\<forall>g \<in> set kept. g \<in> set (fan_gates f) \<and> snd (fst g) \<noteq> ?r"
      unfolding kept_def gate_filter set_filter by blast
    then show "\<forall>g \<in> set kept. snd (fst g) \<noteq> ?r" by blast
    have "gate_ok a1 g" if "g \<in> set kept" for g
    proof (rule gate_ok_cong)
      show "gate_ok ?a g" using other that gates unfolding gates_ok_def by blast
      show "dget a1 (snd (fst g)) [] = dget ?a (snd (fst g)) []" using other that by (simp add: a1_def)
    qed
    moreover have "distinct (map (\<lambda>g. snd (fst g)) kept)"
      using gates by (simp add: gates_ok_def kept_def distinct_map_filter)
    ultimately show "gates_ok a1 kept" by (simp add: gates_ok_def)
  qed
  define bv where "bv = gates_by_volume ?now gate_pubs"
  define gs where "gs = (if bv = [] then kept else AList.update rp bv kept)"
  have bv: "named_gates bv" "set (dkeys bv) = set ?now \<inter> snd ` set gate_pubs"
    unfolding bv_def by (rule gates_by_volume_ok)+
  have "rp \<notin> set (dkeys kept)" using kept(2) by auto
  then have gs: "gs = kept @ (if bv = [] then [] else [(rp, bv)])"
    by (simp add: gs_def update_append_absent)
  have "gate_ok a1 (rp, bv)" if "bv \<noteq> []"
  proof -
    have "v \<in> set ?now" if "(v, ps) \<in> set bv" for v ps
    proof -
      have "v \<in> set (dkeys bv)" using that by (force simp: image_iff)
      then show ?thesis unfolding bv(2) by blast
    qed
    then show ?thesis using that bv(1) by (auto simp: gate_ok_def named_gates_def a1_def)
  qed
  then have 3: "gates_ok a1 gs" using kept unfolding gs by (auto simp: gates_ok_def)
  have 4: "gated gs v = (gated (fan_gates f) v - {?r}) \<union>
      (if v \<in> set ?now \<and> v \<in> snd ` set gate_pubs then {?r} else {})" for v
  proof -
    have "gated kept v = gated (fan_gates f) v - {?r}" by (simp only: kept_def gated_filter)
    moreover have "gated (if bv = [] then [] else [(rp, bv)]) v = (if v \<in> set (dkeys bv) then {?r} else {})"
      by auto
    ultimately show ?thesis unfolding gs gated_simps(3) bv(2) by simp
  qed
  define f' where "f' = f\<lparr>fan_arrival := (if map_of (fan_arrival f) rp = None
      then AList.update rp arrival (fan_arrival f) else fan_arrival f),
      fan_behind := b1, fan_assigned := a1, fan_gates := gs\<rparr>"
  have run: "fan_routed rp sources gate_pubs arrival f = Inr f'"
    using b0(1) by (simp add: fan_routed_def f'_def b1_def a1_def gs_def kept_def bv_def Let_def)
  have ok: "fan_ok f'" using 1 2 3 by (simp add: fan_ok_def f'_def)
  have "\<forall>p. map_of (fan_arrival f') p \<noteq> None \<longleftrightarrow> p = rp \<or> map_of (fan_arrival f) p \<noteq> None"
  proof
    fix p
    show "map_of (fan_arrival f') p \<noteq> None \<longleftrightarrow> p = rp \<or> map_of (fan_arrival f) p \<noteq> None"
      by (cases "map_of (fan_arrival f) rp") (auto simp: f'_def)
  qed
  then show ?thesis using run ok 4 rd by (intro exI [of _ f']) (simp add: f'_def)
qed

subsection \<open>Along any run\<close>

lemma dedup_folds:
  "d_folds (dedup_dispatcher ops) =
     (let dir = owns ds_dir (\<lambda>d s. s\<lparr>ds_dir := d\<rparr>) (dir_fold ops); fan = owns ds_fan (\<lambda>f s. s\<lparr>ds_fan := f\<rparr>) fan_fold
      in [(''Asked'', [dir]), (''Published'', [dir, fan]), (''Routed'', [fan])])"
  by (simp add: dedup_dispatcher_def compose_def dir_reducer_def fan_reducer_def dispatcher_init_def Let_def)

definition dedup_effect :: "('d, 'r) directory_ops \<Rightarrow> dedup_action \<Rightarrow> 'd dedup_state \<Rightarrow> 'd dedup_state" where
  "dedup_effect ops act st =
     \<lparr>ds_dir = (case dir_fold ops act (ds_dir st) of Inr d \<Rightarrow> d | Inl _ \<Rightarrow> ds_dir st),
      ds_fan = (case fan_fold act (ds_fan st) of Inr f \<Rightarrow> f | Inl _ \<Rightarrow> ds_fan st)\<rparr>"

lemma fan_fold_keeps:
  assumes "fan_ok f"
  shows "\<exists>f'. fan_fold act f = Inr f' \<and> fan_ok f' \<and> fan_cap f' = fan_cap f"
  using assms fan_published_keeps fan_routed_keeps by (cases act) (auto, blast+)

lemma dir_fold_total: "\<exists>d'. dir_fold ops act d = Inr d'"
  by (cases act) auto

lemma dedup_dispatch:
  assumes "d_folds d = d_folds (dedup_dispatcher ops)" "fan_ok (ds_fan st)"
  shows "dispatch_sync dedup_type act (d, st) = ((commit act d, dedup_effect ops act st), None)"
    and "fan_ok (ds_fan (dedup_effect ops act st))"
    and "fan_cap (ds_fan (dedup_effect ops act st)) = fan_cap (ds_fan st)"
proof -
  obtain f' where f': "fan_fold act (ds_fan st) = Inr f'" "fan_ok f'" "fan_cap f' = fan_cap (ds_fan st)"
    using fan_fold_keeps [OF assms(2)] by blast
  obtain d' where d': "dir_fold ops act (ds_dir st) = Inr d'" using dir_fold_total by blast
  show "fan_ok (ds_fan (dedup_effect ops act st))"
    "fan_cap (ds_fan (dedup_effect ops act st)) = fan_cap (ds_fan st)"
    using f' by (simp_all add: dedup_effect_def)
  show "dispatch_sync dedup_type act (d, st) = ((commit act d, dedup_effect ops act st), None)"
    using f'(1) d' assms(1)
    by (cases act; cases st) (simp_all add: dispatch_sync_def dedup_folds Let_def owns_def dedup_effect_def)
qed

text \<open>The actions a run dispatches, in order, and the state it starts in.\<close>

definition dispatches :: "('a, 'st) devent list \<Rightarrow> 'a list" where
  "dispatches evs = concat (map (\<lambda>ev. case ev of Dispatched a \<Rightarrow> [a] | _ \<Rightarrow> []) evs)"

definition dedup_start :: "int \<Rightarrow> 'd \<Rightarrow> 'd dedup_state" where
  "dedup_start cap d0 = \<lparr>ds_dir = \<lparr>store = d0, in_flight = []\<rparr>, ds_fan = fanout_init cap\<rparr>"

lemma fan_ok_init [simp]: "fan_ok (fanout_init cap)"
  by (simp add: fan_ok_def fanout_init_def counts_def readers_def gates_ok_def)

lemma dedup_run:
  assumes "d_folds (fst s) = d_folds (dedup_dispatcher ops)" "fan_ok (ds_fan (snd s))"
    "drun dedup_type evs s = (s', acts)"
  shows "acts = dispatches evs \<and> fan_ok (ds_fan (snd s'))"
  using assms
proof (induction evs arbitrary: s acts)
  case Nil
  then show ?case by (simp add: dispatches_def)
next
  case (Cons ev evs)
  obtain d st where s: "s = (d, st)" by (cases s)
  obtain d1 st1 as1 where 1: "dstep dedup_type ev (d, st) = ((d1, st1), as1)" by (metis prod.collapse)
  obtain as2 where 2: "drun dedup_type evs (d1, st1) = (s', as2)" "acts = as1 @ as2"
    using Cons.prems(3) 1 s by (auto split: prod.splits)
  have "d_folds d1 = d_folds d \<and> fan_ok (ds_fan st1) \<and> as1 = dispatches [ev]"
  proof (cases ev)
    case (Dispatched act)
    with 1 dedup_dispatch [of d ops st act] Cons.prems(1,2) s show ?thesis
      by (auto simp: dispatches_def)
  next
    case (Opened holds as)
    then show ?thesis using 1 Cons.prems(2) s park_rest [of "uniq as" d "fst (park (uniq as) d)" "snd (park (uniq as) d)"]
      by (auto simp: dispatches_def gate_pure split: if_splits)
  next
    case (Left w)
    with 1 Cons.prems(2) s show ?thesis by (auto simp: dispatches_def gate_exit_def)
  qed
  then show ?case
    using Cons.IH [of "(d1, st1)" as2] Cons.prems(1) 2 s by (auto simp: dispatches_def)
qed

text \<open>Whoever holds a gate on a volume reads behind it.\<close>

lemma gated_readers:
  assumes "fan_ok f"
  shows "gated (fan_gates f) v \<subseteq> {r. v \<in> set (dget (fan_assigned f) r [])}"
  using assms gate_okD by (fastforce simp: gated_def fan_ok_def gates_ok_def)

lemma gated_bound:
  assumes "fan_ok f"
  shows "int (card (gated (fan_gates f) v)) \<le> dget (fan_behind f) v 0"
proof -
  have "card (gated (fan_gates f) v) \<le> readers (fan_assigned f) v"
    unfolding readers_def by (rule card_mono [OF finite_readers gated_readers [OF assms]])
  moreover have "dget (fan_behind f) v 0 = int (readers (fan_assigned f) v)"
    using assms by (simp add: fan_ok_def counts_def dget_def)
  ultimately show ?thesis by simp
qed

text \<open>C19: whatever actions are dispatched in whatever order, gates opened and left in between, no
  fold of the two dedup sensors ever raises and every dispatched action commits; \<^verbatim>\<open>_behind\<close>
  counts, for each volume, exactly the requesters assigned to it and names no volume nobody
  reads behind; and at most that many requesters wait on a copy the volume is still to receive.\<close>

theorem fanout_counts_readers:
  assumes "drun dedup_type evs (dedup_dispatcher ops, dedup_start cap d0) = (s, acts)"
  shows "acts = dispatches evs \<and>
    (\<forall>v. map_of (fan_behind (ds_fan (snd s))) v =
       (let n = card {r. v \<in> set (dget (fan_assigned (ds_fan (snd s))) r [])}
        in if n = 0 then None else Some (int n))) \<and>
    (\<forall>v. int (card (gated (fan_gates (ds_fan (snd s))) v)) \<le> dget (fan_behind (ds_fan (snd s))) v 0)"
proof -
  have run: "acts = dispatches evs" and ok: "fan_ok (ds_fan (snd s))"
    using dedup_run [OF _ _ assms, of ops] by (simp_all add: dedup_start_def)
  have "counts (readers (fan_assigned (ds_fan (snd s)))) (fan_behind (ds_fan (snd s)))"
    using ok by (simp only: fan_ok_def)
  with run gated_bound [OF ok] show ?thesis unfolding counts_def readers_def Let_def by blast
qed

definition no_directory :: "(unit, unit) directory_ops" where
  "no_directory = \<lparr>op_declare = \<lambda>_ _ d. (1, d), op_drop = \<lambda>_ d. d, op_serving = \<lambda>_ _. [], op_cover = \<lambda>_ _ r. r\<rparr>"

lemma fanout_counts_readers_witness:
  "\<exists>s. drun dedup_type [Dispatched (Routed (5, ''r'') [''a'', ''b''] [(3, ''a'')] 2),
        Dispatched (Routed (6, ''q'') [''a''] [] 1), Dispatched (Published (3, ''a''))]
      (dedup_dispatcher no_directory, dedup_start 2 ()) = (s, [Routed (5, ''r'') [''a'', ''b''] [(3, ''a'')] 2,
        Routed (6, ''q'') [''a''] [] 1, Published (3, ''a'')]) \<and>
    map_of (fan_behind (ds_fan (snd s))) ''a'' = Some 1"
proof -
  define evs :: "(dedup_action, unit dedup_state) devent list" where
    "evs = [Dispatched (Routed (5, ''r'') [''a'', ''b''] [(3, ''a'')] 2),
        Dispatched (Routed (6, ''q'') [''a''] [] 1), Dispatched (Published (3, ''a''))]"
  obtain s acts where s: "drun dedup_type evs (dedup_dispatcher no_directory, dedup_start 2 ()) = (s, acts)"
    by (cases "drun dedup_type evs (dedup_dispatcher no_directory, dedup_start 2 ())")
  from fanout_counts_readers [OF s] have "acts = dispatches evs" by (rule conjunct1)
  moreover have "map_of (fan_behind (ds_fan (snd s))) ''a'' = Some 1"
    using s by (auto simp: evs_def dispatch_sync_def dedup_folds Let_def owns_def dedup_start_def fanout_init_def
      fan_routed_def fan_published_def gates_by_volume_def add_gate_def List.insert_def decrement_def dindex_def)
  ultimately show ?thesis using s by (simp add: evs_def dispatches_def)
qed

end
