(* ===== verification/DedupRouting.thy ===== *)
theory DedupRouting
  imports DedupSensors Selectors CostModel
begin

section \<open>Routing one read-through batch\<close>

text \<open>
  \<^verbatim>\<open>dedup_sim/control/_selector.py\<close> and \<^verbatim>\<open>dedup_sim/control/routing.py\<close>. One ranking prices the
  volumes that serve a batch and the readers about to; the plane declares the requester's own
  copy, ranks, books what it chose and answers with a plan that waits for the pending copies in
  it. A source is a publication; the \<^verbatim>\<open>frozenset\<close> the directory answers with is a list in some
  order. A decision has no \<^verbatim>\<open>await\<close> in it: it is one function from state to state.
\<close>

subsection \<open>Candidates\<close>

type_synonym 'd dedup_view = "environment \<times> 'd dedup_state"
type_synonym 'd dedup_selector = "('d dedup_view, publication list, publication, unit, unit) selector"

definition CHAIN :: real where "CHAIN = 10"
definition SPREAD :: real where "SPREAD = 0"

text \<open>How long until a source can serve: \<open>None\<close> is one that may not be read behind.\<close>

definition source_wait :: "fanout \<Rightarrow> publication \<Rightarrow> time option" where
  "source_wait f source =
     (if fst source = 0 then Some 0
      else if fan_cap f \<le> dget (fan_behind f) (snd source) 0 then None
      else map_of (fan_arrival f) source)"

fun price_sources ::
  "real \<Rightarrow> int \<Rightarrow> environment \<Rightarrow> fanout \<Rightarrow> vid \<Rightarrow> publication list \<Rightarrow> (publication \<times> real) list res" where
  "price_sources fabric payload env f requester [] = Inr []"
| "price_sources fabric payload env f requester (source # serving) =
     (if snd source = requester then price_sources fabric payload env f requester serving
      else case source_wait f source of
          None \<Rightarrow> price_sources fabric payload env f requester serving
        | Some wait \<Rightarrow>
            bindr (env_read_time env (snd source) requester payload) (\<lambda>hop.
            bindr (price_sources fabric payload env f requester serving) (\<lambda>ps.
              Inr ((source, wait + hop + fabric * hop) # ps))))"

definition Candidates :: "real \<Rightarrow> int \<Rightarrow> 'd dedup_selector" where
  "Candidates fabric payload =
     \<lparr>subject_type = Some ''frozenset[Publication]'', senses = [''FanoutSensor''],
      select = \<lambda>(env, st) serving requester.
        bindr (price_sources fabric payload env (ds_fan st) requester serving) (\<lambda>ps.
          if ps = [] then Inr abstain else priced ps None)\<rparr>"

definition source_load :: "'d dedup_view \<Rightarrow> publication list \<Rightarrow> (publication \<Rightarrow> unit dim res) res" where
  "source_load v serving =
     Inr (\<lambda>source. Inr (Num (of_int (dget (fan_behind (ds_fan (snd v))) (snd source) 0))))"

definition SourceBalance :: "'d dedup_selector \<Rightarrow> 'd dedup_selector" where
  "SourceBalance = Annotate source_load [''FanoutSensor'']"

text \<open>\<^verbatim>\<open>score, queued = dims\<close>: anything but two numbers does not unpack.\<close>

fun soonest :: "unit fold_fn" where
  "soonest [Num score, Num queued] = Inr [score * (1 + queued)]"
| "soonest _ = Inl ValueError"

definition dedup_chain :: "bool \<Rightarrow> 'd dedup_selector" where
  "dedup_chain spread =
     pipe (SourceBalance (Candidates (if spread then SPREAD else CHAIN) 1))
       [WithFold (if spread then Some soonest else None), Ordered]"

subsection \<open>Plans\<close>

text \<open>A plan's gate is the number of the waiter it parked; \<open>None\<close> waits for nothing.\<close>

record read_plan =
  rp_sources :: "vid list"
  rp_publication :: publication
  rp_ready :: "nat option"

definition plan_head :: "read_plan \<Rightarrow> vid option" where
  "plan_head plan = (case rp_sources plan of [] \<Rightarrow> None | v # _ \<Rightarrow> Some v)"

text \<open>\<^verbatim>\<open>ReadPlan.settled\<close>: whether it answers yet, and what it answers with.\<close>

definition plan_open :: "('a, 'st) dispatcher \<Rightarrow> read_plan \<Rightarrow> bool" where
  "plan_open d plan = (case rp_ready plan of None \<Rightarrow> True | Some w \<Rightarrow> gate_open w d)"

definition plan_settled :: "read_plan \<Rightarrow> read_plan" where
  "plan_settled plan = (if rp_ready plan = None then plan else plan\<lparr>rp_ready := None\<rparr>)"

definition gate_publications :: "publication list \<Rightarrow> publication list" where
  "gate_publications chosen = uniq (filter (\<lambda>p. fst p \<noteq> 0) chosen)"

subsection \<open>One decision\<close>

type_synonym 'd dedup_plane = "(dedup_action, 'd dedup_state) dispatcher \<times> 'd dedup_state"

text \<open>When each chosen source will have served: a pending one with no arrival raises.\<close>

definition contribution :: "environment \<Rightarrow> fanout \<Rightarrow> vid \<Rightarrow> publication \<Rightarrow> time res" where
  "contribution env f requester p =
     (case if fst p = 0 then Some 0 else map_of (fan_arrival f) p of
        None \<Rightarrow> Inl AssertionError
      | Some arrival \<Rightarrow> bindr (env_read_time env (snd p) requester 1) (\<lambda>hop. Inr (arrival + hop)))"

definition latest :: "time list \<Rightarrow> time" where
  "latest ts = (case ts of [] \<Rightarrow> 0 | t # ts \<Rightarrow> fold max ts t)"

definition still_in_flight :: "publication list \<Rightarrow> 'd dedup_state \<Rightarrow> bool" where
  "still_in_flight pubs st \<longleftrightarrow> (\<exists>p \<in> set pubs. is_in_flight p (ds_dir st))"

definition dedup_committed ::
  "('d, 'r) directory_ops \<Rightarrow> environment \<Rightarrow> vid \<Rightarrow> publication \<Rightarrow> 'r list \<Rightarrow>
     (publication, unit, unit) selection \<Rightarrow> 'd dedup_plane \<Rightarrow> 'd dedup_plane \<times> read_plan res" where
  "dedup_committed ops env requester publication requests ranking s =
     (case sources ranking of
        None \<Rightarrow> (s, Inl AssertionError)
      | Some ranked \<Rightarrow>
          let chosen = op_cover ops (store (ds_dir (snd s))) requests ranked;
              srcs = uniq (map snd chosen);
              gate_pubs = gate_publications chosen
          in case res_map (contribution env (ds_fan (snd s)) requester) chosen of
               Inl e \<Rightarrow> (s, Inl e)
             | Inr contributions \<Rightarrow>
                 (case dispatch_sync dedup_type (Routed publication srcs gate_pubs (latest contributions)) s of
                    (s', Some e) \<Rightarrow> (s', Inl e)
                  | (s', None) \<Rightarrow>
                      (case gate (\<lambda>(d, st). (\<not> still_in_flight gate_pubs st, d, st)) (map Published gate_pubs) s' of
                         (s'', r) \<Rightarrow> (s'', bindr r (\<lambda>w.
                           Inr \<lparr>rp_sources = srcs, rp_publication = publication, rp_ready = w\<rparr>)))))"

definition dedup_decide ::
  "('d, 'r) directory_ops \<Rightarrow> environment \<Rightarrow> bool \<Rightarrow> 'r list \<Rightarrow> vid \<Rightarrow> 'd dedup_plane \<Rightarrow>
     'd dedup_plane \<times> read_plan res" where
  "dedup_decide ops env spread requests requester s =
     (case dedup_declare ops requester requests (ds_dir (snd s)) of
        (publication, dir) \<Rightarrow>
          (case dispatch_sync dedup_type (Asked publication) (fst s, (snd s)\<lparr>ds_dir := dir\<rparr>) of
             (s1, Some e) \<Rightarrow> (s1, Inl e)
           | (s1, None) \<Rightarrow>
               (case select (dedup_chain spread) (env, snd s1)
                       (op_serving ops (store (ds_dir (snd s1))) requests) requester of
                  Inl e \<Rightarrow> (s1, Inl e)
                | Inr ranking \<Rightarrow> dedup_committed ops env requester publication requests ranking s1)))"

definition dedup_plane :: "('d, 'r) directory_ops \<Rightarrow> int \<Rightarrow> 'd \<Rightarrow> 'd dedup_plane" where
  "dedup_plane ops cap d0 = (dedup_dispatcher ops, dedup_start cap d0)"

subsection \<open>The ranking\<close>

text \<open>Who is priced: any source but the requester's own that may be read behind.\<close>

definition eligible :: "fanout \<Rightarrow> vid \<Rightarrow> publication \<Rightarrow> bool" where
  "eligible f requester source \<longleftrightarrow> snd source \<noteq> requester \<and> source_wait f source \<noteq> None"

lemma price_sources_keys:
  "price_sources fabric payload env f requester serving = Inr ps \<Longrightarrow>
     map fst ps = filter (eligible f requester) serving"
  by (induction serving arbitrary: ps) (auto simp: eligible_def res_simps split: option.splits if_splits)

lemma price_sources_total:
  "(\<And>v. v \<in> snd ` set serving \<Longrightarrow> \<exists>t. env_read_time env v requester payload = Inr t) \<Longrightarrow>
     \<exists>ps. price_sources fabric payload env f requester serving = Inr ps"
proof (induction serving)
  case Nil
  then show ?case by simp
next
  case (Cons source serving)
  obtain ps where ps: "price_sources fabric payload env f requester serving = Inr ps"
    using Cons by auto
  obtain t where "env_read_time env (snd source) requester payload = Inr t"
    using Cons.prems [of "snd source"] by auto
  with ps show ?case by (cases "source_wait f source") auto
qed

text \<open>A selection priced by one number a source, or abstaining; annotated, by two.\<close>

definition keyed_by :: "nat \<Rightarrow> (publication, unit, unit) selection \<Rightarrow> bool" where
  "keyed_by n a \<longleftrightarrow> wf_sel a \<and> sources a \<noteq> None \<and> (named a \<noteq> [] \<longrightarrow>
     (\<exists>k. sel_key a = Some k \<and> (\<forall>s \<in> set (named a). \<exists>ds. map_of k s = Some ds \<and> length ds = n \<and> list_all numeric ds)))"

lemma candidates_select:
  assumes "select (Candidates fabric payload) (env, st) serving requester = Inr a"
  shows "named a = filter (eligible (ds_fan st) requester) serving \<and> keyed_by 1 a"
proof -
  from assms obtain ps where ps: "price_sources fabric payload env (ds_fan st) requester serving = Inr ps"
    and a: "(if ps = [] then Inr abstain else priced ps None) = Inr a"
    by (auto simp: Candidates_def res_simps)
  note keys = price_sources_keys [OF ps]
  show ?thesis
  proof (cases "ps = []")
    case True
    then have ab: "a = abstain" using a by simp
    have "named a = []" by (simp add: ab abstain_def named_def)
    moreover have "wf_sel a" "sources a \<noteq> None" by (simp_all add: ab) (simp add: abstain_def)
    ultimately show ?thesis using keys True by (simp add: keyed_by_def)
  next
    case False
    then have p: "priced ps None = Inr a" using a by simp
    have dist: "distinct (map fst ps)" using p by (simp add: priced_def named_once_def split: if_splits)
    then have a: "a = \<lparr>sources = Some (map fst ps), sel_key = Some (map (\<lambda>(s, p). (s, [Num p])) ps),
        ready = None, sel_fold = None\<rparr>"
      using p by (simp add: priced_def named_once_def dict_of_distinct comp_def case_prod_beta)
    then have n: "named a = map fst ps" by (simp add: named_def)
    have "\<exists>x. map_of (map (\<lambda>(s, p). (s, [Num p])) ps) s = Some [Num x]" if "s \<in> set (map fst ps)" for s
      using that by (induction ps) auto
    then have "\<forall>s \<in> set (named a). \<exists>ds. map_of (map (\<lambda>(s, p). (s, [Num p])) ps) s = Some ds \<and> length ds = 1 \<and> list_all numeric ds"
      unfolding n by fastforce
    moreover have "wf_sel a" by (rule wf_priced [OF p])
    ultimately have "keyed_by 1 a"
      unfolding keyed_by_def by (intro conjI impI exI [of _ "map (\<lambda>(s, p). (s, [Num p])) ps"]) (simp_all add: a)
    then show ?thesis using n keys by simp
  qed
qed

lemma candidates_total:
  assumes "distinct serving" "\<And>v. v \<in> snd ` set serving \<Longrightarrow> \<exists>t. env_read_time env v requester payload = Inr t"
  shows "\<exists>a. select (Candidates fabric payload) (env, st) serving requester = Inr a"
proof -
  obtain ps where ps: "price_sources fabric payload env (ds_fan st) requester serving = Inr ps"
    using price_sources_total [OF assms(2)] by blast
  have "distinct (map fst ps)" unfolding price_sources_keys [OF ps] using assms(1) by simp
  with ps show ?thesis by (simp add: Candidates_def priced_def named_once_def)
qed

lemma balance_keyed:
  assumes "keyed_by n a" "named a \<noteq> []" "annotated (\<lambda>s. Inr (Num (g s))) a = Inr b"
  shows "keyed_by (Suc n) b \<and> named b = named a"
proof -
  from assms(1,2) obtain k where k: "sel_key a = Some k" and wf: "wf_sel a" "sources a \<noteq> None"
    and dims: "\<And>s. s \<in> set (named a) \<Longrightarrow> \<exists>ds. map_of k s = Some ds \<and> length ds = n \<and> list_all numeric ds"
    by (auto simp: keyed_by_def)
  have b: "b = a\<lparr>sel_key := Some (dict_of (map (\<lambda>s. (s, dget k s [] @ [Num (g s)])) (named a)))\<rparr>"
    using assms(3) by (simp add: annotated_def key_or_empty_def k)
  have "distinct (named a)" using wf by (simp add: wf_sel_def)
  then have d: "dict_of (map (\<lambda>s. (s, dget k s [] @ [Num (g s)])) (named a)) =
      dict_over (\<lambda>s. dget k s [] @ [Num (g s)]) (named a)"
    by (simp add: dict_of_distinct comp_def dict_over_def)
  have nb: "named b = named a" by (simp add: b named_def)
  have "\<exists>ds. map_of (dict_over (\<lambda>s. dget k s [] @ [Num (g s)]) (named a)) s = Some ds \<and>
      length ds = Suc n \<and> list_all numeric ds" if "s \<in> set (named a)" for s
    using dims [OF that] that by (auto simp: dget_def)
  then have "keyed_by (Suc n) b"
    using wf_annotated [OF wf(1) assms(3)] wf(2) nb unfolding keyed_by_def by (simp add: b d)
  with nb show ?thesis by blast
qed

lemma ordered_soonest:
  assumes a: "keyed_by 2 a" and f: "sel_fold a = None \<or> sel_fold a = Some soonest"
  shows "\<exists>b. ordered a = Inr b"
proof (cases "no_order a")
  case True
  then show ?thesis by (simp add: ordered_def)
next
  case False
  then obtain k where k: "sel_key a = Some k"
    and dims: "\<And>s. s \<in> set (named a) \<Longrightarrow> \<exists>ds. map_of k s = Some ds \<and> length ds = 2 \<and> list_all numeric ds"
    using a by (auto simp: keyed_by_def no_order_def)
  define shape where "shape ds \<longleftrightarrow> (if sel_fold a = None then length ds = 2 \<and> list_all numeric ds
      else \<exists>z. ds = [Tup [z]])" for ds :: "unit dim list"
  have cmp: "\<exists>ds. comparable a s = Inr (ds, s) \<and> shape ds" if s: "s \<in> set (named a)" for s
  proof -
    from dims [OF s] obtain ds where ds: "map_of k s = Some ds" "length ds = 2" "list_all numeric ds" by blast
    then obtain x y where xy: "ds = [x, y]" by (metis (no_types, opaque_lifting) Suc_length_conv length_0_conv numeral_2_eq_2)
    obtain p q where "x = Num p" "y = Num q" using ds(3) xy by (cases x; cases y) auto
    with f ds xy show ?thesis
      by (auto simp: comparable_def key_or_empty_def k dindex_def shape_def)
  qed
  have "\<exists>c. tuple_less (xs, s) (ys, t) = Inr c" if "shape xs" "shape ys" for xs ys and s t :: publication
  proof (cases "sel_fold a")
    case None
    with that tuple_less_numeric [of xs ys s t] show ?thesis by (auto simp: shape_def)
  next
    case (Some g)
    with that show ?thesis by (auto simp: shape_def)
  qed
  moreover obtain cs where cs: "res_map (comparable a) (named a) = Inr cs"
    and shapes: "\<forall>c \<in> set cs. shape (fst c)"
  proof -
    have "res_map (comparable a) (named a) = Inr (map (\<lambda>s. case comparable a s of Inr c \<Rightarrow> c | Inl _ \<Rightarrow> ([], s)) (named a))"
      using cmp by (intro res_map_total) force
    moreover have "\<forall>c \<in> set (map (\<lambda>s. case comparable a s of Inr c \<Rightarrow> c | Inl _ \<Rightarrow> ([], s)) (named a)). shape (fst c)"
      using cmp by force
    ultimately show thesis by (rule that)
  qed
  ultimately have "\<forall>x \<in> set cs. \<forall>y \<in> set cs. \<exists>c. tuple_less x y = Inr c" by (metis prod.collapse)
  from tuple_order.sort_res_total [OF this] cs False show ?thesis by (auto simp: ordered_def)
qed

definition load_of :: "'d dedup_state \<Rightarrow> publication \<Rightarrow> real" where
  "load_of st source = of_int (dget (fan_behind (ds_fan st)) (snd source) 0)"

lemma select_SourceBalance:
  "select (SourceBalance l) (env, st) q r =
     bindr (select l (env, st) q r) (\<lambda>a. if named a = [] then Inr a else annotated (\<lambda>s. Inr (Num (load_of st s))) a)"
  by (simp add: SourceBalance_def Annotate_def source_load_def load_of_def cong: if_cong)

lemma select_dedup_chain:
  "select (dedup_chain spread) (env, st) q r =
     bindr (select (SourceBalance (Candidates (if spread then SPREAD else CHAIN) 1)) (env, st) q r) (\<lambda>a.
       ordered (a\<lparr>sel_fold := if spread then Some soonest else None\<rparr>))"
  by (simp add: dedup_chain_def bindr_def stamp_def split: sum.splits)

lemma dedup_chain_named:
  assumes "select (dedup_chain spread) (env, st) serving requester = Inr b"
  shows "sources b \<noteq> None \<and> distinct (named b) \<and>
    set (named b) = {s \<in> set serving. eligible (ds_fan st) requester s}"
proof -
  let ?f = "if spread then Some soonest else None" and ?g = "load_of st"
  from assms obtain a a1 where
    a: "select (Candidates (if spread then SPREAD else CHAIN) 1) (env, st) serving requester = Inr a"
    and a1: "(if named a = [] then Inr a else annotated (\<lambda>s. Inr (Num (?g s))) a) = Inr a1"
    and b: "ordered (a1\<lparr>sel_fold := ?f\<rparr>) = Inr b"
    unfolding select_dedup_chain select_SourceBalance bindr_eq_Inr_iff by blast
  note cand = candidates_select [OF a]
  have k1: "wf_sel a1" "sources a1 \<noteq> None" "named a1 = named a"
    using a1 cand balance_keyed [of 1 a ?g a1] by (auto simp: keyed_by_def split: if_splits)
  let ?a2 = "a1\<lparr>sel_fold := ?f\<rparr>"
  have st: "stamp ?f a1 = Inr ?a2" by (simp add: stamp_def)
  have wf2: "wf_sel ?a2" using stamp_rest [OF st] k1(1) by blast
  have n2: "named ?a2 = named a1" by (simp add: named_def)
  have "sources b \<noteq> None"
    using wf2 b by (cases rule: ordered_cases) (use k1(2) in auto)
  moreover have "mset (named b) = mset (named a)"
    using ordered_perm [OF wf2 b] n2 k1(3) by simp
  moreover have "distinct (named b)" using wf_ordered [OF wf2 b] by (simp add: wf_sel_def)
  moreover have "set (named b) = {s \<in> set serving. eligible (ds_fan st) requester s}"
    using mset_eq_setD [OF \<open>mset (named b) = mset (named a)\<close>] cand by simp
  ultimately show ?thesis by blast
qed

lemma keyed_by_stamp: "keyed_by n a \<Longrightarrow> keyed_by n (a\<lparr>sel_fold := f\<rparr>)"
proof -
  have "named (a\<lparr>sel_fold := f\<rparr>) = named a" by (simp add: named_def)
  moreover have "wf_sel a \<Longrightarrow> wf_sel (a\<lparr>sel_fold := f\<rparr>)"
    using stamp_rest(4) [of f a "a\<lparr>sel_fold := f\<rparr>"] by (simp add: stamp_def)
  ultimately show "keyed_by n a \<Longrightarrow> keyed_by n (a\<lparr>sel_fold := f\<rparr>)" unfolding keyed_by_def by simp
qed

lemma dedup_chain_total:
  assumes "distinct serving" "\<And>v. v \<in> snd ` set serving \<Longrightarrow> \<exists>t. env_read_time env v requester 1 = Inr t"
  shows "\<exists>b. select (dedup_chain spread) (env, st) serving requester = Inr b"
proof -
  let ?f = "if spread then Some soonest else None" and ?g = "load_of st"
  obtain a where a: "select (Candidates (if spread then SPREAD else CHAIN) 1) (env, st) serving requester = Inr a"
    using candidates_total [OF assms] by blast
  have cand: "keyed_by 1 a" using candidates_select [OF a] by blast
  define a1 where "a1 = (if named a = [] then a else
      a\<lparr>sel_key := Some (dict_of (map (\<lambda>s. (s, dget (key_or_empty a) s [] @ [Num (?g s)])) (named a)))\<rparr>)"
  have an: "named a \<noteq> [] \<Longrightarrow> annotated (\<lambda>s. Inr (Num (?g s))) a = Inr a1"
    by (simp add: annotated_def a1_def)
  have "keyed_by 2 a1"
  proof (cases "named a = []")
    case True
    then show ?thesis using cand by (simp add: a1_def keyed_by_def)
  next
    case False
    then show ?thesis using balance_keyed [OF cand False an [OF False]] by (simp add: numeral_2_eq_2)
  qed
  then have "keyed_by 2 (a1\<lparr>sel_fold := ?f\<rparr>)" by (rule keyed_by_stamp)
  then obtain b where b: "ordered (a1\<lparr>sel_fold := ?f\<rparr>) = Inr b"
    using ordered_soonest by fastforce
  have "select (dedup_chain spread) (env, st) serving requester = ordered (a1\<lparr>sel_fold := ?f\<rparr>)"
    unfolding select_dedup_chain select_SourceBalance a using an
    by (cases "named a = []") (simp_all add: a1_def)
  with b show ?thesis by simp
qed

subsection \<open>What one decision does\<close>

text \<open>What the store documents of \<^verbatim>\<open>greedy_cover\<close>: it picks from the ranking it is given.\<close>

definition covers_from_ranking :: "('d, 'r) directory_ops \<Rightarrow> bool" where
  "covers_from_ranking ops \<longleftrightarrow> (\<forall>d rs ranked. set (op_cover ops d rs ranked) \<subseteq> set ranked)"

abbreviation (input) asked_state where
  "asked_state ops requester requests st \<equiv>
     dedup_effect ops (Asked (fst (dedup_declare ops requester requests (ds_dir st))))
       (st\<lparr>ds_dir := snd (dedup_declare ops requester requests (ds_dir st))\<rparr>)"

lemma set_gate_publications: "set (gate_publications chosen) = {p \<in> set chosen. fst p \<noteq> 0}"
  by (auto simp: gate_publications_def)

lemma distinct_published: "distinct (map Published (gate_publications chosen))"
  by (simp add: gate_publications_def distinct_map inj_on_def)

lemma committed_gate:
  assumes "gate (\<lambda>(d, st). (\<not> still_in_flight gp st, d, st)) (map Published gp) (d, st) = (s', r)"
    and "distinct gp"
  obtains (now) "r = Inr None" "\<not> still_in_flight gp st" "s' = (d, st)"
  | (left) w d' where "r = Inr None" "\<not> still_in_flight gp st" "gp \<noteq> []"
      "park (map Published gp) d = (w, d')" "s' = (unpark w d', st)"
  | (parked) w d' where "r = Inr (Some w)" "gp \<noteq> []" "still_in_flight gp st"
      "park (map Published gp) d = (w, d')" "s' = (d', st)"
proof -
  have u: "uniq (map Published gp) = map Published gp"
    using assms(2) by (intro uniq_distinct) (simp add: distinct_map inj_on_def)
  obtain w d' where p: "park (map Published gp) d = (w, d')" by (cases "park (map Published gp) d")
  show thesis
  proof (cases "gp = []")
    case True
    with assms(1) show thesis by (intro now) (auto simp: gate_def still_in_flight_def)
  next
    case False
    show thesis
    proof (cases "still_in_flight gp st")
      case True
      with assms(1) False p u show thesis by (intro parked [of w d']) (auto simp: gate_pure)
    next
      case no: False
      with assms(1) False p u show thesis by (intro left [of w d']) (auto simp: gate_pure)
    qed
  qed
qed

lemma dedup_decide_outcome:
  assumes folds: "d_folds d = d_folds (dedup_dispatcher ops)" and ok: "fan_ok (ds_fan st)"
    and cover: "covers_from_ranking ops"
    and decl: "dedup_declare ops requester requests (ds_dir st) = (p, dir)"
    and st1: "st1 = dedup_effect ops (Asked p) (st\<lparr>ds_dir := dir\<rparr>)"
    and dec: "dedup_decide ops env spread requests requester (d, st) = (s', r)"
  obtains (refused) e where "r = Inl e" "s' = (commit (Asked p) d, st1)"
  | (planned) chosen act gated_on w where
      "set chosen \<subseteq> {q. eligible (ds_fan st1) requester q}" "gated_on = gate_publications chosen"
      "\<exists>arrival. act = Routed p (uniq (map snd chosen)) gated_on arrival"
      "r = Inr \<lparr>rp_sources = uniq (map snd chosen), rp_publication = p, rp_ready = w\<rparr>"
      "gate (\<lambda>(d, st). (\<not> still_in_flight gated_on st, d, st)) (map Published gated_on)
         (commit act (commit (Asked p) d), dedup_effect ops act st1) = (s', Inr w)"
proof -
  let ?s1 = "(commit (Asked p) d, st1)"
  have ask: "dispatch_sync dedup_type (Asked p) (d, st\<lparr>ds_dir := dir\<rparr>) = (?s1, None)"
    and ok1: "fan_ok (ds_fan st1)"
    using dedup_dispatch [OF folds, of "st\<lparr>ds_dir := dir\<rparr>" "Asked p"] ok by (simp_all add: st1)
  have folds1: "d_folds (commit (Asked p) d) = d_folds (dedup_dispatcher ops)" using folds by simp
  let ?serving = "op_serving ops (store (ds_dir st1)) requests"
  show thesis
  proof (cases "select (dedup_chain spread) (env, st1) ?serving requester")
    case (Inl e)
    then show thesis using dec ask decl by (intro refused [of e]) (auto simp: dedup_decide_def)
  next
    case (Inr ranking)
    have com: "dedup_committed ops env requester p requests ranking ?s1 = (s', r)"
      using dec ask decl Inr by (simp add: dedup_decide_def)
    from dedup_chain_named [OF Inr] obtain ranked where ranked: "sources ranking = Some ranked"
      "set ranked = {q \<in> set ?serving. eligible (ds_fan st1) requester q}"
      by (auto simp: named_def)
    define chosen where "chosen = op_cover ops (store (ds_dir st1)) requests ranked"
    have "set chosen \<subseteq> set ranked" using cover unfolding covers_from_ranking_def chosen_def by blast
    then have chosen: "set chosen \<subseteq> {q. eligible (ds_fan st1) requester q}" unfolding ranked(2) by blast
    show thesis
    proof (cases "res_map (contribution env (ds_fan st1) requester) chosen")
      case (Inl e)
      then show thesis using com ranked(1)
        by (intro refused [of e]) (auto simp: dedup_committed_def chosen_def Let_def)
    next
      case (Inr ts)
      define act where "act = Routed p (uniq (map snd chosen)) (gate_publications chosen) (latest ts)"
      have route: "dispatch_sync dedup_type act ?s1 = ((commit act (commit (Asked p) d), dedup_effect ops act st1), None)"
        by (rule dedup_dispatch(1) [OF folds1 ok1])
      obtain s2 q where g: "gate (\<lambda>(d, st). (\<not> still_in_flight (gate_publications chosen) st, d, st))
          (map Published (gate_publications chosen)) (commit act (commit (Asked p) d), dedup_effect ops act st1) = (s2, q)"
        by fastforce
      have s2: "s' = s2" and q: "r = bindr q (\<lambda>w. Inr \<lparr>rp_sources = uniq (map snd chosen), rp_publication = p, rp_ready = w\<rparr>)"
        using com ranked(1) Inr route g by (simp_all add: dedup_committed_def chosen_def act_def Let_def)
      have "\<exists>w. q = Inr w"
        by (rule committed_gate [OF g]) (auto simp: gate_publications_def)
      then obtain w where w: "q = Inr w" ..
      show thesis by (rule planned [OF chosen refl, of act w]) (use s2 q w g in \<open>auto simp: act_def\<close>)
    qed
  qed
qed

text \<open>
  With the stores' answers without repetition and every volume in the topology, a decision
  never raises: in particular neither of its assertions fails.
\<close>

lemma dedup_decides:
  assumes folds: "d_folds d = d_folds (dedup_dispatcher ops)" and ok: "fan_ok (ds_fan st)"
    and cover: "covers_from_ranking ops"
    and serving: "\<And>dd. distinct (op_serving ops dd requests)"
      "\<And>dd v. v \<in> snd ` set (op_serving ops dd requests) \<Longrightarrow> \<exists>t. env_read_time env v requester 1 = Inr t"
  shows "\<exists>s' plan. dedup_decide ops env spread requests requester (d, st) = (s', Inr plan)"
proof -
  obtain p dir where decl: "dedup_declare ops requester requests (ds_dir st) = (p, dir)" by fastforce
  define st1 where "st1 = dedup_effect ops (Asked p) (st\<lparr>ds_dir := dir\<rparr>)"
  obtain s' r where dec: "dedup_decide ops env spread requests requester (d, st) = (s', r)" by fastforce
  let ?s1 = "(commit (Asked p) d, st1)"
  have ask: "dispatch_sync dedup_type (Asked p) (d, st\<lparr>ds_dir := dir\<rparr>) = (?s1, None)"
    and ok1: "fan_ok (ds_fan st1)"
    using dedup_dispatch [OF folds, of "st\<lparr>ds_dir := dir\<rparr>" "Asked p"] ok by (simp_all add: st1_def)
  have folds1: "d_folds (commit (Asked p) d) = d_folds (dedup_dispatcher ops)" using folds by simp
  let ?serving = "op_serving ops (store (ds_dir st1)) requests"
  obtain ranking where sel: "select (dedup_chain spread) (env, st1) ?serving requester = Inr ranking"
    using dedup_chain_total [OF serving(1) serving(2) [of _ "store (ds_dir st1)"]] by blast
  from dedup_chain_named [OF sel] obtain ranked where ranked: "sources ranking = Some ranked"
    "set ranked = {q \<in> set ?serving. eligible (ds_fan st1) requester q}"
    by (auto simp: named_def)
  define chosen where "chosen = op_cover ops (store (ds_dir st1)) requests ranked"
  have "set chosen \<subseteq> set ranked" using cover unfolding covers_from_ranking_def chosen_def by blast
  then have chosen: "q \<in> set ?serving \<and> eligible (ds_fan st1) requester q" if "q \<in> set chosen" for q
    using that unfolding ranked(2) by blast
  have "\<exists>t. contribution env (ds_fan st1) requester q = Inr t" if "q \<in> set chosen" for q
  proof -
    note q = chosen [OF that]
    then have "snd q \<in> snd ` set ?serving" by blast
    then obtain t where t: "env_read_time env (snd q) requester 1 = Inr t" using serving(2) by blast
    have "source_wait (ds_fan st1) q \<noteq> None" using q by (simp add: eligible_def)
    with t show ?thesis by (auto simp: contribution_def source_wait_def split: if_splits)
  qed
  then have "res_map (contribution env (ds_fan st1) requester) chosen =
      Inr (map (\<lambda>q. SOME t. contribution env (ds_fan st1) requester q = Inr t) chosen)"
    by (intro res_map_total) (metis (mono_tags, lifting) someI_ex)
  then obtain ts where ts: "res_map (contribution env (ds_fan st1) requester) chosen = Inr ts" by blast
  define act where "act = Routed p (uniq (map snd chosen)) (gate_publications chosen) (latest ts)"
  have route: "dispatch_sync dedup_type act ?s1 = ((commit act (commit (Asked p) d), dedup_effect ops act st1), None)"
    by (rule dedup_dispatch(1) [OF folds1 ok1])
  obtain s2 q where g: "gate (\<lambda>(d, st). (\<not> still_in_flight (gate_publications chosen) st, d, st))
      (map Published (gate_publications chosen)) (commit act (commit (Asked p) d), dedup_effect ops act st1) = (s2, q)"
    by fastforce
  have "\<exists>w. q = Inr w"
    by (rule committed_gate [OF g]) (auto simp: gate_publications_def)
  then show ?thesis using ask sel decl ranked(1) ts route g
    by (auto simp: dedup_decide_def dedup_committed_def chosen_def act_def Let_def)
qed

end
