(* ===== verification/DedupProgress.thy ===== *)
theory DedupProgress
  imports DedupRouting
begin

section \<open>What any run of the dedup router guarantees\<close>

text \<open>
  The plane under any sequence of decisions, answered and refused, and of publications landing.
  \<open>issued\<close> lists the declaration ids the store has handed out: what is assumed of it is that it
  never hands one out twice, and never 0. A landing may come at any time after its decision.
\<close>

inductive dedup_reach ::
  "('d, 'r) directory_ops \<Rightarrow> environment \<Rightarrow> bool \<Rightarrow> int \<Rightarrow> 'd \<Rightarrow> int list \<Rightarrow> 'd dedup_plane \<Rightarrow> read_plan list \<Rightarrow> bool"
  for ops env spread cap d0 where
  start: "dedup_reach ops env spread cap d0 [] (dedup_plane ops cap d0) []"
| decide: "dedup_reach ops env spread cap d0 issued s plans \<Longrightarrow>
    fst (op_declare ops requests requester (store (ds_dir (snd s)))) = pub \<Longrightarrow> pub \<noteq> 0 \<Longrightarrow> pub \<notin> set issued \<Longrightarrow>
    dedup_decide ops env spread requests requester s = (s', Inr plan) \<Longrightarrow>
    dedup_reach ops env spread cap d0 (pub # issued) s' (plans @ [plan])"
| refuse: "dedup_reach ops env spread cap d0 issued s plans \<Longrightarrow>
    fst (op_declare ops requests requester (store (ds_dir (snd s)))) = pub \<Longrightarrow> pub \<noteq> 0 \<Longrightarrow> pub \<notin> set issued \<Longrightarrow>
    dedup_decide ops env spread requests requester s = (s', Inl e) \<Longrightarrow>
    dedup_reach ops env spread cap d0 (pub # issued) s' plans"
| land: "dedup_reach ops env spread cap d0 issued s plans \<Longrightarrow> plan \<in> set plans \<Longrightarrow>
    dispatch_sync dedup_type (Published (rp_publication plan)) s = (s', None) \<Longrightarrow>
    dedup_reach ops env spread cap d0 issued s' plans"

subsection \<open>The invariant\<close>

abbreviation flying :: "'d dedup_plane \<Rightarrow> publication \<Rightarrow> bool" where
  "flying s p \<equiv> is_in_flight p (ds_dir (snd s))"

definition plane_ok :: "('d, 'r) directory_ops \<Rightarrow> int \<Rightarrow> int list \<Rightarrow> 'd dedup_plane \<Rightarrow> read_plan list \<Rightarrow> bool" where
  "plane_ok ops cap issued s plans \<longleftrightarrow>
     d_folds (fst s) = d_folds (dedup_dispatcher ops) \<and> fresh_above (fst s) \<and>
     fan_ok (ds_fan (snd s)) \<and> fan_cap (ds_fan (snd s)) = cap \<and>
     (\<forall>p. map_of (fan_arrival (ds_fan (snd s))) p \<noteq> None \<longrightarrow> p \<in> rp_publication ` set plans \<and> flying s p) \<and>
     distinct (map (\<lambda>p. fst (rp_publication p)) plans) \<and> (\<lambda>p. fst (rp_publication p)) ` set plans \<subseteq> set issued \<and>
     (\<forall>v. int (card (gated (fan_gates (ds_fan (snd s))) v)) \<le> max 0 cap)"

definition waits_ok :: "'d dedup_plane \<Rightarrow> read_plan list \<Rightarrow> read_plan \<Rightarrow> bool" where
  "waits_ok s earlier plan \<longleftrightarrow> (\<exists>ws \<subseteq> rp_publication ` set earlier.
     case rp_ready plan of
       None \<Rightarrow> (\<forall>p \<in> ws. \<not> flying s p)
     | Some w \<Rightarrow> tracked w (fst s) \<and> missing (fst s) w = Published ` {p \<in> ws. flying s p})"

definition all_wait_back :: "'d dedup_plane \<Rightarrow> read_plan list \<Rightarrow> bool" where
  "all_wait_back s plans \<longleftrightarrow> (\<forall>j < length plans. waits_ok s (take j plans) (plans ! j))"

text \<open>A step that releases the actions \<open>A\<close> and lands exactly the publications among them.\<close>

lemma waits_step:
  assumes "waits_ok (d, st) earlier plan"
    and "\<And>i. tracked i d \<Longrightarrow> tracked i d' \<and> missing d' i = missing d i - A"
    and "\<And>q. q \<in> rp_publication ` set earlier \<Longrightarrow>
      is_in_flight q (ds_dir st') \<longleftrightarrow> is_in_flight q (ds_dir st) \<and> Published q \<notin> A"
  shows "waits_ok (d', st') earlier plan"
proof -
  from assms(1) obtain ws where ws: "ws \<subseteq> rp_publication ` set earlier"
    and r: "case rp_ready plan of None \<Rightarrow> (\<forall>p \<in> ws. \<not> is_in_flight p (ds_dir st))
      | Some w \<Rightarrow> tracked w d \<and> missing d w = Published ` {p \<in> ws. is_in_flight p (ds_dir st)}"
    unfolding waits_ok_def fst_conv snd_conv by blast
  have fl: "is_in_flight p (ds_dir st') \<longleftrightarrow> is_in_flight p (ds_dir st) \<and> Published p \<notin> A" if "p \<in> ws" for p
    using assms(3) ws that by blast
  show ?thesis
  proof (cases "rp_ready plan")
    case None
    with r fl ws show ?thesis unfolding waits_ok_def by (intro exI [of _ ws]) simp
  next
    case (Some w)
    have "missing d' w = Published ` {p \<in> ws. is_in_flight p (ds_dir st')}"
      using assms(2) [of w] r Some fl by auto
    with assms(2) [of w] r Some ws show ?thesis unfolding waits_ok_def by (intro exI [of _ ws]) simp
  qed
qed

lemma all_wait_step:
  assumes "all_wait_back (d, st) plans"
    and "\<And>i. tracked i d \<Longrightarrow> tracked i d' \<and> missing d' i = missing d i - A"
    and "\<And>q. q \<in> rp_publication ` set plans \<Longrightarrow>
      is_in_flight q (ds_dir st') \<longleftrightarrow> is_in_flight q (ds_dir st) \<and> Published q \<notin> A"
  shows "all_wait_back (d', st') plans"
  unfolding all_wait_back_def
proof (intro allI impI)
  fix j
  assume "j < length plans"
  then have "waits_ok (d, st) (take j plans) (plans ! j)" using assms(1) by (simp add: all_wait_back_def)
  then show "waits_ok (d', st') (take j plans) (plans ! j)"
    by (rule waits_step [OF _ assms(2)]) (use assms(3) in \<open>auto dest: in_set_takeD\<close>)
qed

lemma all_wait_snoc:
  "all_wait_back s plans \<Longrightarrow> waits_ok s plans plan \<Longrightarrow> all_wait_back s (plans @ [plan])"
  by (auto simp: all_wait_back_def nth_append less_Suc_eq)

text \<open>The effects of the three actions.\<close>

lemma effect_asked:
  "in_flight (ds_dir (dedup_effect ops (Asked p) st)) = AList.update (fst p) p (in_flight (ds_dir st))"
  "ds_fan (dedup_effect ops (Asked p) st) = ds_fan st"
  by (simp_all add: dedup_effect_def)

lemma effect_routed:
  assumes "fan_ok (ds_fan st)"
  shows "ds_dir (dedup_effect ops (Routed p srcs gp t) st) = ds_dir st"
    "map_of (fan_arrival (ds_fan (dedup_effect ops (Routed p srcs gp t) st))) q \<noteq> None \<longleftrightarrow>
       q = p \<or> map_of (fan_arrival (ds_fan st)) q \<noteq> None"
    "gated (fan_gates (ds_fan (dedup_effect ops (Routed p srcs gp t) st))) v =
       (gated (fan_gates (ds_fan st)) v - {snd p}) \<union>
       (if v \<in> set (take 1 srcs) \<and> v \<in> snd ` set gp then {snd p} else {})"
proof -
  show "ds_dir (dedup_effect ops (Routed p srcs gp t) st) = ds_dir st" by (simp add: dedup_effect_def)
  from fan_routed_keeps [OF assms, of p srcs gp t] obtain f' where f': "fan_routed p srcs gp t (ds_fan st) = Inr f'"
    "\<forall>q. map_of (fan_arrival f') q \<noteq> None \<longleftrightarrow> q = p \<or> map_of (fan_arrival (ds_fan st)) q \<noteq> None"
    "\<forall>v. gated (fan_gates f') v = (gated (fan_gates (ds_fan st)) v - {snd p}) \<union>
       (if v \<in> set (take 1 srcs) \<and> v \<in> snd ` set gp then {snd p} else {})" by blast
  have "ds_fan (dedup_effect ops (Routed p srcs gp t) st) = f'" using f'(1) by (simp add: dedup_effect_def)
  then show "map_of (fan_arrival (ds_fan (dedup_effect ops (Routed p srcs gp t) st))) q \<noteq> None \<longleftrightarrow>
       q = p \<or> map_of (fan_arrival (ds_fan st)) q \<noteq> None"
    "gated (fan_gates (ds_fan (dedup_effect ops (Routed p srcs gp t) st))) v =
       (gated (fan_gates (ds_fan st)) v - {snd p}) \<union>
       (if v \<in> set (take 1 srcs) \<and> v \<in> snd ` set gp then {snd p} else {})"
    using f'(2,3) by metis+
qed

lemma effect_published:
  assumes "fan_ok (ds_fan st)"
  shows "in_flight (ds_dir (dedup_effect ops (Published p) st)) = AList.delete (fst p) (in_flight (ds_dir st))"
    "fan_arrival (ds_fan (dedup_effect ops (Published p) st)) = AList.delete p (fan_arrival (ds_fan st))"
    "gated (fan_gates (ds_fan (dedup_effect ops (Published p) st))) v \<subseteq> gated (fan_gates (ds_fan st)) v"
proof -
  show "in_flight (ds_dir (dedup_effect ops (Published p) st)) = AList.delete (fst p) (in_flight (ds_dir st))"
    by (simp add: dedup_effect_def)
  from fan_published_keeps [OF assms, of p] obtain f' where f': "fan_published p (ds_fan st) = Inr f'"
    "fan_arrival f' = AList.delete p (fan_arrival (ds_fan st))"
    "\<forall>v. gated (fan_gates f') v \<subseteq> gated (fan_gates (ds_fan st)) v" by blast
  have "ds_fan (dedup_effect ops (Published p) st) = f'" using f'(1) by (simp add: dedup_effect_def)
  then show "fan_arrival (ds_fan (dedup_effect ops (Published p) st)) = AList.delete p (fan_arrival (ds_fan st))"
    "gated (fan_gates (ds_fan (dedup_effect ops (Published p) st))) v \<subseteq> gated (fan_gates (ds_fan st)) v"
    using f'(2,3) by simp_all
qed

subsection \<open>Every step keeps it\<close>

lemma commit_keeps_waits:
  "tracked i d \<Longrightarrow> tracked i (commit act d) \<and> missing (commit act d) i = missing d i - {act}"
  by (rule commit_tracked)

lemma plans_issued:
  "plane_ok ops cap issued s plans \<Longrightarrow> q \<in> rp_publication ` set plans \<Longrightarrow> fst q \<in> set issued"
  by (auto simp: plane_ok_def)

lemma arrivals_fly:
  "plane_ok ops cap issued (d, st) plans \<Longrightarrow> map_of (fan_arrival (ds_fan st)) q \<noteq> None \<Longrightarrow>
     q \<in> rp_publication ` set plans \<and> is_in_flight q (ds_dir st)"
  unfolding plane_ok_def snd_conv by blast

lemma ask_keeps:
  assumes ok: "plane_ok ops cap issued (d, st) plans" and ws: "all_wait_back (d, st) plans"
    and new: "fst p \<notin> set issued" and dir: "in_flight dir = in_flight (ds_dir st)"
  defines "st1 \<equiv> dedup_effect ops (Asked p) (st\<lparr>ds_dir := dir\<rparr>)"
  shows "plane_ok ops cap (fst p # issued) (commit (Asked p) d, st1) plans"
    and "all_wait_back (commit (Asked p) d, st1) plans" and "is_in_flight p (ds_dir st1)"
    and "ds_fan st1 = ds_fan st"
proof -
  have fl: "is_in_flight q (ds_dir st1) \<longleftrightarrow> (if fst q = fst p then q = p else is_in_flight q (ds_dir st))" for q
    by (auto simp: st1_def is_in_flight_def effect_asked(1) dir)
  then show "is_in_flight p (ds_dir st1)" by simp
  have fan: "ds_fan st1 = ds_fan st" by (simp add: st1_def effect_asked(2))
  then show "ds_fan st1 = ds_fan st" .
  have old: "fst q \<noteq> fst p" if "q \<in> rp_publication ` set plans" for q
    using plans_issued [OF ok that] new by auto
  show "all_wait_back (commit (Asked p) d, st1) plans"
    by (rule all_wait_step [OF ws commit_keeps_waits]) (use fl old in auto)
  show "plane_ok ops cap (fst p # issued) (commit (Asked p) d, st1) plans"
  proof -
    have "q \<in> rp_publication ` set plans \<and> is_in_flight q (ds_dir st1)"
      if "map_of (fan_arrival (ds_fan st)) q \<noteq> None" for q
      using arrivals_fly [OF ok that] old fl by simp
    moreover have "(\<lambda>p. fst (rp_publication p)) ` set plans \<subseteq> set (fst p # issued)"
      using ok by (auto simp: plane_ok_def)
    ultimately show ?thesis using ok unfolding plane_ok_def fst_conv snd_conv fan
      by (simp add: commit_fresh)
  qed
qed

lemma route_keeps:
  assumes ok: "plane_ok ops cap issued (d, st) plans" and ws: "all_wait_back (d, st) plans"
    and p: "fst p \<in> set issued" "fst p \<notin> (\<lambda>p. fst (rp_publication p)) ` set plans" "is_in_flight p (ds_dir st)"
    and room: "\<And>v. v \<in> snd ` set gp \<Longrightarrow> dget (fan_behind (ds_fan st)) v 0 < cap"
    and plan: "rp_publication plan = p" and act: "act = Routed p srcs gp t"
  shows "plane_ok ops cap issued (commit act d, dedup_effect ops act st) (plans @ [plan])"
    and "all_wait_back (commit act d, dedup_effect ops act st) plans"
proof -
  let ?st = "dedup_effect ops act st"
  have fan: "fan_ok (ds_fan st)" and folds: "d_folds d = d_folds (dedup_dispatcher ops)"
    and cap: "fan_cap (ds_fan st) = cap"
    using ok by (simp_all add: plane_ok_def)
  note eff = effect_routed [OF fan, of ops p srcs gp t, folded act]
  show "all_wait_back (commit act d, ?st) plans"
    by (rule all_wait_step [OF ws commit_keeps_waits]) (use eff(1) in \<open>auto simp: act\<close>)
  have few: "int (card (gated (fan_gates (ds_fan ?st)) v)) \<le> max 0 cap" for v
  proof (cases "v \<in> set (take 1 srcs) \<and> v \<in> snd ` set gp")
    case True
    have fin: "finite (gated (fan_gates (ds_fan st)) v)"
      by (rule finite_subset [OF gated_readers [OF fan] finite_readers])
    have "gated (fan_gates (ds_fan ?st)) v \<subseteq> insert (snd p) (gated (fan_gates (ds_fan st)) v)"
      unfolding eff(3) by auto
    then have "card (gated (fan_gates (ds_fan ?st)) v) \<le> card (insert (snd p) (gated (fan_gates (ds_fan st)) v))"
      by (intro card_mono) (use fin in simp_all)
    also have "\<dots> \<le> Suc (card (gated (fan_gates (ds_fan st)) v))" by (rule card_insert_le_m1) simp_all
    finally have "int (card (gated (fan_gates (ds_fan ?st)) v)) \<le> dget (fan_behind (ds_fan st)) v 0 + 1"
      using gated_bound [OF fan, of v] by simp
    with room [of v] True show ?thesis by simp
  next
    case False
    have "finite (gated (fan_gates (ds_fan st)) v)"
      by (rule finite_subset [OF gated_readers [OF fan] finite_readers])
    moreover have "gated (fan_gates (ds_fan ?st)) v \<subseteq> gated (fan_gates (ds_fan st)) v"
      unfolding eff(3) using False by auto
    ultimately have "card (gated (fan_gates (ds_fan ?st)) v) \<le> card (gated (fan_gates (ds_fan st)) v)"
      by (rule card_mono)
    moreover have "int (card (gated (fan_gates (ds_fan st)) v)) \<le> max 0 cap"
      using ok by (simp add: plane_ok_def)
    ultimately show ?thesis by linarith
  qed
  have "fan_ok (ds_fan ?st)" "fan_cap (ds_fan ?st) = cap"
    using dedup_dispatch(2,3) [OF folds fan, of act] cap by simp_all
  moreover have "q \<in> rp_publication ` set (plans @ [plan]) \<and> is_in_flight q (ds_dir ?st)"
    if "map_of (fan_arrival (ds_fan ?st)) q \<noteq> None" for q
  proof (cases "q = p")
    case True
    then show ?thesis using p(3) plan eff(1) by simp
  next
    case False
    then have "map_of (fan_arrival (ds_fan st)) q \<noteq> None" using that eff(2) by blast
    then show ?thesis using arrivals_fly [OF ok] eff(1) by simp
  qed
  ultimately show "plane_ok ops cap issued (commit act d, ?st) (plans @ [plan])"
    using ok p(1,2) plan few by (auto simp: plane_ok_def commit_fresh)
qed

lemma gate_keeps:
  assumes ok: "plane_ok ops cap issued (d, st) (plans @ [plan])" and ws: "all_wait_back (d, st) plans"
    and g: "gate (\<lambda>(d, st). (\<not> still_in_flight gp st, d, st)) (map Published gp) (d, st) = (s', Inr w)"
    and gp: "distinct gp" "\<And>q. q \<in> set gp \<Longrightarrow> is_in_flight q (ds_dir st) \<and> q \<in> rp_publication ` set plans"
    and ready: "rp_ready plan = w"
  shows "plane_ok ops cap issued s' (plans @ [plan]) \<and> all_wait_back s' (plans @ [plan])"
  using g gp(1)
proof (cases rule: committed_gate)
  case now
  then have "waits_ok (d, st) plans plan" using ready by (auto simp: waits_ok_def intro: exI [of _ "{}"])
  with ok ws now(3) all_wait_snoc show ?thesis by blast
next
  case (left v d')
  then show ?thesis using gp(2) by (cases gp) (auto simp: still_in_flight_def)
next
  case (parked v d')
  have dist: "distinct (map Published gp)" using gp(1) by (simp add: distinct_map inj_on_def)
  have fresh: "fresh_above d" using ok by (simp add: plane_ok_def)
  have "map Published gp \<noteq> []" using parked(2) by simp
  note new = park_tracked [OF parked(4) dist this fresh]
  have "all_wait_back (d', st) plans"
    by (rule all_wait_step [OF ws, where A = "{}"]) (use park_tracked_other [OF parked(4) dist] in auto)
  moreover have "waits_ok (d', st) plans plan"
    using new gp(2) parked(1) ready unfolding waits_ok_def by (intro exI [of _ "set gp"]) auto
  moreover have "d_folds d' = d_folds d" using park_rest [OF parked(4)] by blast
  ultimately show ?thesis using ok new parked(5) all_wait_snoc by (auto simp: plane_ok_def)
qed

lemma land_keeps:
  assumes ok: "plane_ok ops cap issued (d, st) plans" and ws: "all_wait_back (d, st) plans"
    and plan: "plan \<in> set plans" "p = rp_publication plan"
  defines "st' \<equiv> dedup_effect ops (Published p) st"
  shows "plane_ok ops cap issued (commit (Published p) d, st') plans"
    and "all_wait_back (commit (Published p) d, st') plans"
proof -
  have fan: "fan_ok (ds_fan st)" and folds: "d_folds d = d_folds (dedup_dispatcher ops)"
    and cap: "fan_cap (ds_fan st) = cap"
    using ok by (simp_all add: plane_ok_def)
  note eff = effect_published [OF fan, of ops p, folded st'_def]
  have fl: "is_in_flight q (ds_dir st') \<longleftrightarrow> is_in_flight q (ds_dir st) \<and> fst q \<noteq> fst p" for q
    unfolding is_in_flight_def eff(1) by simp
  have inj: "fst q = fst p \<longleftrightarrow> q = p" if q: "q \<in> rp_publication ` set plans" for q
  proof -
    from q obtain pl where pl: "pl \<in> set plans" "q = rp_publication pl" by blast
    have "inj_on (\<lambda>p. fst (rp_publication p)) (set plans)"
      using ok by (simp add: plane_ok_def distinct_map)
    then show ?thesis using pl plan by (metis inj_onD)
  qed
  show "all_wait_back (commit (Published p) d, st') plans"
    by (rule all_wait_step [OF ws commit_keeps_waits]) (use fl inj in auto)
  have "card (gated (fan_gates (ds_fan st')) v) \<le> card (gated (fan_gates (ds_fan st)) v)" for v
    by (rule card_mono [OF finite_subset [OF gated_readers [OF fan] finite_readers] eff(3)])
  moreover have "\<forall>v. int (card (gated (fan_gates (ds_fan st)) v)) \<le> max 0 cap"
    using ok by (simp add: plane_ok_def)
  ultimately have few: "int (card (gated (fan_gates (ds_fan st')) v)) \<le> max 0 cap" for v
    by (meson of_nat_mono order_trans)
  have arr: "q \<in> rp_publication ` set plans \<and> is_in_flight q (ds_dir st')"
    if "map_of (fan_arrival (ds_fan st')) q \<noteq> None" for q
  proof -
    have q: "q \<noteq> p" "map_of (fan_arrival (ds_fan st)) q \<noteq> None"
      using that unfolding eff(2) by (auto split: if_splits)
    from arrivals_fly [OF ok q(2)] q(1) inj fl show ?thesis by blast
  qed
  have "fan_ok (ds_fan st')" "fan_cap (ds_fan st') = cap"
    using dedup_dispatch(2,3) [OF folds fan, of "Published p"] cap by (simp_all add: st'_def)
  then show "plane_ok ops cap issued (commit (Published p) d, st') plans"
    using ok few arr unfolding plane_ok_def fst_conv snd_conv by (auto intro: commit_fresh)
qed

subsection \<open>Who waits for the volume its plan puts first\<close>

text \<open>
  A requester's standing plan is the last one it was answered with. A requester waits at the head
  of its plan when its gate still misses a publication landing on the volume the plan puts first.
\<close>

definition standing :: "read_plan list \<Rightarrow> vid \<Rightarrow> read_plan option" where
  "standing plans r = map_of (rev (map (\<lambda>plan. (snd (rp_publication plan), plan)) plans)) r"

definition waits_at_head :: "'d dedup_plane \<Rightarrow> vid \<Rightarrow> read_plan \<Rightarrow> bool" where
  "waits_at_head s v plan \<longleftrightarrow> plan_head plan = Some v \<and>
     (case rp_ready plan of
        None \<Rightarrow> False
      | Some w \<Rightarrow> \<exists>act \<in> set (dget (d_missing (fst s)) w []).
          case act of Published p \<Rightarrow> snd p = v | _ \<Rightarrow> False)"

lemma waits_at_head_missing:
  "waits_at_head s v plan \<longleftrightarrow> (\<exists>w p. rp_ready plan = Some w \<and> plan_head plan = Some (snd p) \<and> snd p = v \<and>
     Published p \<in> missing (fst s) w)"
proof -
  have "(case act of Published p \<Rightarrow> snd p = v | _ \<Rightarrow> False) \<longleftrightarrow> (\<exists>p. act = Published p \<and> snd p = v)" for act
    by (cases act) auto
  then show ?thesis by (auto simp: waits_at_head_def missing_def split: option.splits)
qed

lemma standing_snoc:
  "standing (plans @ [plan]) r = (if r = snd (rp_publication plan) then Some plan else standing plans r)"
  by (simp add: standing_def)

lemma standing_plan: "standing plans r = Some plan \<Longrightarrow> plan \<in> set plans \<and> snd (rp_publication plan) = r"
  unfolding standing_def by (drule map_of_SomeD) auto

text \<open>What the fan-out sensor keeps of one publication a gate names.\<close>

fun row_on :: "publication \<times> (vid \<times> publication list) list \<Rightarrow> publication \<Rightarrow> publication \<Rightarrow> bool" where
  "row_on (q', by_volume) q p \<longleftrightarrow> q' = q \<and> p \<in> set (dget by_volume (snd p) [])"

definition gate_on :: "fanout \<Rightarrow> publication \<Rightarrow> publication \<Rightarrow> bool" where
  "gate_on f q p \<longleftrightarrow> (\<exists>g \<in> set (fan_gates f). row_on g q p)"

lemma gate_on_gated: "gate_on f q p \<Longrightarrow> snd q \<in> gated (fan_gates f) (snd p)"
proof -
  assume "gate_on f q p"
  then obtain bv where bv: "(q, bv) \<in> set (fan_gates f)" "p \<in> set (dget bv (snd p) [])"
    by (auto simp: gate_on_def)
  then have "map_of bv (snd p) \<noteq> None" by (cases "map_of bv (snd p)") (simp_all add: dget_def)
  then have "snd p \<in> set (dkeys bv)" by (simp add: map_of_eq_None_iff)
  with bv(1) show ?thesis by (force simp: gated_def)
qed

lemma row_on_some: "row_on (q', m) q p \<Longrightarrow> m \<noteq> []"
  by (auto simp: dget_def)

lemma publish_gate_row:
  assumes run: "publish_gate pub (q', bv) (done, b, a) = Inr (done', b', a')" and "p \<noteq> pub"
  shows "set done \<subseteq> set done'" and "row_on (q', bv) q p \<Longrightarrow> \<exists>h \<in> set done'. row_on h q p"
proof -
  let ?v = "snd pub"
  consider (same) "done' = done @ [(q', bv)]"
    | (less) pubs where "map_of bv ?v = Some pubs" "done' = done @ [(q', AList.update ?v (removeAll pub pubs) bv)]"
    | (gone) pubs where "map_of bv ?v = Some pubs" "removeAll pub pubs = []"
        "done' = (if AList.delete ?v bv = [] then done else done @ [(q', AList.delete ?v bv)])"
    using run by (auto simp: Let_def res_simps split: option.splits if_splits)
  note cases = this
  show "set done \<subseteq> set done'" by (rule cases) auto
  assume row: "row_on (q', bv) q p"
  from cases show "\<exists>h \<in> set done'. row_on h q p"
  proof cases
    case same
    with row show ?thesis by simp
  next
    case (less pubs)
    with row assms(2) have "row_on (q', AList.update ?v (removeAll pub pubs) bv) q p"
      by (cases "snd p = ?v") (auto simp: dget_def)
    with less(2) show ?thesis by simp
  next
    case (gone pubs)
    have "snd p \<noteq> ?v"
    proof
      assume "snd p = ?v"
      with row gone(1) have "p \<in> set pubs" by (simp add: dget_def)
      with assms(2) have "p \<in> set (removeAll pub pubs)" by simp
      with gone(2) show False by simp
    qed
    then have "row_on (q', AList.delete ?v bv) q p" using row by (simp add: dget_def)
    moreover from this have "AList.delete ?v bv \<noteq> []" by (rule row_on_some)
    ultimately show ?thesis using gone(3) by simp
  qed
qed

lemma publish_gates_row:
  assumes "res_fold (publish_gate pub) gs (done, b, a) = Inr (gs', b', a')" "p \<noteq> pub"
    and "\<exists>g \<in> set (done @ gs). row_on g q p"
  shows "\<exists>g \<in> set gs'. row_on g q p"
  using assms(1,3)
proof (induction gs arbitrary: "done" b a)
  case (Cons g gs)
  from Cons.prems(1) obtain done1 b1 a1 where 1: "publish_gate pub g (done, b, a) = Inr (done1, b1, a1)"
    "res_fold (publish_gate pub) gs (done1, b1, a1) = Inr (gs', b', a')"
    by (auto simp: res_simps)
  obtain q' bv where g: "g = (q', bv)" by (cases g)
  note row = publish_gate_row [OF 1(1) [unfolded g] assms(2)]
  from Cons.prems(2) consider "\<exists>h \<in> set done. row_on h q p" | "row_on (q', bv) q p" | "\<exists>h \<in> set gs. row_on h q p"
    unfolding g by (auto simp del: row_on.simps)
  then have "\<exists>h \<in> set (done1 @ gs). row_on h q p"
  proof cases
    case 2
    from row(2) [OF this] show ?thesis by (simp only: set_append bex_Un simp_thms)
  qed (use row(1) in \<open>auto simp del: row_on.simps\<close>)
  from Cons.IH [OF 1(2) this] show ?case .
qed simp

lemma gates_by_volume_row:
  assumes "p \<in> set gp" "snd p \<in> set now"
  shows "p \<in> set (dget (gates_by_volume now gp) (snd p) [])"
proof -
  have "p \<in> set ps \<or> p \<in> set (dget m (snd p) []) \<Longrightarrow>
      p \<in> set (dget (fold (add_gate now) ps m) (snd p) [])" for ps m
  proof (induction ps arbitrary: m)
    case (Cons q ps)
    then have "p \<in> set ps \<or> p \<in> set (dget (add_gate now q m) (snd p) [])"
      using assms(2) by (auto simp: add_gate_def dget_def)
    from Cons.IH [OF this] show ?case by simp
  qed simp
  with assms(1) show ?thesis by (simp add: gates_by_volume_def)
qed

lemma effect_routed_gate:
  assumes "fan_ok (ds_fan st)"
  shows "snd q \<noteq> snd p \<Longrightarrow> gate_on (ds_fan st) q x \<Longrightarrow> gate_on (ds_fan (dedup_effect ops (Routed p srcs gp t) st)) q x"
    and "x \<in> set gp \<Longrightarrow> snd x \<in> set (take 1 srcs) \<Longrightarrow> gate_on (ds_fan (dedup_effect ops (Routed p srcs gp t) st)) p x"
proof -
  from fan_routed_keeps [OF assms, of p srcs gp t] obtain f' where run: "fan_routed p srcs gp t (ds_fan st) = Inr f'" by blast
  let ?kept = "filter (\<lambda>(q, _). snd q \<noteq> snd p) (fan_gates (ds_fan st))" and ?bv = "gates_by_volume (take 1 srcs) gp"
  have "p \<notin> set (dkeys ?kept)" by auto
  then have gates: "fan_gates f' = ?kept @ (if ?bv = [] then [] else [(p, ?bv)])"
    using run by (auto simp: fan_routed_def Let_def res_simps update_append_absent)
  have f': "ds_fan (dedup_effect ops (Routed p srcs gp t) st) = f'" using run by (simp add: dedup_effect_def)
  show "gate_on (ds_fan (dedup_effect ops (Routed p srcs gp t) st)) q x"
    if "snd q \<noteq> snd p" "gate_on (ds_fan st) q x"
  proof -
    from that(2) obtain bv where bv: "(q, bv) \<in> set (fan_gates (ds_fan st))" "row_on (q, bv) q x"
      unfolding gate_on_def by (metis prod.exhaust row_on.simps)
    then have "(q, bv) \<in> set (fan_gates f')" using that(1) unfolding gates by simp
    with bv(2) show ?thesis unfolding f' gate_on_def by blast
  qed
  show "gate_on (ds_fan (dedup_effect ops (Routed p srcs gp t) st)) p x"
    if "x \<in> set gp" "snd x \<in> set (take 1 srcs)"
  proof -
    have x: "x \<in> set (dget ?bv (snd x) [])" using that by (rule gates_by_volume_row)
    then have "row_on (p, ?bv) p x" by simp
    moreover from this have "?bv \<noteq> []" by (rule row_on_some)
    then have "(p, ?bv) \<in> set (fan_gates f')" unfolding gates by simp
    ultimately show ?thesis unfolding f' gate_on_def by blast
  qed
qed

lemma effect_published_gate:
  assumes "fan_ok (ds_fan st)" "x \<noteq> p" "gate_on (ds_fan st) q x"
  shows "gate_on (ds_fan (dedup_effect ops (Published p) st)) q x"
proof -
  from fan_published_keeps [OF assms(1), of p] obtain f' where run: "fan_published p (ds_fan st) = Inr f'" by blast
  then obtain b a where "res_fold (publish_gate p) (fan_gates (ds_fan st)) ([], fan_behind (ds_fan st), fan_assigned (ds_fan st)) =
      Inr (fan_gates f', b, a)"
    by (auto simp: fan_published_def res_simps)
  from publish_gates_row [OF this assms(2)] assms(3) have "gate_on f' q x" by (simp add: gate_on_def)
  moreover have "ds_fan (dedup_effect ops (Published p) st) = f'" using run by (simp add: dedup_effect_def)
  ultimately show ?thesis by simp
qed

text \<open>The invariant: whoever waits at the head of its standing plan is in the sensor's gates.\<close>

definition head_ok :: "'d dedup_plane \<Rightarrow> read_plan \<Rightarrow> bool" where
  "head_ok s plan \<longleftrightarrow> (\<forall>w p. rp_ready plan = Some w \<longrightarrow> plan_head plan = Some (snd p) \<longrightarrow>
     Published p \<in> missing (fst s) w \<longrightarrow> gate_on (ds_fan (snd s)) (rp_publication plan) p)"

definition heads_ok :: "'d dedup_plane \<Rightarrow> read_plan list \<Rightarrow> bool" where
  "heads_ok s plans \<longleftrightarrow> (\<forall>r plan. standing plans r = Some plan \<longrightarrow> head_ok s plan)"

lemma commit_missing_tracked: "tracked i d \<Longrightarrow> missing (commit act d) i = missing d i - {act}"
  using commit_tracked [of i d act] by simp

lemma waits_tracked:
  assumes "all_wait_back s plans" "plan \<in> set plans" "rp_ready plan = Some w"
  shows "tracked w (fst s)"
proof -
  from assms(2) obtain j where "j < length plans" "plan = plans ! j" by (auto simp: in_set_conv_nth)
  with assms(1,3) show ?thesis by (fastforce simp: all_wait_back_def waits_ok_def)
qed

lemma head_step:
  assumes "head_ok (d, st) plan" "all_wait_back (d, st) plans" "plan \<in> set plans"
    and "\<And>i. tracked i d \<Longrightarrow> missing d' i = missing d i - A"
    and "\<And>p. Published p \<notin> A \<Longrightarrow> gate_on (ds_fan st) (rp_publication plan) p \<Longrightarrow> gate_on (ds_fan st') (rp_publication plan) p"
  shows "head_ok (d', st') plan"
  using assms(1) waits_tracked [OF assms(2,3)] assms(4,5) by (auto simp: head_ok_def)

lemma heads_step:
  assumes "heads_ok (d, st) plans" "all_wait_back (d, st) plans"
    and "\<And>i. tracked i d \<Longrightarrow> missing d' i = missing d i - A"
    and "\<And>q p. Published p \<notin> A \<Longrightarrow> gate_on (ds_fan st) q p \<Longrightarrow> gate_on (ds_fan st') q p"
  shows "heads_ok (d', st') plans"
  unfolding heads_ok_def
proof (intro allI impI)
  fix r plan
  assume "standing plans r = Some plan"
  with assms(1) have "head_ok (d, st) plan" "plan \<in> set plans"
    by (auto simp: heads_ok_def dest: standing_plan)
  from head_step [OF this(1) assms(2) this(2) assms(3,4)] show "head_ok (d', st') plan" .
qed

lemma gate_heads:
  assumes ok: "plane_ok ops cap issued (d, st) (plans @ [plan])" and ws: "all_wait_back (d, st) plans"
    and g: "gate (\<lambda>(d, st). (\<not> still_in_flight gp st, d, st)) (map Published gp) (d, st) = (s', Inr w)"
    and gp: "distinct gp" "\<And>q. q \<in> set gp \<Longrightarrow> is_in_flight q (ds_dir st)"
    and ready: "rp_ready plan = w"
    and others: "\<And>r other. standing plans r = Some other \<Longrightarrow> r \<noteq> snd (rp_publication plan) \<Longrightarrow> head_ok (d, st) other"
    and own: "\<And>x. x \<in> set gp \<Longrightarrow> plan_head plan = Some (snd x) \<Longrightarrow> gate_on (ds_fan st) (rp_publication plan) x"
  shows "heads_ok s' (plans @ [plan])"
  using g gp(1)
proof (cases rule: committed_gate)
  case now
  then show ?thesis using others ready by (auto simp: heads_ok_def standing_snoc head_ok_def)
next
  case (left v d')
  then show ?thesis using gp(2) by (cases gp) (auto simp: still_in_flight_def)
next
  case (parked v d')
  have dist: "distinct (map Published gp)" using gp(1) by (simp add: distinct_map inj_on_def)
  have fresh: "fresh_above d" using ok by (simp add: plane_ok_def)
  have "map Published gp \<noteq> []" using parked(2) by simp
  note new = park_tracked [OF parked(4) dist this fresh]
  have "head_ok (d', st) plan"
    using new parked(1) ready own by (auto simp: head_ok_def)
  moreover have "head_ok (d', st) other"
    if "standing plans r = Some other" "r \<noteq> snd (rp_publication plan)" for r other
    by (rule head_step [OF others [OF that] ws, where A = "{}"])
      (use standing_plan [OF that(1)] park_tracked_other [OF parked(4) dist] in auto)
  ultimately show ?thesis using parked(5) by (auto simp: heads_ok_def standing_snoc)
qed

lemma decide_keeps:
  assumes cover: "covers_from_ranking ops"
    and ok: "plane_ok ops cap issued s plans" and ws: "all_wait_back s plans" and hd: "heads_ok s plans"
    and pub: "fst (op_declare ops requests requester (store (ds_dir (snd s)))) = pub" "pub \<notin> set issued"
    and dec: "dedup_decide ops env spread requests requester s = (s', r)"
  shows "case r of
      Inl e \<Rightarrow> plane_ok ops cap (pub # issued) s' plans \<and> all_wait_back s' plans \<and> heads_ok s' plans
    | Inr plan \<Rightarrow> plane_ok ops cap (pub # issued) s' (plans @ [plan]) \<and> all_wait_back s' (plans @ [plan]) \<and>
        heads_ok s' (plans @ [plan]) \<and> requester \<notin> set (rp_sources plan)"
proof -
  obtain d st where s: "s = (d, st)" by (cases s)
  obtain p dir where decl: "dedup_declare ops requester requests (ds_dir st) = (p, dir)" by fastforce
  have p: "fst p = pub" and dir: "in_flight dir = in_flight (ds_dir st)"
    using decl pub(1) s by (auto simp: dedup_declare_def split: prod.splits)
  define st1 where "st1 = dedup_effect ops (Asked p) (st\<lparr>ds_dir := dir\<rparr>)"
  have new: "fst p \<notin> set issued" using pub(2) p by simp
  note asked = ask_keeps [OF ok [unfolded s] ws [unfolded s] new dir, folded st1_def, unfolded p]
  have folds: "d_folds d = d_folds (dedup_dispatcher ops)" and fan: "fan_ok (ds_fan st)" and cap: "fan_cap (ds_fan st) = cap"
    using ok s by (simp_all add: plane_ok_def)
  have hd1: "heads_ok (commit (Asked p) d, st1) plans"
    by (rule heads_step [OF hd [unfolded s] ws [unfolded s] commit_missing_tracked]) (use asked(4) in simp_all)
  show ?thesis
    using folds fan cover decl st1_def dec [unfolded s]
  proof (cases rule: dedup_decide_outcome)
    case (refused e)
    then show ?thesis using asked(1,2) hd1 by simp
  next
    case (planned chosen act gp w)
    let ?plan = "\<lparr>rp_sources = uniq (map snd chosen), rp_publication = p, rp_ready = w\<rparr>"
    obtain arrival where act: "act = Routed p (uniq (map snd chosen)) gp arrival" using planned(3) by blast
    have el: "snd q \<noteq> requester \<and> source_wait (ds_fan st) q \<noteq> None" if "q \<in> set chosen" for q
      using planned(1) asked(4) that by (auto simp: eligible_def)
    have pend: "q \<in> set chosen \<and> fst q \<noteq> 0" if "q \<in> set gp" for q
      using that unfolding planned(2) set_gate_publications by simp
    have room: "dget (fan_behind (ds_fan st)) (snd q) 0 < cap \<and> map_of (fan_arrival (ds_fan st)) q \<noteq> None"
      if "q \<in> set gp" for q
    proof -
      have "source_wait (ds_fan st) q \<noteq> None" "fst q \<noteq> 0" using el pend [OF that] by blast+
      then show ?thesis using cap by (simp add: source_wait_def split: if_splits)
    qed
    have fresh: "fst p \<notin> (\<lambda>p. fst (rp_publication p)) ` set plans"
      using new ok by (auto simp: plane_ok_def)
    have "fst p \<in> set (pub # issued)" using p by simp
    note routed = route_keeps [OF asked(1,2) this fresh asked(3) _ _ act, of ?plan]
    have r1: "plane_ok ops cap (pub # issued) (commit act (commit (Asked p) d), dedup_effect ops act st1) (plans @ [?plan])"
      "all_wait_back (commit act (commit (Asked p) d), dedup_effect ops act st1) plans"
      by (rule routed; use room asked(4) in force)+
    have fan1: "fan_ok (ds_fan st1)" using fan asked(4) by simp
    have fly: "is_in_flight q (ds_dir (dedup_effect ops act st1)) \<and> q \<in> rp_publication ` set plans"
      if "q \<in> set gp" for q
    proof -
      have "map_of (fan_arrival (ds_fan st1)) q \<noteq> None" using room [OF that] asked(4) by simp
      from arrivals_fly [OF asked(1) this] show ?thesis unfolding act effect_routed(1) [OF fan1] by blast
    qed
    have dist: "distinct gp" by (simp add: planned(2) gate_publications_def)
    from gate_keeps [OF r1 planned(5) dist fly] have kept: "plane_ok ops cap (pub # issued) s' (plans @ [?plan]) \<and>
        all_wait_back s' (plans @ [?plan])" by simp
    have others: "head_ok (commit act (commit (Asked p) d), dedup_effect ops act st1) other"
      if other: "standing plans r = Some other" "r \<noteq> snd p" for r other
    proof (rule head_step [OF _ asked(2), where A = "{act}"])
      show "head_ok (commit (Asked p) d, st1) other" using hd1 other(1) by (auto simp: heads_ok_def)
      show "other \<in> set plans" using standing_plan [OF other(1)] ..
      show "missing (commit act (commit (Asked p) d)) i = missing (commit (Asked p) d) i - {act}"
        if "tracked i (commit (Asked p) d)" for i using that by (rule commit_missing_tracked)
      have "snd (rp_publication other) \<noteq> snd p" using standing_plan [OF other(1)] other(2) by simp
      then show "gate_on (ds_fan (dedup_effect ops act st1)) (rp_publication other) x"
        if "gate_on (ds_fan st1) (rp_publication other) x" for x
        using effect_routed_gate(1) [OF fan1 _ that] by (simp add: act)
    qed
    have own: "gate_on (ds_fan (dedup_effect ops act st1)) p x"
      if "x \<in> set gp" "plan_head ?plan = Some (snd x)" for x
      unfolding act by (rule effect_routed_gate(2) [OF fan1 that(1)])
        (use that(2) in \<open>auto simp: plan_head_def split: list.splits\<close>)
    have "heads_ok s' (plans @ [?plan])"
      by (rule gate_heads [OF r1 planned(5) dist]) (use fly others own in auto)
    then show ?thesis using kept planned(4) el by auto
  qed
qed

lemma reach_keeps:
  assumes "dedup_reach ops env spread cap d0 issued s plans" "covers_from_ranking ops"
  shows "plane_ok ops cap issued s plans \<and> all_wait_back s plans \<and> heads_ok s plans"
  using assms
proof (induction rule: dedup_reach.induct)
  case start
  have "fresh_above (dedup_dispatcher ops)"
    by (simp add: fresh_above_def dedup_dispatcher_def compose_def dir_reducer_def fan_reducer_def dispatcher_init_def
        missing_def parked_on_def gate_open_def)
  then show ?case
    by (simp add: plane_ok_def all_wait_back_def heads_ok_def standing_def dedup_plane_def dedup_start_def fanout_init_def)
      (simp add: fan_ok_init [unfolded fanout_init_def])
next
  case (decide issued s plans requests requester pub s' plan)
  then show ?case using decide_keeps [of ops cap issued s plans requests requester pub] by fastforce
next
  case (refuse issued s plans requests requester pub s' e)
  then show ?case using decide_keeps [of ops cap issued s plans requests requester pub] by fastforce
next
  case (land issued s plans plan s')
  obtain d st where s: "s = (d, st)" by (cases s)
  have ok: "plane_ok ops cap issued (d, st) plans" "all_wait_back (d, st) plans" and hd: "heads_ok (d, st) plans"
    using land s by simp_all
  let ?p = "rp_publication plan"
  have "heads_ok (commit (Published ?p) d, dedup_effect ops (Published ?p) st) plans"
  proof (rule heads_step [OF hd ok(2) commit_missing_tracked])
    show "gate_on (ds_fan (dedup_effect ops (Published ?p) st)) q x"
      if "Published x \<notin> {Published ?p}" "gate_on (ds_fan st) q x" for q x
      by (rule effect_published_gate [OF _ _ that(2)]) (use ok(1) that(1) in \<open>simp_all add: plane_ok_def\<close>)
  qed
  moreover from ok have "dispatch_sync dedup_type (Published (rp_publication plan)) (d, st) =
      ((commit (Published (rp_publication plan)) d, dedup_effect ops (Published (rp_publication plan)) st), None)"
    by (intro dedup_dispatch(1)) (simp_all add: plane_ok_def)
  ultimately show ?case using land_keeps [OF ok land.hyps(2) refl] land.hyps(3) s by simp
qed

subsection \<open>The theorems\<close>

text \<open>Dedup never deadlocks. Whatever decisions were answered or refused and whatever landed,
  as long as some plan's publication is still in flight, some plan whose publication is in
  flight waits for nothing: its reader may go on and land it.\<close>

theorem dedup_never_deadlocks:
  assumes reach: "dedup_reach ops env spread cap d0 issued s plans" and cover: "covers_from_ranking ops"
    and plan: "plan0 \<in> set plans" "flying s (rp_publication plan0)"
  shows "\<exists>plan \<in> set plans. flying s (rp_publication plan) \<and> plan_open (fst s) plan"
proof -
  have ws: "all_wait_back s plans" using reach_keeps [OF reach cover] by blast
  define fly where "fly j \<longleftrightarrow> j < length plans \<and> flying s (rp_publication (plans ! j))" for j
  have "\<exists>j. fly j" using plan by (auto simp: fly_def in_set_conv_nth)
  then obtain j where j: "fly j" "\<And>i. i < j \<Longrightarrow> \<not> fly i" by (metis exists_least_iff)
  then have len: "j < length plans" by (simp add: fly_def)
  then have "waits_ok s (take j plans) (plans ! j)" using ws by (simp add: all_wait_back_def)
  then obtain w where w: "w \<subseteq> rp_publication ` set (take j plans)"
    "case rp_ready (plans ! j) of None \<Rightarrow> (\<forall>p \<in> w. \<not> flying s p)
     | Some i \<Rightarrow> tracked i (fst s) \<and> missing (fst s) i = Published ` {p \<in> w. flying s p}"
    unfolding waits_ok_def by blast
  have "\<not> flying s p" if "p \<in> w" for p
  proof -
    from that w(1) obtain i where "i < j" "p = rp_publication (plans ! i)"
      using len by (fastforce simp: in_set_conv_nth)
    then show ?thesis using j(2) len by (simp add: fly_def)
  qed
  then have "plan_open (fst s) (plans ! j)"
    using w(2) by (auto simp: plan_open_def tracked_def split: option.splits)
  then show ?thesis using j(1) len by (auto simp: fly_def)
qed

text \<open>C18: the fan-out cap bounds who waits at the head. Along any run of decisions, refusals and
  landings, whatever a cover built from the ranking answers, at most \<open>fanout_cap\<close> requesters (none
  when it is negative) hold a standing plan whose first source is a given volume and whose gate still
  misses a publication landing there. A requester's standing plan is the last it was answered with.
  Only a plan's first source counts against the cap, as \<^verbatim>\<open>FanoutSensor\<close> records no other: readers
  whose gate waits for a later source of their plan are not bounded (\<open>later_sources_uncapped\<close>
  below).\<close>

theorem fan_out_bounded:
  assumes "dedup_reach ops env spread cap d0 issued s plans" "covers_from_ranking ops"
  shows "int (card {r. \<exists>plan. standing plans r = Some plan \<and> waits_at_head s v plan}) \<le> max 0 cap"
proof -
  have ok: "fan_ok (ds_fan (snd s))" "int (card (gated (fan_gates (ds_fan (snd s))) v)) \<le> max 0 cap"
    and hd: "heads_ok s plans" using reach_keeps [OF assms] by (simp_all add: plane_ok_def)
  have "{r. \<exists>plan. standing plans r = Some plan \<and> waits_at_head s v plan} \<subseteq> gated (fan_gates (ds_fan (snd s))) v"
  proof clarify
    fix r plan
    assume st: "standing plans r = Some plan" and wait: "waits_at_head s v plan"
    from wait obtain w p where w: "rp_ready plan = Some w" "plan_head plan = Some (snd p)" "snd p = v"
      "Published p \<in> missing (fst s) w"
      unfolding waits_at_head_missing by blast
    with hd st have "gate_on (ds_fan (snd s)) (rp_publication plan) p" unfolding heads_ok_def head_ok_def by blast
    from gate_on_gated [OF this] w(3) standing_plan [OF st] show "r \<in> gated (fan_gates (ds_fan (snd s))) v" by simp
  qed
  from card_mono [OF finite_subset [OF gated_readers [OF ok(1)] finite_readers] this] ok(2)
  show ?thesis by linarith
qed

text \<open>C17: every request is answered: where the directory's answers repeat nothing and every volume
  has a place in the topology, a decision raises nothing, neither of its assertions fails, and
  its plan names each volume once and never the requester's own.\<close>

theorem dedup_answers_every_request:
  assumes reach: "dedup_reach ops env spread cap d0 issued s plans" and cover: "covers_from_ranking ops"
    and serving: "\<And>dd. distinct (op_serving ops dd requests)"
      "\<And>dd v. v \<in> snd ` set (op_serving ops dd requests) \<Longrightarrow> \<exists>t. env_read_time env v requester 1 = Inr t"
  shows "\<exists>s' plan. dedup_decide ops env spread requests requester s = (s', Inr plan) \<and>
    distinct (rp_sources plan) \<and> requester \<notin> set (rp_sources plan)"
proof -
  obtain d st where s: "s = (d, st)" by (cases s)
  have folds: "d_folds d = d_folds (dedup_dispatcher ops)" and fan: "fan_ok (ds_fan st)"
    using reach_keeps [OF reach cover] s by (simp_all add: plane_ok_def)
  have "\<exists>s' plan. dedup_decide ops env spread requests requester (d, st) = (s', Inr plan)"
    by (rule dedup_decides [OF folds fan cover serving(1)]) (rule serving(2))
  then obtain s' plan where
    dec: "dedup_decide ops env spread requests requester (d, st) = (s', Inr plan)" by blast
  obtain p dir where decl: "dedup_declare ops requester requests (ds_dir st) = (p, dir)" by fastforce
  have "distinct (rp_sources plan) \<and> requester \<notin> set (rp_sources plan)"
    using folds fan cover decl refl dec
  proof (cases rule: dedup_decide_outcome)
    case (planned chosen act gp w)
    then show ?thesis by (auto simp: eligible_def)
  qed simp
  with dec s show ?thesis by blast
qed

subsection \<open>The theorems at work\<close>

text \<open>A trainer \<open>t\<close> across the fabric and two readers on one host.\<close>

definition dd_env :: environment where
  "dd_env = \<lparr>env_topology =
      [(''t'', \<lparr>ep_id = ''t'', ep_host = ''h0'', ep_node = ''n0''\<rparr>),
       (''a'', \<lparr>ep_id = ''a'', ep_host = ''h1'', ep_node = ''n1''\<rparr>),
       (''b'', \<lparr>ep_id = ''b'', ep_host = ''h1'', ep_node = ''n1''\<rparr>)],
     env_profile = Some DEFAULT_PROFILE\<rparr>"

definition dd_ops :: "(int \<times> publication list, unit) directory_ops" where
  "dd_ops = \<lparr>op_declare = \<lambda>_ v d. (fst d, (fst d + 1, snd d @ [(fst d, v)])),
     op_drop = \<lambda>i d. (fst d, filter (\<lambda>p. fst p \<noteq> i) (snd d)),
     op_serving = \<lambda>d _. uniq ((0, ''t'') # filter (\<lambda>p. snd p \<in> {''a'', ''b''}) (snd d)),
     op_cover = \<lambda>_ _ ranked. take 1 ranked\<rparr>"

definition far :: time where "far = 1/1000 + 1/20000 + 5/100000 + 1/200000 + 1/1000 + 1/10000"
definition near :: time where "near = 1/1000 + 1/20000 + 5/100000 + 1/200000 + 1/10000 + 1/150000"

lemma dd_hops: "env_read_time dd_env ''t'' ''a'' 1 = Inr far" "env_read_time dd_env ''t'' ''b'' 1 = Inr far"
  "env_read_time dd_env ''a'' ''b'' 1 = Inr near" "env_read_time dd_env ''b'' ''a'' 1 = Inr near"
  by (simp_all add: env_read_time_def dd_env_def dindex_def read_time_def storage_time_def storage_bw_def
      mem_copy_time_def network_time_def transfer_time_def locality_def DEFAULT_PROFILE_def far_def near_def)

lemma dd_cheaper: "far + near + 10 * near < far + 10 * far"
  by (simp add: far_def near_def)

lemma dd_cover: "covers_from_ranking dd_ops"
  by (auto simp: covers_from_ranking_def dd_ops_def dest: in_set_takeD)

lemma dd_ops_simps:
  "op_declare dd_ops rs v d = (fst d, (fst d + 1, snd d @ [(fst d, v)]))"
  "op_drop dd_ops i d = (fst d, filter (\<lambda>p. fst p \<noteq> i) (snd d))"
  "op_serving dd_ops d rs = uniq ((0, ''t'') # filter (\<lambda>p. snd p \<in> {''a'', ''b''}) (snd d))"
  "op_cover dd_ops d rs ranked = take 1 ranked"
  by (simp_all add: dd_ops_def)

lemma commit_idle: "d_waiters d = [] \<Longrightarrow> commit act d = d"
  by (simp add: commit_def)

lemma dedup_dispatcher_idle: "d_waiters (dedup_dispatcher ops) = []" "d_next (dedup_dispatcher ops) = 0"
  "d_missing (dedup_dispatcher ops) = []" "d_ready (dedup_dispatcher ops) = []"
  by (simp_all add: dedup_dispatcher_def compose_def dispatcher_init_def)

lemmas dd_eval = dedup_decide_def dedup_declare_def dedup_committed_def dispatch_sync_def dedup_folds owns_def
  Let_def select_dedup_chain select_SourceBalance Candidates_def source_wait_def load_of_def
  dd_ops_simps dd_hops contribution_def gate_publications_def latest_def gate_def still_in_flight_def is_in_flight_def
  fan_routed_def gates_by_volume_def add_gate_def dget_def decrement_def commit_idle dedup_dispatcher_idle
  priced_def named_once_def dict_of_def ordered_def no_order_def named_def comparable_def key_or_empty_def
  dindex_def annotated_def CHAIN_def

text \<open>The plane once \<open>a\<close> has been answered: it reads the trainer.\<close>

definition dd_state :: "(int \<times> publication list) dedup_state" where
  "dd_state = \<lparr>ds_dir = \<lparr>store = (2, [(1, ''a'')]), in_flight = [(1, (1, ''a''))]\<rparr>,
     ds_fan = \<lparr>fan_cap = 1, fan_arrival = [((1, ''a''), far)], fan_behind = [(''t'', 1)],
       fan_assigned = [(''a'', [''t''])], fan_gates = []\<rparr>\<rparr>"

definition dd_plan_a :: read_plan where
  "dd_plan_a = \<lparr>rp_sources = [''t''], rp_publication = (1, ''a''), rp_ready = None\<rparr>"

lemma dd_first: "dedup_decide dd_ops dd_env False [()] ''a'' (dedup_plane dd_ops 1 (1, [])) =
    ((dedup_dispatcher dd_ops, dd_state), Inr dd_plan_a)"
  by (simp add: dd_eval dedup_plane_def dedup_start_def fanout_init_def dd_state_def dd_plan_a_def)

text \<open>Then \<open>b\<close> is sent behind \<open>a\<close>, and waits for its copy.\<close>

definition dd_plan_b :: read_plan where
  "dd_plan_b = \<lparr>rp_sources = [''a''], rp_publication = (2, ''b''), rp_ready = Some 0\<rparr>"

definition dd_waiting :: "(int \<times> publication list) dedup_plane" where
  "dd_waiting = ((dedup_dispatcher dd_ops)\<lparr>d_waiters := [(Published (1, ''a''), [0])], d_missing := [(0, [Published (1, ''a'')])],
       d_next := 1\<rparr>,
     \<lparr>ds_dir = \<lparr>store = (3, [(1, ''a''), (2, ''b'')]), in_flight = [(1, (1, ''a'')), (2, (2, ''b''))]\<rparr>,
      ds_fan = \<lparr>fan_cap = 1, fan_arrival = [((1, ''a''), far), ((2, ''b''), far + near)],
        fan_behind = [(''t'', 1), (''a'', 1)], fan_assigned = [(''a'', [''t'']), (''b'', [''a''])],
        fan_gates = [((2, ''b''), [(''a'', [(1, ''a'')])])]\<rparr>\<rparr>)"

lemma dd_second: "dedup_decide dd_ops dd_env False [()] ''b'' (dedup_dispatcher dd_ops, dd_state) =
    (dd_waiting, Inr dd_plan_b)"
  using dd_cheaper
  by (simp add: dd_eval dd_state_def dd_waiting_def dd_plan_b_def park_def List.insert_def)

lemma dd_reach: "dedup_reach dd_ops dd_env False 1 (1, []) [2, 1] dd_waiting [dd_plan_a, dd_plan_b]"
proof -
  have "dedup_reach dd_ops dd_env False 1 (1, []) [1] (dedup_dispatcher dd_ops, dd_state) ([] @ [dd_plan_a])"
    by (rule dedup_reach.decide [OF dedup_reach.start _ _ _ dd_first])
      (simp_all add: dedup_plane_def dedup_start_def dd_ops_simps)
  from dedup_reach.decide [OF this _ _ _ dd_second] show ?thesis
    by (simp add: dd_state_def dd_ops_simps)
qed

lemma dedup_never_deadlocks_witness:
  "\<not> plan_open (fst dd_waiting) dd_plan_b \<and> flying dd_waiting (rp_publication dd_plan_b) \<and>
   (\<exists>plan \<in> {dd_plan_a, dd_plan_b}. flying dd_waiting (rp_publication plan) \<and> plan_open (fst dd_waiting) plan)"
proof -
  have fly: "flying dd_waiting (rp_publication dd_plan_b)"
    by (simp add: dd_waiting_def dd_plan_b_def is_in_flight_def)
  moreover have "\<not> plan_open (fst dd_waiting) dd_plan_b"
    by (simp add: plan_open_def dd_plan_b_def gate_open_def dd_waiting_def dedup_dispatcher_idle)
  ultimately show ?thesis
    using dedup_never_deadlocks [OF dd_reach dd_cover, of dd_plan_b] by simp
qed

lemma fan_out_bounded_witness:
  "waits_at_head dd_waiting ''a'' dd_plan_b \<and> standing [dd_plan_a, dd_plan_b] ''b'' = Some dd_plan_b \<and>
   int (card {r. \<exists>plan. standing [dd_plan_a, dd_plan_b] r = Some plan \<and> waits_at_head dd_waiting ''a'' plan}) \<le> 1"
proof -
  have "waits_at_head dd_waiting ''a'' dd_plan_b"
    by (simp add: waits_at_head_def dd_waiting_def dd_plan_b_def plan_head_def)
  moreover have "standing [dd_plan_a, dd_plan_b] ''b'' = Some dd_plan_b"
    by (simp add: standing_def dd_plan_a_def dd_plan_b_def)
  ultimately show ?thesis using fan_out_bounded [OF dd_reach dd_cover, of "''a''"] by simp
qed

text \<open>
  What the cap leaves out. \<open>b\<close> and \<open>c\<close> sit beside the trainer and are both answered with it first
  and then \<open>a\<close>, whose copy is on its way: with a cap of one, both gates wait for that one copy.
\<close>

definition wide_env :: environment where
  "wide_env = \<lparr>env_topology =
      [(''t'', \<lparr>ep_id = ''t'', ep_host = ''h1'', ep_node = ''n1''\<rparr>),
       (''a'', \<lparr>ep_id = ''a'', ep_host = ''h0'', ep_node = ''n0''\<rparr>),
       (''b'', \<lparr>ep_id = ''b'', ep_host = ''h1'', ep_node = ''n1''\<rparr>),
       (''c'', \<lparr>ep_id = ''c'', ep_host = ''h1'', ep_node = ''n1''\<rparr>)],
     env_profile = Some DEFAULT_PROFILE\<rparr>"

definition wide_ops :: "(int, unit) directory_ops" where
  "wide_ops = \<lparr>op_declare = \<lambda>_ v d. (d, d + 1), op_drop = \<lambda>i d. d,
     op_serving = \<lambda>d _. [(0, ''t''), (1, ''a'')], op_cover = \<lambda>_ _ ranked. ranked\<rparr>"

lemma wide_hops: "env_read_time wide_env ''t'' ''a'' 1 = Inr far"
  "env_read_time wide_env ''t'' ''b'' 1 = Inr near" "env_read_time wide_env ''t'' ''c'' 1 = Inr near"
  "env_read_time wide_env ''a'' ''b'' 1 = Inr far" "env_read_time wide_env ''a'' ''c'' 1 = Inr far"
  by (simp_all add: env_read_time_def wide_env_def dindex_def read_time_def storage_time_def storage_bw_def
      mem_copy_time_def network_time_def transfer_time_def locality_def DEFAULT_PROFILE_def far_def near_def)

lemma wide_cheaper: "near + 10 * near < far + far + 10 * far" "near \<le> far + far" "\<not> far + far \<le> near"
  by (simp_all add: far_def near_def)

definition wide_plan :: "vid \<Rightarrow> int \<Rightarrow> nat \<Rightarrow> read_plan" where
  "wide_plan r i w = \<lparr>rp_sources = [''t'', ''a''], rp_publication = (i, r), rp_ready = Some w\<rparr>"

definition wide_state :: "(int \<times> publication) list \<Rightarrow> int \<Rightarrow> (publication \<times> time) list \<Rightarrow> (vid \<times> vid list) list \<Rightarrow> int dedup_state" where
  "wide_state fl n due assigned = \<lparr>ds_dir = \<lparr>store = n, in_flight = fl\<rparr>,
     ds_fan = \<lparr>fan_cap = 1, fan_arrival = due, fan_behind = [(''t'', n - 1)],
       fan_assigned = assigned, fan_gates = []\<rparr>\<rparr>"

lemma wide_first: "dedup_decide wide_ops wide_env False [()] ''a'' (dedup_plane wide_ops 1 1) =
    ((dedup_dispatcher wide_ops, wide_state [(1, (1, ''a''))] 2 [((1, ''a''), far)] [(''a'', [''t''])]), Inr dd_plan_a)"
  by (simp add: dd_eval wide_ops_def wide_hops dedup_plane_def dedup_start_def fanout_init_def wide_state_def dd_plan_a_def)

lemma wide_second: "dedup_decide wide_ops wide_env False [()] ''b''
      (dedup_dispatcher wide_ops, wide_state [(1, (1, ''a''))] 2 [((1, ''a''), far)] [(''a'', [''t''])]) =
    (((dedup_dispatcher wide_ops)\<lparr>d_waiters := [(Published (1, ''a''), [0])], d_missing := [(0, [Published (1, ''a'')])],
       d_next := 1\<rparr>,
      wide_state [(1, (1, ''a'')), (2, (2, ''b''))] 3 [((1, ''a''), far), ((2, ''b''), far + far)]
        [(''a'', [''t'']), (''b'', [''t''])]), Inr (wide_plan ''b'' 2 0))"
  using wide_cheaper
  by (simp add: dd_eval wide_ops_def wide_hops wide_state_def wide_plan_def park_def List.insert_def)

definition wide_waiting :: "int dedup_plane" where
  "wide_waiting = ((dedup_dispatcher wide_ops)\<lparr>d_waiters := [(Published (1, ''a''), [0, 1])],
       d_missing := [(0, [Published (1, ''a'')]), (1, [Published (1, ''a'')])], d_next := 2\<rparr>,
      wide_state [(1, (1, ''a'')), (2, (2, ''b'')), (3, (3, ''c''))] 4
        [((1, ''a''), far), ((2, ''b''), far + far), ((3, ''c''), far + far)]
        [(''a'', [''t'']), (''b'', [''t'']), (''c'', [''t''])])"

lemma wide_third: "dedup_decide wide_ops wide_env False [()] ''c''
      (((dedup_dispatcher wide_ops)\<lparr>d_waiters := [(Published (1, ''a''), [0])], d_missing := [(0, [Published (1, ''a'')])],
       d_next := 1\<rparr>,
      wide_state [(1, (1, ''a'')), (2, (2, ''b''))] 3 [((1, ''a''), far), ((2, ''b''), far + far)]
        [(''a'', [''t'']), (''b'', [''t''])])) =
    (wide_waiting, Inr (wide_plan ''c'' 3 1))"
  using wide_cheaper
  by (simp add: dd_eval commit_def wide_ops_def wide_hops wide_state_def wide_plan_def wide_waiting_def park_def List.insert_def)

lemma later_sources_uncapped:
  "dedup_reach wide_ops wide_env False 1 1 [3, 2, 1] wide_waiting [dd_plan_a, wide_plan ''b'' 2 0, wide_plan ''c'' 3 1] \<and>
   missing (fst wide_waiting) 0 = {Published (1, ''a'')} \<and> missing (fst wide_waiting) 1 = {Published (1, ''a'')} \<and>
   dget (fan_behind (ds_fan (snd wide_waiting))) ''a'' 0 = 0"
proof -
  have ids: "fst (op_declare wide_ops rs r d) = d" for rs r d by (simp add: wide_ops_def)
  have "dedup_reach wide_ops wide_env False 1 1 [1]
      (dedup_dispatcher wide_ops, wide_state [(1, (1, ''a''))] 2 [((1, ''a''), far)] [(''a'', [''t''])]) ([] @ [dd_plan_a])"
    by (rule dedup_reach.decide [OF dedup_reach.start _ _ _ wide_first])
      (simp_all add: dedup_plane_def dedup_start_def ids)
  note 2 = dedup_reach.decide [OF this _ _ _ wide_second]
  note 3 = dedup_reach.decide [OF 2 _ _ _ wide_third]
  have "dedup_reach wide_ops wide_env False 1 1 [3, 2, 1] wide_waiting
      (([] @ [dd_plan_a]) @ [wide_plan ''b'' 2 0] @ [wide_plan ''c'' 3 1])"
    using 3 by (simp add: ids wide_state_def)
  then show ?thesis by (simp add: missing_def wide_waiting_def wide_state_def)
qed

lemma dedup_answers_every_request_witness:
  "\<exists>s' plan. dedup_decide dd_ops dd_env False [()] ''b'' dd_waiting = (s', Inr plan) \<and>
    distinct (rp_sources plan) \<and> ''b'' \<notin> set (rp_sources plan)"
proof (rule dedup_answers_every_request [OF dd_reach dd_cover])
  show "distinct (op_serving dd_ops dd [()])" for dd by (simp add: dd_ops_simps del: uniq.simps)
  show "\<exists>t. env_read_time dd_env v ''b'' 1 = Inr t" if "v \<in> snd ` set (op_serving dd_ops dd [()])" for dd v
  proof -
    have "env_read_time dd_env ''b'' ''b'' 1 = Inr (221 / 200000)"
      by (simp add: env_read_time_def dd_env_def dindex_def read_time_def storage_time_def storage_bw_def
        mem_copy_time_def network_time_def transfer_time_def locality_def DEFAULT_PROFILE_def)
    moreover have "v \<in> {''t'', ''a'', ''b''}" using that by (auto simp: dd_ops_simps simp del: uniq.simps)
    ultimately show ?thesis using dd_hops by auto
  qed
qed

end
