(* ===== verification/ReadLoop.thy ===== *)
theory ReadLoop
  imports DedupProgress
begin

section \<open>Readers that publish what they read\<close>

text \<open>
  \<^verbatim>\<open>dedup_sim/data/read_through.py\<close>, and the system it makes with the router: any number of readers, each
  somewhere in its loop, whose awaits interleave freely over one plane. A reader's phase says which
  await it is at; one definition is what it does when that await is answered. What the volumes answer to a
  get or a put is left open: a step is taken with any outcome. A failed reader remembers the plan it held.
\<close>

datatype 'v phase =
    Asking
  | Waiting read_plan
  | Fetching read_plan
  | Retiring read_plan
  | Storing read_plan 'v
  | Announcing read_plan 'v
  | Answered 'v
  | Failed py_error "read_plan option"

record ('r, 'v) reader =
  rd_requester :: vid
  rd_requests :: "'r list"
  rd_phase :: "'v phase"

definition read_through :: "(key \<Rightarrow> 'e \<Rightarrow> 'r) \<Rightarrow> vid \<Rightarrow> (key \<times> 'e) list \<Rightarrow> ('r, 'v) reader" where
  "read_through meta_only requester batch =
     \<lparr>rd_requester = requester, rd_requests = map (\<lambda>(k, v). meta_only k v) batch,
      rd_phase = (if batch = [] then Failed ValueError None else Asking)\<rparr>"

definition read_asked ::
  "('d, 'r) directory_ops \<Rightarrow> environment \<Rightarrow> bool \<Rightarrow> ('r, 'v) reader \<Rightarrow> 'd dedup_plane \<Rightarrow> 'd dedup_plane \<times> ('r, 'v) reader" where
  "read_asked ops env spread r s =
     (case dedup_decide ops env spread (rd_requests r) (rd_requester r) s of
        (s', Inl e) \<Rightarrow> (s', r\<lparr>rd_phase := Failed e None\<rparr>)
      | (s', Inr plan) \<Rightarrow> (s', r\<lparr>rd_phase := Waiting plan\<rparr>))"

definition read_settled :: "read_plan \<Rightarrow> ('r, 'v) reader \<Rightarrow> ('r, 'v) reader" where
  "read_settled plan r = r\<lparr>rd_phase := Fetching (plan_settled plan)\<rparr>"

definition read_fetched :: "read_plan \<Rightarrow> 'v res \<Rightarrow> ('r, 'v) reader \<Rightarrow> ('r, 'v) reader" where
  "read_fetched plan outcome r =
     r\<lparr>rd_phase := (case outcome of
        Inl e \<Rightarrow> if e = KeyError then Retiring plan else Failed e (Some plan)
      | Inr results \<Rightarrow> Storing plan results)\<rparr>"

definition read_stored :: "read_plan \<Rightarrow> 'v \<Rightarrow> unit res \<Rightarrow> ('r, 'v) reader \<Rightarrow> ('r, 'v) reader" where
  "read_stored plan results outcome r =
     r\<lparr>rd_phase := (case outcome of Inl e \<Rightarrow> Failed e (Some plan) | Inr _ \<Rightarrow> Announcing plan results)\<rparr>"

definition read_published ::
  "read_plan \<Rightarrow> 'v phase \<Rightarrow> ('r, 'v) reader \<Rightarrow> 'd dedup_plane \<Rightarrow> 'd dedup_plane \<times> ('r, 'v) reader" where
  "read_published plan next_phase r s =
     (case dispatch_sync dedup_type (Published (rp_publication plan)) s of
        (s', None) \<Rightarrow> (s', r\<lparr>rd_phase := next_phase\<rparr>)
      | (s', Some e) \<Rightarrow> (s', r\<lparr>rd_phase := Failed e (Some plan)\<rparr>))"

subsection \<open>The system\<close>

text \<open>
  A state is the declaration ids handed out so far, the plane and the readers; a step is one reader's,
  and says whether it was a miss (a get that found the copy gone).
\<close>

type_synonym ('d, 'r, 'v) reading = "int list \<times> 'd dedup_plane \<times> ('r, 'v) reader list"

inductive read_step ::
  "('d, 'r) directory_ops \<Rightarrow> environment \<Rightarrow> bool \<Rightarrow> ('d, 'r, 'v) reading \<Rightarrow> bool \<Rightarrow> ('d, 'r, 'v) reading \<Rightarrow> bool"
  for ops env spread where
  ask: "i < length rs \<Longrightarrow> rd_phase (rs ! i) = Asking \<Longrightarrow>
    fst (op_declare ops (rd_requests (rs ! i)) (rd_requester (rs ! i)) (store (ds_dir (snd s)))) = pub \<Longrightarrow>
    pub \<noteq> 0 \<Longrightarrow> pub \<notin> set issued \<Longrightarrow> read_asked ops env spread (rs ! i) s = (s', r) \<Longrightarrow>
    read_step ops env spread (issued, s, rs) False (pub # issued, s', rs[i := r])"
| settle: "i < length rs \<Longrightarrow> rd_phase (rs ! i) = Waiting plan \<Longrightarrow> plan_open (fst s) plan \<Longrightarrow>
    read_step ops env spread (issued, s, rs) False (issued, s, rs[i := read_settled plan (rs ! i)])"
| fetch: "i < length rs \<Longrightarrow> rd_phase (rs ! i) = Fetching plan \<Longrightarrow>
    read_step ops env spread (issued, s, rs) (outcome = Inl KeyError) (issued, s, rs[i := read_fetched plan outcome (rs ! i)])"
| retire: "i < length rs \<Longrightarrow> rd_phase (rs ! i) = Retiring plan \<Longrightarrow> read_published plan Asking (rs ! i) s = (s', r) \<Longrightarrow>
    read_step ops env spread (issued, s, rs) False (issued, s', rs[i := r])"
| put: "i < length rs \<Longrightarrow> rd_phase (rs ! i) = Storing plan results \<Longrightarrow>
    read_step ops env spread (issued, s, rs) False (issued, s, rs[i := read_stored plan results outcome (rs ! i)])"
| announce: "i < length rs \<Longrightarrow> rd_phase (rs ! i) = Announcing plan results \<Longrightarrow>
    read_published plan (Answered results) (rs ! i) s = (s', r) \<Longrightarrow>
    read_step ops env spread (issued, s, rs) False (issued, s', rs[i := r])"

text \<open>Runs, with the number of their steps and how many of these were misses.\<close>

inductive read_run ::
  "('d, 'r) directory_ops \<Rightarrow> environment \<Rightarrow> bool \<Rightarrow> ('d, 'r, 'v) reading \<Rightarrow> nat \<Rightarrow> nat \<Rightarrow> ('d, 'r, 'v) reading \<Rightarrow> bool"
  for ops env spread st0 where
  here: "read_run ops env spread st0 0 0 st0"
| more: "read_run ops env spread st0 n m st \<Longrightarrow> read_step ops env spread st miss st' \<Longrightarrow>
    read_run ops env spread st0 (Suc n) (if miss then Suc m else m) st'"

text \<open>A run starts with nobody having asked.\<close>

definition fresh_readers :: "('r, 'v) reader list \<Rightarrow> bool" where
  "fresh_readers rs = list_all (\<lambda>r. rd_phase r = Asking \<or> rd_phase r = Failed ValueError None) rs"

fun held :: "'v phase \<Rightarrow> publication option" where
  "held (Waiting plan) = Some (rp_publication plan)"
| "held (Fetching plan) = Some (rp_publication plan)"
| "held (Retiring plan) = Some (rp_publication plan)"
| "held (Storing plan _) = Some (rp_publication plan)"
| "held (Announcing plan _) = Some (rp_publication plan)"
| "held (Failed _ (Some plan)) = Some (rp_publication plan)"
| "held _ = None"

subsection \<open>What a step does to what is in flight\<close>

lemma decide_flights:
  assumes cover: "covers_from_ranking ops" and ok: "plane_ok ops cap issued s plans"
    and pub: "fst (op_declare ops requests requester (store (ds_dir (snd s)))) = pub"
    and dec: "dedup_decide ops env spread requests requester s = (s', r)"
  shows "flying s' q \<longleftrightarrow> (if fst q = pub then q = (pub, requester) else flying s q)"
    and "\<forall>plan. r = Inr plan \<longrightarrow> rp_publication plan = (pub, requester)"
proof -
  obtain d st where s: "s = (d, st)" by (cases s)
  obtain p dir where decl: "dedup_declare ops requester requests (ds_dir st) = (p, dir)" by fastforce
  have p: "p = (pub, requester)" and dir: "in_flight dir = in_flight (ds_dir st)"
    using decl pub s by (auto simp: dedup_declare_def split: prod.splits)
  define st1 where "st1 = dedup_effect ops (Asked p) (st\<lparr>ds_dir := dir\<rparr>)"
  have fl: "is_in_flight q (ds_dir st1) \<longleftrightarrow> (if fst q = pub then q = (pub, requester) else flying s q)" for q
    by (auto simp: st1_def is_in_flight_def effect_asked(1) dir p s)
  have folds: "d_folds d = d_folds (dedup_dispatcher ops)" and fan: "fan_ok (ds_fan st)"
    using ok s by (simp_all add: plane_ok_def)
  have "(flying s' q \<longleftrightarrow> is_in_flight q (ds_dir st1)) \<and> (\<forall>plan. r = Inr plan \<longrightarrow> rp_publication plan = (pub, requester))" for q
    using folds fan cover decl st1_def dec [unfolded s]
  proof (cases rule: dedup_decide_outcome)
    case (planned chosen act gp w)
    obtain t where act: "act = Routed p (uniq (map snd chosen)) gp t" using planned(3) by blast
    have "ds_dir (dedup_effect ops act st1) = ds_dir st1" by (simp add: act dedup_effect_def)
    moreover have "distinct gp" by (simp add: planned(2) gate_publications_def)
    ultimately have "ds_dir (snd s') = ds_dir st1" using planned(5) by (elim committed_gate) auto
    then show ?thesis using planned(4) p by simp
  qed simp
  then show "flying s' q \<longleftrightarrow> (if fst q = pub then q = (pub, requester) else flying s q)"
    "\<forall>plan. r = Inr plan \<longrightarrow> rp_publication plan = (pub, requester)"
    using fl by blast+
qed

lemma land_flights:
  assumes "plane_ok ops cap issued s plans"
  obtains s' where "dispatch_sync dedup_type (Published p) s = (s', None)"
    "\<And>q. flying s' q \<longleftrightarrow> flying s q \<and> fst q \<noteq> fst p"
proof -
  obtain d st where s: "s = (d, st)" by (cases s)
  have ok: "d_folds d = d_folds (dedup_dispatcher ops)" "fan_ok (ds_fan st)" using assms s by (simp_all add: plane_ok_def)
  show thesis
    by (rule that [of "(commit (Published p) d, dedup_effect ops (Published p) st)"])
      (use dedup_dispatch(1) [OF ok] effect_published(1) [OF ok(2), of ops p] s in \<open>auto simp: is_in_flight_def split: if_splits\<close>)
qed


subsection \<open>Who holds what is in flight\<close>

definition held_ok :: "'d dedup_plane \<Rightarrow> read_plan list \<Rightarrow> ('r, 'v) reader list \<Rightarrow> bool" where
  "held_ok s plans rs \<longleftrightarrow>
     (\<forall>i < length rs. \<forall>p. held (rd_phase (rs ! i)) = Some p \<longrightarrow> p \<in> rp_publication ` set plans \<and> flying s p) \<and>
     (\<forall>i < length rs. \<forall>plan. rd_phase (rs ! i) = Waiting plan \<longrightarrow> plan \<in> set plans) \<and>
     (\<forall>plan \<in> set plans. flying s (rp_publication plan) \<longrightarrow>
        (\<exists>i < length rs. held (rd_phase (rs ! i)) = Some (rp_publication plan))) \<and>
     (\<forall>i < length rs. \<forall>j < length rs. i \<noteq> j \<longrightarrow> held (rd_phase (rs ! i)) = held (rd_phase (rs ! j)) \<longrightarrow>
        held (rd_phase (rs ! i)) = None)"

lemma held_okD:
  assumes "held_ok s plans rs" "i < length rs" "held (rd_phase (rs ! i)) = Some p"
  shows "p \<in> rp_publication ` set plans" "flying s p" "j < length rs \<Longrightarrow> held (rd_phase (rs ! j)) = Some p \<Longrightarrow> j = i"
proof -
  show "p \<in> rp_publication ` set plans" "flying s p" using assms unfolding held_ok_def by blast+
  show "j = i" if "j < length rs" "held (rd_phase (rs ! j)) = Some p"
    using assms that unfolding held_ok_def by (metis option.distinct(1))
qed

lemma settled_publication [simp]: "rp_publication (plan_settled plan) = rp_publication plan"
  by (simp add: plan_settled_def)

text \<open>A reader that moves on inside its loop holds what it held.\<close>

lemma held_moves:
  assumes "held_ok s plans rs" "i < length rs" "held (rd_phase r) = held (rd_phase (rs ! i))"
    "\<And>plan. rd_phase r \<noteq> Waiting plan"
  shows "held_ok s plans (rs[i := r])"
proof -
  have h: "held (rd_phase (rs[i := r] ! j)) = held (rd_phase (rs ! j))" if "j < length rs" for j
    using assms(2,3) that by (cases "j = i") auto
  have w: "rd_phase (rs[i := r] ! j) = Waiting plan \<Longrightarrow> rd_phase (rs ! j) = Waiting plan" if "j < length rs" for j plan
    using assms(2,4) that by (cases "j = i") auto
  show ?thesis using assms(1) h w unfolding held_ok_def by (simp cong: conj_cong)
qed

lemma held_gains:
  assumes ok: "held_ok s plans rs" and i: "i < length rs" "held (rd_phase (rs ! i)) = None"
    and new: "fst (rp_publication plan) \<notin> (\<lambda>p. fst (rp_publication p)) ` set plans"
    and fly: "\<And>q. flying s' q \<longleftrightarrow> (if fst q = fst (rp_publication plan) then q = rp_publication plan else flying s q)"
  shows "held_ok s' (plans @ [plan]) (rs[i := r\<lparr>rd_phase := Waiting plan\<rparr>])"
proof -
  let ?rs = "rs[i := r\<lparr>rd_phase := Waiting plan\<rparr>]" and ?p = "rp_publication plan"
  have h: "held (rd_phase (?rs ! j)) = (if j = i then Some ?p else held (rd_phase (rs ! j)))" if "j < length rs" for j
    using i(1) that by (cases "j = i") auto
  have old: "p \<noteq> ?p \<and> fst p \<noteq> fst ?p" if "p \<in> rp_publication ` set plans" for p using new that by (metis (no_types, lifting) image_iff)
  have fl: "flying s' p = flying s p" if "p \<in> rp_publication ` set plans" for p using fly old [OF that] by simp
  have "p \<in> rp_publication ` set (plans @ [plan]) \<and> flying s' p" if "j < length rs" "held (rd_phase (?rs ! j)) = Some p" for j p
  proof (cases "j = i")
    case True
    then have "p = ?p" using h [OF that(1)] that(2) by simp
    then show ?thesis using fly by simp
  next
    case False
    then have "held (rd_phase (rs ! j)) = Some p" using h [OF that(1)] that(2) by simp
    from held_okD(1,2) [OF ok that(1) this] fl show ?thesis by simp
  qed
  moreover have "pl \<in> set (plans @ [plan])" if "j < length rs" "rd_phase (?rs ! j) = Waiting pl" for j pl
    using ok that i(1) by (cases "j = i") (auto simp: held_ok_def)
  moreover have "\<exists>j < length rs. held (rd_phase (?rs ! j)) = Some (rp_publication pl)"
    if pl: "pl \<in> set (plans @ [plan])" "flying s' (rp_publication pl)" for pl
  proof (cases "pl \<in> set plans")
    case True
    then have "flying s (rp_publication pl)" using pl(2) fl by blast
    then obtain j where j: "j < length rs" "held (rd_phase (rs ! j)) = Some (rp_publication pl)"
      using ok True by (auto simp: held_ok_def)
    then have "j \<noteq> i" using i(2) by auto
    with j h show ?thesis by auto
  next
    case False
    then show ?thesis using pl(1) i(1) h by auto
  qed
  moreover have "held (rd_phase (?rs ! j)) = None"
    if "j < length rs" "k < length rs" "j \<noteq> k" "held (rd_phase (?rs ! j)) = held (rd_phase (?rs ! k))" for j k
  proof -
    have other: "held (rd_phase (rs ! l)) \<noteq> Some ?p" if "l < length rs" for l
      using held_okD(1) [OF ok that] old by blast
    show ?thesis
    proof (cases "j = i \<or> k = i")
      case True
      with that h other show ?thesis by (metis (no_types, lifting))
    next
      case False
      with that h ok show ?thesis by (simp add: held_ok_def)
    qed
  qed
  ultimately show ?thesis unfolding held_ok_def length_list_update by blast
qed

lemma held_lands:
  assumes ok: "held_ok s plans rs" and i: "i < length rs" "held (rd_phase (rs ! i)) = Some p"
    and inj: "distinct (map (\<lambda>p. fst (rp_publication p)) plans)" and r: "held (rd_phase r) = None"
    and fly: "\<And>q. flying s' q \<longleftrightarrow> flying s q \<and> fst q \<noteq> fst p"
  shows "held_ok s' plans (rs[i := r])"
proof -
  let ?rs = "rs[i := r]"
  have h: "held (rd_phase (?rs ! j)) = (if j = i then None else held (rd_phase (rs ! j)))" if "j < length rs" for j
    using i(1) that r by (cases "j = i") auto
  have p: "p \<in> rp_publication ` set plans" using ok i unfolding held_ok_def by blast
  have same: "q = p" if q: "q \<in> rp_publication ` set plans" "fst q = fst p" for q
    using p q inj unfolding distinct_map by (auto dest: inj_onD)
  have "q \<in> rp_publication ` set plans \<and> flying s' q" if j: "j < length rs" "held (rd_phase (?rs ! j)) = Some q" for j q
  proof -
    have ji: "j \<noteq> i" "held (rd_phase (rs ! j)) = Some q" using h [OF j(1)] j(2) by (auto split: if_splits)
    then have q: "q \<in> rp_publication ` set plans" "flying s q" using held_okD(1,2) [OF ok j(1)] by blast+
    have "q \<noteq> p" using held_okD(3) [OF ok i j(1)] ji by blast
    with same q fly show ?thesis by blast
  qed
  moreover have "pl \<in> set plans" if "j < length rs" "rd_phase (?rs ! j) = Waiting pl" for j pl
    using ok that i(1) r by (cases "j = i") (auto simp: held_ok_def)
  moreover have "\<exists>j < length rs. held (rd_phase (?rs ! j)) = Some (rp_publication pl)"
    if pl: "pl \<in> set plans" "flying s' (rp_publication pl)" for pl
  proof -
    have "flying s (rp_publication pl)" "fst (rp_publication pl) \<noteq> fst p" using pl(2) fly by blast+
    then obtain j where "j < length rs" "held (rd_phase (rs ! j)) = Some (rp_publication pl)"
      using ok pl(1) by (auto simp: held_ok_def)
    moreover from this have "j \<noteq> i" using i(2) \<open>fst (rp_publication pl) \<noteq> fst p\<close> by auto
    ultimately show ?thesis using h by auto
  qed
  moreover have "held (rd_phase (?rs ! j)) = None"
    if "j < length rs" "k < length rs" "j \<noteq> k" "held (rd_phase (?rs ! j)) = held (rd_phase (?rs ! k))" for j k
  proof (cases "j = i \<or> k = i")
    case True
    with that h show ?thesis by (metis (no_types, lifting))
  next
    case False
    with that h ok show ?thesis by (simp add: held_ok_def)
  qed
  ultimately show ?thesis unfolding held_ok_def length_list_update by blast
qed


subsection \<open>A run of readers is a run of the router\<close>

text \<open>Every state of the system has the plans that led to it, and readers hold exactly what flies of them.\<close>

definition reading_ok ::
  "('d, 'r) directory_ops \<Rightarrow> environment \<Rightarrow> bool \<Rightarrow> int \<Rightarrow> 'd \<Rightarrow> ('d, 'r, 'v) reading \<Rightarrow> bool" where
  "reading_ok ops env spread cap d0 = (\<lambda>(issued, s, rs).
     \<exists>plans. dedup_reach ops env spread cap d0 issued s plans \<and> held_ok s plans rs)"

lemma reading_start: "fresh_readers rs \<Longrightarrow> reading_ok ops env spread cap d0 ([], dedup_plane ops cap d0, rs)"
proof -
  assume "fresh_readers rs"
  then have "rd_phase (rs ! i) = Asking \<or> rd_phase (rs ! i) = Failed ValueError None" if "i < length rs" for i
    using that by (simp add: fresh_readers_def list_all_length)
  then have "held (rd_phase (rs ! i)) = None" "rd_phase (rs ! i) \<noteq> Waiting plan" if "i < length rs" for i plan
    using that by fastforce+
  then have "held_ok (dedup_plane ops cap d0) [] rs" by (simp add: held_ok_def)
  then show ?thesis unfolding reading_ok_def by (auto intro: dedup_reach.start)
qed

lemma published_keeps:
  assumes reach: "dedup_reach ops env spread cap d0 issued s plans" and cover: "covers_from_ranking ops"
    and ok: "held_ok s plans rs" and i: "i < length rs" "held (rd_phase (rs ! i)) = Some (rp_publication plan)"
    and nxt: "held next_phase = None" and step: "read_published plan next_phase (rs ! i) s = (s', r)"
  shows "dedup_reach ops env spread cap d0 issued s' plans \<and> held_ok s' plans (rs[i := r]) \<and> rd_phase r = next_phase"
proof -
  have plane: "plane_ok ops cap issued s plans" using reach_keeps [OF reach cover] by blast
  from land_flights [OF plane, of "rp_publication plan"] obtain s'' where
    s'': "dispatch_sync dedup_type (Published (rp_publication plan)) s = (s'', None)"
    "\<And>q. flying s'' q \<longleftrightarrow> flying s q \<and> fst q \<noteq> fst (rp_publication plan)" by blast
  have eq: "s' = s''" "r = (rs ! i)\<lparr>rd_phase := next_phase\<rparr>" using step s''(1) by (simp_all add: read_published_def)
  from held_okD(1) [OF ok i] obtain plan0 where p0: "plan0 \<in> set plans" "rp_publication plan0 = rp_publication plan" by auto
  have inj: "distinct (map (\<lambda>p. fst (rp_publication p)) plans)" using plane by (simp add: plane_ok_def)
  have "dedup_reach ops env spread cap d0 issued s' plans"
    by (rule dedup_reach.land [OF reach p0(1)]) (simp add: p0(2) s''(1) eq)
  moreover have "held_ok s' plans (rs[i := r])"
    by (rule held_lands [OF ok i inj]) (simp_all add: eq nxt s''(2))
  ultimately show ?thesis by (simp add: eq)
qed

lemma read_step_keeps:
  assumes step: "read_step ops env spread st miss st'" and cover: "covers_from_ranking ops"
    and ok: "reading_ok ops env spread cap d0 st"
  shows "reading_ok ops env spread cap d0 st'"
  using step ok
proof (cases rule: read_step.cases)
  case (ask i rs s pub issued s' r)
  from ok ask obtain plans where reach: "dedup_reach ops env spread cap d0 issued s plans" and held: "held_ok s plans rs"
    by (auto simp: reading_ok_def)
  let ?r = "rs ! i"
  have plane: "plane_ok ops cap issued s plans" using reach_keeps [OF reach cover] by blast
  obtain q where dec: "dedup_decide ops env spread (rd_requests ?r) (rd_requester ?r) s = (s', q)"
  proof -
    obtain s2 q where "dedup_decide ops env spread (rd_requests ?r) (rd_requester ?r) s = (s2, q)" by fastforce
    then show thesis using ask(9) that by (cases q) (simp_all add: read_asked_def)
  qed
  note flights = decide_flights [OF cover plane ask(6) dec]
  have none: "held (rd_phase ?r) = None" using ask(5) by simp
  have new: "pub \<notin> (\<lambda>p. fst (rp_publication p)) ` set plans" using plane ask(8) by (auto simp: plane_ok_def)
  show ?thesis
  proof (cases q)
    case (Inl e)
    have "held_ok s' plans rs"
      using held flights(1) new unfolding held_ok_def by (smt (verit, best) image_iff)
    then have "held_ok s' plans (rs[i := r])"
      by (rule held_moves [OF _ ask(4)]) (use ask(9) dec Inl none in \<open>auto simp: read_asked_def\<close>)
    moreover have "dedup_reach ops env spread cap d0 (pub # issued) s' plans"
      by (rule dedup_reach.refuse [OF reach ask(6,7,8)]) (use dec Inl in simp)
    ultimately show ?thesis using ask(3) by (auto simp: reading_ok_def)
  next
    case (Inr plan)
    have p: "rp_publication plan = (pub, rd_requester ?r)" using flights(2) Inr by simp
    have "held_ok s' (plans @ [plan]) (rs[i := ?r\<lparr>rd_phase := Waiting plan\<rparr>])"
      by (rule held_gains [OF held ask(4) none]) (use new flights(1) p in simp_all)
    moreover have "r = ?r\<lparr>rd_phase := Waiting plan\<rparr>" using ask(9) dec Inr by (simp add: read_asked_def)
    moreover have "dedup_reach ops env spread cap d0 (pub # issued) s' (plans @ [plan])"
      by (rule dedup_reach.decide [OF reach ask(6,7,8)]) (use dec Inr in simp)
    ultimately show ?thesis using ask(3) by (auto simp: reading_ok_def)
  qed
next
  case (settle i rs plan s issued)
  from held_moves [OF _ settle(4), of s _ "read_settled plan (rs ! i)"] ok settle show ?thesis
    by (auto simp: reading_ok_def read_settled_def)
next
  case (fetch i rs plan issued s outcome)
  from held_moves [OF _ fetch(4), of s _ "read_fetched plan outcome (rs ! i)"] ok fetch show ?thesis
    by (auto simp: reading_ok_def read_fetched_def split: sum.splits)
next
  case (retire i rs plan s s' r issued)
  from ok retire(1) obtain plans where "dedup_reach ops env spread cap d0 issued s plans" "held_ok s plans rs"
    by (auto simp: reading_ok_def)
  from published_keeps [OF this(1) cover this(2) retire(4) _ _ retire(6)] retire(3,5) show ?thesis
    unfolding reading_ok_def by (simp, blast)
next
  case (put i rs plan results issued s outcome)
  from held_moves [OF _ put(4), of s _ "read_stored plan results outcome (rs ! i)"] ok put show ?thesis
    by (auto simp: reading_ok_def read_stored_def split: sum.splits)
next
  case (announce i rs plan results s s' r issued)
  from ok announce(1) obtain plans where "dedup_reach ops env spread cap d0 issued s plans" "held_ok s plans rs"
    by (auto simp: reading_ok_def)
  from published_keeps [OF this(1) cover this(2) announce(4) _ _ announce(6)] announce(3,5) show ?thesis
    unfolding reading_ok_def by (simp, blast)
qed


lemma read_run_keeps:
  assumes "read_run ops env spread st0 n m st" "reading_ok ops env spread cap d0 st0" "covers_from_ranking ops"
  shows "reading_ok ops env spread cap d0 st"
  using assms by induction (blast intro: read_step_keeps)+

subsection \<open>Every reader is answered\<close>

text \<open>A reader that has nothing left to do.\<close>

fun finished :: "'v phase \<Rightarrow> bool" where
  "finished (Answered _) = True"
| "finished (Failed _ _) = True"
| "finished _ = False"

text \<open>C29: readers behind readers never stall. Whatever readers asked, waited, missed and retried in
  whatever order, as long as somebody is not done, and nobody died holding a plan, some reader can take
  its next step: at least one of those who wait has its gate open.\<close>

theorem readers_never_stall:
  assumes run: "read_run ops env spread ([], dedup_plane ops cap d0, rs0) n m (issued, s, rs)" "fresh_readers rs0"
    and cover: "covers_from_ranking ops"
    and ids: "\<forall>r \<in> set rs. fst (op_declare ops (rd_requests r) (rd_requester r) (store (ds_dir (snd s)))) \<notin> insert 0 (set issued)"
    and alive: "\<forall>r \<in> set rs. \<forall>e plan. rd_phase r \<noteq> Failed e (Some plan)"
    and left: "\<exists>r \<in> set rs. \<not> finished (rd_phase r)"
  shows "\<exists>miss st'. read_step ops env spread (issued, s, rs) miss st'"
proof (rule ccontr)
  assume stuck: "\<nexists>miss st'. read_step ops env spread (issued, s, rs) miss st'"
  have waiting: "\<exists>plan. rd_phase (rs ! i) = Waiting plan \<and> \<not> plan_open (fst s) plan"
    if i: "i < length rs" "\<not> finished (rd_phase (rs ! i))" for i
  proof (cases "rd_phase (rs ! i)")
    case Asking
    obtain s' r where "read_asked ops env spread (rs ! i) s = (s', r)" by fastforce
    with ids i Asking have "read_step ops env spread (issued, s, rs) False
        (fst (op_declare ops (rd_requests (rs ! i)) (rd_requester (rs ! i)) (store (ds_dir (snd s)))) # issued, s', rs[i := r])"
      by (intro read_step.ask) auto
    with stuck show ?thesis by blast
  next
    case (Retiring plan)
    obtain s' r where "read_published plan Asking (rs ! i) s = (s', r)" by fastforce
    with read_step.retire [OF i(1) Retiring this] stuck show ?thesis by blast
  next
    case (Announcing plan results)
    obtain s' r where "read_published plan (Answered results) (rs ! i) s = (s', r)" by fastforce
    with read_step.announce [OF i(1) Announcing this] stuck show ?thesis by blast
  next
    case (Waiting plan)
    with read_step.settle [OF i(1) Waiting] stuck show ?thesis by blast
  next
    case (Fetching plan)
    with read_step.fetch [OF i(1) Fetching] stuck show ?thesis by blast
  next
    case (Storing plan results)
    with read_step.put [OF i(1) Storing] stuck show ?thesis by blast
  qed (use i(2) in simp_all)
  obtain plans where reach: "dedup_reach ops env spread cap d0 issued s plans" and held: "held_ok s plans rs"
    using read_run_keeps [OF run(1) reading_start [OF run(2)] cover] by (auto simp: reading_ok_def)
  from left obtain i where i: "i < length rs" "\<not> finished (rd_phase (rs ! i))" by (auto simp: in_set_conv_nth)
  with waiting obtain plan0 where p0: "rd_phase (rs ! i) = Waiting plan0" by blast
  then have "plan0 \<in> set plans" "flying s (rp_publication plan0)"
    using held i(1) held_okD(2) [OF held i(1)] by (auto simp: held_ok_def)
  from dedup_never_deadlocks [OF reach cover this] obtain plan where
    plan: "plan \<in> set plans" "flying s (rp_publication plan)" "plan_open (fst s) plan" by blast
  then obtain j where j: "j < length rs" "held (rd_phase (rs ! j)) = Some (rp_publication plan)"
    using held by (auto simp: held_ok_def)
  have "\<not> finished (rd_phase (rs ! j))"
    using j alive nth_mem [OF j(1)] by (cases "rd_phase (rs ! j)" rule: held.cases) auto
  with waiting [OF j(1)] obtain plan' where p': "rd_phase (rs ! j) = Waiting plan'" "\<not> plan_open (fst s) plan'" by blast
  then have "plan' \<in> set plans" "rp_publication plan' = rp_publication plan" using held j by (auto simp: held_ok_def)
  moreover have "inj_on (\<lambda>p. fst (rp_publication p)) (set plans)"
    using reach_keeps [OF reach cover] by (simp add: plane_ok_def distinct_map)
  ultimately have "plan' = plan" using plan(1) by (metis inj_onD)
  with p'(2) plan(3) show False by simp
qed

text \<open>The awaits a reader still has before it, when no copy is found gone.\<close>

fun owes :: "'v phase \<Rightarrow> nat" where
  "owes (Retiring _) = 6"
| "owes Asking = 5"
| "owes (Waiting _) = 4"
| "owes (Fetching _) = 3"
| "owes (Storing _ _) = 2"
| "owes (Announcing _ _) = 1"
| "owes _ = 0"

definition all_owe :: "('r, 'v) reader list \<Rightarrow> nat" where
  "all_owe rs = sum_list (map (\<lambda>r. owes (rd_phase r)) rs)"

lemma all_owe_update:
  assumes "i < length rs"
  shows "all_owe (rs[i := r]) + owes (rd_phase (rs ! i)) = all_owe rs + owes (rd_phase r)"
proof -
  have "owes (rd_phase (rs ! i)) \<le> all_owe rs" unfolding all_owe_def
    by (rule member_le_sum_list) (use assms in \<open>auto intro: nth_mem\<close>)
  moreover have "all_owe (rs[i := r]) = all_owe rs + owes (rd_phase r) - owes (rd_phase (rs ! i))"
    using assms unfolding all_owe_def by (simp add: map_update sum_list_update)
  ultimately show ?thesis by simp
qed

lemma read_step_owes:
  assumes "read_step ops env spread st miss st'"
  shows "Suc (all_owe (snd (snd st'))) \<le> all_owe (snd (snd st)) + (if miss then 4 else 0)"
  using assms
proof (cases rule: read_step.cases)
  case (ask i rs s pub issued s' r)
  have "owes (rd_phase r) \<le> 4" using ask(9) by (auto simp: read_asked_def split: prod.splits sum.splits)
  with ask all_owe_update [of i rs r] show ?thesis by simp
next
  case (settle i rs plan s issued)
  with all_owe_update [of i rs "read_settled plan (rs ! i)"] show ?thesis by (simp add: read_settled_def)
next
  case (fetch i rs plan issued s outcome)
  with all_owe_update [of i rs "read_fetched plan outcome (rs ! i)"] show ?thesis
    by (auto simp: read_fetched_def split: sum.splits if_splits)
next
  case (retire i rs plan s s' r issued)
  have "owes (rd_phase r) \<le> 5" using retire(6) by (auto simp: read_published_def split: prod.splits option.splits)
  with retire all_owe_update [of i rs r] show ?thesis by simp
next
  case (put i rs plan results issued s outcome)
  with all_owe_update [of i rs "read_stored plan results outcome (rs ! i)"] show ?thesis
    by (auto simp: read_stored_def split: sum.splits)
next
  case (announce i rs plan results s s' r issued)
  have "owes (rd_phase r) = 0" using announce(6) by (auto simp: read_published_def split: prod.splits option.splits)
  with announce all_owe_update [of i rs r] show ?thesis by simp
qed

lemma read_run_owes:
  "read_run ops env spread st0 n m st \<Longrightarrow> n + all_owe (snd (snd st)) \<le> all_owe (snd (snd st0)) + 4 * m"
proof (induction rule: read_run.induct)
  case (more n m st miss st')
  from read_step_owes [OF more.hyps(2)] more.IH show ?case by (auto split: if_splits)
qed simp

text \<open>C30: reading ends: however the readers' awaits interleave, they are over after five each, and four
  more for each get that found its copy gone.\<close>

theorem readers_end:
  assumes "read_run ops env spread (issued, s, rs0) n m (issued', s', rs)" "fresh_readers rs0"
  shows "n \<le> 5 * length rs0 + 4 * m"
proof -
  have "\<forall>k \<in> set (map (\<lambda>r. owes (rd_phase r)) rs0). k \<le> 5"
    using assms(2) by (auto simp: fresh_readers_def list_all_iff)
  then have "all_owe rs0 \<le> length rs0 * 5"
    unfolding all_owe_def using sum_list_mono [of rs0 "\<lambda>r. owes (rd_phase r)" "\<lambda>_. 5"] by (simp add: sum_list_triv)
  with read_run_owes [OF assms(1)] show ?thesis by simp
qed


subsection \<open>Two readers\<close>

definition dd_readers :: "(unit, unit) reader list" where
  "dd_readers = [read_through (\<lambda>_ _. ()) ''a'' [(''k'', ())], read_through (\<lambda>_ _. ()) ''b'' [(''k'', ())]]"

definition dd_asked :: "unit phase \<Rightarrow> unit phase \<Rightarrow> (unit, unit) reader list" where
  "dd_asked x y = [\<lparr>rd_requester = ''a'', rd_requests = [()], rd_phase = x\<rparr>, \<lparr>rd_requester = ''b'', rd_requests = [()], rd_phase = y\<rparr>]"

lemma dd_ids:
  "fst (op_declare dd_ops rs v (store (ds_dir (snd (dedup_plane dd_ops 1 (1, [])))))) = 1"
  "fst (op_declare dd_ops rs v (store (ds_dir (snd (dedup_dispatcher dd_ops, dd_state))))) = 2"
  by (simp_all add: dedup_plane_def dedup_start_def dd_state_def dd_ops_simps)

lemma dd_both_asked:
  "read_run dd_ops dd_env False ([], dedup_plane dd_ops 1 (1, []), dd_readers) 2 0
     ([2, 1], dd_waiting, dd_asked (Waiting dd_plan_a) (Waiting dd_plan_b))"
proof -
  have rs: "dd_readers = dd_asked Asking Asking" by (simp add: dd_readers_def dd_asked_def read_through_def)
  have one: "read_step dd_ops dd_env False ([], dedup_plane dd_ops 1 (1, []), dd_asked Asking Asking) False
      ([1], (dedup_dispatcher dd_ops, dd_state), (dd_asked Asking Asking)[0 := \<lparr>rd_requester = ''a'', rd_requests = [()], rd_phase = Waiting dd_plan_a\<rparr>])"
    by (rule read_step.ask [OF _ _ dd_ids(1)]) (simp_all add: dd_asked_def read_asked_def dd_first)
  have two: "read_step dd_ops dd_env False ([1], (dedup_dispatcher dd_ops, dd_state), dd_asked (Waiting dd_plan_a) Asking) False
      ([2, 1], dd_waiting, (dd_asked (Waiting dd_plan_a) Asking)[1 := \<lparr>rd_requester = ''b'', rd_requests = [()], rd_phase = Waiting dd_plan_b\<rparr>])"
    by (rule read_step.ask [OF _ _ dd_ids(2)]) (simp_all add: dd_asked_def read_asked_def dd_second)
  have lists: "(dd_asked Asking Asking)[0 := \<lparr>rd_requester = ''a'', rd_requests = [()], rd_phase = Waiting dd_plan_a\<rparr>] = dd_asked (Waiting dd_plan_a) Asking"
    "(dd_asked (Waiting dd_plan_a) Asking)[1 := \<lparr>rd_requester = ''b'', rd_requests = [()], rd_phase = Waiting dd_plan_b\<rparr>] =
      dd_asked (Waiting dd_plan_a) (Waiting dd_plan_b)" by (simp_all add: dd_asked_def)
  from read_run.more [OF read_run.more [OF read_run.here one [unfolded lists]] two [unfolded lists]]
  show ?thesis by (simp add: rs numeral_2_eq_2)
qed

lemma dd_fresh: "fresh_readers dd_readers"
  by (simp add: fresh_readers_def dd_readers_def read_through_def)

lemma readers_never_stall_witness:
  "\<exists>miss st'. read_step dd_ops dd_env False ([2, 1], dd_waiting, dd_asked (Waiting dd_plan_a) (Waiting dd_plan_b)) miss st'"
  by (rule readers_never_stall [OF dd_both_asked dd_fresh dd_cover]) (simp_all add: dd_asked_def dd_ops_simps dd_waiting_def)

lemma readers_end_witness: "(2 :: nat) \<le> 5 * length dd_readers + 4 * 0"
  by (rule readers_end [OF dd_both_asked dd_fresh])

text \<open>
  A reader whose own volume refuses what it read dies with its plan in flight: the code retires a plan
  when its get finds nothing and when its put is done, and on no other error. Who was sent behind it
  waits for good.
\<close>

lemma refused_put_strands_followers:
  "read_run dd_ops dd_env False ([], dedup_plane dd_ops 1 (1, []), dd_readers) 5 0
     ([2, 1], dd_waiting, dd_asked (Failed StorageFull (Some dd_plan_a)) (Waiting dd_plan_b))"
  "\<not> read_step dd_ops dd_env False
     ([2, 1], dd_waiting, dd_asked (Failed StorageFull (Some dd_plan_a)) (Waiting dd_plan_b)) miss st'"
proof -
  let ?S = "\<lambda>x. ([2, 1] :: int list, dd_waiting, dd_asked x (Waiting dd_plan_b))"
  have settled: "plan_settled dd_plan_a = dd_plan_a" "plan_open (fst dd_waiting) dd_plan_a"
    by (simp_all add: plan_settled_def plan_open_def dd_plan_a_def)
  have s1: "read_step dd_ops dd_env False (?S (Waiting dd_plan_a)) False (?S (Fetching dd_plan_a))"
    using read_step.settle [of 0 "dd_asked (Waiting dd_plan_a) (Waiting dd_plan_b)" dd_plan_a dd_waiting dd_ops dd_env False "[2, 1]"]
    by (simp add: dd_asked_def read_settled_def settled)
  have s2: "read_step dd_ops dd_env False (?S (Fetching dd_plan_a)) False (?S (Storing dd_plan_a ()))"
    using read_step.fetch [of 0 "dd_asked (Fetching dd_plan_a) (Waiting dd_plan_b)" dd_plan_a dd_ops dd_env False "[2, 1]" dd_waiting "Inr ()"]
    by (simp add: dd_asked_def read_fetched_def)
  have s3: "read_step dd_ops dd_env False (?S (Storing dd_plan_a ())) False (?S (Failed StorageFull (Some dd_plan_a)))"
    using read_step.put [of 0 "dd_asked (Storing dd_plan_a ()) (Waiting dd_plan_b)" dd_plan_a "()" dd_ops dd_env False "[2, 1]" dd_waiting "Inl StorageFull"]
    by (simp add: dd_asked_def read_stored_def)
  show "read_run dd_ops dd_env False ([], dedup_plane dd_ops 1 (1, []), dd_readers) 5 0 (?S (Failed StorageFull (Some dd_plan_a)))"
    using read_run.more [OF read_run.more [OF read_run.more [OF dd_both_asked s1] s2] s3] by (simp add: eval_nat_numeral)
  have closed: "\<not> plan_open (fst dd_waiting) dd_plan_b"
    by (simp add: plan_open_def dd_plan_b_def gate_open_def dd_waiting_def dedup_dispatcher_idle)
  show "\<not> read_step dd_ops dd_env False (?S (Failed StorageFull (Some dd_plan_a))) miss st'"
    using closed by (auto simp: dd_asked_def less_Suc_eq elim!: read_step.cases)
qed

end
