(* ===== verification/TextDiagram.thy ===== *)
theory TextDiagram
  imports Text "HOL-Library.Sublist"
begin

section \<open>Diagrams drawn from markup\<close>

text \<open>
  \<^verbatim>\<open>realsim/tools/text_diagram.py\<close>: the layout elements, the rendering of an element tree, and the
  replacement of a drawing between its markers in a document. A drawing is made of box-drawing characters, so
  text is a list of code points. \<^verbatim>\<open>ElementTree\<close> is the parsed document; reading and writing files is left out.
\<close>

type_synonym utext = "nat list"

definition u :: "string \<Rightarrow> utext" where
  "u s = map of_char s"

definition SPACE :: nat where "SPACE = 32"
definition NBSP :: nat where "NBSP = 160"

text \<open>What \<^verbatim>\<open>str.isspace\<close> holds of.\<close>

definition is_space :: "nat \<Rightarrow> bool" where
  "is_space c \<longleftrightarrow> c \<in> {9, 10, 11, 12, 13, 28, 29, 30, 31, 32, 133, 160, 5760, 8232, 8233, 8239, 8287, 12288} \<or>
     8192 \<le> c \<and> c \<le> 8202"

definition rstrip :: "utext \<Rightarrow> utext" where
  "rstrip s = rev (dropWhile is_space (rev s))"

definition fill :: "nat \<Rightarrow> int \<Rightarrow> utext" where
  "fill c n = replicate (nat n) c"

definition u_ljust :: "int \<Rightarrow> utext \<Rightarrow> utext" where
  "u_ljust w s = s @ fill SPACE (w - int (length s))"

definition u_rjust :: "int \<Rightarrow> utext \<Rightarrow> utext" where
  "u_rjust w s = fill SPACE (w - int (length s)) @ s"

text \<open>An odd margin goes to the left exactly when the width is odd.\<close>

definition u_center :: "int \<Rightarrow> utext \<Rightarrow> utext" where
  "u_center w s =
     (let pad = w - int (length s);
          left = pad div 2 + (if pad mod 2 = 1 \<and> w mod 2 = 1 then 1 else 0)
      in if pad \<le> 0 then s else fill SPACE left @ s @ fill SPACE (pad - left))"

definition join_with :: "utext \<Rightarrow> utext list \<Rightarrow> utext" where
  "join_with sep xs = (case xs of [] \<Rightarrow> [] | y # ys \<Rightarrow> y @ concat (map (\<lambda>z. sep @ z) ys))"

subsection \<open>Blocks\<close>

text \<open>A rectangle of equally wide lines.\<close>

type_synonym block = "utext list"

definition mk_block :: "utext list \<Rightarrow> block res" where
  "mk_block ls = (if \<forall>l \<in> set ls. length l = length (hd ls) then Inr ls else Inl ValueError)"

definition block_width :: "block \<Rightarrow> nat" where
  "block_width b = (if b = [] then 0 else length (hd b))"

definition block_height :: "block \<Rightarrow> nat" where
  "block_height b = length b"

definition block_render :: "block \<Rightarrow> utext" where
  "block_render b = rstrip (join_with [10] (map rstrip b))"

definition longest :: "utext list \<Rightarrow> int" where
  "longest ls = fold max (map (\<lambda>l. int (length l)) ls) 0"

definition text_block :: "utext list \<Rightarrow> int option \<Rightarrow> block res" where
  "text_block ls width =
     (let wanted = (case width of None \<Rightarrow> longest ls | Some w \<Rightarrow> w) in
      if \<exists>l \<in> set ls. wanted < int (length l) then Inl ValueError
      else mk_block (map (u_ljust wanted) ls))"

definition title_label :: "utext \<Rightarrow> utext" where
  "title_label t = (if t = [] then [] else SPACE # t @ [SPACE])"

definition title_bar :: "utext \<Rightarrow> int \<Rightarrow> utext res" where
  "title_bar t width =
     (let label = title_label t in
      if width < int (length label) then Inl ValueError
      else let left = (width - int (length label)) div 2 in
        Inr (fill 9472 left @ label @ fill 9472 (width - left - int (length label))))"

definition box_block :: "utext \<Rightarrow> utext list \<Rightarrow> int option \<Rightarrow> block res" where
  "box_block t ls width =
     (let minimum = max (int (length (title_label t))) (longest (map (\<lambda>l. SPACE # l) ls));
          inner = (case width of None \<Rightarrow> minimum | Some w \<Rightarrow> w) in
      if inner < minimum then Inl ValueError
      else bindr (title_bar t inner) (\<lambda>top.
        mk_block ((9484 # top @ [9488]) #
                  map (\<lambda>l. 9474 # u_ljust inner (SPACE # l) @ [9474]) ls @
                  [9492 # fill 9472 inner @ [9496]])))"

type_synonym links = "((nat \<times> int) \<times> utext) list"

fun gap_widths :: "links \<Rightarrow> int list \<Rightarrow> int list res" where
  "gap_widths [] gs = Inr gs"
| "gap_widths (((i, r), label) # ls) gs =
     (if i < length gs then gap_widths ls (gs[i := max (gs ! i) (int (length label))]) else Inl IndexError)"

definition link_text :: "links \<Rightarrow> int list \<Rightarrow> nat \<Rightarrow> nat \<Rightarrow> utext" where
  "link_text ls gs i r =
     map (\<lambda>c. if c = SPACE then NBSP else c) (u_center (gs ! i) (dget ls (i, int r) []))"

definition block_line :: "block \<Rightarrow> nat \<Rightarrow> utext" where
  "block_line b r = (if r < block_height b then b ! r else replicate (block_width b) SPACE)"

definition beside_row :: "block list \<Rightarrow> links \<Rightarrow> int list \<Rightarrow> nat \<Rightarrow> utext" where
  "beside_row bs ls gs r =
     concat (map (\<lambda>i. block_line (bs ! i) r @ (if i < length gs then link_text ls gs i r else [])) [0..<length bs])"

definition beside :: "block list \<Rightarrow> int \<Rightarrow> links \<Rightarrow> block res" where
  "beside bs gap ls =
     (if bs = [] then mk_block []
      else bindr (gap_widths ls (replicate (length bs - 1) gap)) (\<lambda>gs.
        mk_block (map (beside_row bs ls gs) [0..<Max (set (map block_height bs))])))"

definition aligned :: "utext \<Rightarrow> int \<Rightarrow> utext \<Rightarrow> utext res" where
  "aligned align w row =
     (if align = u ''left'' then Inr (u_ljust w row)
      else if align = u ''center'' then Inr (u_center w row)
      else if align = u ''right'' then Inr (u_rjust w row)
      else Inl ValueError)"

fun stack_rows :: "utext \<Rightarrow> int \<Rightarrow> int \<Rightarrow> block list \<Rightarrow> utext list res" where
  "stack_rows align gap w [] = Inr []"
| "stack_rows align gap w (b # bs) =
     bindr (res_map (aligned align w) b) (\<lambda>rows.
     bindr (stack_rows align gap w bs) (\<lambda>rest.
     Inr (rows @ (if bs = [] then [] else replicate (nat gap) (fill SPACE w)) @ rest)))"

definition stack_blocks :: "block list \<Rightarrow> utext \<Rightarrow> int \<Rightarrow> block res" where
  "stack_blocks bs align gap =
     (if bs = [] then mk_block []
      else bindr (stack_rows align gap (int (Max (set (map block_width bs)))) bs) mk_block)"

text \<open>Values put at their columns, from the left; none may cover what another has written.\<close>

fun place_at :: "int \<Rightarrow> (int \<times> utext) list \<Rightarrow> utext \<Rightarrow> utext res" where
  "place_at width [] chars = Inr chars"
| "place_at width ((c, v) # ps) chars =
     (if c < 0 \<or> width < c + int (length v) then Inl ValueError
      else if \<exists>x \<in> set (take (length v) (drop (nat c) chars)). x \<noteq> SPACE then Inl ValueError
      else place_at width ps (take (nat c) chars @ v @ drop (nat c + length v) chars))"

definition place_line :: "int \<Rightarrow> (int \<times> utext) list \<Rightarrow> block res" where
  "place_line width placements =
     bindr (place_at width (sort_key fst placements) (fill SPACE width)) (\<lambda>chars. mk_block [chars])"

definition place_lines :: "int \<Rightarrow> (int \<times> utext list) list \<Rightarrow> block res" where
  "place_lines width placements =
     bindr (res_map (\<lambda>r. place_line width
         (List.map_filter (\<lambda>(c, ls). if r < length ls then Some (c, ls ! r) else None) placements))
       [0..<fold max (map (\<lambda>p. length (snd p)) placements) 0])
     (\<lambda>bs. mk_block (concat bs))"

subsection \<open>Elements\<close>

datatype element =
  Element (tag: string) (attrib: "(string \<times> utext) list") (el_text: "utext option") (el_children: "element list")

definition attrs :: "element \<Rightarrow> string list \<Rightarrow> unit res" where
  "attrs e allowed = (if set (map fst (attrib e)) \<subseteq> set allowed then Inr () else Inl ValueError)"

definition u_int :: "utext \<Rightarrow> int res" where
  "u_int s = (if \<forall>c \<in> set s. c < 128 then py_int (map char_of s) else Inl ValueError)"

definition int_attr :: "element \<Rightarrow> string \<Rightarrow> int option \<Rightarrow> int res" where
  "int_attr e name fallback =
     (case map_of (attrib e) name of
        None \<Rightarrow> (case fallback of None \<Rightarrow> Inl ValueError | Some d \<Rightarrow> Inr d)
      | Some raw \<Rightarrow> u_int raw)"

definition width_attr :: "element \<Rightarrow> int option res" where
  "width_attr e =
     (case map_of (attrib e) ''width'' of None \<Rightarrow> Inr None
      | Some _ \<Rightarrow> bindr (int_attr e ''width'' None) (\<lambda>w. Inr (Some w)))"

definition text_or_empty :: "element \<Rightarrow> utext" where
  "text_or_empty e = (case el_text e of None \<Rightarrow> [] | Some t \<Rightarrow> t)"

definition lines_of :: "element \<Rightarrow> utext list res" where
  "lines_of e =
     res_map (\<lambda>c. if tag c \<noteq> ''line'' \<or> attrib c \<noteq> [] \<or> el_children c \<noteq> [] then Inl ValueError
                   else Inr (text_or_empty c)) (el_children e)"

text \<open>The connectors of one gap, by the row they belong to.\<close>

fun read_between :: "element list \<Rightarrow> (int \<times> utext) list \<Rightarrow> (int \<times> utext) list res" where
  "read_between [] found = Inr found"
| "read_between (p # ps) found =
     (if tag p \<noteq> ''at'' \<or> el_children p \<noteq> [] then Inl ValueError
      else bindr (attrs p [''row'']) (\<lambda>_.
        bindr (int_attr p ''row'' None) (\<lambda>row.
        if row \<in> set (map fst found) then Inl ValueError
        else read_between ps (found @ [(row, text_or_empty p)]))))"

text \<open>The columns of a placement, and what stands there.\<close>

fun read_columns :: "bool \<Rightarrow> (element \<Rightarrow> 'a res) \<Rightarrow> element list \<Rightarrow> (int \<times> 'a) list \<Rightarrow> (int \<times> 'a) list res" where
  "read_columns plain value [] found = Inr found"
| "read_columns plain value (c # cs) found =
     (if tag c \<noteq> ''at'' \<or> plain \<and> el_children c \<noteq> [] then Inl ValueError
      else bindr (attrs c [''column'']) (\<lambda>_.
        bindr (int_attr c ''column'' None) (\<lambda>column.
        if column \<in> set (map fst found) then Inl ValueError
        else bindr (value c) (\<lambda>v. read_columns plain value cs (found @ [(column, v)])))))"

definition add_links :: "nat \<Rightarrow> (int \<times> utext) list \<Rightarrow> links \<Rightarrow> links" where
  "add_links i ps ls = fold (\<lambda>(r, v). AList.update (i, r) v) ps ls"

definition align_of :: "element \<Rightarrow> utext" where
  "align_of e = (case map_of (attrib e) ''align'' of None \<Rightarrow> u ''left'' | Some a \<Rightarrow> a)"

text \<open>What a row has read so far: its blocks, their connectors, and the connectors still waiting for a block.\<close>

type_synonym row_state = "block list \<times> links \<times> (int \<times> utext) list option"

fun render_element :: "element \<Rightarrow> block res"
and render_each :: "element list \<Rightarrow> block list res"
and render_row :: "element list \<Rightarrow> row_state \<Rightarrow> row_state res" where
  "render_element (Element tg ats tx cs) =
     (let e = Element tg ats tx cs in
      if tg = ''stack'' then
        bindr (attrs e [''align'', ''gap'']) (\<lambda>_.
        bindr (render_each cs) (\<lambda>bs.
        bindr (int_attr e ''gap'' (Some 0)) (\<lambda>gap. stack_blocks bs (align_of e) gap)))
      else if tg = ''row'' then
        bindr (attrs e [''gap'']) (\<lambda>_.
        bindr (render_row cs ([], [], None)) (\<lambda>(bs, ls, pending).
        if pending \<noteq> None then Inl ValueError
        else bindr (int_attr e ''gap'' (Some 2)) (\<lambda>gap. beside bs gap ls)))
      else if tg = ''box'' then
        bindr (attrs e [''title'', ''width'']) (\<lambda>_.
        bindr (width_attr e) (\<lambda>w.
        bindr (lines_of e) (\<lambda>ls. box_block (dget ats ''title'' []) ls w)))
      else if tg = ''text'' then
        bindr (attrs e [''width'']) (\<lambda>_.
        bindr (width_attr e) (\<lambda>w.
        bindr (lines_of e) (\<lambda>ls. text_block ls w)))
      else if tg = ''place-line'' then
        bindr (attrs e [''width'']) (\<lambda>_.
        bindr (read_columns True (\<lambda>c. Inr (text_or_empty c)) cs []) (\<lambda>ps.
        bindr (int_attr e ''width'' None) (\<lambda>w. place_line w ps)))
      else if tg = ''place-lines'' then
        bindr (attrs e [''width'']) (\<lambda>_.
        bindr (read_columns False lines_of cs []) (\<lambda>ps.
        bindr (int_attr e ''width'' None) (\<lambda>w. place_lines w ps)))
      else Inl ValueError)"
| "render_each [] = Inr []"
| "render_each (c # cs) = bindr (render_element c) (\<lambda>b. bindr (render_each cs) (\<lambda>bs. Inr (b # bs)))"
| "render_row [] st = Inr st"
| "render_row (c # cs) (bs, ls, pending) =
     (if tag c = ''between'' then
        if bs = [] \<or> pending \<noteq> None then Inl ValueError
        else bindr (attrs c []) (\<lambda>_.
          bindr (read_between (el_children c) []) (\<lambda>ps. render_row cs (bs, ls, Some ps)))
      else
        let ls' = (case pending of None \<Rightarrow> ls | Some ps \<Rightarrow> add_links (length bs - 1) ps ls) in
        bindr (render_element c) (\<lambda>b. render_row cs (bs @ [b], ls', None)))"

subsection \<open>A file of diagrams\<close>

fun load_drawings :: "element list \<Rightarrow> (utext \<times> block) list \<Rightarrow> (utext \<times> block) list res" where
  "load_drawings [] found = Inr found"
| "load_drawings (e # es) found =
     (if tag e \<noteq> ''diagram'' then Inl ValueError
      else bindr (attrs e [''id'']) (\<lambda>_.
        let name = dget (attrib e) ''id'' [] in
        if name = [] then Inl ValueError
        else if name \<in> set (map fst found) then Inl ValueError
        else if length (el_children e) \<noteq> 1 then Inl ValueError
        else bindr (render_element (hd (el_children e))) (\<lambda>b. load_drawings es (found @ [(name, b)]))))"

definition load_diagrams :: "element \<Rightarrow> (utext \<times> (utext \<times> block) list) res" where
  "load_diagrams e =
     (if tag e \<noteq> ''diagrams'' then Inl ValueError
      else bindr (attrs e [''target'']) (\<lambda>_.
        case map_of (attrib e) ''target'' of
          None \<Rightarrow> Inl ValueError
        | Some target \<Rightarrow> bindr (load_drawings (el_children e) []) (\<lambda>ds. Inr (target, ds))))"

text \<open>\<^verbatim>\<open>str.partition\<close>: what is before the first occurrence, whether there is one, and what follows it.\<close>

fun partition_at :: "utext \<Rightarrow> utext \<Rightarrow> utext \<times> bool \<times> utext" where
  "partition_at sep s =
     (if prefix sep s then ([], True, drop (length sep) s)
      else case s of [] \<Rightarrow> ([], False, [])
        | c # cs \<Rightarrow> (case partition_at sep cs of (a, found, b) \<Rightarrow> (c # a, found, b)))"

declare partition_at.simps [simp del]

definition marker :: "utext \<Rightarrow> string \<Rightarrow> utext" where
  "marker name which = u ''<!-- text-diagram:'' @ name @ u '':'' @ u which @ u '' -->''"

definition fence :: utext where "fence = u [CHR ''`'', CHR ''`'', CHR ''`'']"

definition generated_text :: "utext \<Rightarrow> block \<Rightarrow> utext" where
  "generated_text name b =
     marker name ''start'' @ [10] @ fence @ [10] @ block_render b @ [10] @ fence @ [10] @ marker name ''end''"

definition replace_drawing :: "utext \<Rightarrow> utext \<Rightarrow> block \<Rightarrow> utext res" where
  "replace_drawing document name b =
     (case partition_at (marker name ''start'') document of
        (before, found, rest) \<Rightarrow>
          if \<not> found then Inl ValueError
          else (case partition_at (marker name ''end'') rest of
                  (old, found, after) \<Rightarrow>
                    if \<not> found then Inl ValueError
                    else Inr (before @ generated_text name b @ after)))"

definition render_document :: "utext \<Rightarrow> (utext \<times> block) list \<Rightarrow> utext res" where
  "render_document document drawings = res_fold (\<lambda>(name, b) doc. replace_drawing doc name b) drawings document"

subsection \<open>Nothing drawn is lost\<close>

text \<open>The texts an element asks to be drawn: the lines of its boxes and texts, and the titles of its boxes.\<close>

fun shown :: "element \<Rightarrow> utext list" where
  "shown (Element tg ats tx cs) =
     (if tg \<in> {''stack'', ''row''} then concat (map (\<lambda>c. if tag c = ''between'' then [] else shown c) cs)
      else if tg = ''box'' then dget ats ''title'' [] # map text_or_empty cs
      else if tg = ''text'' then map text_or_empty cs
      else [])"

definition drawn_in :: "utext \<Rightarrow> utext list \<Rightarrow> bool" where
  "drawn_in t ls \<longleftrightarrow> (\<exists>l \<in> set ls. sublist t l)"

lemma drawn_in_line: "drawn_in t ls \<Longrightarrow> (\<And>l. l \<in> set ls \<Longrightarrow> \<exists>l' \<in> set ls'. sublist l l') \<Longrightarrow> drawn_in t ls'"
  unfolding drawn_in_def by (meson sublist_order.order.trans)

lemma mk_block_Inr [res_simps]: "mk_block ls = Inr b \<longleftrightarrow> b = ls \<and> (\<forall>l \<in> set ls. length l = length (hd ls))"
  by (auto simp: mk_block_def)

lemma aligned_keeps: "aligned a w l = Inr l' \<Longrightarrow> sublist l l'"
  by (auto simp: aligned_def u_ljust_def u_rjust_def u_center_def Let_def split: if_splits)

lemma stack_rows_keep:
  "stack_rows a gap w bs = Inr rows \<Longrightarrow> b \<in> set bs \<Longrightarrow> l \<in> set b \<Longrightarrow> \<exists>l' \<in> set rows. sublist l l'"
proof (induction a gap w bs arbitrary: rows rule: stack_rows.induct)
  case (2 a gap w b0 bs)
  from 2(2) obtain rs rest where rs: "res_map (aligned a w) b0 = Inr rs" and rest: "stack_rows a gap w bs = Inr rest"
    and eq: "rows = rs @ (if bs = [] then [] else replicate (nat gap) (fill SPACE w)) @ rest" by (auto simp: res_simps)
  have rows: "set rs \<union> set rest \<subseteq> set rows" unfolding eq by auto
  show ?case
  proof (cases "b = b0")
    case True
    then obtain i where i: "i < length b0" "b0 ! i = l" using 2(4) by (auto simp: in_set_conv_nth)
    with rs have "aligned a w l = Inr (rs ! i)" "i < length rs"
      by (auto simp: res_map_Inr_iff list_all2_conv_all_nth)
    with rows show ?thesis using aligned_keeps by (meson UnI1 nth_mem subsetD)
  next
    case False
    with 2 rs rest rows show ?thesis by (fastforce simp: res_simps)
  qed
qed simp

lemma beside_keeps:
  assumes "beside bs gap ls = Inr rows" and b: "b \<in> set bs" "l \<in> set b"
  shows "\<exists>l' \<in> set rows. sublist l l'"
proof -
  from b have "bs \<noteq> []" by auto
  then obtain gs where rows: "rows = map (beside_row bs ls gs) [0..<Max (set (map block_height bs))]"
    using assms(1) by (auto simp: beside_def res_simps)
  from b(2) obtain r where r: "r < length b" "b ! r = l" by (auto simp: in_set_conv_nth)
  from b(1) obtain i where i: "i < length bs" "bs ! i = b" by (auto simp: in_set_conv_nth)
  have "block_height b \<le> Max (set (map block_height bs))" using b(1) by (intro Max_ge) auto
  with r have lt: "r < Max (set (map block_height bs))" by (simp add: block_height_def)
  let ?f = "\<lambda>i. block_line (bs ! i) r @ (if i < length gs then link_text ls gs i r else [])"
  have "sublist l (?f i)" using i r by (auto simp: block_line_def block_height_def)
  moreover have "sublist (?f i) (beside_row bs ls gs r)"
  proof -
    have "[0..<length bs] = [0..<i] @ i # [Suc i..<length bs]" using i(1) upt_add_eq_append [of 0 i "length bs - i"] by (simp add: upt_conv_Cons)
    then show ?thesis unfolding beside_row_def by (metis (no_types, lifting) concat.simps(2) concat_append list.simps(9) map_append sublist_appendI)
  qed
  ultimately have "sublist l (beside_row bs ls gs r)" by (rule sublist_order.order.trans)
  with lt show ?thesis by (auto simp: rows)
qed

lemma title_keeps: "title_bar t w = Inr b \<Longrightarrow> sublist t b"
  by (auto simp: title_bar_def Let_def title_label_def split: if_splits)
    (metis (no_types, lifting) append.assoc append_Cons sublist_appendI append_Nil)

lemma lines_of_Inr: "lines_of e = Inr ls \<Longrightarrow> ls = map text_or_empty (el_children e)"
  unfolding lines_of_def
  by (auto simp: res_map_Inr_iff list_all2_conv_all_nth intro!: nth_equalityI split: if_splits)

lemma text_block_keeps: "text_block ls w = Inr b \<Longrightarrow> t \<in> set ls \<Longrightarrow> drawn_in t b"
  by (auto simp: text_block_def Let_def res_simps u_ljust_def drawn_in_def split: if_splits)

lemma box_block_keeps:
  assumes "box_block title ls w = Inr b" "t \<in> insert title (set ls)"
  shows "drawn_in t b"
proof -
  obtain inner bar where bar: "title_bar title inner = Inr bar"
    and b: "b = (9484 # bar @ [9488]) # map (\<lambda>l. 9474 # u_ljust inner (SPACE # l) @ [9474]) ls @ [9492 # fill 9472 inner @ [9496]]"
    using assms(1) by (auto simp: box_block_def Let_def res_simps split: if_splits)
  have side: "sublist x ([a] @ x @ [c])" for x :: utext and a c by (rule sublist_appendI)
  from assms(2) show ?thesis
  proof
    assume "t = title"
    with title_keeps [OF bar] side [of bar] have "sublist t (9484 # bar @ [9488])"
      by (metis append_Cons append_Nil sublist_order.order.trans)
    then show ?thesis by (simp add: b drawn_in_def)
  next
    assume t: "t \<in> set ls"
    have "9474 # u_ljust inner (SPACE # t) @ [9474] = [9474, SPACE] @ t @ (fill SPACE (inner - int (length (SPACE # t))) @ [9474])"
      by (simp add: u_ljust_def)
    then have "sublist t (9474 # u_ljust inner (SPACE # t) @ [9474])" by (metis sublist_appendI)
    with t show ?thesis by (auto simp: b drawn_in_def)
  qed
qed

lemma render_row_grows: "render_row cs st = Inr st' \<Longrightarrow> \<exists>more. fst st' = fst st @ more"
proof (induction cs arbitrary: st)
  case (Cons c cs)
  obtain bs ls pending where st: "st = (bs, ls, pending)" by (cases st)
  show ?case
  proof (cases "tag c = ''between''")
    case True
    with Cons.prems obtain ps where "render_row cs (bs, ls, Some ps) = Inr st'" by (auto simp: st res_simps split: if_splits)
    with Cons.IH show ?thesis by (fastforce simp: st)
  next
    case False
    with Cons.prems obtain b ls' where "render_row cs (bs @ [b], ls', None) = Inr st'" by (auto simp: st res_simps Let_def)
    with Cons.IH show ?thesis by (fastforce simp: st)
  qed
qed simp

lemma rendered_shows:
  "render_element e = Inr b \<Longrightarrow> t \<in> set (shown e) \<Longrightarrow> drawn_in t b"
  "render_each cs = Inr bs \<Longrightarrow> c \<in> set cs \<Longrightarrow> t \<in> set (shown c) \<Longrightarrow> \<exists>b \<in> set bs. drawn_in t b"
  "render_row cs st = Inr st' \<Longrightarrow> c \<in> set cs \<Longrightarrow> tag c \<noteq> ''between'' \<Longrightarrow> t \<in> set (shown c) \<Longrightarrow>
     \<exists>b \<in> set (fst st'). drawn_in t b"
proof (induction e and cs and cs st arbitrary: b and bs c and st' c rule: render_element_render_each_render_row.induct)
  case (1 tg ats tx cs)
  let ?e = "Element tg ats tx cs"
  consider (stacked) "tg = ''stack''" | (beside) "tg = ''row''" | (boxed) "tg = ''box''" | (plain) "tg = ''text''"
    using 1(4) by (auto split: if_splits)
  then show ?case
  proof cases
    case stacked
    then obtain bs gap where ok: "attrs ?e [''align'', ''gap''] = Inr ()"
      and bs: "render_each cs = Inr bs" "stack_blocks bs (align_of ?e) gap = Inr b"
      using 1(3) by (auto simp: res_simps Let_def)
    from stacked 1(4) obtain c where c: "c \<in> set cs" "t \<in> set (shown c)" by (auto split: if_splits)
    obtain b0 where b0: "b0 \<in> set bs" "drawn_in t b0" using 1(1) [OF refl stacked ok bs(1) c] by blast
    have "\<exists>l' \<in> set b. sublist l l'" if "l \<in> set b0" for l
      using bs(2) stack_rows_keep [OF _ b0(1) that] b0(1) by (auto simp: stack_blocks_def res_simps split: if_splits)
    with b0(2) show ?thesis by (rule drawn_in_line)
  next
    case beside
    then have no: "tg \<noteq> ''stack''" by simp
    from beside obtain bs ls gap where ok: "attrs ?e [''gap''] = Inr ()"
      and bs: "render_row cs ([], [], None) = Inr (bs, ls, None)" "beside bs gap ls = Inr b"
      using 1(3) by (auto simp: res_simps Let_def split: if_splits)
    from beside 1(4) obtain c where c: "c \<in> set cs" "tag c \<noteq> ''between''" "t \<in> set (shown c)" by (auto split: if_splits)
    obtain b0 where b0: "b0 \<in> set bs" "drawn_in t b0" using 1(2) [OF refl no beside ok bs(1) c] by auto
    show ?thesis by (rule drawn_in_line [OF b0(2) beside_keeps [OF bs(2) b0(1)]])
  next
    case boxed
    then obtain ls w where "lines_of ?e = Inr ls" "box_block (dget ats ''title'' []) ls w = Inr b"
      using 1(3) by (auto simp: res_simps Let_def)
    with boxed 1(4) show ?thesis using lines_of_Inr [of ?e ls] box_block_keeps by auto
  next
    case plain
    then obtain ls w where "lines_of ?e = Inr ls" "text_block ls w = Inr b"
      using 1(3) by (auto simp: res_simps Let_def)
    with plain 1(4) show ?thesis using lines_of_Inr [of ?e ls] text_block_keeps by auto
  qed
next
  case (3 c0 cs)
  from 3(3) obtain b bs' where bs: "render_element c0 = Inr b" "render_each cs = Inr bs'" "bs = b # bs'" by (auto simp: res_simps)
  with 3(1) [OF bs(1)] 3(2) [OF bs(1,2)] 3(4,5) show ?case by auto
next
  case (5 c0 cs bs ls pending)
  show ?case
  proof (cases "tag c0 = ''between''")
    case True
    with 5(4) obtain ps where ok: "\<not> (bs = [] \<or> pending \<noteq> None)" "attrs c0 [] = Inr ()" "read_between (el_children c0) [] = Inr ps"
      and row: "render_row cs (bs, ls, Some ps) = Inr st'" by (auto simp: res_simps split: if_splits)
    with True 5(1) [OF True ok row] 5(5-7) show ?thesis by auto
  next
    case False
    with 5(4) obtain b where b: "render_element c0 = Inr b"
      and row: "render_row cs (bs @ [b], case pending of None \<Rightarrow> ls | Some ps \<Rightarrow> add_links (length bs - 1) ps ls, None) = Inr st'"
      by (auto simp: res_simps Let_def)
    obtain more where "fst st' = (bs @ [b]) @ more" using render_row_grows [OF row] by auto
    then have mem: "b \<in> set (fst st')" by simp
    show ?thesis
    proof (cases "c = c0")
      case True
      with 5(2) [OF False refl b] 5(7) mem show ?thesis by blast
    next
      case c: False
      with 5(5) have "c \<in> set cs" by simp
      with 5(3) [OF False refl b row _ 5(6,7)] show ?thesis by blast
    qed
  qed
qed (auto simp: res_simps)

lemma rectangles:
  "mk_block ls = Inr b \<Longrightarrow> l \<in> set b \<Longrightarrow> length l = block_width b"
  "text_block ls w = Inr b \<Longrightarrow> l \<in> set b \<Longrightarrow> length l = block_width b"
  "box_block t ls w = Inr b \<Longrightarrow> l \<in> set b \<Longrightarrow> length l = block_width b"
  "beside bs g lk = Inr b \<Longrightarrow> l \<in> set b \<Longrightarrow> length l = block_width b"
  "stack_blocks bs a g = Inr b \<Longrightarrow> l \<in> set b \<Longrightarrow> length l = block_width b"
  "place_line n ps = Inr b \<Longrightarrow> l \<in> set b \<Longrightarrow> length l = block_width b"
  "place_lines n pls = Inr b \<Longrightarrow> l \<in> set b \<Longrightarrow> length l = block_width b"
proof -
  show mk: "mk_block ls = Inr b \<Longrightarrow> l \<in> set b \<Longrightarrow> length l = block_width b" for ls
    unfolding mk_block_Inr block_width_def by (metis empty_iff list.set(1))
  show "text_block ls w = Inr b \<Longrightarrow> l \<in> set b \<Longrightarrow> length l = block_width b"
    unfolding text_block_def Let_def by (split if_split_asm, simp, blast intro: mk)
  show "box_block t ls w = Inr b \<Longrightarrow> l \<in> set b \<Longrightarrow> length l = block_width b"
    unfolding box_block_def Let_def by (auto simp only: bindr_eq_Inr_iff sum.inject sum.simps split: if_splits intro: mk)
  show "beside bs g lk = Inr b \<Longrightarrow> l \<in> set b \<Longrightarrow> length l = block_width b"
    unfolding beside_def by (auto simp only: bindr_eq_Inr_iff sum.inject sum.simps split: if_splits intro: mk)
  show "stack_blocks bs a g = Inr b \<Longrightarrow> l \<in> set b \<Longrightarrow> length l = block_width b"
    unfolding stack_blocks_def by (auto simp only: bindr_eq_Inr_iff sum.inject sum.simps split: if_splits intro: mk)
  show "place_line n ps = Inr b \<Longrightarrow> l \<in> set b \<Longrightarrow> length l = block_width b"
    unfolding place_line_def by (auto simp only: bindr_eq_Inr_iff intro: mk)
  show "place_lines n pls = Inr b \<Longrightarrow> l \<in> set b \<Longrightarrow> length l = block_width b"
    unfolding place_lines_def by (auto simp only: bindr_eq_Inr_iff intro: mk)
qed

lemma rendered_rectangle:
  assumes "render_element e = Inr b" "l \<in> set b"
  shows "length l = block_width b"
proof (cases e)
  case (Element tg ats tx cs)
  with assms show ?thesis
    by (auto simp: Let_def bindr_eq_Inr_iff split: if_splits dest: rectangles(2-))
qed

text \<open>C32: whatever a diagram nests, a rendered element is a rectangle, and every line of every box and text
  in it, and every box's title, stands in the drawing unbroken.\<close>

theorem drawing_shows_everything:
  assumes "render_element e = Inr b"
  shows "(\<forall>t \<in> set (shown e). \<exists>l \<in> set b. sublist t l) \<and> (\<forall>l \<in> set b. length l = block_width b)"
  using rendered_shows(1) [OF assms] rendered_rectangle [OF assms] by (auto simp: drawn_in_def)

subsection \<open>Drawing into a document again\<close>

lemma prefix_take: "prefix s t \<longleftrightarrow> take (length s) t = s"
  by (metis append_eq_conv_conj prefix_def take_is_prefix)

lemma prefix_drop_append:
  "i + length s \<le> length p \<Longrightarrow> prefix s (drop i (p @ x)) \<longleftrightarrow> prefix s (drop i p)"
  by (simp add: prefix_take)

lemma partition_first:
  "partition_at sep s = (a, True, b) \<longleftrightarrow> s = a @ sep @ b \<and> (\<forall>i < length a. \<not> prefix sep (drop i s))"
proof (induction sep s arbitrary: a rule: partition_at.induct)
  case (1 sep s)
  show ?case
  proof (cases "prefix sep s")
    case True
    have "a = []" if "\<forall>i < length a. \<not> prefix sep (drop i s)" using that True by (cases a) auto
    with True show ?thesis by (subst partition_at.simps) (auto simp: prefix_def)
  next
    case no: False
    show ?thesis
    proof (cases s)
      case Nil
      with no show ?thesis by (subst partition_at.simps) auto
    next
      case (Cons c cs)
      have "partition_at sep s = (a, True, b) \<longleftrightarrow> (\<exists>a'. a = c # a' \<and> partition_at sep cs = (a', True, b))"
        using no Cons by (subst partition_at.simps) (auto split: prod.splits)
      also have "\<dots> \<longleftrightarrow> (\<exists>a'. a = c # a' \<and> cs = a' @ sep @ b \<and> (\<forall>i < length a'. \<not> prefix sep (drop i cs)))"
        using 1 [OF no Cons] by auto
      also have "\<dots> \<longleftrightarrow> s = a @ sep @ b \<and> (\<forall>i < length a. \<not> prefix sep (drop i s))"
      proof
        assume "s = a @ sep @ b \<and> (\<forall>i < length a. \<not> prefix sep (drop i s))"
        with no Cons show "\<exists>a'. a = c # a' \<and> cs = a' @ sep @ b \<and> (\<forall>i < length a'. \<not> prefix sep (drop i cs))"
          by (cases a) fastforce+
      qed (use no Cons in \<open>auto simp: less_Suc_eq_0_disj\<close>)
      finally show ?thesis .
    qed
  qed
qed

lemma sublist_within:
  assumes "sublist e (x @ m @ y)" "e \<noteq> []" "hd e \<notin> set x" "last e \<notin> set y"
  shows "sublist e m"
proof -
  from assms(1) obtain p q where eq: "x @ m @ y = p @ e @ q" by (auto simp: sublist_def)
  from append_eq_append_conv2 [THEN iffD1, OF eq]
  have "\<exists>us. m @ y = us @ e @ q"
  proof (elim exE disjE conjE)
    fix us assume us: "x = p @ us" "us @ m @ y = e @ q"
    have "us = []" using us assms(2,3) by (cases us; cases e) auto
    with us show ?thesis by (metis append_Nil)
  qed metis
  then obtain us where my: "m @ y = (us @ e) @ q" by auto
  from append_eq_append_conv2 [THEN iffD1, OF my] show ?thesis
  proof (elim exE disjE conjE)
    fix vs assume vs: "m @ vs = us @ e" "y = vs @ q"
    have "vs = []"
    proof (rule ccontr)
      assume "vs \<noteq> []"
      then have "last e = last vs" using vs(1) assms(2) by (metis last_appendR)
      with \<open>vs \<noteq> []\<close> vs(2) assms(4) show False by simp
    qed
    with vs(1) have "m = us @ e" by simp
    then show ?thesis by (metis suffixI suffix_imp_sublist)
  qed (auto simp: sublist_def)
qed

text \<open>A text that begins with the only character of its kind does not overlap itself.\<close>

lemma marker_first:
  assumes e: "e = c # cs" "c \<notin> set cs" and no: "\<not> sublist e mid"
  shows "partition_at e (mid @ e @ after) = (mid, True, after)"
  unfolding partition_first
proof (intro conjI allI impI notI)
  fix i assume i: "i < length mid" and pre: "prefix e (drop i (mid @ e @ after))"
  show False
  proof (cases "i + length e \<le> length mid")
    case True
    then have "prefix e (drop i mid)" using pre prefix_drop_append by blast
    then obtain z where "drop i mid = e @ z" by (auto simp: prefix_def)
    then have "mid = take i mid @ e @ z" by (metis append_take_drop_id)
    with no show False by (auto simp: sublist_def)
  next
    case False
    let ?k = "length mid - i"
    have k: "?k < length e" "0 < ?k" using False i by auto
    from pre obtain zs where "drop i (mid @ e @ after) = e @ zs" by (auto simp: prefix_def)
    with k have "e ! ?k = drop i (mid @ e @ after) ! ?k" by (metis nth_append)
    also have "\<dots> = c" using i e(1) by (simp add: nth_append)
    finally have "cs ! (?k - 1) = c" using e(1) k by (simp add: nth_Cons')
    with k e show False by (metis One_nat_def Suc_pred length_Cons not_less_eq nth_mem)
  qed
qed simp

lemma u_simps [simp]: "u [] = []" "u (c # cs) = of_char c # u cs" "u (xs @ ys) = u xs @ u ys"
  by (simp_all add: u_def)

lemma marker_shape:
  "marker name which = 60 # tl (marker name which)" "last (marker name which) = 62"
  by (simp_all add: marker_def)

lemma marker_sharp: "60 \<notin> set name \<Longrightarrow> 60 \<notin> set (tl (marker name ''end''))"
  by (simp add: marker_def)

text \<open>Drawing into a document changes only what stands between the drawing's first pair of markers; what
  is written there can be drawn over again, by this or any other drawing, as if for the first time, unless the
  drawing itself contains its end marker.\<close>

theorem redrawing_touches_only_the_drawing:
  assumes "replace_drawing doc name b = Inr doc'"
  shows "\<exists>prior old after. doc = prior @ marker name ''start'' @ old @ marker name ''end'' @ after \<and>
    doc' = prior @ generated_text name b @ after \<and>
    (60 \<notin> set name \<and> \<not> sublist (marker name ''end'') (block_render b) \<longrightarrow>
       replace_drawing doc' name b' = Inr (prior @ generated_text name b' @ after))"
proof -
  let ?s = "marker name ''start''" and ?e = "marker name ''end''"
  obtain prior rest old after where first: "partition_at ?s doc = (prior, True, rest)" "partition_at ?e rest = (old, True, after)"
    and doc': "doc' = prior @ generated_text name b @ after"
    using assms by (auto simp: replace_drawing_def split: prod.splits if_splits)
  note at = first [unfolded partition_first]
  let ?m = "[10] @ fence @ [10] @ block_render b @ [10] @ fence @ [10]"
  have again: "replace_drawing doc' name b' = Inr (prior @ generated_text name b' @ after)"
    if "60 \<notin> set name" and no: "\<not> sublist ?e (block_render b)"
  proof -
    have shape: "doc' = prior @ ?s @ ?m @ ?e @ after" by (simp add: doc' generated_text_def)
    have "\<not> prefix ?s (drop i doc')" if i: "i < length prior" for i
    proof -
      have "\<not> prefix ?s (drop i ((prior @ ?s) @ rest))" using at(1) i by auto
      then have "\<not> prefix ?s (drop i ((prior @ ?s) @ ?m @ ?e @ after))"
        using i prefix_drop_append [of i ?s "prior @ ?s"] by simp
      then show ?thesis by (simp add: shape)
    qed
    then have "partition_at ?s doc' = (prior, True, ?m @ ?e @ after)" unfolding partition_first using shape by simp
    moreover have "partition_at ?e (?m @ ?e @ after) = (?m, True, after)"
    proof (rule marker_first [OF marker_shape(1) marker_sharp [OF \<open>60 \<notin> set name\<close>]])
      show "\<not> sublist ?e ?m"
      proof
        assume "sublist ?e ?m"
        then have "sublist ?e (([10] @ fence @ [10]) @ block_render b @ ([10] @ fence @ [10]))" by simp
        with no show False
          by (rule notE [OF _ sublist_within]) (simp_all add: marker_def fence_def)
      qed
    qed
    ultimately show ?thesis by (simp add: replace_drawing_def)
  qed
  with at doc' show ?thesis by blast
qed

subsection \<open>A small diagram\<close>

definition demo_line :: "string \<Rightarrow> element" where
  "demo_line t = Element ''line'' [] (Some (u t)) []"

definition demo_row :: element where
  "demo_row = Element ''row'' [(''gap'', u ''1'')] None
     [Element ''box'' [(''title'', u ''A'')] None [demo_line ''ab''],
      Element ''between'' [] None [Element ''at'' [(''row'', u ''1'')] (Some (u ''->'')) []],
      Element ''text'' [] None [demo_line ''b'', demo_line ''cd'']]"

lemma demo_gap: "u_int [49] = Inr 1"
proof -
  have "char_of (of_char CHR ''1'' :: nat) = CHR ''1''" by (rule char_of_char)
  then have c: "char_of (49 :: nat) = CHR ''1''" by (simp del: char_of_char)
  then have "str_int 1 = ''1''" by (simp add: str_int_def str_nat.simps)
  then have "py_int ''1'' = Inr 1" by (metis py_int_str)
  with c show ?thesis by (simp add: u_int_def)
qed

lemma demo_box: "box_block [65] [[97, 98]] None =
    Inr [[9484, 32, 65, 32, 9488], [9474, 32, 97, 98, 9474], [9492, 9472, 9472, 9472, 9496]]"
  by (simp add: box_block_def title_label_def title_bar_def longest_def mk_block_def fill_def u_ljust_def SPACE_def Let_def
      numeral_3_eq_3)

lemma demo_text: "text_block [[98], [99, 100]] None = Inr [[98, 32], [99, 100]]"
  by (simp add: text_block_def longest_def mk_block_def fill_def u_ljust_def SPACE_def)

lemma demo_beside:
  "beside [[[9484, 32, 65, 32, 9488], [9474, 32, 97, 98, 9474], [9492, 9472, 9472, 9472, 9496]],
     [[98, 32], [99, 100]]] 1 [((0, 1), [45, 62])] =
   Inr [[9484, 32, 65, 32, 9488, 160, 160, 98, 32], [9474, 32, 97, 98, 9474, 45, 62, 99, 100],
     [9492, 9472, 9472, 9472, 9496, 160, 160, 32, 32]]"
  by (simp add: beside_def beside_row_def block_height_def block_line_def block_width_def
      link_text_def u_center_def fill_def SPACE_def NBSP_def mk_block_def dget_def upt_rec)

lemma demo_row_drawn:
  "render_element demo_row = Inr
     [[9484, 32, 65, 32, 9488, 160, 160] @ u ''b '',
      [9474, 32, 97, 98, 9474] @ u ''->'' @ u ''cd'',
      [9492, 9472, 9472, 9472, 9496, 160, 160] @ u ''  '']"
  by (simp add: demo_row_def demo_line_def Let_def attrs_def width_attr_def lines_of_def text_or_empty_def int_attr_def dget_def
      demo_gap demo_box demo_text demo_beside add_links_def)

text \<open>A connector on a row the blocks do not have widens the gap and is not drawn; nothing is raised.\<close>

lemma connector_beyond_the_blocks: "beside [[[97]], [[98]]] 0 [((0, 5), [45, 62])] = Inr [[97, 160, 160, 98]]"
  by (simp add: beside_def beside_row_def block_height_def block_line_def block_width_def link_text_def u_center_def fill_def
      SPACE_def NBSP_def mk_block_def dget_def upt_rec numeral_2_eq_2)

theorem drawing_shows_everything_witness:
  "\<exists>b. render_element demo_row = Inr b \<and> (\<exists>l \<in> set b. sublist (u ''cd'') l) \<and> (\<exists>l \<in> set b. sublist (u ''ab'') l)"
proof -
  have "u ''cd'' \<in> set (shown demo_row)" "u ''ab'' \<in> set (shown demo_row)"
    by (simp_all add: demo_row_def demo_line_def text_or_empty_def)
  with drawing_shows_everything [OF demo_row_drawn] demo_row_drawn show ?thesis by blast
qed

theorem redrawing_touches_only_the_drawing_witness:
  "\<exists>doc. replace_drawing (marker (u ''d'') ''start'' @ marker (u ''d'') ''end'' @ u '' z'') (u ''d'') [u ''ab''] = Inr doc \<and>
     replace_drawing doc (u ''d'') [u ''ab''] = Inr doc"
proof -
  let ?doc = "marker (u ''d'') ''start'' @ marker (u ''d'') ''end'' @ u '' z''"
  have at: "partition_at s (s @ x) = ([], True, x)" for s x by (subst partition_at.simps) simp
  obtain d where d: "replace_drawing ?doc (u ''d'') [u ''ab''] = Inr d" by (simp add: replace_drawing_def at)
  have r: "block_render [[97, 98]] = [97, 98]"
    by (simp add: block_render_def join_with_def rstrip_def is_space_def)
  have "\<not> sublist (marker (u ''d'') ''end'') (u ''ab'')" by (auto simp: marker_def dest: sublist_length_le)
  with redrawing_touches_only_the_drawing [OF d, of "[u ''ab'']"] d show ?thesis by (auto simp: r)
qed

end
