(* ===== verification/RenderTree.thy ===== *)
theory RenderTree
  imports TextDiagram Metrics
begin

section \<open>Who served whom, drawn\<close>

text \<open>
  \<^verbatim>\<open>_edge_graph\<close> and \<^verbatim>\<open>render_tree\<close> of \<^verbatim>\<open>sim_common/report.py\<close>: the transfers of a ledger as inline chains or as
  an indented tree that expands each node once. A chain is followed for as long as there is a child: \<open>None\<close> is
  a rendering that never returns. The tree is drawn with the number of sources as fuel.
\<close>

subsection \<open>The graph\<close>

type_synonym graph = "(vid \<times> vid list) list"

definition kids :: "graph \<Rightarrow> vid \<Rightarrow> vid list" where
  "kids g v = dget g v []"

definition add_edge :: "graph \<Rightarrow> vid \<times> vid \<times> vid \<Rightarrow> graph" where
  "add_edge g e =
     (case e of (src, dst, _) \<Rightarrow>
        AList.update src (if dst \<in> set (kids g src) then kids g src else kids g src @ [dst]) g)"

definition edge_graph :: "(vid \<times> vid \<times> vid) list \<Rightarrow> graph \<times> vid list \<times> bool" where
  "edge_graph es =
     (let g = foldl add_edge [] es;
          has_parent = map (\<lambda>(_, dst, _). dst) es;
          roots = sorted_list_of_set (set (filter (\<lambda>s. s \<notin> set has_parent) (map fst es)))
      in (g, roots, \<forall>p \<in> set g. length (snd p) \<le> 1))"

subsection \<open>Chains\<close>

partial_function (option) chain_parts :: "graph \<Rightarrow> vid \<Rightarrow> vid list option" where
  "chain_parts g cur =
     (case kids g cur of [] \<Rightarrow> Some [cur]
      | k # _ \<Rightarrow> Option.bind (chain_parts g k) (\<lambda>ps. Some (cur # ps)))"

definition arrow :: utext where "arrow = [32, 9472, 9472, 9654, 32]"

definition chain_line :: "graph \<Rightarrow> vid \<Rightarrow> utext option" where
  "chain_line g r = map_option (\<lambda>ps. join_with arrow (map u ps)) (chain_parts g r)"

subsection \<open>Trees\<close>

text \<open>A line of the tree: a root, or an edge under the prefix of its ancestors.\<close>

datatype tree_row = Top vid | Edge vid vid utext bool bool

text \<open>Whether the child is the last of its siblings, and whether it has been expanded before.\<close>

definition branch :: "bool \<Rightarrow> utext" where
  "branch end_of = (if end_of then [9492, 9472, 9654, 32] else [9500, 9472, 9654, 32])"

definition indent_of :: "bool \<Rightarrow> utext" where
  "indent_of end_of = (if end_of then [32, 32, 32, 32] else [9474, 32, 32, 32])"

primrec row_text :: "tree_row \<Rightarrow> utext" where
  "row_text (Top v) = u v"
| "row_text (Edge src kid pre end_of seen) = pre @ branch end_of @ u kid @ (if seen then u '' (^)'' else [])"

fun walk :: "nat \<Rightarrow> graph \<Rightarrow> vid \<Rightarrow> utext \<Rightarrow> vid list \<Rightarrow> vid list \<times> tree_row list \<Rightarrow> (vid list \<times> tree_row list) option" where
  "walk fuel g node pre [] st = Some st"
| "walk fuel g node pre (kid # rest) (expanded, ls) =
     (let end_of = (rest = []) in
      if kid \<in> set expanded \<and> kids g kid \<noteq> [] then
        walk fuel g node pre rest (expanded, ls @ [Edge node kid pre end_of True])
      else case fuel of
          0 \<Rightarrow> None
        | Suc n \<Rightarrow>
            Option.bind (walk n g kid (pre @ indent_of end_of) (kids g kid) (kid # expanded, ls @ [Edge node kid pre end_of False]))
              (walk fuel g node pre rest))"

fun walk_roots :: "graph \<Rightarrow> vid list \<Rightarrow> vid list \<times> tree_row list \<Rightarrow> (vid list \<times> tree_row list) option" where
  "walk_roots g [] st = Some st"
| "walk_roots g (r # rs) (expanded, ls) =
     Option.bind (walk (Suc (length g)) g r [] (kids g r) (r # expanded, ls @ [Top r])) (walk_roots g rs)"

definition tree_rows :: "graph \<Rightarrow> vid list \<Rightarrow> tree_row list option" where
  "tree_rows g roots = map_option snd (walk_roots g roots ([], []))"

fun all_some :: "'a option list \<Rightarrow> 'a list option" where
  "all_some [] = Some []"
| "all_some (x # xs) = Option.bind x (\<lambda>y. Option.bind (all_some xs) (\<lambda>ys. Some (y # ys)))"

definition render_tree :: "(vid \<times> vid \<times> vid) list \<Rightarrow> utext list option" where
  "render_tree es =
     (case edge_graph es of (g, roots, is_chain) \<Rightarrow>
        if roots = [] then Some [u ''(no transfers)'']
        else if is_chain then all_some (map (chain_line g) roots)
        else map_option (map row_text) (tree_rows g roots))"

subsection \<open>Two graphs it does not draw\<close>

text \<open>Transfers that only go round have no root, and are reported as none at all; a chain that runs into a
  round is followed for ever.\<close>

lemma round_unseen: "render_tree [(''a'', ''b'', l), (''b'', ''a'', l')] = Some [u ''(no transfers)'']"
  by (simp add: render_tree_def edge_graph_def Let_def)

definition round_graph :: graph where
  "round_graph = [(''r'', [''a'']), (''a'', [''b'']), (''b'', [''a''])]"

lemma round_kids: "kids round_graph ''r'' = [''a'']" "kids round_graph ''a'' = [''b'']" "kids round_graph ''b'' = [''a'']"
  by (simp_all add: kids_def dget_def round_graph_def)

lemma round_chain:
  assumes "chain_parts g v = Some ps"
  shows "g = round_graph \<longrightarrow> v \<notin> {''a'', ''b'', ''r''}"
proof (rule chain_parts.raw_induct [where P = "\<lambda>g v ps. g = round_graph \<longrightarrow> v \<notin> {''a'', ''b'', ''r''}", OF _ assms])
  fix chain g v ps
  assume IH: "\<And>g v ps. chain g v = Some ps \<Longrightarrow> g = round_graph \<longrightarrow> v \<notin> {''a'', ''b'', ''r''}"
    and s: "(case kids g v of [] \<Rightarrow> Some [v] | k # _ \<Rightarrow> Option.bind (chain g k) (\<lambda>ps. Some (v # ps))) = Some ps"
  show "g = round_graph \<longrightarrow> v \<notin> {''a'', ''b'', ''r''}"
  proof
    assume g: "g = round_graph"
    have "chain g ''a'' = None" "chain g ''b'' = None" using IH g by (metis insertI1 insertI2 option.exhaust)+
    with s show "v \<notin> {''a'', ''b'', ''r''}" by (auto simp: g round_kids)
  qed
qed

lemma chain_into_a_round_never_returns:
  "render_tree [(''r'', ''a'', l), (''a'', ''b'', l'), (''b'', ''a'', l'')] = None"
proof -
  have "chain_parts round_graph ''r'' = None" using round_chain by (metis insertI1 insertI2 option.exhaust)
  then show ?thesis
    by (simp add: render_tree_def edge_graph_def add_edge_def kids_def dget_def Let_def chain_line_def round_graph_def)
qed

subsection \<open>Every edge is drawn once\<close>

fun row_edge :: "tree_row \<Rightarrow> (vid \<times> vid) option" where
  "row_edge (Top v) = None"
| "row_edge (Edge src kid pre end_of seen) = Some (src, kid)"

definition drawn_edges :: "tree_row list \<Rightarrow> (vid \<times> vid) list" where
  "drawn_edges rs = List.map_filter row_edge rs"

lemma drawn_edges_simps [simp]:
  "drawn_edges [] = []" "drawn_edges (xs @ ys) = drawn_edges xs @ drawn_edges ys"
  "drawn_edges (Top v # xs) = drawn_edges xs" "drawn_edges (Edge s k p e b # xs) = (s, k) # drawn_edges xs"
  by (simp_all add: drawn_edges_def List.map_filter_def)

definition served_by :: "graph \<Rightarrow> (vid \<times> vid) set" where
  "served_by g = {(v, k). k \<in> set (kids g v)}"

definition out_edges :: "graph \<Rightarrow> vid \<Rightarrow> (vid \<times> vid) multiset" where
  "out_edges g v = mset (map (Pair v) (kids g v))"

text \<open>What walking some children of a node adds: their edges, and all the edges of each node expanded.\<close>

definition walked :: "graph \<Rightarrow> vid \<Rightarrow> vid list \<Rightarrow> vid list \<Rightarrow> vid list \<Rightarrow> tree_row list \<Rightarrow> bool" where
  "walked g node ks ex ex' new \<longleftrightarrow>
     set ex \<subseteq> set ex' \<and> set ks \<subseteq> set ex' \<and>
     (\<forall>v \<in> set ex' - set ex. set (kids g v) \<subseteq> set ex' \<and> (\<exists>k \<in> set ks. (k, v) \<in> (served_by g)\<^sup>*)) \<and>
     mset (drawn_edges new) = mset (map (Pair node) ks) + (\<Sum>v \<in> set ex' - set ex. out_edges g v)"

lemma walkedD:
  assumes "walked g node ks ex ex' new" "v \<in> set ex'" "v \<notin> set ex"
  shows "set (kids g v) \<subseteq> set ex'" "\<exists>k \<in> set ks. (k, v) \<in> (served_by g)\<^sup>*"
  using assms unfolding walked_def by blast+

lemma walked_seen:
  assumes "walked g node ks ex ex' new" "k \<in> set ex"
  shows "walked g node (k # ks) ex ex' (Edge node k pre e b # new)"
  using assms by (auto simp: walked_def)

lemma walked_new:
  assumes sub: "walked g k (kids g k) (k # ex) ex1 new1" and rest: "walked g node ks ex1 ex' new2"
    and fresh: "k \<in> set ex \<Longrightarrow> kids g k = []"
  shows "walked g node (k # ks) ex ex' (Edge node k pre e b # new1 @ new2)"
proof -
  have split: "set ex' - set ex = (set ex1 - set ex) \<union> (set ex' - set ex1)" "(set ex1 - set ex) \<inter> (set ex' - set ex1) = {}"
    using sub rest by (auto simp: walked_def)
  have one: "mset (drawn_edges new1) = (\<Sum>v \<in> set ex1 - set ex. out_edges g v)"
  proof (cases "k \<in> set ex")
    case True
    then have "set ex1 - set (k # ex) = set ex1 - set ex" by auto
    with sub fresh [OF True] show ?thesis by (simp add: walked_def)
  next
    case False
    have "k \<in> set ex1" using sub by (auto simp: walked_def)
    with False have "(\<Sum>v \<in> set ex1 - set ex. out_edges g v) = out_edges g k + (\<Sum>v \<in> set ex1 - set ex - {k}. out_edges g v)"
      by (intro sum.remove) auto
    moreover have "set ex1 - set ex - {k} = set ex1 - set (k # ex)" by auto
    ultimately show ?thesis using sub by (simp only: walked_def out_edges_def)
  qed
  have total: "(\<Sum>v \<in> set ex' - set ex. out_edges g v) =
      (\<Sum>v \<in> set ex1 - set ex. out_edges g v) + (\<Sum>v \<in> set ex' - set ex1. out_edges g v)"
    unfolding split(1) by (rule sum.union_disjoint) (use split(2) in simp_all)
  have "mset (drawn_edges (Edge node k pre e b # new1 @ new2)) =
      mset (map (Pair node) (k # ks)) + (\<Sum>v \<in> set ex' - set ex. out_edges g v)"
    using rest one total by (simp add: walked_def)
  moreover have "set (kids g v) \<subseteq> set ex' \<and> (\<exists>c \<in> set (k # ks). (c, v) \<in> (served_by g)\<^sup>*)" if v: "v \<in> set ex' - set ex" for v
  proof (cases "v \<in> set ex1")
    case True
    then consider "v = k" | "v \<in> set ex1 - set (k # ex)" using v by auto
    then show ?thesis
    proof cases
      case 1
      with sub rest show ?thesis by (auto simp: walked_def)
    next
      case 2
      with walkedD [OF sub, of v] obtain c where "c \<in> set (kids g k)" "(c, v) \<in> (served_by g)\<^sup>*" "set (kids g v) \<subseteq> set ex1" by auto
      then have "(k, v) \<in> (served_by g)\<^sup>*" by (intro converse_rtrancl_into_rtrancl [of k c]) (auto simp: served_by_def)
      with rest \<open>set (kids g v) \<subseteq> set ex1\<close> show ?thesis by (auto simp: walked_def)
    qed
  next
    case False
    with rest v show ?thesis by (auto simp: walked_def)
  qed
  ultimately show ?thesis using sub rest by (auto simp: walked_def)
qed

lemma walk_walks:
  "walk fuel g node pre ks (ex, ls) = Some (ex', ls') \<Longrightarrow> \<exists>new. ls' = ls @ new \<and> walked g node ks ex ex' new"
proof (induction fuel g node pre ks "(ex, ls)" arbitrary: ex ls ex' ls' rule: walk.induct)
  case (1 fuel g node pre)
  then show ?case by (auto simp: walked_def)
next
  case (2 fuel g node pre kid rest ex ls)
  show ?case
  proof (cases "kid \<in> set ex \<and> kids g kid \<noteq> []")
    case True
    with 2(1) [OF refl True] 2(4) walked_seen show ?thesis by (fastforce simp: Let_def)
  next
    case False
    then obtain n ex1 ls1 where n: "fuel = Suc n"
      and sub: "walk n g kid (pre @ indent_of (rest = [])) (kids g kid) (kid # ex, ls @ [Edge node kid pre (rest = []) False]) = Some (ex1, ls1)"
      and rest: "walk fuel g node pre rest (ex1, ls1) = Some (ex', ls')"
      using 2(4) by (auto simp: Let_def bind_eq_Some_conv split: nat.splits)
    from 2(2) [OF refl False n sub] obtain new1 where 1: "ls1 = ls @ [Edge node kid pre (rest = []) False] @ new1"
      "walked g kid (kids g kid) (kid # ex) ex1 new1" by auto
    from 2(3) [OF refl False n sub] rest obtain new2 where "ls' = ls1 @ new2" "walked g node rest ex1 ex' new2" by auto
    with 1 walked_new [OF 1(2) this(2)] False show ?thesis by auto
  qed
qed

text \<open>The fuel is more than there are sources not yet expanded, which each nesting has one less of.\<close>

lemma kids_finite: "{k. kids g k \<noteq> []} \<subseteq> fst ` set g"
  by (force simp: kids_def dget_def split: option.splits dest: map_of_SomeD)

lemma walk_returns:
  "card {k. kids g k \<noteq> [] \<and> k \<notin> set ex} < fuel \<Longrightarrow> \<exists>st. walk fuel g node pre ks (ex, ls) = Some st"
proof (induction fuel g node pre ks "(ex, ls)" arbitrary: ex ls rule: walk.induct)
  case (2 fuel g node pre kid rest ex ls)
  have fin: "finite {k. kids g k \<noteq> [] \<and> P k}" for P
    using finite_subset [OF kids_finite [of g]] by (auto intro: finite_subset [of _ "{k. kids g k \<noteq> []}"])
  show ?case
  proof (cases "kid \<in> set ex \<and> kids g kid \<noteq> []")
    case True
    with 2(1) [OF refl True] 2(4) show ?thesis by (simp add: Let_def)
  next
    case False
    from 2(4) obtain n where n: "fuel = Suc n" by (cases fuel) auto
    have "\<exists>st. walk n g kid (pre @ indent_of (rest = [])) (kids g kid) (kid # ex, ls @ [Edge node kid pre (rest = []) False]) = Some st"
    proof (cases "kids g kid = []")
      case kid: False
      with False have "{k. kids g k \<noteq> [] \<and> k \<notin> set (kid # ex)} \<subset> {k. kids g k \<noteq> [] \<and> k \<notin> set ex}" by auto
      from psubset_card_mono [OF fin this] 2(4) n have "card {k. kids g k \<noteq> [] \<and> k \<notin> set (kid # ex)} < n" by simp
      with 2(2) [OF refl False n] show ?thesis by blast
    qed simp
    then obtain ex1 ls1 where sub: "walk n g kid (pre @ indent_of (rest = [])) (kids g kid) (kid # ex, ls @ [Edge node kid pre (rest = []) False]) = Some (ex1, ls1)" by auto
    from walk_walks [OF sub] have "set ex \<subseteq> set ex1" by (auto simp: walked_def)
    then have "card {k. kids g k \<noteq> [] \<and> k \<notin> set ex1} < fuel" using 2(4) card_mono [OF fin [of "\<lambda>k. k \<notin> set ex"], of "{k. kids g k \<noteq> [] \<and> k \<notin> set ex1}"] by force
    with 2(3) [OF refl False n sub] sub n False show ?thesis by (auto simp: Let_def)
  qed
qed simp

lemma walk_roots_walks:
  assumes "walk_roots g rs (ex, ls) = Some (ex', ls')" "distinct rs" "set rs \<inter> set ex = {}"
    "\<forall>r \<in> set rs. \<forall>v. r \<notin> set (kids g v)" "\<forall>v \<in> set ex. set (kids g v) \<subseteq> set ex"
  shows "\<exists>new. ls' = ls @ new \<and> set ex \<subseteq> set ex' \<and> set rs \<subseteq> set ex' \<and> (\<forall>v \<in> set ex'. set (kids g v) \<subseteq> set ex') \<and>
    (\<forall>v \<in> set ex' - set ex. \<exists>r \<in> set rs. (r, v) \<in> (served_by g)\<^sup>*) \<and>
    mset (drawn_edges new) = (\<Sum>v \<in> set ex' - set ex. out_edges g v)"
  using assms
proof (induction rs arbitrary: ex ls)
  case (Cons r rs)
  obtain ex1 ls1 where sub: "walk (Suc (length g)) g r [] (kids g r) (r # ex, ls @ [Top r]) = Some (ex1, ls1)"
    and rest: "walk_roots g rs (ex1, ls1) = Some (ex', ls')"
    using Cons.prems(1) by (auto simp: bind_eq_Some_conv)
  from walk_walks [OF sub] obtain new1 where n1: "ls1 = ls @ [Top r] @ new1" and w: "walked g r (kids g r) (r # ex) ex1 new1" by auto
  have r: "r \<notin> set ex" using Cons.prems by auto
  have up: "(r, v) \<in> (served_by g)\<^sup>*" if "v \<in> set ex1 - set ex" for v
  proof (cases "v = r")
    case False
    with that walkedD(2) [OF w, of v] obtain k where "k \<in> set (kids g r)" "(k, v) \<in> (served_by g)\<^sup>*" by auto
    then show ?thesis by (intro converse_rtrancl_into_rtrancl [of r k]) (auto simp: served_by_def)
  qed simp
  have closed: "set (kids g v) \<subseteq> set ex1" if v: "v \<in> set ex1" for v
  proof -
    consider "v = r" | "v \<in> set ex" | "v \<in> set ex1 - set (r # ex)" using v by fastforce
    then show ?thesis using w Cons.prems(5) by cases (auto simp: walked_def)
  qed
  have apart: "set rs \<inter> set ex1 = {}"
  proof (rule ccontr)
    assume "set rs \<inter> set ex1 \<noteq> {}"
    then obtain r' where r': "r' \<in> set rs" "r' \<in> set ex1" by auto
    with Cons.prems(2,3) have "r' \<noteq> r" "r' \<notin> set ex" by auto
    with r'(2) up have "(r, r') \<in> (served_by g)\<^sup>*" by auto
    with \<open>r' \<noteq> r\<close> obtain v where "(v, r') \<in> served_by g" by (auto elim: rtranclE)
    with Cons.prems(4) r'(1) show False by (auto simp: served_by_def)
  qed
  have "\<exists>new. ls' = ls1 @ new \<and> set ex1 \<subseteq> set ex' \<and> set rs \<subseteq> set ex' \<and> (\<forall>v \<in> set ex'. set (kids g v) \<subseteq> set ex') \<and>
    (\<forall>v \<in> set ex' - set ex1. \<exists>r \<in> set rs. (r, v) \<in> (served_by g)\<^sup>*) \<and>
    mset (drawn_edges new) = (\<Sum>v \<in> set ex' - set ex1. out_edges g v)"
    by (rule Cons.IH [OF rest]) (use Cons.prems apart closed in auto)
  then obtain new2 where n2: "ls' = ls1 @ new2" "set ex1 \<subseteq> set ex'" "set rs \<subseteq> set ex'"
    "\<forall>v \<in> set ex'. set (kids g v) \<subseteq> set ex'" "\<forall>v \<in> set ex' - set ex1. \<exists>r \<in> set rs. (r, v) \<in> (served_by g)\<^sup>*"
    "mset (drawn_edges new2) = (\<Sum>v \<in> set ex' - set ex1. out_edges g v)" by blast
  have ex: "insert r (set ex) \<subseteq> set ex1" using w by (auto simp: walked_def)
  have "(\<Sum>v \<in> set ex1 - set ex. out_edges g v) = out_edges g r + (\<Sum>v \<in> set ex1 - set ex - {r}. out_edges g v)"
    using ex r by (intro sum.remove) auto
  moreover have "set ex1 - set ex - {r} = set ex1 - set (r # ex)" by auto
  ultimately have one: "mset (drawn_edges new1) = (\<Sum>v \<in> set ex1 - set ex. out_edges g v)"
    using w by (simp only: walked_def out_edges_def)
  have parts: "set ex' - set ex = (set ex1 - set ex) \<union> (set ex' - set ex1)" using ex n2(2) by auto
  have "(\<Sum>v \<in> set ex' - set ex. out_edges g v) = (\<Sum>v \<in> set ex1 - set ex. out_edges g v) + (\<Sum>v \<in> set ex' - set ex1. out_edges g v)"
    unfolding parts by (rule sum.union_disjoint) auto
  with one n1 n2 have "mset (drawn_edges ([Top r] @ new1 @ new2)) = (\<Sum>v \<in> set ex' - set ex. out_edges g v)" by simp
  moreover have "\<exists>r' \<in> set (r # rs). (r', v) \<in> (served_by g)\<^sup>*" if "v \<in> set ex' - set ex" for v
    using that up n2(5) by (cases "v \<in> set ex1") auto
  moreover have "ls' = ls @ [Top r] @ new1 @ new2" using n1 n2(1) by simp
  ultimately show ?case using n2 ex by (intro exI [of _ "[Top r] @ new1 @ new2"]) auto
qed (auto)

lemma walk_roots_returns: "\<exists>st. walk_roots g rs (ex, ls) = Some st"
proof (induction rs arbitrary: ex ls)
  case (Cons r rs)
  have "card {k. kids g k \<noteq> [] \<and> k \<notin> set (r # ex)} \<le> card (set (map fst g))"
    by (rule card_mono) (use kids_finite [of g] in auto)
  also have "\<dots> \<le> length g" by (metis card_length length_map)
  finally have "card {k. kids g k \<noteq> [] \<and> k \<notin> set (r # ex)} < Suc (length g)" by simp
  from walk_returns [OF this] obtain ex1 ls1 where "walk (Suc (length g)) g r [] (kids g r) (r # ex, ls @ [Top r]) = Some (ex1, ls1)"
    by (metis surj_pair)
  with Cons.IH [of ex1 ls1] show ?case by simp
qed simp

subsection \<open>The graph of a list of transfers\<close>

lemma kids_add_edge:
  "kids (add_edge g (src, dst, l)) v =
     (if v = src \<and> dst \<notin> set (kids g src) then kids g src @ [dst] else kids g v)"
  by (simp add: add_edge_def kids_def dget_def update_conv' split: option.splits)

lemma kids_of_edges:
  "set (kids (foldl add_edge g es) v) = set (kids g v) \<union> {d. \<exists>l. (v, d, l) \<in> set es}"
  "distinct (kids g v) \<Longrightarrow> distinct (kids (foldl add_edge g es) v)"
proof (induction es arbitrary: g)
  case (Cons e es)
  obtain src dst l where e: "e = (src, dst, l)" by (cases e)
  {
    case 1
    show ?case using Cons.IH(1) [of "add_edge g e"] by (auto simp: e kids_add_edge)
  next
    case 2
    then have "distinct (kids (add_edge g e) v)" by (auto simp: e kids_add_edge)
    then show ?case using Cons.IH(2) by simp
  }
qed simp_all

lemma edge_graph_facts:
  assumes "edge_graph es = (g, roots, chain)"
  shows "set (kids g v) = {d. \<exists>l. (v, d, l) \<in> set es}" "distinct (kids g v)" "distinct roots"
    "r \<in> set roots \<longleftrightarrow> (\<exists>d l. (r, d, l) \<in> set es) \<and> (\<forall>s l. (s, r, l) \<notin> set es)"
proof -
  have g: "g = foldl add_edge [] es" and roots: "roots = sorted_list_of_set (set (filter (\<lambda>s. s \<notin> set (map (\<lambda>(_, dst, _). dst) es)) (map fst es)))"
    using assms by (auto simp: edge_graph_def Let_def)
  show "set (kids g v) = {d. \<exists>l. (v, d, l) \<in> set es}" "distinct (kids g v)"
    using kids_of_edges(1) [of "[]" es v] kids_of_edges(2) [of "[]" v es] by (simp_all add: g kids_def dget_def)
  show "distinct roots" by (simp add: roots)
  show "r \<in> set roots \<longleftrightarrow> (\<exists>d l. (r, d, l) \<in> set es) \<and> (\<forall>s l. (s, r, l) \<notin> set es)"
    unfolding roots by (force simp: image_iff)
qed

text \<open>C33: drawn as a tree, who served whom is drawn whole and once: rendering returns, whatever rounds the
  transfers run in, with one line for every distinct transfer made from anyone that data of a root reached,
  however many paths lead there.\<close>

theorem tree_draws_each_edge_once:
  assumes "edge_graph es = (g, roots, False)" "roots \<noteq> []"
  shows "\<exists>rs. render_tree es = Some (map row_text rs) \<and> distinct (drawn_edges rs) \<and>
    set (drawn_edges rs) =
      {(s, d). (\<exists>l. (s, d, l) \<in> set es) \<and> (\<exists>r \<in> set roots. (r, s) \<in> {(a, b). \<exists>l. (a, b, l) \<in> set es}\<^sup>*)}"
proof -
  note facts = edge_graph_facts [OF assms(1)]
  have served: "served_by g = {(a, b). \<exists>l. (a, b, l) \<in> set es}" by (auto simp: served_by_def facts(1))
  obtain ex rs where w: "walk_roots g roots ([], []) = Some (ex, rs)" using walk_roots_returns by (metis surj_pair)
  have childless: "\<forall>r \<in> set roots. \<forall>v. r \<notin> set (kids g v)" using facts(1,4) by auto
  from walk_roots_walks [OF w facts(3) _ childless] have new: "set roots \<subseteq> set ex" "\<forall>v \<in> set ex. set (kids g v) \<subseteq> set ex"
    "\<forall>v \<in> set ex. \<exists>r \<in> set roots. (r, v) \<in> (served_by g)\<^sup>*" "mset (drawn_edges rs) = (\<Sum>v \<in> set ex. out_edges g v)" by auto
  have reached: "v \<in> set ex \<longleftrightarrow> (\<exists>r \<in> set roots. (r, v) \<in> (served_by g)\<^sup>*)" for v
  proof
    assume "\<exists>r \<in> set roots. (r, v) \<in> (served_by g)\<^sup>*"
    then obtain r where "r \<in> set roots" "(r, v) \<in> (served_by g)\<^sup>*" by blast
    from this(2,1) show "v \<in> set ex" by (induction rule: rtrancl_induct) (use new in \<open>auto simp: served_by_def\<close>)
  qed (use new in blast)
  have cnt: "count (mset (drawn_edges rs)) (s, d) = (if s \<in> set ex \<and> d \<in> set (kids g s) then 1 else 0)" for s d
  proof -
    have one: "count (out_edges g v) (s, d) = (if v = s \<and> d \<in> set (kids g s) then 1 else 0)" for v
    proof -
      have "distinct (map (Pair v) (kids g v))" using facts(2) by (simp add: distinct_map inj_on_def)
      then show ?thesis by (auto simp: out_edges_def distinct_count_atmost_1 simp del: mset_map)
    qed
    show ?thesis by (simp add: new(4) count_sum one sum.If_cases flip: if_if_eq_conj)
  qed
  have drawn: "set (drawn_edges rs) = {(s, d). s \<in> set ex \<and> d \<in> set (kids g s)}"
  proof -
    have "(s, d) \<in> set (drawn_edges rs) \<longleftrightarrow> s \<in> set ex \<and> d \<in> set (kids g s)" for s d
      using cnt [of s d] by (metis count_greater_zero_iff less_numeral_extra(1) less_not_refl set_mset_mset)
    then show ?thesis by (simp add: set_eq_iff)
  qed
  have "distinct (drawn_edges rs)"
    unfolding distinct_count_atmost_1 by (auto simp: cnt drawn)
  moreover note drawn
  moreover have "render_tree es = Some (map row_text rs)" using assms w by (simp add: render_tree_def tree_rows_def)
  ultimately show ?thesis using reached by (intro exI [of _ rs]) (auto simp: facts(1) served)
qed

theorem tree_draws_each_edge_once_witness:
  "\<exists>rs. render_tree [(''a'', ''b'', ''x''), (''a'', ''c'', ''x''), (''c'', ''b'', ''x'')] = Some (map row_text rs) \<and>
     distinct (drawn_edges rs) \<and> (''c'', ''b'') \<in> set (drawn_edges rs)"
proof -
  let ?es = "[(''a'', ''b'', ''x''), (''a'', ''c'', ''x''), (''c'', ''b'', ''x'')]"
  have "edge_graph ?es = ([(''a'', [''b'', ''c'']), (''c'', [''b''])], [''a''], False)"
    by (simp add: edge_graph_def add_edge_def kids_def dget_def Let_def)
  from tree_draws_each_edge_once [OF this] obtain rs where
    rs: "render_tree ?es = Some (map row_text rs)" "distinct (drawn_edges rs)"
    "set (drawn_edges rs) = {(s, d). (\<exists>l. (s, d, l) \<in> set ?es) \<and> (\<exists>r \<in> set [''a'']. (r, s) \<in> {(a, b). \<exists>l. (a, b, l) \<in> set ?es}\<^sup>*)}"
    by blast
  have "(''a'', ''c'') \<in> {(a, b). \<exists>l. (a, b, l) \<in> set ?es}\<^sup>*" by (rule r_into_rtrancl) simp
  then have "(''c'', ''b'') \<in> set (drawn_edges rs)" unfolding rs(3) by simp
  with rs(1,2) show ?thesis by blast
qed

end
