(* ===== verification/ContractCheck.thy ===== *)
theory ContractCheck
  imports Directory Text
begin

section \<open>The contract lint\<close>

text \<open>
  \<^verbatim>\<open>realsim/tools/check_contract.py\<close>: one walk over a module's syntax tree that flags what would break
  determinism and what would let a deciding module reach the executing half. The tree is \<^verbatim>\<open>ast.parse\<close>'s, with the
  node classes the visitor handles and every other node as its children in order; a path is the list of its
  parts. A violation keeps the name it is about; the sentence around it is left out.
\<close>

subsection \<open>Syntax trees and paths\<close>

record import_alias =
  al_name :: string
  al_asname :: "string option"

datatype py_node =
    Import nat "import_alias list"
  | ImportFrom nat nat string "import_alias list"
  | Attribute nat py_node string
  | Call nat py_node "py_node list" "py_node list"
  | Name string
  | Node "py_node list"

type_synonym path = "string list"

definition dots :: "string \<Rightarrow> string list" where
  "dots s = tokens CHR ''.'' s"

definition join_on :: "char \<Rightarrow> string list \<Rightarrow> string" where
  "join_on c xs = (case xs of [] \<Rightarrow> [] | y # ys \<Rightarrow> y @ concat (map (\<lambda>z. c # z) ys))"

definition bound_name :: "import_alias \<Rightarrow> string \<Rightarrow> string" where
  "bound_name a fallback = (case al_asname a of Some n \<Rightarrow> if n = [] then fallback else n | None \<Rightarrow> fallback)"

definition is_test_file :: "path \<Rightarrow> bool" where
  "is_test_file p \<longleftrightarrow> ''tests'' \<in> set p \<or> p \<noteq> [] \<and> prefix ''test_'' (last p)"

definition CONTROL_SEGMENT :: string where "CONTROL_SEGMENT = ''control''"
definition DATA_SEGMENT :: string where "DATA_SEGMENT = ''data''"
definition WORKLOAD_SEGMENT :: string where "WORKLOAD_SEGMENT = ''workload''"
definition PROPOSED_PKG :: string where "PROPOSED_PKG = ''proposed''"

definition is_control_module :: "path \<Rightarrow> bool" where
  "is_control_module p \<longleftrightarrow> CONTROL_SEGMENT \<in> set (butlast p)"

definition is_capability_data_module :: "path \<Rightarrow> bool" where
  "is_capability_data_module p \<longleftrightarrow> 1 < length p \<and> suffix ''_sim'' (hd p) \<and> DATA_SEGMENT \<in> set (butlast p)"

definition is_proposed_module :: "path \<Rightarrow> bool" where
  "is_proposed_module p \<longleftrightarrow> p \<noteq> [] \<and> hd p = PROPOSED_PKG"

text \<open>The module a relative import means; a slice past the top keeps what a negative bound keeps.\<close>

definition resolve_module :: "path \<Rightarrow> nat \<Rightarrow> string \<Rightarrow> string" where
  "resolve_module p level m =
     (if level = 0 then m
      else let package = butlast p;
               b = int (length package) - (int level - 1);
               kept = (if 1 < level then take (nat (if b < 0 then max 0 (b + int (length package)) else b)) package
                       else package)
           in join_on CHR ''.'' (if m \<noteq> [] then kept @ [m] else kept))"

subsection \<open>What is banned\<close>

definition BANNED_IMPORT_MODULES :: "string list" where
  "BANNED_IMPORT_MODULES = [''threading'', ''_thread'', ''multiprocessing'']"

definition BANNED_ALWAYS :: "string list" where
  "BANNED_ALWAYS = [''os.fork'', ''os.forkpty'', ''time.sleep'']"

definition WALLCLOCK_READS :: "string list" where
  "WALLCLOCK_READS = [''time.time'', ''time.time_ns'', ''time.perf_counter'', ''time.perf_counter_ns'',
     ''time.monotonic'', ''time.monotonic_ns'', ''time.process_time'']"

definition CONTROL_FORBIDDEN :: "string list" where
  "CONTROL_FORBIDDEN = [''torchstore.client'', ''torchstore.api'', ''torchstore.storage_volume'', ''realsim.mesh'',
     ''realsim.adapters'', ''realsim.seams'', ''proposed.plane'', ''realsim.runner'', ''sim_common'']"

definition DATA_FORBIDDEN :: "string list" where
  "DATA_FORBIDDEN = [''realsim'', ''sim_common'']"

definition CONTROL_FORBIDDEN_NAMES :: "string list" where
  "CONTROL_FORBIDDEN_NAMES = [''DataPlane'', ''Deployment'']"

definition PROPOSED_FORBIDDEN :: "string list" where
  "PROPOSED_FORBIDDEN = [''realsim'', ''sim_common'', ''dedup_sim'', ''kvcache_sim'', ''putget_sim'']"

definition BENCHMARK_TOOLS :: "path list" where
  "BENCHMARK_TOOLS = [[''realsim'', ''tools'', ''_benchmark_harness.py''],
     [''realsim'', ''tools'', ''benchmark_routing_plan.py''], [''realsim'', ''tools'', ''benchmark_weight_sync_control.py'']]"

subsection \<open>The visitor\<close>

record violation =
  vi_path :: string
  vi_line :: nat
  vi_code :: string
  vi_about :: string

record visitor =
  rel_path :: path
  allow_wallclock_reads :: bool
  is_control :: bool
  is_proposed :: bool
  is_capability_data :: bool
  module_alias :: "(string \<times> string) list"
  callable_alias :: "(string \<times> string) list"
  violations :: "violation list"

definition add_violation :: "nat \<Rightarrow> string \<Rightarrow> string \<Rightarrow> visitor \<Rightarrow> visitor" where
  "add_violation line code about v =
     v\<lparr>violations := violations v @
        [\<lparr>vi_path = join_on CHR ''/'' (rel_path v), vi_line = line, vi_code = code, vi_about = about\<rparr>]\<rparr>"

definition belongs_to :: "string \<Rightarrow> string \<Rightarrow> bool" where
  "belongs_to banned m \<longleftrightarrow> m = banned \<or> prefix (banned @ ''.'') m"

definition check_plane_import :: "string \<Rightarrow> nat \<Rightarrow> visitor \<Rightarrow> visitor" where
  "check_plane_import m line v =
     (if m = [] then v
      else if is_proposed v then
        (if \<exists>b \<in> set PROPOSED_FORBIDDEN. belongs_to b m then add_violation line ''proposed-imports-simulator'' m v else v)
      else if is_capability_data v then
        (if \<exists>b \<in> set DATA_FORBIDDEN. belongs_to b m then add_violation line ''data-imports-simulator'' m v
         else if WORKLOAD_SEGMENT \<in> set (dots m) then add_violation line ''plane-imports-workload'' m v else v)
      else if \<not> is_control v then v
      else if WORKLOAD_SEGMENT \<in> set (dots m) then add_violation line ''plane-imports-workload'' m v
      else if DATA_SEGMENT \<in> set (dots m) then add_violation line ''control-imports-data'' m v
      else if \<exists>b \<in> set CONTROL_FORBIDDEN. belongs_to b m then add_violation line ''control-imports-execution'' m v
      else v)"

definition check_canonical :: "string \<Rightarrow> nat \<Rightarrow> visitor \<Rightarrow> visitor" where
  "check_canonical canonical line v =
     (if canonical \<in> set BANNED_ALWAYS then
        add_violation line (if canonical = ''time.sleep'' then ''wallclock-sleep'' else ''fork'') canonical v
      else if canonical \<in> set WALLCLOCK_READS \<and> \<not> allow_wallclock_reads v then
        add_violation line ''wallclock-read'' canonical v
      else v)"

definition check_random_call :: "string \<Rightarrow> bool \<Rightarrow> nat \<Rightarrow> visitor \<Rightarrow> visitor" where
  "check_random_call attr has_arguments line v =
     (if attr = ''Random'' then (if has_arguments then v else add_violation line ''unseeded-random'' attr v)
      else add_violation line ''unseeded-random'' attr v)"

definition visit_alias :: "nat \<Rightarrow> import_alias \<Rightarrow> visitor \<Rightarrow> visitor" where
  "visit_alias line a v =
     (let top_name = hd (dots (al_name a));
          v1 = (if top_name \<in> set BANNED_IMPORT_MODULES then add_violation line (top_name @ ''-import'') (al_name a) v else v);
          v2 = check_plane_import (al_name a) line v1
      in v2\<lparr>module_alias := AList.update (bound_name a top_name) (al_name a) (module_alias v2)\<rparr>)"

definition visit_from :: "nat \<Rightarrow> nat \<Rightarrow> string \<Rightarrow> import_alias list \<Rightarrow> visitor \<Rightarrow> visitor" where
  "visit_from line level m names v =
     (let top_name = hd (dots m);
          v1 = (if top_name \<in> set BANNED_IMPORT_MODULES then add_violation line (top_name @ ''-import'') m v else v);
          v2 = check_plane_import (resolve_module (rel_path v) level m) line v1;
          v3 = (if is_control v then
                  fold (\<lambda>a w. if al_name a \<in> set CONTROL_FORBIDDEN_NAMES
                              then add_violation line ''control-imports-execution'' (al_name a) w else w) names v2
                else v2)
      in v3\<lparr>callable_alias := fold (\<lambda>a. AList.update (bound_name a (al_name a)) (m @ ''.'' @ al_name a)) names (callable_alias v3)\<rparr>)"

definition visit_attribute :: "nat \<Rightarrow> py_node \<Rightarrow> string \<Rightarrow> visitor \<Rightarrow> visitor" where
  "visit_attribute line x attr v =
     (case x of Name n \<Rightarrow> check_canonical (dget (module_alias v) n n @ ''.'' @ attr) line v | _ \<Rightarrow> v)"

definition visit_call :: "nat \<Rightarrow> py_node \<Rightarrow> bool \<Rightarrow> visitor \<Rightarrow> visitor" where
  "visit_call line func has_arguments v =
     (case func of
        Attribute l (Name n) attr \<Rightarrow>
          (if dget (module_alias v) n n = ''random'' then check_random_call attr has_arguments l v else v)
      | Name n \<Rightarrow> (case map_of (callable_alias v) n of None \<Rightarrow> v | Some c \<Rightarrow> check_canonical c line v)
      | _ \<Rightarrow> v)"

fun visit :: "py_node \<Rightarrow> visitor \<Rightarrow> visitor" and visit_each :: "py_node list \<Rightarrow> visitor \<Rightarrow> visitor" where
  "visit (Import line names) v = fold (visit_alias line) names v"
| "visit (ImportFrom line level m names) v = visit_from line level m names v"
| "visit (Attribute line x attr) v = visit x (visit_attribute line x attr v)"
| "visit (Call line func args keywords) v =
     visit_each keywords (visit_each args (visit func (visit_call line func (args \<noteq> [] \<or> keywords \<noteq> []) v)))"
| "visit (Name n) v = v"
| "visit (Node cs) v = visit_each cs v"
| "visit_each [] v = v"
| "visit_each (c # cs) v = visit_each cs (visit c v)"

subsection \<open>A file and a tree of files\<close>

definition violation_key :: "violation \<Rightarrow> string \<times> nat \<times> string \<times> string" where
  "violation_key x = (vi_path x, vi_line x, vi_code x, vi_about x)"

fun first_of_each :: "(string \<times> nat \<times> string) list \<Rightarrow> violation list \<Rightarrow> violation list" where
  "first_of_each seen [] = []"
| "first_of_each seen (x # xs) =
     (if (vi_path x, vi_line x, vi_code x) \<in> set seen then first_of_each seen xs
      else x # first_of_each ((vi_path x, vi_line x, vi_code x) # seen) xs)"

definition new_visitor :: "path \<Rightarrow> bool \<Rightarrow> visitor" where
  "new_visitor p is_test =
     \<lparr>rel_path = p, allow_wallclock_reads = (is_test \<or> p \<in> set BENCHMARK_TOOLS), is_control = is_control_module p,
      is_proposed = is_proposed_module p, is_capability_data = is_capability_data_module p,
      module_alias = [], callable_alias = [], violations = []\<rparr>"

definition scan_source :: "py_node \<Rightarrow> path \<Rightarrow> bool \<Rightarrow> violation list" where
  "scan_source t p is_test = sort_key violation_key (first_of_each [] (violations (visit t (new_visitor p is_test))))"

text \<open>A file is what it is called on the disk, what it is called from the repository's root, and its tree.\<close>

definition scan_files :: "(path \<times> path \<times> py_node) list \<Rightarrow> violation list" where
  "scan_files fs = sort_key violation_key (concat (map (\<lambda>(full, rel, t). scan_source t rel (is_test_file full)) fs))"

subsection \<open>Exactly the forbidden imports\<close>

definition PLANE_CODES :: "string list" where
  "PLANE_CODES = [''proposed-imports-simulator'', ''data-imports-simulator'', ''plane-imports-workload'',
     ''control-imports-data'', ''control-imports-execution'']"

text \<open>Every import statement of a tree: its line, the module it names and the names it takes from it.\<close>

fun import_sites :: "path \<Rightarrow> py_node \<Rightarrow> (nat \<times> string \<times> string list) list" where
  "import_sites p (Import line names) = map (\<lambda>a. (line, al_name a, [])) names"
| "import_sites p (ImportFrom line level m names) = [(line, resolve_module p level m, map al_name names)]"
| "import_sites p (Attribute line x attr) = import_sites p x"
| "import_sites p (Call line func args keywords) =
     import_sites p func @ concat (map (import_sites p) args) @ concat (map (import_sites p) keywords)"
| "import_sites p (Name n) = []"
| "import_sites p (Node cs) = concat (map (import_sites p) cs)"

definition forbidden_module :: "visitor \<Rightarrow> string \<Rightarrow> bool" where
  "forbidden_module v m \<longleftrightarrow> m \<noteq> [] \<and>
     (if is_proposed v then \<exists>b \<in> set PROPOSED_FORBIDDEN. belongs_to b m
      else if is_capability_data v then (\<exists>b \<in> set DATA_FORBIDDEN. belongs_to b m) \<or> WORKLOAD_SEGMENT \<in> set (dots m)
      else is_control v \<and> (WORKLOAD_SEGMENT \<in> set (dots m) \<or> DATA_SEGMENT \<in> set (dots m) \<or>
                            (\<exists>b \<in> set CONTROL_FORBIDDEN. belongs_to b m)))"

definition forbidden_site :: "visitor \<Rightarrow> string \<times> string list \<Rightarrow> bool" where
  "forbidden_site v s \<longleftrightarrow> forbidden_module v (fst s) \<or> is_control v \<and> set (snd s) \<inter> set CONTROL_FORBIDDEN_NAMES \<noteq> {}"

definition plane_lines :: "visitor \<Rightarrow> nat set" where
  "plane_lines v = vi_line ` set (filter (\<lambda>x. vi_code x \<in> set PLANE_CODES) (violations v))"

text \<open>What the walk never changes.\<close>

definition same_file :: "visitor \<Rightarrow> visitor \<Rightarrow> bool" where
  "same_file v w \<longleftrightarrow> rel_path w = rel_path v \<and> is_control w = is_control v \<and> is_proposed w = is_proposed v \<and>
     is_capability_data w = is_capability_data v \<and> allow_wallclock_reads w = allow_wallclock_reads v"

lemma same_file_forbidden: "same_file v w \<Longrightarrow> forbidden_site w = forbidden_site v"
  by (simp add: same_file_def forbidden_site_def forbidden_module_def fun_eq_iff)

lemma same_file_trans: "same_file u v \<Longrightarrow> same_file v w \<Longrightarrow> same_file u w"
  by (simp add: same_file_def)

lemma add_violation_simps [simp]:
  "rel_path (add_violation l c a v) = rel_path v" "is_control (add_violation l c a v) = is_control v"
  "is_proposed (add_violation l c a v) = is_proposed v" "is_capability_data (add_violation l c a v) = is_capability_data v"
  "allow_wallclock_reads (add_violation l c a v) = allow_wallclock_reads v"
  "module_alias (add_violation l c a v) = module_alias v" "callable_alias (add_violation l c a v) = callable_alias v"
  "plane_lines (add_violation l c a v) = (if c \<in> set PLANE_CODES then insert l (plane_lines v) else plane_lines v)"
  by (auto simp: add_violation_def plane_lines_def)

lemma plane_lines_aliases [simp]:
  "plane_lines (v\<lparr>module_alias := m\<rparr>) = plane_lines v" "plane_lines (v\<lparr>callable_alias := m\<rparr>) = plane_lines v"
  by (simp_all add: plane_lines_def)

lemmas not_plane = PLANE_CODES_def BANNED_IMPORT_MODULES_def

lemma plane_codes:
  "''proposed-imports-simulator'' \<in> set PLANE_CODES" "''data-imports-simulator'' \<in> set PLANE_CODES"
  "''plane-imports-workload'' \<in> set PLANE_CODES" "''control-imports-data'' \<in> set PLANE_CODES"
  "''control-imports-execution'' \<in> set PLANE_CODES"
  by (simp_all add: PLANE_CODES_def)

lemma plane_check:
  "same_file v (check_plane_import m l v)"
  "plane_lines (check_plane_import m l v) = plane_lines v \<union> (if forbidden_module v m then {l} else {})"
proof -
  show "same_file v (check_plane_import m l v)" by (simp add: check_plane_import_def same_file_def)
  consider "m = []" | "m \<noteq> []" "is_proposed v" | "m \<noteq> []" "\<not> is_proposed v" "is_capability_data v"
    | "m \<noteq> []" "\<not> is_proposed v" "\<not> is_capability_data v" by blast
  then show "plane_lines (check_plane_import m l v) = plane_lines v \<union> (if forbidden_module v m then {l} else {})"
    unfolding check_plane_import_def forbidden_module_def by cases (simp_all add: plane_codes)
qed

lemma plane_canonical: "same_file v (check_canonical c l v)" "plane_lines (check_canonical c l v) = plane_lines v"
  by (simp_all add: check_canonical_def same_file_def PLANE_CODES_def)

lemma plane_random: "same_file v (check_random_call a b l v)" "plane_lines (check_random_call a b l v) = plane_lines v"
  by (simp_all add: check_random_call_def same_file_def PLANE_CODES_def)

lemma plane_thread:
  assumes "w = (if t \<in> set BANNED_IMPORT_MODULES then add_violation l (t @ ''-import'') m v else v)"
  shows "same_file v w" "plane_lines w = plane_lines v"
  using assms by (auto simp: same_file_def not_plane)

lemma plane_alias:
  "same_file v (visit_alias l a v) \<and>
   plane_lines (visit_alias l a v) = plane_lines v \<union> (if forbidden_site v (al_name a, []) then {l} else {})"
proof -
  define w where "w = (if hd (dots (al_name a)) \<in> set BANNED_IMPORT_MODULES
      then add_violation l (hd (dots (al_name a)) @ ''-import'') (al_name a) v else v)"
  note pw = plane_thread [OF w_def] and pc = plane_check(1) [of w "al_name a" l] plane_check(2) [of "al_name a" l w]
  have "forbidden_module w = forbidden_module v" using pw(1) by (simp add: same_file_def forbidden_module_def fun_eq_iff)
  then show ?thesis
    using pw pc by (simp add: visit_alias_def Let_def flip: w_def) (simp add: same_file_def forbidden_site_def)
qed

lemma plane_names:
  "same_file v (fold (\<lambda>a w. if al_name a \<in> set CONTROL_FORBIDDEN_NAMES
      then add_violation l ''control-imports-execution'' (al_name a) w else w) names v) \<and>
   plane_lines (fold (\<lambda>a w. if al_name a \<in> set CONTROL_FORBIDDEN_NAMES
      then add_violation l ''control-imports-execution'' (al_name a) w else w) names v) =
     plane_lines v \<union> (if set (map al_name names) \<inter> set CONTROL_FORBIDDEN_NAMES \<noteq> {} then {l} else {})"
  by (induction names arbitrary: v) (auto simp: same_file_def PLANE_CODES_def)

lemma plane_from:
  "same_file v (visit_from l lv m names v) \<and>
   plane_lines (visit_from l lv m names v) =
     plane_lines v \<union> (if forbidden_site v (resolve_module (rel_path v) lv m, map al_name names) then {l} else {})"
proof -
  define w where "w = (if hd (dots m) \<in> set BANNED_IMPORT_MODULES then add_violation l (hd (dots m) @ ''-import'') m v else v)"
  define x where "x = check_plane_import (resolve_module (rel_path v) lv m) l w"
  note pw = plane_thread [OF w_def] and px = plane_check(1) [of w "resolve_module (rel_path v) lv m" l, folded x_def]
      plane_check(2) [of "resolve_module (rel_path v) lv m" l w, folded x_def]
    and pn = plane_names [of x l names]
  have "forbidden_module w = forbidden_module v" using pw(1) by (simp add: same_file_def forbidden_module_def fun_eq_iff)
  moreover have "is_control x = is_control v" using pw(1) px(1) by (simp add: same_file_def)
  ultimately show ?thesis
    using pw px pn
    by (simp add: visit_from_def Let_def flip: w_def x_def) (auto simp: same_file_def forbidden_site_def)
qed

definition found_in :: "visitor \<Rightarrow> (nat \<times> string \<times> string list) list \<Rightarrow> nat set" where
  "found_in v ss = fst ` set (filter (\<lambda>s. forbidden_site v (snd s)) ss)"

lemma found_in_simps [simp]:
  "found_in v [] = {}" "found_in v (xs @ ys) = found_in v xs \<union> found_in v ys"
  "found_in v (s # ss) = (if forbidden_site v (snd s) then {fst s} else {}) \<union> found_in v ss"
  by (auto simp: found_in_def)

definition finds :: "visitor \<Rightarrow> visitor \<Rightarrow> (nat \<times> string \<times> string list) list \<Rightarrow> bool" where
  "finds v w ss \<longleftrightarrow> same_file v w \<and> plane_lines w = plane_lines v \<union> found_in v ss"

lemma finds_refl [simp]: "finds v v []"
  by (simp add: finds_def same_file_def)

lemma finds_trans:
  assumes "finds v w ss" "finds w x ts"
  shows "finds v x (ss @ ts)"
proof -
  have "same_file v w" "same_file v x" using assms by (auto simp: finds_def intro: same_file_trans)
  moreover have "found_in w = found_in v"
    using \<open>same_file v w\<close> by (simp add: found_in_def same_file_forbidden fun_eq_iff)
  ultimately show ?thesis using assms by (auto simp: finds_def found_in_def)
qed

lemma finds_path: "finds v w ss \<Longrightarrow> rel_path w = rel_path v"
  by (simp add: finds_def same_file_def)

lemma finds_alias: "finds v (visit_alias l a v) [(l, al_name a, [])]"
  using plane_alias by (simp add: finds_def)

lemma finds_aliases: "finds v (fold (visit_alias l) names v) (map (\<lambda>a. (l, al_name a, [])) names)"
  using finds_trans [OF finds_alias] by (induction names arbitrary: v) fastforce+

lemma finds_attribute: "finds v (visit_attribute l x a v) []"
  using plane_canonical by (simp add: finds_def visit_attribute_def same_file_def split: py_node.splits)

lemma finds_call: "finds v (visit_call l f b v) []"
proof -
  have "same_file v (visit_call l f b v) \<and> plane_lines (visit_call l f b v) = plane_lines v"
    unfolding visit_call_def using plane_canonical plane_random
    by (auto simp: same_file_def split: py_node.split option.split)
  then show ?thesis by (simp add: finds_def)
qed

lemma finds_visit:
  "finds v (visit t v) (import_sites (rel_path v) t)"
  "finds v (visit_each ts v) (concat (map (import_sites (rel_path v)) ts))"
proof (induction t v and ts v rule: visit_visit_each.induct)
  case (1 line names v)
  show ?case using finds_aliases by simp
next
  case (2 line level m names v)
  show ?case using plane_from by (simp add: finds_def)
next
  case (3 line x attr v)
  show ?case using finds_trans [OF finds_attribute 3] finds_path [OF finds_attribute] by simp
next
  case (4 line func args kws v)
  note a = finds_trans [OF finds_call 4(1)] and path = finds_path [OF finds_call]
  note b = finds_trans [OF a 4(2)] and path2 = finds_path [OF a]
  note c = finds_trans [OF b 4(3)] and path3 = finds_path [OF b]
  show ?case using c path path2 path3 by simp
next
  case (8 c cs v)
  show ?case using finds_trans [OF 8] finds_path [OF 8(1)] by simp
qed simp_all

text \<open>Keeping the first violation of each line and code, and sorting, lose no line and no code.\<close>

definition line_code :: "violation \<Rightarrow> string \<times> nat \<times> string" where
  "line_code x = (vi_path x, vi_line x, vi_code x)"

lemma first_of_each_keys:
  "line_code ` set (first_of_each seen xs) = line_code ` set xs - set seen"
  "distinct (map line_code (first_of_each seen xs))"
  by (induction seen xs rule: first_of_each.induct) (auto simp: line_code_def image_iff)

lemma scan_keys: "line_code ` set (scan_source t p b) = line_code ` set (violations (visit t (new_visitor p b)))"
  by (simp add: scan_source_def first_of_each_keys)

lemma scan_has:
  "(\<exists>x \<in> set (scan_source t p b). Q (vi_line x) (vi_code x)) \<longleftrightarrow>
   (\<exists>x \<in> set (violations (visit t (new_visitor p b))). Q (vi_line x) (vi_code x))"
proof -
  have "(\<exists>x \<in> X. Q (vi_line x) (vi_code x)) \<longleftrightarrow> (\<exists>k \<in> line_code ` X. Q (fst (snd k)) (snd (snd k)))" for X
    by (simp add: line_code_def)
  then show ?thesis by (simp only: scan_keys)
qed

text \<open>
  The ban of each plane as a rule on paths of package names, apart from how the visitor tests it: which
  packages a file of the plane may not name anything below, which package names may stand nowhere in what
  it names, and which names it may take from no module.
\<close>

definition simulator_packages :: "path list" where
  "simulator_packages = [[''realsim''], [''sim_common'']]"

definition capability_packages :: "path list" where
  "capability_packages = [[''dedup_sim''], [''kvcache_sim''], [''putget_sim'']]"

definition executing_packages :: "path list" where
  "executing_packages =
     [[''torchstore'', ''client''], [''torchstore'', ''api''], [''torchstore'', ''storage_volume''], [''realsim'', ''mesh''],
      [''realsim'', ''adapters''], [''realsim'', ''seams''], [''proposed'', ''plane''], [''realsim'', ''runner''], [''sim_common'']]"

definition banned_packages :: "path \<Rightarrow> path list" where
  "banned_packages p =
     (if is_proposed_module p then simulator_packages @ capability_packages
      else if is_capability_data_module p then simulator_packages
      else if is_control_module p then executing_packages else [])"

definition banned_anywhere :: "path \<Rightarrow> string set" where
  "banned_anywhere p =
     (if is_proposed_module p then {}
      else if is_capability_data_module p then {''workload''}
      else if is_control_module p then {''workload'', ''data''} else {})"

definition banned_names :: "path \<Rightarrow> string set" where
  "banned_names p = (if is_control_module p then {''DataPlane'', ''Deployment''} else {})"

definition outlawed :: "path \<Rightarrow> path \<Rightarrow> bool" where
  "outlawed p m \<longleftrightarrow> (\<exists>b \<in> set (banned_packages p). prefix b m) \<or> set m \<inter> banned_anywhere p \<noteq> {}"

lemma belongs_prefix: "belongs_to b m \<longleftrightarrow> prefix (dots b) (dots m)"
proof -
  have "prefix xs ys \<longleftrightarrow> take (length xs) ys = xs" for xs ys :: "string list"
    by (metis append_eq_conv_conj prefix_def take_is_prefix)
  then show ?thesis by (simp add: belongs_to_def dots_def tokens_prefix)
qed

lemma dots_split: "dots s = split_go ''.'' [] s"
  by (simp add: dots_def split_go_tokens)

lemma dotted_bans:
  "map dots PROPOSED_FORBIDDEN = simulator_packages @ capability_packages" "map dots DATA_FORBIDDEN = simulator_packages"
  "map dots CONTROL_FORBIDDEN = executing_packages"
  by (simp_all add: PROPOSED_FORBIDDEN_def DATA_FORBIDDEN_def CONTROL_FORBIDDEN_def dots_split
      simulator_packages_def capability_packages_def executing_packages_def)

lemma bans_name_something:
  "\<forall>b \<in> set simulator_packages. \<not> prefix b [[]]" "\<forall>b \<in> set capability_packages. \<not> prefix b [[]]"
  "\<forall>b \<in> set executing_packages. \<not> prefix b [[]]"
  by (simp_all add: simulator_packages_def capability_packages_def executing_packages_def)

lemma some_belongs: "(\<exists>b \<in> set bs. belongs_to b m) \<longleftrightarrow> (\<exists>b \<in> set (map dots bs). prefix b (dots m))"
  by (simp add: belongs_prefix)

lemma forbidden_outlawed: "forbidden_module (new_visitor p b) m \<longleftrightarrow> outlawed p (dots m)"
proof (cases "m = []")
  case True
  have "dots m = [[]]" by (simp add: True dots_def)
  moreover have "[] \<notin> banned_anywhere p" by (simp add: banned_anywhere_def)
  moreover have "\<forall>b \<in> set (banned_packages p). \<not> prefix b [[]]"
    using bans_name_something by (auto simp: banned_packages_def)
  ultimately show ?thesis by (auto simp: forbidden_module_def outlawed_def True)
next
  case False
  then show ?thesis
    unfolding forbidden_module_def outlawed_def some_belongs dotted_bans banned_packages_def banned_anywhere_def
    by (auto simp: new_visitor_def WORKLOAD_SEGMENT_def DATA_SEGMENT_def)
qed

lemma forbidden_site_outlawed:
  "forbidden_site (new_visitor p b) (m, names) \<longleftrightarrow> outlawed p (dots m) \<or> (\<exists>n \<in> set names. n \<in> banned_names p)"
proof -
  have "is_control (new_visitor p b) = is_control_module p" by (simp add: new_visitor_def)
  then show ?thesis by (auto simp: forbidden_site_def forbidden_outlawed banned_names_def CONTROL_FORBIDDEN_NAMES_def)
qed

text \<open>C34: the lint flags exactly the lines with an import statement that names a module its file's plane
  bans, or takes a banned name. The module is the one the statement names: what \<^verbatim>\<open>import\<close> lists, or what
  stands after \<^verbatim>\<open>from\<close>, a relative one resolved from the file's package. It is banned when it is one of the
  plane's banned packages or lies below one, or has a banned package name anywhere in its path (\<open>workload\<close>
  for a data and a control plane, \<open>data\<close> for a control plane); a control plane may not take
  \<^verbatim>\<open>DataPlane\<close> or \<^verbatim>\<open>Deployment\<close> from any module. Statements count wherever in the file they stand; the
  report is in order and has each line and code once. A banned submodule taken by its name from a package
  above it (\<^verbatim>\<open>from realsim import mesh\<close>, \<^verbatim>\<open>from .. import data\<close>) is not a module the statement names, and
  is not flagged (\<open>package_hides_mesh\<close> below).\<close>

theorem forbidden_imports_flagged_exactly:
  "((\<exists>x \<in> set (scan_source t p b). vi_line x = line \<and> vi_code x \<in> set PLANE_CODES) \<longleftrightarrow>
     (\<exists>m names. (line, m, names) \<in> set (import_sites p t) \<and>
        (outlawed p (dots m) \<or> (\<exists>n \<in> set names. n \<in> banned_names p)))) \<and>
   sorted (map violation_key (scan_source t p b)) \<and> distinct (map line_code (scan_source t p b))"
proof (intro conjI)
  let ?v = "new_visitor p b"
  have "plane_lines (visit t ?v) = found_in ?v (import_sites p t)"
    using finds_visit(1) [of ?v t] by (simp add: finds_def new_visitor_def plane_lines_def)
  moreover have "(\<exists>x \<in> set (violations (visit t ?v)). vi_line x = line \<and> vi_code x \<in> set PLANE_CODES) \<longleftrightarrow> line \<in> plane_lines (visit t ?v)"
    by (auto simp: plane_lines_def)
  moreover have "line \<in> found_in ?v ss \<longleftrightarrow> (\<exists>m names. (line, m, names) \<in> set ss \<and> forbidden_site ?v (m, names))" for ss
    by (force simp: found_in_def)
  ultimately show "(\<exists>x \<in> set (scan_source t p b). vi_line x = line \<and> vi_code x \<in> set PLANE_CODES) \<longleftrightarrow>
     (\<exists>m names. (line, m, names) \<in> set (import_sites p t) \<and>
        (outlawed p (dots m) \<or> (\<exists>n \<in> set names. n \<in> banned_names p)))"
    using scan_has [of t p b "\<lambda>l c. l = line \<and> c \<in> set PLANE_CODES"] by (simp add: forbidden_site_outlawed)
  show "sorted (map violation_key (scan_source t p b))" by (simp add: scan_source_def)
  have "mset (map line_code (scan_source t p b)) = mset (map line_code (first_of_each [] (violations (visit t ?v))))"
    by (simp add: scan_source_def)
  then show "distinct (map line_code (scan_source t p b))"
    by (metis first_of_each_keys(2) mset_eq_imp_distinct_iff)
qed

subsection \<open>Uses of a banned name\<close>

text \<open>Every attribute read off a plain name, and what every plain import binds.\<close>

fun attribute_uses :: "py_node \<Rightarrow> (nat \<times> string \<times> string) list" where
  "attribute_uses (Import line names) = []"
| "attribute_uses (ImportFrom line level m names) = []"
| "attribute_uses (Attribute line x attr) = (case x of Name n \<Rightarrow> [(line, n, attr)] | _ \<Rightarrow> []) @ attribute_uses x"
| "attribute_uses (Call line func args keywords) =
     attribute_uses func @ concat (map attribute_uses args) @ concat (map attribute_uses keywords)"
| "attribute_uses (Name n) = []"
| "attribute_uses (Node cs) = concat (map attribute_uses cs)"

fun plain_bindings :: "py_node \<Rightarrow> (string \<times> string) list" where
  "plain_bindings (Import line names) = map (\<lambda>a. (bound_name a (hd (dots (al_name a))), al_name a)) names"
| "plain_bindings (ImportFrom line level m names) = []"
| "plain_bindings (Attribute line x attr) = plain_bindings x"
| "plain_bindings (Call line func args keywords) =
     plain_bindings func @ concat (map plain_bindings args) @ concat (map plain_bindings keywords)"
| "plain_bindings (Name n) = []"
| "plain_bindings (Node cs) = concat (map plain_bindings cs)"

definition banned_use :: "visitor \<Rightarrow> string \<Rightarrow> bool" where
  "banned_use v c \<longleftrightarrow> c \<in> set BANNED_ALWAYS \<or> c \<in> set WALLCLOCK_READS \<and> \<not> allow_wallclock_reads v"

definition use_lines :: "visitor \<Rightarrow> nat set" where
  "use_lines v = vi_line ` set (filter (\<lambda>x. vi_code x \<in> {''wallclock-sleep'', ''fork'', ''wallclock-read''}) (violations v))"

text \<open>A walk that keeps what it has found, and leaves a name that is bound to its own module bound to it.\<close>

definition keeps_name :: "string \<Rightarrow> visitor \<Rightarrow> visitor \<Rightarrow> bool" where
  "keeps_name n v w \<longleftrightarrow> set (violations v) \<subseteq> set (violations w) \<and> allow_wallclock_reads w = allow_wallclock_reads v \<and>
     (dget (module_alias v) n n = n \<longrightarrow> dget (module_alias w) n n = n)"

lemma keeps_name_trans: "keeps_name n u v \<Longrightarrow> keeps_name n v w \<Longrightarrow> keeps_name n u w"
  by (auto simp: keeps_name_def)

lemma keeps_name_refl [simp]: "keeps_name n v v"
  by (simp add: keeps_name_def)

lemma keeps_add: "keeps_name n v (add_violation l c a v)"
  by (auto simp: keeps_name_def add_violation_def)

lemma keeps_checks:
  "keeps_name n v (check_plane_import m l v)" "keeps_name n v (check_canonical m l v)" "keeps_name n v (check_random_call m b l v)"
  using keeps_add by (simp_all add: check_plane_import_def check_canonical_def check_random_call_def)

definition own_name :: "string \<Rightarrow> (string \<times> string) list \<Rightarrow> bool" where
  "own_name n bs \<longleftrightarrow> (\<forall>b \<in> set bs. fst b = n \<longrightarrow> snd b = n)"

lemma own_name_simps [simp]:
  "own_name n []" "own_name n (xs @ ys) \<longleftrightarrow> own_name n xs \<and> own_name n ys"
  "own_name n (x # xs) \<longleftrightarrow> (fst x = n \<longrightarrow> snd x = n) \<and> own_name n xs"
  by (auto simp: own_name_def)

lemma keeps_alias:
  assumes "bound_name a (hd (dots (al_name a))) = n \<longrightarrow> al_name a = n"
  shows "keeps_name n v (visit_alias l a v)"
proof -
  define w where "w = check_plane_import (al_name a) l (if hd (dots (al_name a)) \<in> set BANNED_IMPORT_MODULES
      then add_violation l (hd (dots (al_name a)) @ ''-import'') (al_name a) v else v)"
  have "keeps_name n v w"
    unfolding w_def by (rule keeps_name_trans [OF _ keeps_checks(1)]) (simp add: keeps_add)
  moreover have "keeps_name n w (w\<lparr>module_alias := AList.update (bound_name a (hd (dots (al_name a)))) (al_name a) (module_alias w)\<rparr>)"
    using assms by (auto simp: keeps_name_def dget_def update_conv' split: option.splits)
  ultimately show ?thesis unfolding visit_alias_def Let_def w_def by (rule keeps_name_trans)
qed

lemma keeps_from: "keeps_name n v (visit_from l lv m names v)"
proof -
  define w where "w = check_plane_import (resolve_module (rel_path v) lv m) l (if hd (dots m) \<in> set BANNED_IMPORT_MODULES
      then add_violation l (hd (dots m) @ ''-import'') m v else v)"
  have "keeps_name n v w"
    unfolding w_def by (rule keeps_name_trans [OF _ keeps_checks(1)]) (simp add: keeps_add)
  moreover have "keeps_name n w (fold (\<lambda>a w. if al_name a \<in> set CONTROL_FORBIDDEN_NAMES
      then add_violation l ''control-imports-execution'' (al_name a) w else w) names w)" for w
    by (induction names arbitrary: w) (auto intro: keeps_name_trans [OF keeps_add])
  ultimately have "keeps_name n v (if is_control v then fold (\<lambda>a w. if al_name a \<in> set CONTROL_FORBIDDEN_NAMES
      then add_violation l ''control-imports-execution'' (al_name a) w else w) names w else w)"
    by (auto intro: keeps_name_trans)
  then show ?thesis by (simp add: visit_from_def Let_def keeps_name_def flip: w_def split: if_splits)
qed

lemma keeps_uses: "keeps_name n v (visit_attribute l x a v)" "keeps_name n v (visit_call l f b v)"
  using keeps_checks by (auto simp: visit_attribute_def visit_call_def split: py_node.split option.split)

lemma keeps_visit:
  "own_name n (plain_bindings t) \<Longrightarrow> keeps_name n v (visit t v)"
  "own_name n (concat (map plain_bindings ts)) \<Longrightarrow> keeps_name n v (visit_each ts v)"
proof (induction t v and ts v rule: visit_visit_each.induct)
  case (1 line names v)
  then show ?case
  proof (induction names arbitrary: v)
    case (Cons a names)
    then have "keeps_name n v (visit_alias line a v)" by (intro keeps_alias) simp
    with Cons show ?case by (auto intro: keeps_name_trans)
  qed simp
next
  case (3 line x attr v)
  then show ?case using keeps_name_trans [OF keeps_uses(1)] by simp
next
  case (4 line func args kws v)
  have own: "own_name n (plain_bindings func)" "own_name n (concat (map plain_bindings args))" "own_name n (concat (map plain_bindings kws))"
    using 4(4) by simp_all
  note k = keeps_name_trans [OF keeps_name_trans [OF keeps_name_trans [OF keeps_uses(2) 4(1) [OF own(1)]] 4(2) [OF own(2)]] 4(3) [OF own(3)]]
  show ?case unfolding visit.simps by (rule k)
next
  case (8 c cs v)
  then show ?case by (auto intro: keeps_name_trans)
qed (simp_all add: keeps_from)

lemma use_lines_mono: "keeps_name n v w \<Longrightarrow> use_lines v \<subseteq> use_lines w"
  by (auto simp: keeps_name_def use_lines_def)

lemma use_lines_add:
  "c \<in> {''wallclock-sleep'', ''fork'', ''wallclock-read''} \<Longrightarrow> l \<in> use_lines (add_violation l c a v)"
  by (simp add: use_lines_def add_violation_def)

lemma canonical_flags: "banned_use v c \<Longrightarrow> l \<in> use_lines (check_canonical c l v)"
  by (auto simp: banned_use_def check_canonical_def use_lines_add)

lemma use_found:
  "own_name n (plain_bindings t) \<Longrightarrow> dget (module_alias v) n n = n \<Longrightarrow> (line, n, attr) \<in> set (attribute_uses t) \<Longrightarrow>
     banned_use v (n @ ''.'' @ attr) \<Longrightarrow> line \<in> use_lines (visit t v)"
  "own_name n (concat (map plain_bindings ts)) \<Longrightarrow> dget (module_alias v) n n = n \<Longrightarrow>
     (line, n, attr) \<in> set (concat (map attribute_uses ts)) \<Longrightarrow>
     banned_use v (n @ ''.'' @ attr) \<Longrightarrow> line \<in> use_lines (visit_each ts v)"
proof (induction t v and ts v rule: visit_visit_each.induct)
  case (3 l x a v)
  show ?case
  proof (cases "x = Name n \<and> l = line \<and> a = attr")
    case True
    with 3(3,5) canonical_flags [of v "n @ ''.'' @ attr" line] show ?thesis by (simp add: visit_attribute_def)
  next
    case False
    with 3(4) have "(line, n, attr) \<in> set (attribute_uses x)" by (auto split: py_node.splits)
    moreover have "banned_use (visit_attribute l x a v) (n @ ''.'' @ attr)" "dget (module_alias (visit_attribute l x a v)) n n = n"
      using 3(3,5) keeps_uses(1) [of n v l x a] by (auto simp: keeps_name_def banned_use_def)
    ultimately show ?thesis using 3(1,2) by simp
  qed
next
  case (4 l func args kws v)
  let ?v = "visit_call l func (args \<noteq> [] \<or> kws \<noteq> []) v"
  have own: "own_name n (plain_bindings func)" "own_name n (concat (map plain_bindings args))" "own_name n (concat (map plain_bindings kws))"
    using 4(4) by simp_all
  have k: "keeps_name n v ?v" "keeps_name n ?v (visit func ?v)" "keeps_name n (visit func ?v) (visit_each args (visit func ?v))"
    "keeps_name n (visit_each args (visit func ?v)) (visit_each kws (visit_each args (visit func ?v)))"
    using keeps_uses keeps_visit own by blast+
  have b: "banned_use w (n @ ''.'' @ attr)" "dget (module_alias w) n n = n" if "keeps_name n v w" for w
    using that 4(5,7) by (auto simp: keeps_name_def banned_use_def)
  note k2 = keeps_name_trans [OF k(1,2)] and k3 = keeps_name_trans [OF keeps_name_trans [OF k(1,2)] k(3)]
  from 4(6) consider "(line, n, attr) \<in> set (attribute_uses func)" | "(line, n, attr) \<in> set (concat (map attribute_uses args))"
    | "(line, n, attr) \<in> set (concat (map attribute_uses kws))" by auto
  then show ?case
  proof cases
    case 1
    with 4(1) [OF own(1)] b [OF k(1)] have "line \<in> use_lines (visit func ?v)" by blast
    with use_lines_mono [OF k(3)] use_lines_mono [OF k(4)] show ?thesis by auto
  next
    case 2
    with 4(2) [OF own(2)] b [OF k2] have "line \<in> use_lines (visit_each args (visit func ?v))" by blast
    with use_lines_mono [OF k(4)] show ?thesis by auto
  next
    case 3
    with 4(3) [OF own(3)] b [OF k3] show ?thesis by simp
  qed
next
  case (8 c cs v)
  have own: "own_name n (plain_bindings c)" "own_name n (concat (map plain_bindings cs))" using 8(3) by simp_all
  have k: "keeps_name n v (visit c v)" "keeps_name n (visit c v) (visit_each cs (visit c v))" using keeps_visit own by blast+
  from 8(5) consider "(line, n, attr) \<in> set (attribute_uses c)" | "(line, n, attr) \<in> set (concat (map attribute_uses cs))" by auto
  then show ?case
  proof cases
    case 1
    with 8(1) [OF own(1) 8(4) _ 8(6)] use_lines_mono [OF k(2)] show ?thesis by auto
  next
    case 2
    have "banned_use (visit c v) (n @ ''.'' @ attr)" "dget (module_alias (visit c v)) n n = n"
      using 8(4,6) k(1) by (auto simp: keeps_name_def banned_use_def)
    with 8(2) [OF own(2)] 2 show ?thesis by simp
  qed
qed auto

text \<open>A read of the wall clock, a sleep on it or a fork written as an attribute of its module is flagged
  wherever it stands, as long as no plain import of the file binds that module's name to something else.\<close>

theorem plain_use_flagged:
  assumes "\<forall>(bound, m) \<in> set (plain_bindings t). bound = n \<longrightarrow> m = n"
    and "(line, n, attr) \<in> set (attribute_uses t)"
    and "n @ ''.'' @ attr \<in> set BANNED_ALWAYS \<or> n @ ''.'' @ attr \<in> set WALLCLOCK_READS \<and> \<not> is_test \<and> p \<notin> set BENCHMARK_TOOLS"
  shows "\<exists>x \<in> set (scan_source t p is_test). vi_line x = line \<and> vi_code x \<in> {''wallclock-sleep'', ''fork'', ''wallclock-read''}"
proof -
  have "own_name n (plain_bindings t)" using assms(1) by (auto simp: own_name_def)
  moreover have "banned_use (new_visitor p is_test) (n @ ''.'' @ attr)" using assms(3) by (auto simp: banned_use_def new_visitor_def)
  moreover have "dget (module_alias (new_visitor p is_test)) n n = n" by (simp add: new_visitor_def dget_def)
  ultimately have "line \<in> use_lines (visit t (new_visitor p is_test))" using use_found(1) assms(2) by blast
  then show ?thesis
    using scan_has [of t p is_test "\<lambda>l c. l = line \<and> c \<in> {''wallclock-sleep'', ''fork'', ''wallclock-read''}"]
    by (auto simp: use_lines_def)
qed

subsection \<open>What it does not see\<close>

text \<open>An import of a submodule binds the package's name, and hides the package's own functions. A module named
  as what is imported, rather than as what it is imported from, is not looked at. A banned class taken from
  \<^verbatim>\<open>random\<close> by name is not recognised. A checkout below a directory called \<^verbatim>\<open>tests\<close> is all tests.\<close>

lemma submodule_hides_fork:
  "scan_source (Node [Import 1 [\<lparr>al_name = ''os.path'', al_asname = None\<rparr>], Call 2 (Attribute 2 (Name ''os'') ''fork'') [] []])
     [''sim_common'', ''engine.py''] False = []"
  by (simp add: scan_source_def new_visitor_def visit_alias_def visit_call_def visit_attribute_def bound_name_def dots_def
      BANNED_IMPORT_MODULES_def check_plane_import_def is_control_module_def is_proposed_module_def is_capability_data_module_def
      CONTROL_SEGMENT_def PROPOSED_PKG_def DATA_SEGMENT_def suffix_def check_canonical_def BANNED_ALWAYS_def WALLCLOCK_READS_def
      dget_def Let_def)

lemma package_hides_mesh:
  "scan_source (ImportFrom 1 0 ''realsim'' [\<lparr>al_name = ''mesh'', al_asname = None\<rparr>]) [''kvcache_sim'', ''control'', ''x.py''] False = []"
  "scan_source (ImportFrom 1 2 [] [\<lparr>al_name = ''data'', al_asname = None\<rparr>]) [''kvcache_sim'', ''control'', ''x.py''] False = []"
  by (simp_all add: join_on_def scan_source_def new_visitor_def visit_from_def bound_name_def dots_def resolve_module_def
      BANNED_IMPORT_MODULES_def check_plane_import_def is_control_module_def is_proposed_module_def is_capability_data_module_def
      CONTROL_SEGMENT_def PROPOSED_PKG_def DATA_SEGMENT_def WORKLOAD_SEGMENT_def CONTROL_FORBIDDEN_def belongs_to_def
      CONTROL_FORBIDDEN_NAMES_def suffix_def Let_def)

lemma from_random_unseen:
  "scan_source (Node [ImportFrom 1 0 ''random'' [\<lparr>al_name = ''SystemRandom'', al_asname = None\<rparr>], Call 2 (Name ''SystemRandom'') [] []])
     [''sim_common'', ''engine.py''] False = []"
  by (simp add: scan_source_def new_visitor_def visit_from_def visit_call_def bound_name_def dots_def resolve_module_def
      BANNED_IMPORT_MODULES_def check_plane_import_def is_control_module_def is_proposed_module_def is_capability_data_module_def
      CONTROL_SEGMENT_def PROPOSED_PKG_def DATA_SEGMENT_def check_canonical_def BANNED_ALWAYS_def WALLCLOCK_READS_def suffix_def Let_def)

lemma tests_directory_excuses: "is_test_file [''/'', ''srv'', ''tests'', ''toso'', ''sim_common'', ''engine.py'']"
  by (simp add: is_test_file_def)

theorem plain_use_flagged_witness:
  "\<exists>x \<in> set (scan_source (Node [Import 1 [\<lparr>al_name = ''time'', al_asname = None\<rparr>], Call 2 (Attribute 2 (Name ''time'') ''time'') [] []])
     [''sim_common'', ''engine.py''] False). vi_line x = 2 \<and> vi_code x \<in> {''wallclock-sleep'', ''fork'', ''wallclock-read''}"
  by (rule plain_use_flagged [where n = "''time''" and attr = "''time''"])
    (simp_all add: bound_name_def dots_def BANNED_ALWAYS_def WALLCLOCK_READS_def BENCHMARK_TOOLS_def)

end
