(* ===== verification/StructureCheck.thy ===== *)
theory StructureCheck
  imports ContractCheck
begin

section \<open>The structure lint\<close>

text \<open>
  \<^verbatim>\<open>realsim/tools/check_structure.py\<close>: the rules on what a package is. The checkout is the list of its files,
  each a path below the root, and the trees of its Python sources; a violation keeps the names it is about. How a
  README's layout block is found, a regular expression, is an argument.
\<close>

subsection \<open>Syntax trees\<close>

text \<open>\<^verbatim>\<open>ast\<close>'s nodes as far as a rule tells them apart, every other node being its children in order. A function's parameters are its
  positional and keyword-only ones; the starred ones are among its other children.\<close>

datatype snode =
    SImport "import_alias list"
  | SImportFrom nat string "import_alias list"
  | SName string
  | SAttr nat snode string
  | SSubscript snode "snode list"
  | SConst "string option"
  | SColl "snode list"
  | SCall nat snode "snode list" "snode list"
  | SAssign nat "snode list" snode
  | SAugAssign nat snode snode
  | SAnnAssign nat snode snode "snode list"
  | SDelete "snode list"
  | SIf snode "snode list"
  | SArg string "snode list"
  | SFunc bool nat string "snode list" "snode list" "snode list"
  | SClass string "snode list" "snode list" "snode list" "snode list"
  | SOther "snode list"

fun node_children :: "snode \<Rightarrow> snode list" where
  "node_children (SImport names) = []"
| "node_children (SImportFrom level m names) = []"
| "node_children (SName x) = []"
| "node_children (SAttr line v attr) = [v]"
| "node_children (SSubscript v index) = v # index"
| "node_children (SConst c) = []"
| "node_children (SColl xs) = xs"
| "node_children (SCall line f args keywords) = f # args @ keywords"
| "node_children (SAssign line targets v) = targets @ [v]"
| "node_children (SAugAssign line t v) = [t, v]"
| "node_children (SAnnAssign line t annotation v) = t # annotation # v"
| "node_children (SDelete targets) = targets"
| "node_children (SIf test body) = test # body"
| "node_children (SArg name annotation) = annotation"
| "node_children (SFunc async line name args other body) = args @ body @ other"
| "node_children (SClass name bases keywords body decorators) = bases @ keywords @ body @ decorators"
| "node_children (SOther xs) = xs"

lemma children_size: "(\<Sum>c\<leftarrow>node_children n. Suc (2 * size c)) \<le> 2 * size n"
proof -
  have each: "2 * size_list size xs = (\<Sum>c\<leftarrow>xs. Suc (2 * size c)) + length xs" for xs :: "snode list"
    by (induction xs) auto
  show ?thesis by (cases n) (simp_all add: each)
qed

lemma child_smaller: "c \<in> set (node_children n) \<Longrightarrow> size c < size n"
proof -
  assume "c \<in> set (node_children n)"
  then have "Suc (2 * size c) \<le> (\<Sum>c\<leftarrow>node_children n. Suc (2 * size c))" by (intro member_le_sum_list) auto
  then show ?thesis using children_size [of n] by simp
qed

text \<open>\<^verbatim>\<open>ast.walk\<close>: breadth first.\<close>

function ast_queue :: "snode list \<Rightarrow> snode list" where
  "ast_queue [] = []"
| "ast_queue (n # todo) = n # ast_queue (todo @ node_children n)"
  by pat_completeness auto
termination
proof (relation "measure (\<lambda>q. \<Sum>n\<leftarrow>q. Suc (2 * size n))")
  show "(todo @ node_children n, n # todo) \<in> measure (\<lambda>q. \<Sum>n\<leftarrow>q. Suc (2 * size n))" for n todo
    using children_size [of n] by simp
qed simp

definition ast_walk :: "snode \<Rightarrow> snode list" where
  "ast_walk n = ast_queue [n]"

definition walk_tree :: "snode list \<Rightarrow> snode list" where
  "walk_tree body = ast_walk (SOther body)"

subsection \<open>The checkout\<close>

record checkout =
  co_root :: path
  co_files :: "path list"
  co_trees :: "(path \<times> snode list) list"

definition SIM_SUFFIX :: string where "SIM_SUFFIX = ''_sim''"
definition DEPLOYMENT_MOD :: string where "DEPLOYMENT_MOD = PROPOSED_PKG @ ''.deployment''"
definition REQUIRED_FILES :: "string list" where "REQUIRED_FILES = [''__init__.py'', ''__main__.py'', ''README.md'']"
definition REQUIRED_DIRS :: "string list" where "REQUIRED_DIRS = [''workload'', ''report'']"
definition PLANE_DIRS :: "string list" where "PLANE_DIRS = [''control'', ''data'']"
definition GRAPH_PKGS :: "string list" where
  "GRAPH_PKGS = [''dedup_sim'', ''domain'', ''kvcache_sim'', ''proposed'', ''putget_sim'', ''realsim'', ''sim_common'']"
definition SEND_MODES :: "string list" where
  "SEND_MODES = [''call'', ''call_one'', ''broadcast'', ''choose'', ''stream'']"
definition MUTATING_CALLS :: "string list" where
  "MUTATING_CALLS = [''add'', ''append'', ''clear'', ''discard'', ''extend'', ''pop'', ''popitem'', ''remove'',
     ''setdefault'', ''update'']"
definition PUBLIC_ANYWAY :: "string list" where
  "PUBLIC_ANYWAY = [''proposed'', ''realsim/mesh.py'', ''realsim/simulation.py'', ''realsim/demo.py'', ''realsim/run.py'',
     ''realsim/tools/check_contract.py'', ''realsim/tools/check_structure.py'',
     ''realsim/tools/benchmark_weight_sync_control.py'', ''realsim/tools/text_diagram.py'', ''realsim/tools/parity.py'',
     ''sim_common/engine.py'', ''sim_common/diverge.py'', ''sim_common/config.py'']"
definition PUBLIC_NAMES :: "string list" where
  "PUBLIC_NAMES = [''sim_common/async_engine.py:run_sim'', ''realsim/seams/factory.py:current_owner'']"

definition path_text :: "path \<Rightarrow> string" where
  "path_text p = join_on CHR ''/'' p"

definition flag :: "string \<Rightarrow> nat \<Rightarrow> string \<Rightarrow> string \<Rightarrow> violation" where
  "flag p line code about = \<lparr>vi_path = p, vi_line = line, vi_code = code, vi_about = about\<rparr>"

abbreviation in_order :: "violation list \<Rightarrow> violation list" where
  "in_order \<equiv> sort_key violation_key"

definition sources_in :: "checkout \<Rightarrow> string \<Rightarrow> path list" where
  "sources_in c pkg = sort (filter (\<lambda>p. 1 < length p \<and> hd p = pkg \<and> suffix ''.py'' (last p)) (map fst (co_trees c)))"

definition plain_name :: "path \<Rightarrow> string" where
  "plain_name p = join_on CHR ''.'' (butlast p @ [take (length (last p) - 3) (last p)])"

definition dotted_name :: "path \<Rightarrow> string" where
  "dotted_name p =
     (let d = plain_name p;
          tail = ''.__init__''
      in if suffix tail d then take (length d - length tail) d else d)"

definition module_map :: "checkout \<Rightarrow> string list \<Rightarrow> (string \<times> path) list" where
  "module_map c pkgs =
     dict_of (map (\<lambda>p. (dotted_name p, p))
       (concat (map (\<lambda>pkg. filter (\<lambda>p. ''__pycache__'' \<notin> set (co_root c @ p)) (sources_in c pkg)) pkgs)))"

definition tree_of :: "checkout \<Rightarrow> path \<Rightarrow> snode list" where
  "tree_of c p = dget (co_trees c) p []"

definition is_test :: "string \<Rightarrow> bool" where
  "is_test dotted \<longleftrightarrow> ''tests'' \<in> set (dots dotted) \<or> prefix ''test_'' (last (dots dotted))"

subsection \<open>Rule 1: the parts of a package\<close>

definition sim_packages :: "checkout \<Rightarrow> string list" where
  "sim_packages c =
     sort (remdups (map hd (filter (\<lambda>p. 1 < length p \<and> suffix SIM_SUFFIX (hd p) \<and> [hd p, ''__init__.py''] \<in> set (co_files c))
       (co_files c))))"

definition has_part :: "checkout \<Rightarrow> string \<Rightarrow> string \<Rightarrow> bool" where
  "has_part c pkg d \<longleftrightarrow> [pkg, d, ''__init__.py''] \<in> set (co_files c)"

definition package_parts :: "checkout \<Rightarrow> string \<Rightarrow> violation list" where
  "package_parts c pkg =
     (let present = filter (has_part c pkg) PLANE_DIRS in
      map (flag (pkg @ ''/'') 0 ''missing-part'') (filter (\<lambda>f. [pkg, f] \<notin> set (co_files c)) REQUIRED_FILES) @
      map (flag (pkg @ ''/'') 0 ''missing-part'') (filter (\<lambda>d. \<not> has_part c pkg d) REQUIRED_DIRS) @
      (if length present = 1 then [flag (pkg @ ''/'') 0 ''half-a-plane-split'' (hd present)] else []))"

definition check_package_parts :: "checkout \<Rightarrow> violation list" where
  "check_package_parts c = in_order (concat (map (package_parts c) (sim_packages c)))"

subsection \<open>Rule 4: a module's surface\<close>

definition underscored :: "string \<Rightarrow> bool" where
  "underscored name \<longleftrightarrow> prefix ''_'' name"

fun public_def :: "snode \<Rightarrow> string list" where
  "public_def (SClass name bases keywords body decorators) = (if underscored name then [] else [name])"
| "public_def (SFunc async line name args other body) = (if underscored name then [] else [name])"
| "public_def (SAssign line targets v) =
     concat (map (\<lambda>t. case t of SName x \<Rightarrow> if underscored x \<or> x = ''__all__'' then [] else [x] | _ \<Rightarrow> []) targets)"
| "public_def (SAnnAssign line (SName x) annotation v) = (if underscored x then [] else [x])"
| "public_def _ = []"

definition once :: "'a list \<Rightarrow> 'a list" where
  "once xs = rev (remdups (rev xs))"

definition public_defs :: "snode list \<Rightarrow> string list" where
  "public_defs body = once (concat (map public_def body))"

text \<open>An entry of the list that is not a string is not looked into: it is the error.\<close>

definition listed :: "snode \<Rightarrow> string res" where
  "listed e = (case e of SConst (Some s) \<Rightarrow> Inr s | _ \<Rightarrow> Inl AttributeError)"

fun declared_all :: "snode list \<Rightarrow> string list option res" where
  "declared_all [] = Inr None"
| "declared_all (SAssign line targets v # body) =
     (if SName ''__all__'' \<in> set targets then
        (case v of SColl es \<Rightarrow> bindr (res_map listed es) (\<lambda>names. Inr (Some names)) | _ \<Rightarrow> Inl AttributeError)
      else declared_all body)"
| "declared_all (_ # body) = declared_all body"

definition import_binds :: "snode \<Rightarrow> string list" where
  "import_binds n =
     (case n of
        SImport names \<Rightarrow> map (\<lambda>a. bound_name a (hd (dots (al_name a)))) names
      | SImportFrom level m names \<Rightarrow> map (\<lambda>a. bound_name a (al_name a)) names
      | _ \<Rightarrow> [])"

definition module_exports :: "path \<Rightarrow> snode list \<Rightarrow> violation list res" where
  "module_exports p body =
     (let defined = public_defs body in
      if defined = [] then Inr []
      else bindr (declared_all body) (\<lambda>declared.
        case declared of
          None \<Rightarrow> Inr [flag (path_text p) 0 ''missing-all'' (join_on CHR '','' defined)]
        | Some names \<Rightarrow>
            let known = set defined \<union> set (concat (map import_binds (walk_tree body))) in
            Inr (map (flag (path_text p) 0 ''all-names-nothing'') (filter (\<lambda>x. x \<notin> known) names) @
                 map (flag (path_text p) 0 ''all-omits-public'') (filter (\<lambda>x. x \<notin> set names) defined))))"

definition exports_checked :: "checkout \<Rightarrow> path \<Rightarrow> bool" where
  "exports_checked c p \<longleftrightarrow> ''__pycache__'' \<notin> set (co_root c @ p) \<and> ''tests'' \<notin> set (co_root c @ p) \<and>
     last p \<noteq> ''__init__.py'' \<and> last p \<noteq> ''__main__.py''"

definition check_module_exports :: "checkout \<Rightarrow> violation list res" where
  "check_module_exports c =
     bindr (res_map (\<lambda>p. module_exports p (tree_of c p)) (filter (exports_checked c) (concat (map (sources_in c) GRAPH_PKGS))))
       (\<lambda>vs. Inr (in_order (concat vs)))"

subsection \<open>Rules 2 and 5: private modules and functions\<close>

definition from_module :: "path \<Rightarrow> nat \<Rightarrow> string \<Rightarrow> string" where
  "from_module p level m = resolve_module p level m"

text \<open>What a package's own module takes from elsewhere, under the name it takes it.\<close>

definition reexports_of :: "string \<times> path \<Rightarrow> snode \<Rightarrow> ((string \<times> string) \<times> string) list" where
  "reexports_of dr n =
     (case n of SImportFrom level m names \<Rightarrow>
        map (\<lambda>a. ((fst dr, bound_name a (al_name a)), from_module (snd dr) level m)) names | _ \<Rightarrow> [])"

definition is_package_file :: "path \<Rightarrow> bool" where
  "is_package_file p \<longleftrightarrow> last p = ''__init__.py''"

definition reexport_map :: "checkout \<Rightarrow> (string \<times> path) list \<Rightarrow> ((string \<times> string) \<times> string) list" where
  "reexport_map c mods =
     dict_of (concat (map (\<lambda>(d, p). concat (map (reexports_of (d, p)) (walk_tree (tree_of c p))))
       (filter (\<lambda>(d, p). is_package_file p) mods)))"

definition import_targets ::
  "(string \<times> path) list \<Rightarrow> ((string \<times> string) \<times> string) list \<Rightarrow> path \<Rightarrow> snode \<Rightarrow> string list" where
  "import_targets mods re p n =
     (case n of
        SImportFrom level m names \<Rightarrow>
          (let base = from_module p level m in
           concat (map (\<lambda>a. let target = base @ ''.'' @ al_name a in
             if target \<in> set (dkeys mods) then [target]
             else case map_of re (base, al_name a) of
               Some src \<Rightarrow> [src]
             | None \<Rightarrow> if base \<in> set (dkeys mods) then [base] else []) names))
      | SImport names \<Rightarrow> filter (\<lambda>x. x \<in> set (dkeys mods)) (map al_name names)
      | _ \<Rightarrow> [])"

text \<open>Pairs of a module and one that imports it.\<close>

definition import_graph :: "checkout \<Rightarrow> string list \<Rightarrow> (string \<times> path) list \<times> (string \<times> string) list" where
  "import_graph c pkgs =
     (let mods = module_map c pkgs; re = reexport_map c mods in
      (mods, concat (map (\<lambda>(d, p). map (\<lambda>target. (target, d)) (concat (map (import_targets mods re p) (walk_tree (tree_of c p))))) mods)))"

definition importers_of :: "(string \<times> string) list \<Rightarrow> string \<Rightarrow> string list" where
  "importers_of edges m = map snd (filter (\<lambda>e. fst e = m) edges)"

definition public_anyway :: "path \<Rightarrow> bool" where
  "public_anyway p \<longleftrightarrow> path_text p \<in> set PUBLIC_ANYWAY \<or> hd p \<in> set PUBLIC_ANYWAY"

definition check_private_naming :: "checkout \<Rightarrow> string list \<Rightarrow> violation list" where
  "check_private_naming c pkgs =
     (case import_graph c pkgs of (mods, edges) \<Rightarrow>
        in_order (concat (map (\<lambda>(d, p).
          if last p = ''__init__.py'' \<or> last p = ''__main__.py'' \<or> is_test d \<or> underscored (last p) \<or> public_anyway p then []
          else let imps = importers_of edges d in
            if imps = [] then []
            else if \<exists>s \<in> set imps. \<not> is_test s \<and> butlast (dget mods s []) \<noteq> butlast p then []
            else [flag (path_text p) 0 ''public-name-private-module'' (path_text (butlast p))])
          (sort_key fst mods))))"

text \<open>Which local names of a module stand for modules, the last binding winning.\<close>

definition module_bindings :: "(string \<times> path) list \<Rightarrow> path \<Rightarrow> snode \<Rightarrow> (string \<times> string) list" where
  "module_bindings mods p n =
     (case n of
        SImportFrom level m names \<Rightarrow>
          concat (map (\<lambda>a. let target = from_module p level m @ ''.'' @ al_name a in
            if target \<in> set (dkeys mods) then [(bound_name a (al_name a), target)] else []) names)
      | SImport names \<Rightarrow>
          concat (map (\<lambda>a. if al_name a \<in> set (dkeys mods) \<and> (bound_name a [] \<noteq> [] \<or> CHR ''.'' \<notin> set (al_name a))
            then [(bound_name a (al_name a), al_name a)] else []) names)
      | _ \<Rightarrow> [])"

definition names_taken :: "(string \<times> path) list \<Rightarrow> path \<Rightarrow> snode \<Rightarrow> (string \<times> string) list" where
  "names_taken mods p n =
     (case n of
        SImportFrom level m names \<Rightarrow>
          (let base = from_module p level m in
           if base \<in> set (dkeys mods) then
             map (\<lambda>a. (base, al_name a)) (filter (\<lambda>a. base @ ''.'' @ al_name a \<notin> set (dkeys mods)) names)
           else [])
      | _ \<Rightarrow> [])"

definition names_reached :: "(string \<times> string) list \<Rightarrow> snode \<Rightarrow> (string \<times> string) list" where
  "names_reached bindings n =
     (case n of SAttr line (SName x) attr \<Rightarrow> (case map_of bindings x of Some src \<Rightarrow> [(src, attr)] | None \<Rightarrow> []) | _ \<Rightarrow> [])"

definition module_uses :: "(string \<times> path) list \<Rightarrow> path \<Rightarrow> snode list \<Rightarrow> (string \<times> string) list" where
  "module_uses mods p body =
     (let ns = walk_tree body; bindings = dict_of (concat (map (module_bindings mods p) ns)) in
      concat (map (names_taken mods p) ns) @ concat (map (names_reached bindings) ns))"

text \<open>A use is a definition (its module and name) and who uses it; a package hands its own consumers back.\<close>

definition hand_back :: "string \<times> path \<Rightarrow> snode \<Rightarrow> ((string \<times> string) \<times> string) list \<Rightarrow> ((string \<times> string) \<times> string) list" where
  "hand_back dp n uses =
     (case n of SImportFrom level m names \<Rightarrow>
        fold (\<lambda>a us. us @ map (\<lambda>u. ((from_module (snd dp) level m, bound_name a (al_name a)), snd u))
                (filter (\<lambda>u. fst u = (fst dp, bound_name a (al_name a))) us)) names uses
      | _ \<Rightarrow> uses)"

definition name_consumers :: "checkout \<Rightarrow> (string \<times> path) list \<Rightarrow> ((string \<times> string) \<times> string) list" where
  "name_consumers c mods =
     (let uses = concat (map (\<lambda>(d, p). map (\<lambda>u. (u, d)) (module_uses mods p (tree_of c p))) mods) in
      fold (\<lambda>(d, p). fold (hand_back (d, p)) (walk_tree (tree_of c p))) (filter (\<lambda>(d, p). is_package_file p) mods) uses)"

text \<open>Whether \<^verbatim>\<open>ast.dump\<close> of a test shows \<^verbatim>\<open>__main__\<close>: in a name, an attribute or a string.\<close>

definition shows_main :: "snode \<Rightarrow> bool" where
  "shows_main n = list_ex (\<lambda>x. case x of
       SName s \<Rightarrow> sublist ''__main__'' s | SAttr line v s \<Rightarrow> sublist ''__main__'' s
     | SConst (Some s) \<Rightarrow> sublist ''__main__'' s | SArg s annotation \<Rightarrow> sublist ''__main__'' s | _ \<Rightarrow> False) (ast_walk n)"

definition entry_points :: "snode list \<Rightarrow> string list" where
  "entry_points body =
     concat (map (\<lambda>n. case n of SIf test inner \<Rightarrow>
         if shows_main test then concat (map (\<lambda>x. case x of SName s \<Rightarrow> [s] | _ \<Rightarrow> []) (ast_walk n)) else []
       | _ \<Rightarrow> []) body)"

definition check_name_privacy :: "checkout \<Rightarrow> string list \<Rightarrow> violation list" where
  "check_name_privacy c pkgs =
     (let mods = module_map c pkgs; consumers = name_consumers c mods in
      in_order (concat (map (\<lambda>(d, p).
        if last p = ''__init__.py'' \<or> last p = ''__main__.py'' \<or> is_test d \<or> public_anyway p then []
        else concat (map (\<lambda>n. case n of
            SFunc async line name args other body \<Rightarrow>
              (if underscored name \<or> name \<in> set (entry_points (tree_of c p)) \<or> path_text p @ '':'' @ name \<in> set PUBLIC_NAMES then []
               else if \<exists>u \<in> set consumers. fst u = (d, name) \<and> snd u \<noteq> d \<and> \<not> is_test (snd u) then []
               else [flag (path_text p) line ''public-name-no-consumer'' name])
          | _ \<Rightarrow> []) (tree_of c p)))
        (sort_key fst mods))))"

subsection \<open>Rule 6: a data module calls a control port\<close>

definition is_dataclass :: "snode list \<Rightarrow> bool" where
  "is_dataclass decorators = list_ex (\<lambda>d.
     case (case d of SCall line f args keywords \<Rightarrow> f | _ \<Rightarrow> d) of
       SAttr line v attr \<Rightarrow> attr = ''dataclass'' | SName x \<Rightarrow> x = ''dataclass'' | _ \<Rightarrow> False) decorators"

definition plain_base :: "snode \<Rightarrow> string list" where
  "plain_base b = (case (case b of SSubscript v index \<Rightarrow> v | _ \<Rightarrow> b) of SName x \<Rightarrow> [x] | _ \<Rightarrow> [])"

text \<open>A class of \<^verbatim>\<open>proposed\<close>, its plain bases and whether it is a surface of coroutines alone.\<close>

definition declared_class :: "string \<Rightarrow> snode \<Rightarrow> (string \<times> string list \<times> bool) list" where
  "declared_class d n =
     (case n of
        SClass name bases keywords body decorators \<Rightarrow>
          (let members = concat (map (\<lambda>m. case m of SFunc async line f args other inner \<Rightarrow> [async] | _ \<Rightarrow> []) body) in
           [(name, concat (map plain_base bases), d = DEPLOYMENT_MOD \<and> members \<noteq> [] \<and> list_all id members)])
      | _ \<Rightarrow> [])"

definition proposed_classes :: "checkout \<Rightarrow> (string \<times> path) list \<Rightarrow> (string \<times> string list \<times> bool) list" where
  "proposed_classes c mods =
     concat (map (\<lambda>(d, p). if hd (dots d) = PROPOSED_PKG then concat (map (declared_class d) (tree_of c p)) else []) mods)"

text \<open>
  The closure: a class joins when a base of one of that name has joined. The loop's rounds are fuel, one for
  every class and a last one that adds nothing.
\<close>

definition joining :: "(string \<times> string list \<times> bool) list \<Rightarrow> string list \<Rightarrow> string list" where
  "joining classes found = map fst (filter (\<lambda>(name, bases, r). \<exists>b \<in> set bases. b = ''ControlPlane'' \<or> b \<in> set found) classes)"

fun grow_ports :: "nat \<Rightarrow> (string \<times> string list \<times> bool) list \<Rightarrow> string list \<Rightarrow> string list option" where
  "grow_ports 0 classes found = None"
| "grow_ports (Suc k) classes found =
     (let reached = joining classes found; next_found = found @ filter (\<lambda>x. x \<notin> set found) (remdups reached) in
      if set reached \<subseteq> set found then Some next_found else grow_ports k classes next_found)"

definition seed_ports :: "(string \<times> string list \<times> bool) list \<Rightarrow> string list" where
  "seed_ports classes = ''ControlPlane'' # map fst (filter (\<lambda>(name, bases, r). r) classes)"

definition proposed_ports :: "(string \<times> string list \<times> bool) list \<Rightarrow> string list option" where
  "proposed_ports classes = grow_ports (Suc (length classes)) classes (seed_ports classes)"

definition class_of :: "snode list \<Rightarrow> string \<Rightarrow> snode option" where
  "class_of body name =
     List.find (\<lambda>n. case n of SClass x bases keywords inner decorators \<Rightarrow> x = name | _ \<Rightarrow> False) (rev body)"

definition ports_taken :: "checkout \<Rightarrow> (string \<times> path) list \<Rightarrow> string list \<Rightarrow> path \<Rightarrow> snode \<Rightarrow> string list" where
  "ports_taken c mods proposed p n =
     (case n of
        SImportFrom level m names \<Rightarrow>
          (let src = from_module p level m in
           if hd (dots src) = PROPOSED_PKG then
             map (\<lambda>a. bound_name a (al_name a)) (filter (\<lambda>a. al_name a \<in> set proposed) names)
           else if CONTROL_SEGMENT \<notin> set (dots src) then []
           else case map_of mods src of
             None \<Rightarrow> []
           | Some q \<Rightarrow> concat (map (\<lambda>a. case class_of (tree_of c q) (al_name a) of
                 Some (SClass x bases keywords inner decorators) \<Rightarrow>
                   if is_dataclass decorators then [] else [bound_name a (al_name a)]
               | _ \<Rightarrow> []) names))
      | _ \<Rightarrow> [])"

definition control_ports :: "checkout \<Rightarrow> (string \<times> path) list \<Rightarrow> string list \<Rightarrow> path \<Rightarrow> string list" where
  "control_ports c mods proposed p = concat (map (ports_taken c mods proposed p) (walk_tree (tree_of c p)))"

definition names_port :: "string list \<Rightarrow> snode \<Rightarrow> bool" where
  "names_port ports annotation = list_ex (\<lambda>n. case n of
       SName x \<Rightarrow> x \<in> set ports
     | SConst (Some s) \<Rightarrow> takeWhile (\<lambda>ch. ch \<noteq> CHR ''['') s \<in> set ports
     | _ \<Rightarrow> False) (ast_walk annotation)"

definition local_ports :: "string list \<Rightarrow> snode \<Rightarrow> string list" where
  "local_ports ports n =
     (case n of
        SFunc async line name args other body \<Rightarrow>
          concat (map (\<lambda>a. case a of SArg x annotation \<Rightarrow> if list_ex (names_port ports) annotation then [x] else [] | _ \<Rightarrow> []) args)
      | SAnnAssign line (SName x) annotation v \<Rightarrow> if names_port ports annotation then [x] else []
      | _ \<Rightarrow> [])"

definition self_attr :: "snode \<Rightarrow> string list" where
  "self_attr n = (case n of SAttr line (SName x) attr \<Rightarrow> if x = ''self'' then [attr] else [] | _ \<Rightarrow> [])"

definition attr_ports :: "string list \<Rightarrow> string list \<Rightarrow> snode \<Rightarrow> string list" where
  "attr_ports ports locals n =
     (case n of
        SAnnAssign line t annotation v \<Rightarrow> if names_port ports annotation then self_attr t else []
      | SAssign line targets (SName x) \<Rightarrow> if x \<in> set locals then concat (map self_attr targets) else []
      | _ \<Rightarrow> [])"

definition port_names :: "snode list \<Rightarrow> string list \<Rightarrow> string list \<times> string list" where
  "port_names body ports =
     (let ns = walk_tree body; locals = concat (map (local_ports ports) ns) in
      (locals, concat (map (attr_ports ports locals) ns)))"

definition is_port :: "string list \<Rightarrow> string list \<Rightarrow> snode \<Rightarrow> bool" where
  "is_port locals attrs n =
     (case n of SName x \<Rightarrow> x \<in> set locals | SAttr line (SName x) attr \<Rightarrow> x = ''self'' \<and> attr \<in> set attrs | _ \<Rightarrow> False)"

text \<open>
  The code tells an attribute that is called, and one a send mode is called on, from one that is read by the
  identity of its node; here every node is walked with that role.
\<close>

datatype role = Read | Called | Sent

definition roled_children :: "role \<Rightarrow> snode \<Rightarrow> (role \<times> snode) list" where
  "roled_children r n =
     (case n of
        SCall line f args keywords \<Rightarrow> (Called, f) # map (Pair Read) (args @ keywords)
      | SAttr line v attr \<Rightarrow> [(if r = Called \<and> attr \<in> set SEND_MODES then Sent else Read, v)]
      | _ \<Rightarrow> map (Pair Read) (node_children n))"

lemma roled_child: "(r', c) \<in> set (roled_children r n) \<Longrightarrow> c \<in> set (node_children n)"
  by (cases n) (auto simp: roled_children_def split: if_splits)

lemmas roled_smaller = roled_child [THEN child_smaller]

function roled :: "role \<Rightarrow> snode \<Rightarrow> (role \<times> snode) list" where
  "roled r n = (r, n) # concat (map (\<lambda>(r', c). roled r' c) (roled_children r n))"
  by pat_completeness auto
termination
  by (relation "measure (\<lambda>(r, n). size n)") (auto dest: roled_smaller)

definition port_read :: "path \<Rightarrow> string list \<Rightarrow> string list \<Rightarrow> role \<times> snode \<Rightarrow> violation list" where
  "port_read p locals attrs rn =
     (case snd rn of
        SCall line f args keywords \<Rightarrow>
          (if f = SName ''getattr'' \<and> args \<noteq> [] \<and> is_port locals attrs (hd args)
           then [flag (path_text p) line ''data-reads-control-port'' ''getattr''] else [])
      | SAttr line v attr \<Rightarrow>
          (if is_port locals attrs v \<and> fst rn = Read then [flag (path_text p) line ''data-reads-control-port'' attr] else [])
      | _ \<Rightarrow> [])"

definition plane_ports_of :: "checkout \<Rightarrow> (string \<times> path) list \<Rightarrow> string list \<Rightarrow> string \<times> path \<Rightarrow> violation list" where
  "plane_ports_of c mods proposed dp =
     (let p = snd dp; body = tree_of c p; ports = control_ports c mods proposed p in
      if \<not> suffix SIM_SUFFIX (hd p) \<or> is_test (fst dp) \<or> DATA_SEGMENT \<notin> set (butlast p) \<or> ports = [] then []
      else case port_names body ports of (locals, attrs) \<Rightarrow>
        concat (map (port_read p locals attrs) (roled Read (SOther body))))"

definition check_plane_ports :: "checkout \<Rightarrow> string list \<Rightarrow> violation list option" where
  "check_plane_ports c pkgs =
     (let mods = module_map c pkgs in
      map_option (\<lambda>proposed. in_order (concat (map (plane_ports_of c mods proposed) (sort_key fst mods))))
        (proposed_ports (proposed_classes c mods)))"

subsection \<open>Rule 7: a selector writes nothing\<close>

definition on_self :: "snode \<Rightarrow> bool" where
  "on_self n = (self_attr (case n of SSubscript v index \<Rightarrow> v | _ \<Rightarrow> n) \<noteq> [])"

definition moves_self :: "snode \<Rightarrow> bool" where
  "moves_self n =
     (case n of
        SAssign line targets v \<Rightarrow> list_ex on_self targets
      | SAugAssign line t v \<Rightarrow> on_self t
      | SAnnAssign line t annotation v \<Rightarrow> on_self t
      | SDelete targets \<Rightarrow> list_ex on_self targets
      | SCall line (SAttr l v attr) args keywords \<Rightarrow> attr \<in> set MUTATING_CALLS \<and> on_self v
      | _ \<Rightarrow> False)"

definition writers_of :: "snode \<Rightarrow> (string \<times> string) list" where
  "writers_of n =
     (case n of
        SClass name bases keywords body decorators \<Rightarrow>
          (if SName ''Sensor'' \<in> set bases then
             concat (map (\<lambda>m. case m of
                 SFunc async line f args other inner \<Rightarrow>
                   if \<not> prefix ''__'' f \<and> list_ex moves_self (ast_walk m) then [(f, name)] else []
               | _ \<Rightarrow> []) body)
           else [])
      | _ \<Rightarrow> [])"

definition sensor_writers :: "checkout \<Rightarrow> string list \<Rightarrow> (string \<times> string) list" where
  "sensor_writers c pkgs =
     dict_of (concat (map (\<lambda>p. concat (map writers_of (walk_tree (tree_of c p)))) (sort (map snd (module_map c pkgs)))))"

text \<open>A base that is starred names nothing here.\<close>

definition base_name :: "snode \<Rightarrow> string option" where
  "base_name b =
     (case b of SName x \<Rightarrow> Some x | SAttr line v attr \<Rightarrow> Some attr | SSubscript (SName x) index \<Rightarrow> Some x | _ \<Rightarrow> None)"

definition selector_base :: "string list \<Rightarrow> snode \<Rightarrow> bool" where
  "selector_base seen b = (case base_name b of None \<Rightarrow> False | Some x \<Rightarrow> sublist ''Selector'' x \<or> x \<in> set seen)"

text \<open>The selector classes among the nodes walked, each known to those after it.\<close>

fun selector_classes :: "string list \<Rightarrow> snode list \<Rightarrow> (string \<times> snode list) list" where
  "selector_classes seen [] = []"
| "selector_classes seen (SClass name bases keywords body decorators # ns) =
     (if list_ex (selector_base seen) bases then (name, body) # selector_classes (name # seen) ns
      else selector_classes seen ns)"
| "selector_classes seen (_ # ns) = selector_classes seen ns"

definition assigned_to :: "snode \<Rightarrow> (nat \<times> snode) list" where
  "assigned_to n =
     (case n of
        SAssign line targets v \<Rightarrow> map (Pair line) targets
      | SAugAssign line t v \<Rightarrow> [(line, t)]
      | SAnnAssign line t annotation v \<Rightarrow> [(line, t)]
      | _ \<Rightarrow> [])"

definition state_writes :: "path \<Rightarrow> string list \<Rightarrow> snode \<Rightarrow> violation list" where
  "state_writes p writers n =
     (case n of SCall line (SAttr l v attr) args keywords \<Rightarrow>
          if attr \<in> set writers then [flag (path_text p) line ''selector-writes-a-sensor'' attr] else []
      | _ \<Rightarrow> []) @
     concat (map (\<lambda>(line, t). map (flag (path_text p) line ''selector-keeps-state'') (self_attr t)) (assigned_to n))"

definition method_writes :: "path \<Rightarrow> string list \<Rightarrow> snode \<Rightarrow> violation list" where
  "method_writes p writers m =
     (case m of
        SFunc async line f args other body \<Rightarrow>
          (if f \<in> {''__init__'', ''__new__'', ''attach''} then [] else concat (map (state_writes p writers) (ast_walk m)))
      | _ \<Rightarrow> [])"

definition selector_writes :: "path \<Rightarrow> string list \<Rightarrow> snode list \<Rightarrow> violation list" where
  "selector_writes p writers body =
     concat (map (\<lambda>(name, inner). concat (map (method_writes p writers) inner)) (selector_classes [] (walk_tree body)))"

definition check_selector_state :: "checkout \<Rightarrow> string list \<Rightarrow> violation list" where
  "check_selector_state c pkgs =
     (let writers = map fst (sensor_writers c pkgs) in
      in_order (concat (map (\<lambda>p. if is_test (plain_name p) then [] else selector_writes p writers (tree_of c p))
        (sort (map snd (module_map c pkgs))))))"

subsection \<open>Rule 3: a README's layout\<close>

text \<open>\<open>named\<close>: the files a README's layout block names, or \<open>None\<close> when it has none.\<close>

definition readme_layout :: "(string \<Rightarrow> string list option) \<Rightarrow> checkout \<Rightarrow> string \<Rightarrow> violation list" where
  "readme_layout named c pkg =
     (let readme = pkg @ ''/README.md'';
          every_py = map last (filter (\<lambda>p. suffix ''.py'' (last p) \<and> ''__pycache__'' \<notin> set (co_root c @ p) \<and>
                                          ''.venv'' \<notin> set (co_root c @ p)) (co_files c));
          structural = ''__main__.py'' # map last (filter (\<lambda>p. length p = 3 \<and> hd p = pkg \<and>
                          p ! 1 \<in> set (REQUIRED_DIRS @ PLANE_DIRS) \<and> suffix ''.py'' (last p) \<and> last p \<noteq> ''__init__.py'') (co_files c))
      in if [pkg, ''README.md''] \<notin> set (co_files c) then []
         else case named pkg of
           None \<Rightarrow> [flag readme 0 ''missing-layout'' []]
         | Some names \<Rightarrow>
             map (flag readme 0 ''layout-names-missing-file'') (sort (remdups (filter (\<lambda>x. x \<notin> set every_py) names))) @
             map (flag readme 0 ''layout-omits-file'') (sort (remdups (filter (\<lambda>x. x \<notin> set names) structural))))"

definition check_readme_layout :: "(string \<Rightarrow> string list option) \<Rightarrow> checkout \<Rightarrow> violation list" where
  "check_readme_layout named c = in_order (concat (map (readme_layout named c) (sim_packages c)))"

definition check_all :: "(string \<Rightarrow> string list option) \<Rightarrow> checkout \<Rightarrow> violation list option res" where
  "check_all named c =
     bindr (check_module_exports c) (\<lambda>exports.
       Inr (map_option (\<lambda>ports. in_order (check_package_parts c @ check_private_naming c GRAPH_PKGS @
           check_name_privacy c GRAPH_PKGS @ ports @ check_selector_state c GRAPH_PKGS @ check_readme_layout named c @ exports))
         (check_plane_ports c GRAPH_PKGS)))"

subsection \<open>What the walk reaches\<close>

definition child_rel :: "(snode \<times> snode) set" where
  "child_rel = {(c, n). c \<in> set (node_children n)}"

lemma walk_reaches: "m \<in> set q \<Longrightarrow> (x, m) \<in> child_rel\<^sup>* \<Longrightarrow> x \<in> set (ast_queue q)"
proof (induction q arbitrary: m rule: ast_queue.induct)
  case (2 n todo)
  show ?case
  proof (cases "m = n")
    case True
    from 2(3) show ?thesis
    proof (cases rule: rtranclE)
      case (step y)
      then have "y \<in> set (todo @ node_children n)" using True by (auto simp: child_rel_def)
      from 2(1) [OF this step(1)] show ?thesis by simp
    qed (use True in simp)
  next
    case False
    with 2(2) have "m \<in> set (todo @ node_children n)" by simp
    from 2(1) [OF this 2(3)] show ?thesis by simp
  qed
qed simp

subsection \<open>The ports of \<open>proposed\<close>\<close>

definition base_rel :: "(string \<times> string list \<times> bool) list \<Rightarrow> (string \<times> string) set" where
  "base_rel classes = {(n, b). \<exists>bases r. (n, bases, r) \<in> set classes \<and> b \<in> set bases}"

lemma joining_iff:
  "''ControlPlane'' \<in> set found \<Longrightarrow> x \<in> set (joining classes found) \<longleftrightarrow> (\<exists>b \<in> set found. (x, b) \<in> base_rel classes)"
  by (force simp: joining_def base_rel_def)

lemma joining_names: "set (joining classes found) \<subseteq> fst ` set classes"
  by (auto simp: joining_def)

lemma grow_returns:
  "card (fst ` set classes - set found) < k \<Longrightarrow> \<exists>out. grow_ports k classes found = Some out"
proof (induction k arbitrary: found)
  case (Suc k)
  let ?reached = "joining classes found"
  let ?next = "found @ filter (\<lambda>x. x \<notin> set found) (remdups ?reached)"
  show ?case
  proof (cases "set ?reached \<subseteq> set found")
    case False
    then obtain x where x: "x \<in> set ?reached" "x \<notin> set found" by auto
    then have "fst ` set classes - set ?next \<subset> fst ` set classes - set found"
      using joining_names [of classes found] by auto
    then have "card (fst ` set classes - set ?next) < card (fst ` set classes - set found)"
      by (intro psubset_card_mono) auto
    with Suc.prems have "card (fst ` set classes - set ?next) < k" by simp
    from Suc.IH [OF this] False show ?thesis by (simp add: Let_def)
  qed (simp add: Let_def)
qed simp

lemma grow_closed:
  "grow_ports k classes found = Some out \<Longrightarrow> ''ControlPlane'' \<in> set found \<Longrightarrow>
    set found \<subseteq> set out \<and> (\<forall>x b. (x, b) \<in> base_rel classes \<longrightarrow> b \<in> set out \<longrightarrow> x \<in> set out) \<and>
    (\<forall>x \<in> set out. \<exists>s \<in> set found. (x, s) \<in> (base_rel classes)\<^sup>*)"
proof (induction k arbitrary: found)
  case (Suc k)
  let ?reached = "joining classes found"
  let ?next = "found @ filter (\<lambda>x. x \<notin> set found) (remdups ?reached)"
  note reached = joining_iff [OF Suc.prems(2), of _ classes]
  show ?case
  proof (cases "set ?reached \<subseteq> set found")
    case True
    then have "set out = set found" using Suc.prems(1) by (auto simp: Let_def)
    with True reached show ?thesis by blast
  next
    case False
    then have step: "grow_ports k classes ?next = Some out" using Suc.prems(1) by (simp add: Let_def)
    note ih = Suc.IH [OF step]
    have near: "\<exists>s \<in> set found. (x, s) \<in> (base_rel classes)\<^sup>*" if "x \<in> set ?next" for x
      using that reached by (cases "x \<in> set found") auto
    have "\<exists>s \<in> set found. (x, s) \<in> (base_rel classes)\<^sup>*" if "x \<in> set out" for x
    proof -
      have "''ControlPlane'' \<in> set ?next" using Suc.prems(2) by simp
      with ih that obtain s where "s \<in> set ?next" "(x, s) \<in> (base_rel classes)\<^sup>*" by blast
      with near [of s] show ?thesis by (blast intro: rtrancl_trans)
    qed
    with ih Suc.prems(2) show ?thesis by auto
  qed
qed simp

text \<open>C39: the search for the surfaces \<open>proposed\<close> declares ends, after at most one round for each class and one more,
  with exactly the classes a chain of bases leads from to \<^verbatim>\<open>ControlPlane\<close> or to a surface of coroutines alone,
  whichever modules declare the links.\<close>

theorem proposed_ports_closure:
  "\<exists>out. proposed_ports classes = Some out \<and>
     set out = {x. \<exists>s. s \<in> set (seed_ports classes) \<and> (x, s) \<in> (base_rel classes)\<^sup>*}"
proof -
  have "card (fst ` set classes - set (seed_ports classes)) \<le> card (fst ` set classes)" by (intro card_mono) auto
  also have "\<dots> \<le> length classes" by (metis card_length length_map set_map)
  finally obtain out where out: "proposed_ports classes = Some out"
    using grow_returns [of classes "seed_ports classes" "Suc (length classes)"] by (auto simp: proposed_ports_def)
  note closed = grow_closed [OF out [unfolded proposed_ports_def]]
  have seed: "''ControlPlane'' \<in> set (seed_ports classes)" by (simp add: seed_ports_def)
  have "x \<in> set out" if "s \<in> set (seed_ports classes)" "(x, s) \<in> (base_rel classes)\<^sup>*" for x s
    using that(2) by (induction rule: converse_rtrancl_induct) (use that(1) closed seed in blast)+
  with closed seed out show ?thesis by blast
qed

subsection \<open>What a selector may not write\<close>

lemma selector_found:
  "SClass name bases keywords inner decorators \<in> set ns \<Longrightarrow> b \<in> set bases \<Longrightarrow> base_name b = Some x \<Longrightarrow> sublist ''Selector'' x \<Longrightarrow>
    (name, inner) \<in> set (selector_classes seen ns)"
proof (induction seen ns rule: selector_classes.induct)
  case (2 seen name' bases' keywords' body' decorators' ns)
  then show ?case by (auto simp: list_ex_iff selector_base_def)
qed auto

text \<open>C40: a selector's method that assigns a field of \<^verbatim>\<open>self\<close> is flagged on the statement's line, however
  deep in the module the class stands and however deep in the method the statement does. A class counts
  when a base's name contains \<open>Selector\<close>, the base written as a name, as an attribute (its last part) or as
  a subscripted name; a method is any function of its body but \<^verbatim>\<open>__init__\<close>, \<^verbatim>\<open>__new__\<close> and \<^verbatim>\<open>attach\<close>. The
  statement is a plain, augmented or annotated assignment one of whose targets is itself \<^verbatim>\<open>self.attr\<close>. A
  field inside an unpacked target, a deleted field and a base that is a subscripted attribute are not
  covered: the rule does not see them (\<open>unpacking_unseen\<close> and \<open>subscripted_attribute_unseen\<close> below).\<close>

theorem selector_write_flagged:
  assumes cls: "(SClass name bases keywords inner decorators, SOther body) \<in> child_rel\<^sup>*"
    and base: "b \<in> set bases" "b \<in> {SName x, SAttr lb e x, SSubscript (SName x) index}" "sublist ''Selector'' x"
    and member: "SFunc async line f args other fbody \<in> set inner" "f \<notin> {''__init__'', ''__new__'', ''attach''}"
    and target: "(n, SFunc async line f args other fbody) \<in> child_rel\<^sup>*" "t = SAttr k (SName ''self'') attr"
      "n = SAssign l targets v \<and> t \<in> set targets \<or> n = SAugAssign l t v \<or> n = SAnnAssign l t annotation value"
  shows "flag (path_text p) l ''selector-keeps-state'' attr \<in> set (selector_writes p writers body)"
proof -
  have "SClass name bases keywords inner decorators \<in> set (walk_tree body)"
    unfolding walk_tree_def ast_walk_def by (rule walk_reaches [OF _ cls]) simp
  moreover have "base_name b = Some x" using base(2) by (auto simp: base_name_def)
  ultimately have selector: "(name, inner) \<in> set (selector_classes [] (walk_tree body))"
    using base(1,3) by (blast intro: selector_found)
  have "n \<in> set (ast_walk (SFunc async line f args other fbody))"
    unfolding ast_walk_def by (rule walk_reaches [OF _ target(1)]) simp
  moreover have "flag (path_text p) l ''selector-keeps-state'' attr \<in> set (state_writes p writers n)"
  proof -
    have "(l, SAttr k (SName ''self'') attr) \<in> set (assigned_to n)"
      using target(2,3) by (auto simp: assigned_to_def)
    then show ?thesis by (force simp: state_writes_def self_attr_def)
  qed
  ultimately have "flag (path_text p) l ''selector-keeps-state'' attr \<in> set (method_writes p writers (SFunc async line f args other fbody))"
    using member(2) by (auto simp: method_writes_def)
  with member(1) have "flag (path_text p) l ''selector-keeps-state'' attr \<in> set (concat (map (method_writes p writers) inner))"
    unfolding set_concat set_map by blast
  with selector show ?thesis unfolding selector_writes_def set_concat set_map by force
qed

theorem selector_write_flagged_witness:
  "flag ''a.py'' 4 ''selector-keeps-state'' ''best'' \<in> set (selector_writes [''a.py''] []
     [SClass ''Nearest'' [SName ''KeySelector''] [] [SFunc False 3 ''select'' [SArg ''self'' []] []
        [SOther [SAugAssign 4 (SAttr 4 (SName ''self'') ''best'') (SConst None)]]] []])"
proof -
  let ?n = "SAugAssign 4 (SAttr 4 (SName ''self'') ''best'') (SConst None)"
  let ?f = "SFunc False 3 ''select'' [SArg ''self'' []] [] [SOther [?n]]"
  let ?c = "SClass ''Nearest'' [SName ''KeySelector''] [] [?f] []"
  have child: "(c, m) \<in> child_rel" if "c \<in> set (node_children m)" for c m using that by (simp add: child_rel_def)
  have cls: "(?c, SOther [?c]) \<in> child_rel\<^sup>*" by (rule r_into_rtrancl, rule child) simp
  have deep: "(?n, ?f) \<in> child_rel\<^sup>*"
    by (rule rtrancl_trans [of _ "SOther [?n]"]; rule r_into_rtrancl; rule child) simp_all
  have "flag (path_text [''a.py'']) 4 ''selector-keeps-state'' ''best'' \<in> set (selector_writes [''a.py''] [] [?c])"
  proof (rule selector_write_flagged [OF cls _ _ _ _ _ deep refl])
    show "SName ''KeySelector'' \<in> set [SName ''KeySelector'']" by simp
    show "SName ''KeySelector'' \<in> {SName ''KeySelector'', SAttr 0 (SName []) ''KeySelector'', SSubscript (SName ''KeySelector'') []}"
      by simp
    show "sublist ''Selector'' ''KeySelector''" by code_simp
    show "?f \<in> set [?f]" by simp
    show "''select'' \<notin> {''__init__'', ''__new__'', ''attach''}" by simp
    show "?n = SAssign 4 [] (SConst None) \<and> SAttr 4 (SName ''self'') ''best'' \<in> set [] \<or>
        ?n = SAugAssign 4 (SAttr 4 (SName ''self'') ''best'') (SConst None) \<or>
        ?n = SAnnAssign 4 (SAttr 4 (SName ''self'') ''best'') (SConst None) []" by simp
  qed
  moreover have "path_text [''a.py''] = ''a.py''" by (simp add: path_text_def join_on_def)
  ultimately show ?thesis by simp
qed

text \<open>A field in the target of an unpacking, or deleted, is not seen by either half of the rule.\<close>

lemma unpacking_unseen:
  "state_writes p writers (SAssign line [SColl [SAttr line (SName ''self'') a, SAttr line (SName ''self'') b]] v) = []"
  "\<not> moves_self (SAssign line [SColl [SAttr line (SName ''self'') a, SAttr line (SName ''self'') b]] v)"
  "state_writes p writers (SDelete [SAttr line (SName ''self'') a]) = []"
  by (simp_all add: state_writes_def assigned_to_def moves_self_def on_self_def self_attr_def)

text \<open>A base that is an attribute and names its type parameter is not recognised.\<close>

lemma subscripted_attribute_unseen:
  "\<not> selector_base seen (SSubscript (SAttr line m ''Selector'') index)"
  by (simp add: selector_base_def base_name_def)

subsection \<open>A module's surface\<close>

text \<open>A module passes exactly when it defines nothing public, or lists all it defines and nothing it does not hold.\<close>

lemma surface_stated:
  "module_exports p body = Inr [] \<longleftrightarrow> public_defs body = [] \<or>
    (\<exists>names. declared_all body = Inr (Some names) \<and> set (public_defs body) \<subseteq> set names \<and>
       set names \<subseteq> set (public_defs body) \<union> set (concat (map import_binds (walk_tree body))))"
  by (auto simp: module_exports_def Let_def res_simps filter_empty_conv split: option.splits) blast

text \<open>The parts looked at are those of the file's whole path.\<close>

lemma tests_above_excuse: "''tests'' \<in> set (co_root c) \<Longrightarrow> \<not> exports_checked c p"
  by (simp add: exports_checked_def)

text \<open>A package that takes a name from a module is itself a module that uses it, whoever takes it from there.\<close>

lemma reexport_is_use:
  assumes "SImportFrom level m names \<in> set (walk_tree body)" "a \<in> set names" "from_module p level m \<in> set (dkeys mods)"
    "from_module p level m @ ''.'' @ al_name a \<notin> set (dkeys mods)"
  shows "(from_module p level m, al_name a) \<in> set (module_uses mods p body)"
proof -
  have "(from_module p level m, al_name a) \<in> set (names_taken mods p (SImportFrom level m names))"
    using assms(2,3,4) by (auto simp: names_taken_def Let_def)
  with assms(1) show ?thesis by (auto simp: module_uses_def Let_def)
qed

end
