(* ===== verification/Scales.thy ===== *)
theory Scales
  imports Text
begin

section \<open>The workloads the benchmarks build\<close>

text \<open>
  \<^verbatim>\<open>realsim/tools/_benchmark_harness.py\<close> and the workloads of \<^verbatim>\<open>benchmark_routing_plan.py\<close> and
  \<^verbatim>\<open>benchmark_weight_sync_control.py\<close>: the scales they run at, the tensors of a model and how ranks divide them.
  Measuring itself (clocks, allocation tracing, instruction counts) is left out.
\<close>

subsection \<open>Scales\<close>

record model_width =
  wd_hidden :: nat
  wd_ffn :: nat
  wd_heads :: nat
  wd_kv_heads :: nat
  wd_vocab :: nat
  wd_head_dim :: nat

definition WIDTH_1B :: model_width where "WIDTH_1B = \<lparr>wd_hidden = 2048, wd_ffn = 8192, wd_heads = 16, wd_kv_heads = 2, wd_vocab = 128256, wd_head_dim = 128\<rparr>"
definition WIDTH_8B :: model_width where "WIDTH_8B = \<lparr>wd_hidden = 4096, wd_ffn = 14336, wd_heads = 32, wd_kv_heads = 8, wd_vocab = 128256, wd_head_dim = 128\<rparr>"
definition WIDTH_27B :: model_width where "WIDTH_27B = \<lparr>wd_hidden = 5120, wd_ffn = 17408, wd_heads = 40, wd_kv_heads = 8, wd_vocab = 152064, wd_head_dim = 128\<rparr>"
definition WIDTH_70B :: model_width where "WIDTH_70B = \<lparr>wd_hidden = 8192, wd_ffn = 28672, wd_heads = 64, wd_kv_heads = 8, wd_vocab = 128256, wd_head_dim = 128\<rparr>"
definition WIDTH_405B :: model_width where "WIDTH_405B = \<lparr>wd_hidden = 16384, wd_ffn = 53248, wd_heads = 128, wd_kv_heads = 8, wd_vocab = 128256, wd_head_dim = 128\<rparr>"

record scale =
  sc_keys :: int
  sc_source_ranks :: int
  sc_generators :: int
  sc_generator_shards :: int
  sc_layout :: string
  sc_planner :: string
  sc_width :: model_width

definition new_scale :: "int \<Rightarrow> int \<Rightarrow> int \<Rightarrow> int \<Rightarrow> model_width \<Rightarrow> scale" where
  "new_scale k s g h w = \<lparr>sc_keys = k, sc_source_ranks = s, sc_generators = g, sc_generator_shards = h,
     sc_layout = ''uniform'', sc_planner = ''central'', sc_width = w\<rparr>"

definition PRESETS :: "(string \<times> scale) list" where
  "PRESETS =
    [(''smoke'', new_scale 8 2 8 2 WIDTH_1B),
     (''1b'', new_scale 120 2 8 2 WIDTH_1B),
     (''8b'', new_scale 290 8 16 8 WIDTH_8B),
     (''qwen-27b'', new_scale 1199 8 8 4 WIDTH_27B),
     (''70b'', new_scale 723 8 64 8 WIDTH_70B),
     (''70b-wide'', new_scale 723 64 128 64 WIDTH_70B),
     (''405b'', new_scale 1500 32 128 32 WIDTH_405B),
     (''moe'', new_scale 3000 32 128 32 WIDTH_405B),
     (''kimi-k2'', new_scale 5203 256 128 128 WIDTH_405B)]"

definition DEFAULT_SUITE :: "string list" where
  "DEFAULT_SUITE = [''1b'', ''8b'', ''qwen-27b'', ''70b'', ''70b-wide'', ''405b'', ''moe'']"

definition MEASURED_METRICS :: "string list" where
  "MEASURED_METRICS = [''cpu'', ''instructions'', ''memory'']"

definition preset :: "string \<Rightarrow> scale res" where
  "preset name = (case map_of PRESETS name of None \<Rightarrow> Inl KeyError | Some s \<Rightarrow> Inr s)"

definition metadata_rows :: "scale \<Rightarrow> int" where
  "metadata_rows s = sc_keys s * (sc_source_ranks s + sc_generators s)"

definition measurable_rows :: "string \<Rightarrow> int" where
  "measurable_rows metric =
     (if metric = ''memory'' then 723 * (8 + 64)
      else if metric = ''instructions'' then 3000 * (32 + 128)
      else 2 ^ 63 - 1)"

definition metrics_for :: "string \<Rightarrow> string list" where
  "metrics_for selection = (if selection = ''all'' then MEASURED_METRICS else [selection])"

definition cases_for :: "string \<Rightarrow> (string \<times> scale) list \<Rightarrow> (string \<times> scale) list" where
  "cases_for metric cs = filter (\<lambda>(c, s). metadata_rows s \<le> measurable_rows metric) cs"

definition tables :: "string \<Rightarrow> (string \<times> scale) list \<Rightarrow> bool \<Rightarrow> (string \<times> (string \<times> scale) list) list" where
  "tables selection cs allow_large =
     filter (\<lambda>(m, limited). limited \<noteq> [])
       (map (\<lambda>m. (m, if allow_large then cs else cases_for m cs)) (metrics_for selection))"

subsection \<open>Keys\<close>

record key_spec =
  ks_name :: string
  ks_shape :: "int list"
  ks_generator_dim :: "nat option"

definition LAYER_KEYS :: int where "LAYER_KEYS = 9"
definition NON_LAYER_KEYS :: int where "NON_LAYER_KEYS = 3"

text \<open>A ninth is never halfway between two integers, so \<^verbatim>\<open>round\<close> has no tie to break.\<close>

definition layers_of :: "scale \<Rightarrow> int" where
  "layers_of s = max 1 ((2 * (sc_keys s - NON_LAYER_KEYS) + LAYER_KEYS) div (2 * LAYER_KEYS))"

definition spec :: "string \<Rightarrow> int list \<Rightarrow> nat option \<Rightarrow> key_spec" where
  "spec n sh d = \<lparr>ks_name = n, ks_shape = sh, ks_generator_dim = d\<rparr>"

definition layer_specs :: "model_width \<Rightarrow> nat \<Rightarrow> key_spec list" where
  "layer_specs w i =
     (let hidden = int (wd_hidden w); ffn = int (wd_ffn w);
          query = int (wd_heads w * wd_head_dim w); kv = int (wd_kv_heads w * wd_head_dim w);
          name = (\<lambda>s. ''model.layers.'' @ str_nat i @ s)
      in [spec (name ''.input_layernorm.weight'') [hidden] None,
          spec (name ''.self_attn.q_proj.weight'') [query, hidden] (Some 0),
          spec (name ''.self_attn.k_proj.weight'') [kv, hidden] (Some 0),
          spec (name ''.self_attn.v_proj.weight'') [kv, hidden] (Some 0),
          spec (name ''.self_attn.o_proj.weight'') [hidden, query] (Some 1),
          spec (name ''.post_attention_layernorm.weight'') [hidden] None,
          spec (name ''.mlp.gate_proj.weight'') [ffn, hidden] (Some 0),
          spec (name ''.mlp.up_proj.weight'') [ffn, hidden] (Some 0),
          spec (name ''.mlp.down_proj.weight'') [hidden, ffn] (Some 1)])"

definition realistic_specs :: "scale \<Rightarrow> key_spec list" where
  "realistic_specs s =
     (let w = sc_width s; hidden = int (wd_hidden w); vocab = int (wd_vocab w) in
      [spec ''model.embed_tokens.weight'' [vocab, hidden] (Some 0)] @
      concat (map (layer_specs w) [0..<nat (layers_of s)]) @
      [spec ''model.norm.weight'' [hidden] None, spec ''lm_head.weight'' [vocab, hidden] (Some 0)])"

definition key_specs :: "scale \<Rightarrow> key_spec list" where
  "key_specs s =
     (if sc_layout s = ''uniform'' then
        map (\<lambda>i. spec (''model.weight.'' @ str_nat i) [lcm (sc_source_ranks s) (sc_generator_shards s)] (Some 0))
          [0..<nat (sc_keys s)]
      else realistic_specs s)"

subsection \<open>Shards\<close>

definition shard_geometry :: "scale \<Rightarrow> int \<times> (int \<Rightarrow> int \<Rightarrow> int \<times> int)" where
  "shard_geometry s =
     (let extent = lcm (sc_source_ranks s) (sc_generator_shards s) in
      (extent, \<lambda>rank shards. (rank * (extent div shards), extent div shards)))"

text \<open>Where a rank's piece begins and how large it is; a dimension the tensor does not have is the IndexError.\<close>

definition shard_bounds :: "key_spec \<Rightarrow> nat option \<Rightarrow> int \<Rightarrow> int \<Rightarrow> (int list \<times> int list) res" where
  "shard_bounds k axis rank shards =
     (let shape = ks_shape k in
      case axis of
        None \<Rightarrow> Inr (map (\<lambda>_. 0) shape, shape)
      | Some d \<Rightarrow>
          if \<not> d < length shape then Inl IndexError
          else if shards = 0 then Inl ZeroDivisionError
          else let size = shape ! d; width = - (- size div shards); offset = min (rank * width) size in
            Inr (map (\<lambda>a. if a = d then offset else 0) [0..<length shape],
                 map (\<lambda>a. if a = d then min width (size - offset) else shape ! a) [0..<length shape]))"

record tensor_slice =
  sl_offsets :: "int list"
  sl_coordinates :: "int list"
  sl_global :: "int list"
  sl_local :: "int list"
  sl_mesh :: "int list"

definition registrations :: "key_spec list \<Rightarrow> int \<Rightarrow> int \<Rightarrow> nat option list \<Rightarrow> (string \<times> tensor_slice) list res" where
  "registrations specs rank shards dims =
     bindr (res_map (\<lambda>(k, d). bindr (shard_bounds k d rank shards) (\<lambda>(offsets, local_shape).
       Inr (ks_name k, \<lparr>sl_offsets = offsets, sl_coordinates = (if d = None then [0] else [rank]),
                        sl_global = ks_shape k, sl_local = local_shape,
                        sl_mesh = (if d = None then [1] else [shards])\<rparr>))) (zip specs dims))
     (\<lambda>entries. Inr (dict_of entries))"

definition publishers :: "scale \<Rightarrow> (string \<times> (string \<times> tensor_slice) list) list res" where
  "publishers s =
     (let specs = key_specs s in
      res_map (\<lambda>rank. bindr (registrations specs (int rank) (sc_source_ranks s) (map (\<lambda>_. Some 0) specs)) (\<lambda>r.
          Inr (''trainer-'' @ str_nat rank, r)))
        [0..<nat (sc_source_ranks s)])"

definition requesters :: "scale \<Rightarrow> (string \<times> (string \<times> tensor_slice) list) list res" where
  "requesters s =
     (let specs = key_specs s; shards = sc_generator_shards s in
      res_map (\<lambda>rank. if shards = 0 then Inl ZeroDivisionError
          else bindr (registrations specs (int rank mod shards) shards (map ks_generator_dim specs)) (\<lambda>r.
            Inr (''generator-'' @ str_nat rank, r)))
        [0..<nat (sc_generators s)])"

text \<open>The one-dimensional slices of the weight-sync benchmark.\<close>

definition requests_for_shard :: "scale \<Rightarrow> int \<Rightarrow> int \<Rightarrow> (string \<times> tensor_slice) list" where
  "requests_for_shard s rank shards =
     (case shard_geometry s of (extent, bounds) \<Rightarrow> case bounds rank shards of (offset, width) \<Rightarrow>
        map (\<lambda>i. (''model.weight.'' @ str_nat i,
                  \<lparr>sl_offsets = [offset], sl_coordinates = [rank], sl_global = [extent], sl_local = [width], sl_mesh = [shards]\<rparr>))
          [0..<nat (sc_keys s)])"

definition request_batches :: "scale \<Rightarrow> ((string \<times> (string \<times> tensor_slice) list) list \<times> (string \<times> (string \<times> tensor_slice) list) list) res" where
  "request_batches s =
     (if 0 < sc_generators s \<and> sc_generator_shards s = 0 then Inl ZeroDivisionError
      else Inr
       (map (\<lambda>r. (''trainer-'' @ str_nat r, requests_for_shard s (int r) (sc_source_ranks s))) [0..<nat (sc_source_ranks s)],
        map (\<lambda>r. (''generator-'' @ str_nat r, requests_for_shard s (int r mod sc_generator_shards s) (sc_generator_shards s)))
          [0..<nat (sc_generators s)]))"

subsection \<open>Arguments\<close>

record bench_args =
  ba_preset :: string
  ba_keys :: "int option"
  ba_source_ranks :: "int option"
  ba_generators :: "int option"
  ba_generator_shards :: "int option"
  ba_layout :: string
  ba_planner :: string
  ba_warmups :: int
  ba_repeats :: int

definition in_layout :: "string \<Rightarrow> scale \<Rightarrow> string \<Rightarrow> string \<Rightarrow> string \<times> scale" where
  "in_layout c s layout planner =
     (let placed = s\<lparr>sc_layout := layout, sc_planner := planner\<rparr> in
      (c, placed\<lparr>sc_keys := int (length (key_specs placed))\<rparr>))"

definition given :: "'a option \<Rightarrow> 'a \<Rightarrow> 'a" where
  "given a fallback = (case a of None \<Rightarrow> fallback | Some x \<Rightarrow> x)"

text \<open>\<^verbatim>\<open>parser.error\<close> ends the program; here it is the refusal.\<close>

definition resolve_cases :: "bench_args \<Rightarrow> (string \<times> scale) list res" where
  "resolve_cases a =
     (if ba_warmups a < 0 then Inl ValueError
      else if ba_repeats a < 1 then Inl ValueError
      else if ba_preset a = ''suite'' then
        res_map (\<lambda>c. bindr (preset c) (\<lambda>s. Inr (in_layout c s (ba_layout a) (ba_planner a)))) DEFAULT_SUITE
      else bindr (preset (ba_preset a)) (\<lambda>p.
        let s = new_scale (given (ba_keys a) (sc_keys p)) (given (ba_source_ranks a) (sc_source_ranks p))
                  (given (ba_generators a) (sc_generators p)) (given (ba_generator_shards a) (sc_generator_shards p)) (sc_width p)
        in if \<exists>n \<in> {sc_keys s, sc_source_ranks s, sc_generators s, sc_generator_shards s}. n < 1 then Inl ValueError
           else if sc_generators s < sc_generator_shards s then Inl ValueError
           else if sc_generators s mod sc_generator_shards s \<noteq> 0 then Inl ValueError
           else Inr [in_layout (ba_preset a) s (ba_layout a) (ba_planner a)]))"

subsection \<open>Shards tile\<close>

lemma shard_bounds_some:
  assumes "d < length (ks_shape k)" "shards \<noteq> 0"
  shows "shard_bounds k (Some d) rank shards =
    (let size = ks_shape k ! d; width = - (- size div shards); offset = min (rank * width) size in
       Inr (map (\<lambda>a. if a = d then offset else 0) [0..<length (ks_shape k)],
            map (\<lambda>a. if a = d then min width (size - offset) else ks_shape k ! a) [0..<length (ks_shape k)]))"
  using assms by (simp add: shard_bounds_def Let_def)

lemma ceiling_width:
  fixes size shards :: int
  assumes "0 \<le> size" "0 < shards"
  defines "w \<equiv> - (- size div shards)"
  shows "0 \<le> w" "size \<le> w * shards" "0 < size \<Longrightarrow> 0 < w"
proof -
  have "(- size) div shards * shards + (- size) mod shards = - size" by (rule div_mult_mod_eq)
  then have "size + (- size) mod shards = w * shards" unfolding w_def minus_mult_left [symmetric] by linarith
  moreover have "0 \<le> (- size) mod shards" using assms(2) by simp
  ultimately show le: "size \<le> w * shards" by linarith
  show "0 \<le> w" unfolding w_def using assms by (simp add: div_nonpos_pos_le0)
  then show "0 < w" if "0 < size" using le that by (cases "w = 0") auto
qed

lemma slot_of:
  fixes x w r :: int
  assumes "0 < w"
  shows "r * w \<le> x \<and> x < (r + 1) * w \<longleftrightarrow> r = x div w"
proof -
  have split: "x = x div w * w + x mod w" "0 \<le> x mod w" "x mod w < w" using assms by simp_all
  have "r * w \<le> x \<longleftrightarrow> r \<le> x div w"
  proof
    assume "r * w \<le> x"
    then have "r * w < (x div w + 1) * w" using split unfolding distrib_right mult_1 by linarith
    with assms show "r \<le> x div w" by (simp add: mult_less_cancel_right)
  next
    assume "r \<le> x div w"
    then have "r * w \<le> x div w * w" using assms by (simp add: mult_right_mono)
    with split show "r * w \<le> x" by linarith
  qed
  moreover have "x < (r + 1) * w \<longleftrightarrow> x div w \<le> r"
  proof
    assume "x < (r + 1) * w"
    then have "x div w * w < (r + 1) * w" using split by linarith
    with assms show "x div w \<le> r" by (simp add: mult_less_cancel_right)
  next
    assume "x div w \<le> r"
    then have "x div w * w \<le> r * w" using assms by (simp add: mult_right_mono)
    with split show "x < (r + 1) * w" unfolding distrib_right mult_1 by linarith
  qed
  ultimately show ?thesis by auto
qed

text \<open>C35: however many ranks divide a dimension, and whether or not it divides evenly, each rank's piece lies
  inside the tensor, is whole in every other dimension, and every position belongs to the piece of exactly one
  rank.\<close>

theorem shards_tile:
  assumes d: "d < length (ks_shape k)" and size: "0 \<le> ks_shape k ! d" and shards: "0 < shards"
  shows "(\<forall>rank. 0 \<le> rank \<and> rank < shards \<longrightarrow>
      (\<exists>os ls. shard_bounds k (Some d) rank shards = Inr (os, ls) \<and> length os = length (ks_shape k) \<and>
         length ls = length (ks_shape k) \<and> 0 \<le> os ! d \<and> 0 \<le> ls ! d \<and> os ! d + ls ! d \<le> ks_shape k ! d \<and>
         (\<forall>a < length (ks_shape k). a \<noteq> d \<longrightarrow> os ! a = 0 \<and> ls ! a = ks_shape k ! a))) \<and>
    (\<forall>x. 0 \<le> x \<and> x < ks_shape k ! d \<longrightarrow>
      (\<exists>!rank. 0 \<le> rank \<and> rank < shards \<and>
         (\<exists>os ls. shard_bounds k (Some d) rank shards = Inr (os, ls) \<and> os ! d \<le> x \<and> x < os ! d + ls ! d)))"
proof (intro conjI allI impI)
  let ?s = "ks_shape k ! d" and ?w = "- (- (ks_shape k ! d) div shards)"
  note w = ceiling_width [OF size shards]
  have piece: "shard_bounds k (Some d) rank shards = Inr (os, ls) \<Longrightarrow>
      os ! d = min (rank * ?w) ?s \<and> ls ! d = min ?w (?s - min (rank * ?w) ?s)" for rank os ls
    using d shards by (auto simp: shard_bounds_some Let_def)
  have some: "\<exists>os ls. shard_bounds k (Some d) rank shards = Inr (os, ls)" for rank
    using d shards by (simp add: shard_bounds_some Let_def)
  {
    fix rank assume r: "0 \<le> rank \<and> rank < shards"
    then have "0 \<le> rank * ?w" using w(1) by (intro mult_nonneg_nonneg) auto
    with size w(1) d shards show "\<exists>os ls. shard_bounds k (Some d) rank shards = Inr (os, ls) \<and> length os = length (ks_shape k) \<and>
         length ls = length (ks_shape k) \<and> 0 \<le> os ! d \<and> 0 \<le> ls ! d \<and> os ! d + ls ! d \<le> ks_shape k ! d \<and>
         (\<forall>a < length (ks_shape k). a \<noteq> d \<longrightarrow> os ! a = 0 \<and> ls ! a = ks_shape k ! a)"
      by (simp add: shard_bounds_some Let_def)
  }
  fix x assume x: "0 \<le> x \<and> x < ?s"
  then have w0: "0 < ?w" using w(3) by simp
  have owner: "(\<exists>os ls. shard_bounds k (Some d) rank shards = Inr (os, ls) \<and> os ! d \<le> x \<and> x < os ! d + ls ! d) \<longleftrightarrow>
      rank * ?w \<le> x \<and> x < (rank + 1) * ?w" for rank
  proof -
    obtain os ls where os: "shard_bounds k (Some d) rank shards = Inr (os, ls)" using some by blast
    have "(rank + 1) * ?w = rank * ?w + ?w" by (simp only: distrib_right mult_1)
    with piece [OF os] os x show ?thesis by auto
  qed
  show "\<exists>!rank. 0 \<le> rank \<and> rank < shards \<and>
      (\<exists>os ls. shard_bounds k (Some d) rank shards = Inr (os, ls) \<and> os ! d \<le> x \<and> x < os ! d + ls ! d)"
    unfolding owner slot_of [OF w0]
  proof (rule ex1I [of _ "x div ?w"], intro conjI)
    show "0 \<le> x div ?w" using x w0 by (simp add: pos_imp_zdiv_nonneg_iff)
    have "x div ?w * ?w \<le> x" using slot_of [OF w0, of "x div ?w" x] by blast
    then have "x div ?w * ?w < shards * ?w" using x w(2) unfolding mult.commute [of shards] by linarith
    then show "x div ?w < shards" using w0 by (rule mult_right_less_imp_less [OF _ less_imp_le])
  qed auto
qed

theorem shards_tile_witness:
  "\<exists>!rank. 0 \<le> rank \<and> rank < 3 \<and>
     (\<exists>os ls. shard_bounds (spec ''w'' [10, 4] (Some 0)) (Some 0) rank 3 = Inr (os, ls) \<and> os ! 0 \<le> 9 \<and> 9 < os ! 0 + ls ! 0)"
  using shards_tile [of 0 "spec ''w'' [10, 4] (Some 0)" 3] by (simp add: spec_def)

subsection \<open>Every resolved case builds\<close>

lemma str_nat_dot: "str_nat i @ CHR ''.'' # x = str_nat j @ CHR ''.'' # y \<Longrightarrow> i = j \<and> x = y"
proof -
  assume eq: "str_nat i @ CHR ''.'' # x = str_nat j @ CHR ''.'' # y"
  have upto: "takeWhile digit (str_nat n @ CHR ''.'' # z) = str_nat n" for n z
    by (subst takeWhile_append2) (auto simp: digit_def dest: str_nat_digits)
  from eq have "str_nat i = str_nat j" using upto by metis
  with eq show ?thesis by (auto dest: str_nat_inj)
qed

definition suffixes :: "string list" where
  "suffixes = [''input_layernorm.weight'', ''self_attn.q_proj.weight'', ''self_attn.k_proj.weight'', ''self_attn.v_proj.weight'',
     ''self_attn.o_proj.weight'', ''post_attention_layernorm.weight'', ''mlp.gate_proj.weight'', ''mlp.up_proj.weight'',
     ''mlp.down_proj.weight'']"

lemma layer_names: "map ks_name (layer_specs w i) = map (\<lambda>s. ''model.layers.'' @ str_nat i @ CHR ''.'' # s) suffixes"
  by (simp add: layer_specs_def spec_def suffixes_def Let_def)

lemma distinct_suffixes: "distinct suffixes"
  by (simp add: suffixes_def)

lemma names_product:
  "map ks_name (concat (map (layer_specs w) is)) =
    map (\<lambda>(i, s). ''model.layers.'' @ str_nat i @ CHR ''.'' # s) (List.product is suffixes)"
  by (induction "is") (simp_all add: layer_names)

lemma distinct_key_names: "distinct (map ks_name (key_specs s))"
proof (cases "sc_layout s = ''uniform''")
  case True
  then show ?thesis
    by (auto simp: key_specs_def spec_def distinct_map inj_on_def dest: str_nat_inj)
next
  case False
  have "inj_on (\<lambda>(i, s). ''model.layers.'' @ str_nat i @ CHR ''.'' # s) A" for A
    by (auto simp: inj_on_def dest: str_nat_dot)
  then have "distinct (map (\<lambda>(i, s). ''model.layers.'' @ str_nat i @ CHR ''.'' # s) (List.product [0..<n] suffixes))" for n
    by (simp add: distinct_map distinct_product distinct_suffixes)
  with False show ?thesis
    by (auto simp: key_specs_def realistic_specs_def Let_def spec_def names_product)
qed

lemma layer_count: "length (concat (map (layer_specs w) is)) = 9 * length is"
  by (induction "is") (simp_all add: layer_specs_def Let_def)

lemma realistic_count: "int (length (realistic_specs s)) = 9 * layers_of s + 3"
  by (simp add: realistic_specs_def Let_def layer_count layers_of_def)

text \<open>The count a layout generates generates itself.\<close>

lemma recount: "key_specs (s\<lparr>sc_keys := int (length (key_specs s))\<rparr>) = key_specs s"
proof (cases "sc_layout s = ''uniform''")
  case False
  have "1 \<le> layers_of s" by (simp add: layers_of_def)
  then have "layers_of (s\<lparr>sc_keys := 9 * layers_of s + 3\<rparr>) = layers_of s"
    by (simp add: layers_of_def [of "s\<lparr>sc_keys := 9 * layers_of s + 3\<rparr>"] LAYER_KEYS_def NON_LAYER_KEYS_def)
  with False show ?thesis by (simp add: key_specs_def realistic_count) (simp add: realistic_specs_def)
qed (simp add: key_specs_def)

lemma key_dims:
  "k \<in> set (key_specs s) \<Longrightarrow> ks_shape k \<noteq> [] \<and> (\<forall>d. ks_generator_dim k = Some d \<longrightarrow> d < length (ks_shape k))"
  by (auto simp: key_specs_def realistic_specs_def layer_specs_def spec_def Let_def split: if_splits)

lemma registrations_build:
  assumes "distinct (map ks_name specs)" "shards \<noteq> 0" "length dims = length specs"
    and dims: "\<And>i d. i < length specs \<Longrightarrow> dims ! i = Some d \<Longrightarrow> d < length (ks_shape (specs ! i))"
  shows "\<exists>r. registrations specs rank shards dims = Inr r \<and> map fst r = map ks_name specs"
proof -
  have some: "\<exists>b. shard_bounds k d rank shards = Inr b" if "(k, d) \<in> set (zip specs dims)" for k d
    using that dims assms(2,3) by (cases d) (auto simp: shard_bounds_def Let_def in_set_zip)
  define g where "g = (\<lambda>(k, d). case shard_bounds k d rank shards of Inr (offsets, local_shape) \<Rightarrow>
       (ks_name k, \<lparr>sl_offsets = offsets, sl_coordinates = (if d = None then [0] else [rank]),
                        sl_global = ks_shape k, sl_local = local_shape,
                        sl_mesh = (if d = None then [1] else [shards])\<rparr>))"
  have "res_map (\<lambda>(k, d). bindr (shard_bounds k d rank shards) (\<lambda>(offsets, local_shape).
       Inr (ks_name k, \<lparr>sl_offsets = offsets, sl_coordinates = (if d = None then [0] else [rank]),
                        sl_global = ks_shape k, sl_local = local_shape,
                        sl_mesh = (if d = None then [1] else [shards])\<rparr>))) (zip specs dims) = Inr (map g (zip specs dims))"
    by (rule res_map_total) (use some in \<open>fastforce simp: g_def\<close>)
  moreover have names: "map fst (map g (zip specs dims)) = map ks_name specs"
  proof -
    have "map (fst \<circ> g) (zip specs dims) = map (ks_name \<circ> fst) (zip specs dims)"
      by (rule map_cong [OF refl]) (use some in \<open>fastforce simp: g_def\<close>)
    also have "\<dots> = map ks_name specs" using assms(3) by (metis map_fst_zip map_map)
    finally show ?thesis by simp
  qed
  moreover have "dict_of (map g (zip specs dims)) = map g (zip specs dims)"
    using assms(1) unfolding names [symmetric] by (rule dict_of_distinct)
  ultimately show ?thesis by (simp add: registrations_def)
qed

definition sound_scale :: "scale \<Rightarrow> bool" where
  "sound_scale s \<longleftrightarrow> 1 \<le> sc_source_ranks s \<and> 1 \<le> sc_generators s \<and> 1 \<le> sc_generator_shards s \<and>
     sc_generators s mod sc_generator_shards s = 0"

lemma presets_sound: "preset c = Inr s \<Longrightarrow> sound_scale s"
  by (auto simp: preset_def PRESETS_def new_scale_def sound_scale_def split: option.splits if_splits)

lemma resolved_in_layout:
  assumes "resolve_cases a = Inr cs" "(c, s) \<in> set cs"
  obtains s0 where "sound_scale s0" "(c, s) = in_layout c s0 (ba_layout a) (ba_planner a)"
proof (cases "ba_preset a = ''suite''")
  case True
  with assms(1) have "res_map (\<lambda>c. bindr (preset c) (\<lambda>s. Inr (in_layout c s (ba_layout a) (ba_planner a)))) DEFAULT_SUITE = Inr cs"
    by (simp add: resolve_cases_def split: if_splits)
  with assms(2) obtain c' s0 where "preset c' = Inr s0" "(c, s) = in_layout c' s0 (ba_layout a) (ba_planner a)"
    by (fastforce simp: res_map_Inr_iff list_all2_conv_all_nth in_set_conv_nth res_simps)
  with that [of s0] presets_sound [of c' s0] show ?thesis by (auto simp: in_layout_def Let_def)
next
  case False
  with assms(1) obtain p where "preset (ba_preset a) = Inr p"
    by (auto simp: resolve_cases_def res_simps split: if_splits)
  define s0 where "s0 = new_scale (given (ba_keys a) (sc_keys p)) (given (ba_source_ranks a) (sc_source_ranks p))
      (given (ba_generators a) (sc_generators p)) (given (ba_generator_shards a) (sc_generator_shards p)) (sc_width p)"
  from False assms(1) \<open>preset (ba_preset a) = Inr p\<close>
  have "sound_scale s0 \<and> cs = [in_layout (ba_preset a) s0 (ba_layout a) (ba_planner a)]"
    by (auto simp: resolve_cases_def s0_def [symmetric] Let_def sound_scale_def split: if_splits)
  with assms(2) that [of s0] show ?thesis by (auto simp: in_layout_def Let_def)
qed

text \<open>Whatever arguments the benchmarks accept, each case they run says how many keys its layout really
  generates, no two of those keys share a name, and its workload builds: no rank fails to find its piece, there is
  one entry per trainer and per generator, and each holds a slice of every key.\<close>

theorem resolved_cases_build:
  assumes cases: "resolve_cases a = Inr cs" and case_in: "(c, s) \<in> set cs"
  shows "sc_keys s = int (length (key_specs s)) \<and> distinct (map ks_name (key_specs s)) \<and>
    (\<exists>ps. publishers s = Inr ps \<and> map fst ps = map (\<lambda>r. ''trainer-'' @ str_nat r) [0..<nat (sc_source_ranks s)] \<and>
       (\<forall>(n, r) \<in> set ps. map fst r = map ks_name (key_specs s))) \<and>
    (\<exists>gs. requesters s = Inr gs \<and> map fst gs = map (\<lambda>r. ''generator-'' @ str_nat r) [0..<nat (sc_generators s)] \<and>
       (\<forall>(n, r) \<in> set gs. map fst r = map ks_name (key_specs s)))"
proof -
  obtain s0 where s0: "sound_scale s0" and placed: "(c, s) = in_layout c s0 (ba_layout a) (ba_planner a)"
    using resolved_in_layout [OF cases case_in] by blast
  have count: "sc_keys s = int (length (key_specs s))" and ranks: "0 < sc_source_ranks s" "0 < sc_generator_shards s"
    using placed s0 by (auto simp: in_layout_def Let_def recount sound_scale_def)
  note names = distinct_key_names [of s] and dims = key_dims [OF nth_mem, of _ s]
  have pub: "\<exists>r. registrations (key_specs s) rank (sc_source_ranks s) (map (\<lambda>_. Some 0) (key_specs s)) = Inr r \<and>
      map fst r = map ks_name (key_specs s)" for rank
    using names ranks dims by (intro registrations_build) auto
  have gen: "\<exists>r. registrations (key_specs s) rank (sc_generator_shards s) (map ks_generator_dim (key_specs s)) = Inr r \<and>
      map fst r = map ks_name (key_specs s)" for rank
    using names ranks dims by (intro registrations_build) auto
  obtain p where p: "\<And>rank. registrations (key_specs s) rank (sc_source_ranks s) (map (\<lambda>_. Some 0) (key_specs s)) = Inr (p rank)"
      "\<And>rank. map fst (p rank) = map ks_name (key_specs s)" using pub by metis
  obtain g where g: "\<And>rank. registrations (key_specs s) rank (sc_generator_shards s) (map ks_generator_dim (key_specs s)) = Inr (g rank)"
      "\<And>rank. map fst (g rank) = map ks_name (key_specs s)" using gen by metis
  show ?thesis
    using count names ranks p g by (simp add: publishers_def requesters_def comp_def)
qed

theorem resolved_cases_build_witness:
  "\<exists>cs c s. resolve_cases \<lparr>ba_preset = ''70b'', ba_keys = Some 40, ba_source_ranks = Some 3, ba_generators = None,
       ba_generator_shards = None, ba_layout = ''realistic'', ba_planner = ''central'', ba_warmups = 0, ba_repeats = 1\<rparr> = Inr cs \<and>
     (c, s) \<in> set cs \<and> sc_keys s = int (length (key_specs s))"
proof -
  let ?a = "\<lparr>ba_preset = ''70b'', ba_keys = Some 40, ba_source_ranks = Some 3, ba_generators = None,
       ba_generator_shards = None, ba_layout = ''realistic'', ba_planner = ''central'', ba_warmups = 0, ba_repeats = 1\<rparr>"
  obtain cs where cs: "resolve_cases ?a = Inr cs" "cs \<noteq> []"
    by (simp add: resolve_cases_def preset_def PRESETS_def new_scale_def given_def Let_def)
  then obtain c s where "(c, s) \<in> set cs" by (metis last_in_set surj_pair)
  with cs(1) resolved_cases_build [of ?a cs c s] show ?thesis by blast
qed

subsection \<open>No preset lands on a ragged shard\<close>

text \<open>As the comment of \<^verbatim>\<open>Width\<close> says: in either layout, both sides divide the dimension they shard evenly.\<close>

lemma presets_even:
  assumes preset: "preset c = Inr s" and key: "k \<in> set (key_specs (s\<lparr>sc_layout := l\<rparr>))"
  shows "sc_source_ranks s dvd ks_shape k ! 0 \<and> (\<forall>d. ks_generator_dim k = Some d \<longrightarrow> sc_generator_shards s dvd ks_shape k ! d)"
proof (cases "l = ''uniform''")
  case True
  with key show ?thesis by (auto simp: key_specs_def spec_def)
next
  case False
  have w: "256 dvd wd_hidden (sc_width s)" "256 dvd wd_ffn (sc_width s)" "256 dvd wd_vocab (sc_width s)"
      "256 dvd wd_heads (sc_width s) * wd_head_dim (sc_width s)" "256 dvd wd_kv_heads (sc_width s) * wd_head_dim (sc_width s)"
    and r: "sc_source_ranks s dvd 256" "sc_generator_shards s dvd 256"
    using preset by (auto simp: preset_def PRESETS_def new_scale_def WIDTH_1B_def WIDTH_8B_def WIDTH_27B_def WIDTH_70B_def
        WIDTH_405B_def split: option.splits if_splits)
  have w': "n dvd int (wd_hidden (sc_width s))" "n dvd int (wd_ffn (sc_width s))" "n dvd int (wd_vocab (sc_width s))"
      "n dvd int (wd_heads (sc_width s) * wd_head_dim (sc_width s))" "n dvd int (wd_kv_heads (sc_width s) * wd_head_dim (sc_width s))"
    if "n dvd 256" for n :: int
    using w [THEN iffD2 [OF int_dvd_int_iff]] by (auto intro: dvd_trans [OF that] simp del: of_nat_mult)
  from False key show ?thesis
    by (auto simp: key_specs_def realistic_specs_def layer_specs_def spec_def Let_def simp del: of_nat_mult
        intro!: w' r)
qed

end
