(* ===== verification/Ambient.thy ===== *)
theory Ambient
  imports CostModel Text
begin

section \<open>Process-wide state: the configuration and the transport substitution\<close>

text \<open>
  \<^verbatim>\<open>sim_common/config.py\<close> and \<^verbatim>\<open>realsim/seams/factory.py\<close> (with the factories of \<^verbatim>\<open>realsim/mesh.py\<close> and
  \<^verbatim>\<open>realsim/adapters/real_client.py\<close> it installs): what is read ambiently rather than passed. The process
  environment is a map, a float's text is read by a function argument, and a block of a context manager is
  its two halves, since a coroutine may be suspended between them.
\<close>

subsection \<open>Configuration\<close>

text \<open>A field holds whatever it was given: nothing but the backend's name is checked.\<close>

datatype cval = CBool bool | CStr string | CNum real

record sim_config =
  cf_fingerprint :: cval
  cf_trace :: cval
  cf_real_directory :: cval
  cf_controller_backend :: cval
  cf_contention :: cval
  cf_collapse_charges :: cval
  cf_control_rtt :: cval
  cf_controller_rtt :: cval
  cf_client_rtt :: cval

definition default_config :: sim_config where
  "default_config = \<lparr>cf_fingerprint = CBool False, cf_trace = CBool True, cf_real_directory = CBool True,
     cf_controller_backend = CStr ''legacy'', cf_contention = CStr ''none'', cf_collapse_charges = CBool False,
     cf_control_rtt = CNum 0, cf_controller_rtt = CNum 0, cf_client_rtt = CNum 0\<rparr>"

definition config_fields :: "(string \<times> (sim_config \<Rightarrow> cval) \<times> (cval \<Rightarrow> sim_config \<Rightarrow> sim_config)) list" where
  "config_fields =
    [(''fingerprint'', cf_fingerprint, \<lambda>v. cf_fingerprint_update (\<lambda>_. v)),
     (''trace'', cf_trace, \<lambda>v. cf_trace_update (\<lambda>_. v)),
     (''real_directory'', cf_real_directory, \<lambda>v. cf_real_directory_update (\<lambda>_. v)),
     (''controller_backend'', cf_controller_backend, \<lambda>v. cf_controller_backend_update (\<lambda>_. v)),
     (''contention'', cf_contention, \<lambda>v. cf_contention_update (\<lambda>_. v)),
     (''collapse_charges'', cf_collapse_charges, \<lambda>v. cf_collapse_charges_update (\<lambda>_. v)),
     (''control_rtt'', cf_control_rtt, \<lambda>v. cf_control_rtt_update (\<lambda>_. v)),
     (''controller_rtt'', cf_controller_rtt, \<lambda>v. cf_controller_rtt_update (\<lambda>_. v)),
     (''client_rtt'', cf_client_rtt, \<lambda>v. cf_client_rtt_update (\<lambda>_. v))]"

definition read_field :: "string \<Rightarrow> sim_config \<Rightarrow> cval option" where
  "read_field name c = map_option (\<lambda>(r, w). r c) (map_of config_fields name)"

text \<open>\<^verbatim>\<open>__post_init__\<close>\<close>

definition post_init :: "sim_config \<Rightarrow> sim_config res" where
  "post_init c =
     (if cf_controller_backend c = CStr ''legacy'' \<or> cf_controller_backend c = CStr ''indexed'' then Inr c
      else Inl ValueError)"

text \<open>Keyword arguments over a base: \<^verbatim>\<open>SimConfig(**values)\<close> over the defaults, \<^verbatim>\<open>replace\<close> over a config.\<close>

definition with_field :: "string \<times> cval \<Rightarrow> sim_config \<Rightarrow> sim_config res" where
  "with_field p c = (case map_of config_fields (fst p) of None \<Rightarrow> Inl TypeError | Some (r, w) \<Rightarrow> Inr (w (snd p) c))"

definition with_values :: "sim_config \<Rightarrow> (string \<times> cval) list \<Rightarrow> sim_config res" where
  "with_values base values = bindr (res_fold with_field values base) post_init"

definition lower :: "string \<Rightarrow> string" where
  "lower s = map lower_char s"

definition truthy :: "string \<Rightarrow> bool" where
  "truthy raw \<longleftrightarrow> lower (strip_blanks raw) \<in> {''1'', ''true'', ''yes'', ''on''}"

definition bool_env :: "(string \<rightharpoonup> string) \<Rightarrow> string \<Rightarrow> bool option" where
  "bool_env env name = map_option truthy (env name)"

definition collect_bool :: "(string \<rightharpoonup> string) \<Rightarrow> string \<Rightarrow> string \<Rightarrow> (string \<times> cval) list" where
  "collect_bool env name field = (case bool_env env name of None \<Rightarrow> [] | Some b \<Rightarrow> [(field, CBool b)])"

definition collect_word :: "(string \<rightharpoonup> string) \<Rightarrow> string \<Rightarrow> string \<Rightarrow> (string \<times> cval) list" where
  "collect_word env name field = (case env name of None \<Rightarrow> [] | Some raw \<Rightarrow> [(field, CStr (lower (strip_blanks raw)))])"

definition collect_float ::
  "(string \<Rightarrow> real option) \<Rightarrow> (string \<rightharpoonup> string) \<Rightarrow> string \<Rightarrow> string \<Rightarrow> (string \<times> cval) list res" where
  "collect_float pf env name field =
     (case env name of None \<Rightarrow> Inr []
      | Some raw \<Rightarrow> (case pf raw of None \<Rightarrow> Inl ValueError | Some x \<Rightarrow> Inr [(field, CNum x)]))"

definition from_env :: "(string \<Rightarrow> real option) \<Rightarrow> (string \<rightharpoonup> string) \<Rightarrow> (string \<times> cval) list res" where
  "from_env pf env =
     (let flags = collect_bool env ''TOSO_FINGERPRINT'' ''fingerprint'' @ collect_bool env ''TOSO_TRACE'' ''trace'' @
          collect_bool env ''TOSO_REAL_DIRECTORY'' ''real_directory'' @
          collect_word env ''TOSO_CONTROLLER_BACKEND'' ''controller_backend'' @
          collect_word env ''TOSO_CONTENTION'' ''contention'' @
          collect_bool env ''TOSO_COLLAPSE_CHARGES'' ''collapse_charges''
      in bindr (collect_float pf env ''TOSO_CONTROL_RTT'' ''control_rtt'') (\<lambda>a.
         bindr (collect_float pf env ''TOSO_CONTROLLER_RTT'' ''controller_rtt'') (\<lambda>b.
         bindr (collect_float pf env ''TOSO_CLIENT_RTT'' ''client_rtt'') (\<lambda>c.
           Inr (flags @ a @ b @ c)))))"

text \<open>The process's current configuration is the state.\<close>

definition configure ::
  "(string \<Rightarrow> real option) \<Rightarrow> (string \<rightharpoonup> string) \<Rightarrow> (string \<times> cval option) list \<Rightarrow> sim_config \<Rightarrow>
     sim_config res \<times> sim_config" where
  "configure pf env overrides cur =
     (case bindr (from_env pf env) (\<lambda>values.
          with_values default_config
            (fold (\<lambda>(k, v) d. case v of None \<Rightarrow> d | Some x \<Rightarrow> AList.update k x d) overrides values)) of
        Inl e \<Rightarrow> (Inl e, cur)
      | Inr c \<Rightarrow> (Inr c, c))"

text \<open>\<^verbatim>\<open>overrides\<close>: entering answers with what leaving puts back.\<close>

definition enter_overrides :: "(string \<times> cval) list \<Rightarrow> sim_config \<Rightarrow> (sim_config \<times> sim_config) res" where
  "enter_overrides kw cur = bindr (with_values cur kw) (\<lambda>c. Inr (cur, c))"

definition leave_overrides :: "sim_config \<Rightarrow> sim_config \<Rightarrow> sim_config" where
  "leave_overrides saved cur = saved"

subsection \<open>What a configuration holds\<close>

text \<open>
  The rule the module's text states, written without the code: a field's variable is \<^verbatim>\<open>TOSO_\<close> and its name in
  capitals, and it is read by the kind of the field's default.
\<close>

definition upper_char :: "char \<Rightarrow> char" where
  "upper_char c = (let n = (of_char c :: nat) in if 97 \<le> n \<and> n \<le> 122 then char_of (n - 32) else c)"

definition variable_of :: "string \<Rightarrow> string" where
  "variable_of field = ''TOSO_'' @ map upper_char field"

definition read_as :: "(string \<Rightarrow> real option) \<Rightarrow> cval \<Rightarrow> string \<Rightarrow> cval option" where
  "read_as pf like raw =
     (case like of CBool _ \<Rightarrow> Some (CBool (truthy raw)) | CStr _ \<Rightarrow> Some (CStr (lower (strip_blanks raw)))
      | CNum _ \<Rightarrow> map_option CNum (pf raw))"

definition env_value :: "(string \<Rightarrow> real option) \<Rightarrow> (string \<rightharpoonup> string) \<Rightarrow> string \<Rightarrow> cval option" where
  "env_value pf env field =
     Option.bind (env (variable_of field)) (\<lambda>raw. Option.bind (read_field field default_config) (\<lambda>like. read_as pf like raw))"

definition configured ::
  "(string \<Rightarrow> real option) \<Rightarrow> (string \<rightharpoonup> string) \<Rightarrow> (string \<times> cval option) list \<Rightarrow> string \<Rightarrow> cval option" where
  "configured pf env given field =
     (case map_of given field of
        Some (Some x) \<Rightarrow> Some x
      | _ \<Rightarrow> (case env_value pf env field of Some x \<Rightarrow> Some x | None \<Rightarrow> read_field field default_config))"

lemma variables:
  "variable_of ''fingerprint'' = ''TOSO_FINGERPRINT''" "variable_of ''trace'' = ''TOSO_TRACE''"
  "variable_of ''real_directory'' = ''TOSO_REAL_DIRECTORY''"
  "variable_of ''controller_backend'' = ''TOSO_CONTROLLER_BACKEND''" "variable_of ''contention'' = ''TOSO_CONTENTION''"
  "variable_of ''collapse_charges'' = ''TOSO_COLLAPSE_CHARGES''" "variable_of ''control_rtt'' = ''TOSO_CONTROL_RTT''"
  "variable_of ''controller_rtt'' = ''TOSO_CONTROLLER_RTT''" "variable_of ''client_rtt'' = ''TOSO_CLIENT_RTT''"
  by code_simp+

definition env_entry :: "(string \<Rightarrow> real option) \<Rightarrow> (string \<rightharpoonup> string) \<Rightarrow> string \<Rightarrow> (string \<times> cval) list" where
  "env_entry pf env field = (case env_value pf env field of None \<Rightarrow> [] | Some x \<Rightarrow> [(field, x)])"

lemma field_names:
  "fst ` set config_fields = {''fingerprint'', ''trace'', ''real_directory'', ''controller_backend'', ''contention'',
     ''collapse_charges'', ''control_rtt'', ''controller_rtt'', ''client_rtt''}"
  by (simp add: config_fields_def)

lemma collected:
  "read_field f default_config = Some (CBool b) \<Longrightarrow> collect_bool env (variable_of f) f = env_entry pf env f"
  "read_field f default_config = Some (CStr s) \<Longrightarrow> collect_word env (variable_of f) f = env_entry pf env f"
  "read_field f default_config = Some (CNum x) \<Longrightarrow> collect_float pf env (variable_of f) f =
     (if env (variable_of f) \<noteq> None \<and> env_value pf env f = None then Inl ValueError else Inr (env_entry pf env f))"
  by (auto simp: collect_bool_def collect_word_def collect_float_def bool_env_def env_entry_def env_value_def read_as_def split: option.splits)

lemma defaults:
  "read_field ''fingerprint'' default_config = Some (CBool False)" "read_field ''trace'' default_config = Some (CBool True)"
  "read_field ''real_directory'' default_config = Some (CBool True)"
  "read_field ''controller_backend'' default_config = Some (CStr ''legacy'')"
  "read_field ''contention'' default_config = Some (CStr ''none'')"
  "read_field ''collapse_charges'' default_config = Some (CBool False)"
  "read_field ''control_rtt'' default_config = Some (CNum 0)" "read_field ''controller_rtt'' default_config = Some (CNum 0)"
  "read_field ''client_rtt'' default_config = Some (CNum 0)"
  by (simp_all add: read_field_def config_fields_def default_config_def)

text \<open>A variable that is set and does not parse.\<close>

definition unreadable :: "(string \<Rightarrow> real option) \<Rightarrow> (string \<rightharpoonup> string) \<Rightarrow> string \<Rightarrow> bool" where
  "unreadable pf env f \<longleftrightarrow> env (variable_of f) \<noteq> None \<and> env_value pf env f = None"

lemma from_env_entries:
  "from_env pf env =
    (if \<exists>f \<in> fst ` set config_fields. unreadable pf env f then Inl ValueError
     else Inr (concat (map (env_entry pf env) (map fst config_fields))))"
proof -
  have readable: "\<not> unreadable pf env f" if "read_field f default_config = Some v" "\<forall>x. v \<noteq> CNum x" for f v
    using that by (cases v) (auto simp: unreadable_def env_value_def read_as_def Option.bind_eq_None_conv)
  note fine = readable [OF defaults(1)] readable [OF defaults(2)] readable [OF defaults(3)] readable [OF defaults(4)]
    readable [OF defaults(5)] readable [OF defaults(6)]
  have bad: "(\<exists>f \<in> fst ` set config_fields. unreadable pf env f) \<longleftrightarrow>
      unreadable pf env ''control_rtt'' \<or> unreadable pf env ''controller_rtt'' \<or> unreadable pf env ''client_rtt''"
    using fine by (simp add: config_fields_def)
  have names: "map fst config_fields = [''fingerprint'', ''trace'', ''real_directory'', ''controller_backend'', ''contention'',
      ''collapse_charges'', ''control_rtt'', ''controller_rtt'', ''client_rtt'']"
    by (simp add: config_fields_def)
  show ?thesis unfolding bad names from_env_def Let_def variables [symmetric]
    collected(1) [OF defaults(1), of env pf] collected(1) [OF defaults(2), of env pf] collected(1) [OF defaults(3), of env pf]
    collected(2) [OF defaults(4), of env pf] collected(2) [OF defaults(5), of env pf] collected(1) [OF defaults(6), of env pf]
    collected(3) [OF defaults(7)] collected(3) [OF defaults(8)] collected(3) [OF defaults(9)] unreadable_def [symmetric]
    by simp
qed

lemma entries_map_of:
  "distinct fs \<Longrightarrow> map_of (concat (map (env_entry pf env) fs)) f = (if f \<in> set fs then env_value pf env f else None)"
  by (induction fs) (auto simp: env_entry_def map_add_def split: option.splits)

lemma entries_keys:
  "distinct fs \<Longrightarrow> distinct (map fst (concat (map (env_entry pf env) fs))) \<and> fst ` set (concat (map (env_entry pf env) fs)) \<subseteq> set fs"
  by (induction fs) (auto simp: env_entry_def split: option.splits)

lemma distinct_fields: "distinct (map fst config_fields)"
  by (simp add: config_fields_def)

text \<open>What the caller passed lies over what the environment says; a value of \<^verbatim>\<open>None\<close> is no value.\<close>

abbreviation laid_over :: "(string \<times> cval option) list \<Rightarrow> (string \<times> cval) list \<Rightarrow> (string \<times> cval) list" where
  "laid_over given vs \<equiv> fold (\<lambda>(k, v) d. case v of None \<Rightarrow> d | Some x \<Rightarrow> AList.update k x d) given vs"

lemma laid_over_map_of:
  "distinct (map fst given) \<Longrightarrow>
    map_of (laid_over given vs) k = (case map_of given k of Some (Some x) \<Rightarrow> Some x | _ \<Rightarrow> map_of vs k)"
proof (induction given arbitrary: vs)
  case (Cons p given)
  obtain j v where p: "p = (j, v)" by (cases p)
  with Cons.prems have "map_of given j = None" by (auto simp: map_of_eq_None_iff)
  with Cons p show ?case by (cases v) (auto simp: dict_simps update_conv' split: option.splits)
qed simp

lemma laid_over_keys:
  "distinct (map fst vs) \<Longrightarrow> distinct (map fst (laid_over given vs)) \<and>
    fst ` set (laid_over given vs) = fst ` set vs \<union> {k. \<exists>x. (k, Some x) \<in> set given}"
proof (induction given arbitrary: vs)
  case (Cons p given)
  obtain j v where p: "p = (j, v)" by (cases p)
  show ?case
  proof (cases v)
    case (Some x)
    have "distinct (map fst (AList.update j x vs))" using Cons.prems by (rule distinct_update)
    from Cons.IH [OF this] p Some show ?thesis by (auto simp: dom_update)
  qed (use Cons p in auto)
qed simp

lemma with_field_reads:
  assumes "with_field (k, x) c = Inr c'" "f \<in> fst ` set config_fields"
  shows "read_field f c' = (if f = k then Some x else read_field f c)"
proof -
  have "k \<in> fst ` set config_fields"
    using assms(1) by (auto simp: with_field_def dest: map_of_SomeD split: option.splits intro: rev_image_eqI)
  with assms show ?thesis
    unfolding field_names by (elim insertE) (auto simp: with_field_def read_field_def config_fields_def)
qed

lemma with_field_total: "(\<exists>c'. with_field (k, x) c = Inr c') \<longleftrightarrow> k \<in> fst ` set config_fields"
  by (auto simp: with_field_def map_of_eq_None_iff dest: map_of_SomeD split: option.splits intro: rev_image_eqI)

lemma fields_set:
  assumes "distinct (map fst vs)"
  shows "(\<exists>c'. res_fold with_field vs c = Inr c') \<longleftrightarrow> fst ` set vs \<subseteq> fst ` set config_fields"
    and "res_fold with_field vs c = Inr c' \<Longrightarrow> f \<in> fst ` set config_fields \<Longrightarrow>
      read_field f c' = (case map_of vs f of Some x \<Rightarrow> Some x | None \<Rightarrow> read_field f c)"
  using assms
proof (induction vs arbitrary: c)
  case (Cons p vs)
  obtain k x where p: "p = (k, x)" by (cases p)
  { case 1 then show ?case using Cons.IH(1) with_field_total [of k x c] p by (auto simp: res_simps) }
  { case 2
    then obtain c1 where c1: "with_field (k, x) c = Inr c1" "res_fold with_field vs c1 = Inr c'"
      using p by (auto simp: res_simps)
    have rest: "read_field f c' = (case map_of vs f of Some x \<Rightarrow> Some x | None \<Rightarrow> read_field f c1)"
      using 2 p by (intro Cons.IH(2) [OF c1(2)]) auto
    have "f = k \<Longrightarrow> map_of vs f = None" using 2(3) p by (auto simp: map_of_eq_None_iff)
    with rest with_field_reads [OF c1(1) 2(2)] p show ?case by (auto split: option.splits) }
qed simp_all

definition refused :: "(string \<Rightarrow> real option) \<Rightarrow> (string \<rightharpoonup> string) \<Rightarrow> (string \<times> cval option) list \<Rightarrow> bool" where
  "refused pf env given \<longleftrightarrow>
     (\<exists>f \<in> fst ` set config_fields. unreadable pf env f) \<or>
     (\<exists>k x. (k, Some x) \<in> set given \<and> k \<notin> fst ` set config_fields) \<or>
     configured pf env given ''controller_backend'' \<notin> {Some (CStr ''legacy''), Some (CStr ''indexed'')}"

text \<open>C36: the configuration a process runs with holds, in every field, what the caller passed, else what the
  field's variable says, else the default, and becomes the process's current one. Configuring is refused exactly on
  a variable that does not parse (whether or not the caller overrides it), an argument no field is called, or a
  backend nobody knows, and then the process keeps the configuration it had.\<close>

theorem configure_precedence:
  assumes kw: "distinct (map fst given)"
  shows "(\<forall>c cur'. configure pf env given cur = (Inr c, cur') \<longrightarrow>
        cur' = c \<and> (\<forall>f \<in> fst ` set config_fields. read_field f c = configured pf env given f)) \<and>
     (\<forall>e cur'. configure pf env given cur = (Inl e, cur') \<longrightarrow> cur' = cur) \<and>
     ((\<exists>e. fst (configure pf env given cur) = Inl e) \<longleftrightarrow> refused pf env given)"
proof (cases "\<exists>f \<in> fst ` set config_fields. unreadable pf env f")
  case True
  then show ?thesis by (auto simp: configure_def from_env_entries refused_def)
next
  case False
  define vs where "vs = laid_over given (concat (map (env_entry pf env) (map fst config_fields)))"
  note keys = entries_keys [OF distinct_fields, of pf env]
  have vs: "distinct (map fst vs)" "fst ` set vs \<subseteq> fst ` set config_fields \<longleftrightarrow>
      \<not> (\<exists>k x. (k, Some x) \<in> set given \<and> k \<notin> fst ` set config_fields)"
    using laid_over_keys [OF conjunct1 [OF keys], of given] conjunct2 [OF keys] unfolding vs_def by auto
  have run: "configure pf env given cur = (case with_values default_config vs of Inl e \<Rightarrow> (Inl e, cur) | Inr c \<Rightarrow> (Inr c, c))"
    using False by (simp add: configure_def from_env_entries vs_def)
  have "map_of vs f = (case map_of given f of Some (Some x) \<Rightarrow> Some x | _ \<Rightarrow> env_value pf env f)"
    if "f \<in> fst ` set config_fields" for f
    using that laid_over_map_of [OF kw] entries_map_of [OF distinct_fields, of pf env f] unfolding vs_def
    by (simp split: option.splits)
  then have reads: "read_field f c = configured pf env given f"
    if "res_fold with_field vs default_config = Inr c" "f \<in> fst ` set config_fields" for f c
    using fields_set(2) [OF vs(1) that] that by (simp add: configured_def split: option.splits)
  have backend: "read_field ''controller_backend'' c = Some (cf_controller_backend c)" for c
    by (simp add: read_field_def config_fields_def)
  show ?thesis
  proof (cases "res_fold with_field vs default_config")
    case (Inl e)
    then have "\<not> fst ` set vs \<subseteq> fst ` set config_fields"
      using fields_set(1) [OF vs(1), of default_config] by auto
    with Inl vs(2) show ?thesis by (auto simp: run with_values_def refused_def)
  next
    case (Inr c)
    then have "fst ` set vs \<subseteq> fst ` set config_fields" using fields_set(1) [OF vs(1), of default_config] by auto
    moreover have "Some (cf_controller_backend c) = configured pf env given ''controller_backend''"
      using reads [OF Inr, of "''controller_backend''"] backend by (simp add: config_fields_def)
    ultimately show ?thesis
      using Inr False vs(2) reads [OF Inr] by (auto simp: run with_values_def refused_def post_init_def)
  qed
qed

theorem configure_precedence_witness:
  "\<exists>c. configure (\<lambda>_. Some 2) [''TOSO_TRACE'' \<mapsto> '' no ''] [(''contention'', Some (CStr ''serialize'')), (''trace'', None)]
       default_config = (Inr c, c) \<and> read_field ''contention'' c = Some (CStr ''serialize'') \<and>
     read_field ''trace'' c = configured (\<lambda>_. Some 2) [''TOSO_TRACE'' \<mapsto> '' no '']
       [(''contention'', Some (CStr ''serialize'')), (''trace'', None)] ''trace''"
proof -
  let ?given = "[(''contention'', Some (CStr ''serialize'')), (''trace'', None)]" and ?env = "[''TOSO_TRACE'' \<mapsto> '' no '']"
  have "\<not> unreadable (\<lambda>_. Some 2) ?env f" if "f \<in> fst ` set config_fields" for f
  proof -
    from that obtain like where "read_field f default_config = Some like"
      by (cases "map_of config_fields f") (auto simp: read_field_def map_of_eq_None_iff)
    then show ?thesis by (cases like) (auto simp: unreadable_def env_value_def read_as_def Option.bind_eq_None_conv)
  qed
  moreover have "''contention'' \<in> fst ` set config_fields" by (simp add: field_names)
  moreover have "configured (\<lambda>_. Some 2) ?env ?given ''controller_backend'' = Some (CStr ''legacy'')"
    by (simp add: configured_def env_value_def variables defaults)
  ultimately have fine: "\<not> refused (\<lambda>_. Some 2) ?env ?given" by (simp add: refused_def)
  have "distinct (map fst ?given)" by simp
  note all = configure_precedence [OF this, of "\<lambda>_. Some 2" ?env default_config]
  obtain r c' where run: "configure (\<lambda>_. Some 2) ?env ?given default_config = (r, c')" by fastforce
  with all fine obtain c where r: "r = Inr c" by (metis fst_conv sum.exhaust)
  with all run have "c' = c" and reads: "\<forall>f \<in> fst ` set config_fields. read_field f c = configured (\<lambda>_. Some 2) ?env ?given f"
    by blast+
  have "read_field ''contention'' c = configured (\<lambda>_. Some 2) ?env ?given ''contention''"
    "read_field ''trace'' c = configured (\<lambda>_. Some 2) ?env ?given ''trace''"
    using reads by (simp_all add: field_names)
  moreover have "configured (\<lambda>_. Some 2) ?env ?given ''contention'' = Some (CStr ''serialize'')" by (simp add: configured_def)
  ultimately show ?thesis using run r \<open>c' = c\<close> by auto
qed

text \<open>A block restores what it found, so blocks of two coroutines that overlap without nesting leave a change behind.\<close>

lemma overlapping_blocks_leak:
  "\<exists>a b c d. enter_overrides [(''trace'', CBool False)] default_config = Inr (a, b) \<and>
     enter_overrides [(''fingerprint'', CBool True)] b = Inr (c, d) \<and>
     leave_overrides c (leave_overrides a d) \<noteq> default_config"
  by (simp add: enter_overrides_def leave_overrides_def with_values_def with_field_def post_init_def config_fields_def default_config_def)

end
