(* ===== verification/Substitution.thy ===== *)
theory Substitution
  imports Topology "HOL-Library.List_Lexorder"
begin

section \<open>The transport substitution\<close>

text \<open>
  \<^verbatim>\<open>realsim/seams/factory.py\<close> and the two factories installed through it (\<^verbatim>\<open>realsim/mesh.py\<close>,
  \<^verbatim>\<open>realsim/adapters/real_client.py\<close>). What the process keeps is one record: who holds the substitution, what
  \<^verbatim>\<open>create_transport_buffer\<close> is bound to in each of torchstore's client modules, and the source each task's
  context binds. Coroutines interleave, so what they do is a sequence of events; one that raises moves nothing.
\<close>

subsection \<open>The process\<close>

datatype client_factory = Torchstore | AdapterFactory vid | MeshFactory

record ambient =
  am_owner :: "string option"
  am_bound :: "(string \<times> client_factory) list"
  am_sources :: "(nat \<times> endpoint) list"
  am_blocks :: "(nat \<times> (string \<times> client_factory) list) list"

definition CLIENT_MODULE :: string where "CLIENT_MODULE = ''torchstore.client''"
definition ROUTING_MODULE :: string where "ROUTING_MODULE = ''torchstore.routing.client''"

definition am_init :: ambient where
  "am_init = \<lparr>am_owner = None, am_bound = [(CLIENT_MODULE, Torchstore)], am_sources = [], am_blocks = []\<rparr>"

definition bind_source :: "nat \<Rightarrow> endpoint \<Rightarrow> ambient \<Rightarrow> ambient" where
  "bind_source t ep a = a\<lparr>am_sources := AList.update t ep (am_sources a)\<rparr>"

text \<open>The \<^verbatim>\<open>LookupError\<close> of a context that binds none is written as its subclass.\<close>

definition current_source :: "nat \<Rightarrow> ambient \<Rightarrow> endpoint res" where
  "current_source t a = (case map_of (am_sources a) t of None \<Rightarrow> Inl KeyError | Some ep \<Rightarrow> Inr ep)"

definition current_owner :: "ambient \<Rightarrow> string option" where
  "current_owner a = am_owner a"

text \<open>Which modules an install rebinds: the routing client only when it is loaded by then.\<close>

definition client_modules :: "ambient \<Rightarrow> string list" where
  "client_modules a = CLIENT_MODULE # (if ROUTING_MODULE \<in> set (dkeys (am_bound a)) then [ROUTING_MODULE] else [])"

text \<open>The two halves of \<^verbatim>\<open>installed\<close>: what runs before the block and what runs when it ends, however it ends.\<close>

definition install :: "nat \<Rightarrow> client_factory \<Rightarrow> string \<Rightarrow> ambient \<Rightarrow> ambient res" where
  "install b f o' a =
     (case am_owner a of
        Some _ \<Rightarrow> Inl RuntimeError
      | None \<Rightarrow>
          let ms = client_modules a; originals = map (\<lambda>m. (m, dget (am_bound a) m Torchstore)) ms in
          Inr (a\<lparr>am_owner := Some o', am_bound := fold (\<lambda>m. AList.update m f) ms (am_bound a),
                 am_blocks := AList.update b originals (am_blocks a)\<rparr>))"

definition leave_block :: "nat \<Rightarrow> ambient \<Rightarrow> ambient res" where
  "leave_block b a =
     (case map_of (am_blocks a) b of
        None \<Rightarrow> Inl RuntimeError
      | Some originals \<Rightarrow>
          Inr (a\<lparr>am_bound := fold (\<lambda>(m, g). AList.update m g) originals (am_bound a), am_owner := None,
                 am_blocks := AList.delete b (am_blocks a)\<rparr>))"

text \<open>A module imported later takes the name from torchstore itself; a task starts with its creator's context.\<close>

definition import_module :: "string \<Rightarrow> ambient \<Rightarrow> ambient" where
  "import_module m a = (if m \<in> set (dkeys (am_bound a)) then a else a\<lparr>am_bound := am_bound a @ [(m, Torchstore)]\<rparr>)"

definition task_created :: "nat \<Rightarrow> nat \<Rightarrow> ambient \<Rightarrow> ambient" where
  "task_created creator t a =
     (case map_of (am_sources a) creator of
        None \<Rightarrow> a\<lparr>am_sources := AList.delete t (am_sources a)\<rparr>
      | Some ep \<Rightarrow> bind_source t ep a)"

datatype am_event = Install nat client_factory string | Leave nat | Import string | Bind nat endpoint | Spawn nat nat

fun am_step :: "am_event \<Rightarrow> ambient \<Rightarrow> ambient res" where
  "am_step (Install b f o') a = install b f o' a"
| "am_step (Leave b) a = leave_block b a"
| "am_step (Import m) a = Inr (import_module m a)"
| "am_step (Bind t ep) a = Inr (bind_source t ep a)"
| "am_step (Spawn p t) a = Inr (task_created p t a)"

definition am_next :: "am_event \<Rightarrow> ambient \<Rightarrow> ambient" where
  "am_next e a = (case am_step e a of Inl _ \<Rightarrow> a | Inr a' \<Rightarrow> a')"

definition am_run :: "am_event list \<Rightarrow> ambient \<Rightarrow> ambient" where
  "am_run es a = fold am_next es a"

subsection \<open>Which client an operation is charged to\<close>

definition mesh_ids :: "(vid \<times> endpoint) list \<Rightarrow> vid list" where
  "mesh_ids topology = sort (dkeys topology)"

definition adapters_by_endpoint :: "(vid \<times> endpoint) list \<Rightarrow> (endpoint \<times> vid) list res" where
  "adapters_by_endpoint topology =
     bindr (res_map (\<lambda>v. case map_of topology v of None \<Rightarrow> Inl KeyError | Some ep \<Rightarrow> Inr (ep, v)) (mesh_ids topology))
       (\<lambda>ps. Inr (dict_of ps))"

definition mesh_build :: "(vid \<times> endpoint) list \<Rightarrow> nat \<Rightarrow> ambient \<Rightarrow> vid res" where
  "mesh_build topology t a =
     bindr (adapters_by_endpoint topology) (\<lambda>d. bindr (current_source t a) (\<lambda>ep.
       case map_of d ep of None \<Rightarrow> Inl KeyError | Some v \<Rightarrow> Inr v))"

definition mesh_bind_source :: "(vid \<times> endpoint) list \<Rightarrow> nat \<Rightarrow> vid \<Rightarrow> am_event res" where
  "mesh_bind_source topology t v = (case map_of topology v of None \<Rightarrow> Inl KeyError | Some ep \<Rightarrow> Inr (Bind t ep))"

text \<open>\<open>None\<close>: torchstore's own transport, which charges nobody.\<close>

definition charged_client :: "(vid \<times> endpoint) list \<Rightarrow> string \<Rightarrow> nat \<Rightarrow> ambient \<Rightarrow> vid option res" where
  "charged_client topology m t a =
     (case dget (am_bound a) m Torchstore of
        Torchstore \<Rightarrow> Inr None
      | AdapterFactory v \<Rightarrow> Inr (Some v)
      | MeshFactory \<Rightarrow> bindr (mesh_build topology t a) (\<lambda>v. Inr (Some v)))"

definition transport_ends :: "(vid \<times> endpoint) list \<Rightarrow> vid \<Rightarrow> vid \<Rightarrow> (endpoint \<times> endpoint) res" where
  "transport_ends topology client target =
     (case (map_of topology client, map_of topology target) of
        (Some src, Some dst) \<Rightarrow> Inr (src, dst)
      | _ \<Rightarrow> Inl KeyError)"

subsection \<open>One substitution at a time\<close>

text \<open>
  What the process keeps between events: either nobody has installed anything and every module is torchstore's
  own, or one block is open, its owner holds the substitution, the modules it rebound all name one factory and
  it can give each of them back.
\<close>

definition rebinds :: "client_factory \<Rightarrow> (string \<times> client_factory) list \<Rightarrow> (string \<times> client_factory) list \<Rightarrow> bool" where
  "rebinds f saved d \<longleftrightarrow> list_all (\<lambda>(m, g). g = (if m \<in> set (dkeys saved) then f else Torchstore)) d"

definition am_ok :: "ambient \<Rightarrow> bool" where
  "am_ok a \<longleftrightarrow> dwf (am_bound a) \<and> CLIENT_MODULE \<in> set (dkeys (am_bound a)) \<and>
     (case am_blocks a of
        [] \<Rightarrow> am_owner a = None \<and> list_all (\<lambda>(m, g). g = Torchstore) (am_bound a)
      | [(b, saved)] \<Rightarrow> am_owner a \<noteq> None \<and> CLIENT_MODULE \<in> set (dkeys saved) \<and> set (dkeys saved) \<subseteq> set (dkeys (am_bound a)) \<and>
          list_all (\<lambda>(m, g). g = Torchstore) saved \<and>
          rebinds (dget (am_bound a) CLIENT_MODULE Torchstore) saved (am_bound a)
      | _ \<Rightarrow> False)"

lemma all_bound:
  "dwf d \<Longrightarrow> list_all (\<lambda>(m, g). P m g) d \<longleftrightarrow> (\<forall>m g. map_of d m = Some g \<longrightarrow> P m g)"
  by (auto simp: list_all_iff)

lemma rebinds_iff:
  "dwf d \<Longrightarrow> rebinds f saved d \<longleftrightarrow> (\<forall>m g. map_of d m = Some g \<longrightarrow> g = (if m \<in> set (dkeys saved) then f else Torchstore))"
  unfolding rebinds_def by (rule all_bound)

lemma bind_all: "map_of (fold (\<lambda>m. AList.update m f) ms d) k = (if k \<in> set ms then Some f else map_of d k)"
  by (induction ms arbitrary: d) (auto simp: dict_simps update_conv')

lemma dwf_bind_all: "dwf d \<Longrightarrow> dwf (fold (\<lambda>m. AList.update m f) ms d)"
  by (induction ms arbitrary: d) auto

lemma give_back:
  "list_all (\<lambda>(m, g). g = Torchstore) saved \<Longrightarrow>
    map_of (fold (\<lambda>(m, g). AList.update m g) saved d) k = (if k \<in> set (dkeys saved) then Some Torchstore else map_of d k)"
  by (induction saved arbitrary: d) (auto simp: update_conv')

lemma dwf_give_back: "dwf d \<Longrightarrow> dwf (fold (\<lambda>(m, g). AList.update m g) saved d)"
  by (induction saved arbitrary: d) auto

lemma keys_bind_all: "fst ` set (fold (\<lambda>m. AList.update m f) ms d) = set ms \<union> fst ` set d"
  by (induction ms arbitrary: d) (auto simp: dom_update)

lemma keys_give_back: "fst ` set (fold (\<lambda>(m, g). AList.update m g) saved d) = fst ` set saved \<union> fst ` set d"
proof (induction saved arbitrary: d)
  case (Cons p saved)
  then show ?case by (cases p) (simp add: dom_update)
qed simp

text \<open>The two shapes a sound process has.\<close>

lemma am_okE:
  assumes "am_ok a"
  obtains (free) "am_blocks a = []" "am_owner a = None" "\<And>m g. map_of (am_bound a) m = Some g \<Longrightarrow> g = Torchstore"
  | (held) b saved o' f where "am_blocks a = [(b, saved)]" "am_owner a = Some o'" "CLIENT_MODULE \<in> set (dkeys saved)"
      "set (dkeys saved) \<subseteq> set (dkeys (am_bound a))" "list_all (\<lambda>(m, g). g = Torchstore) saved"
      "\<And>m g. map_of (am_bound a) m = Some g \<Longrightarrow> g = (if m \<in> set (dkeys saved) then f else Torchstore)"
proof (cases "am_blocks a")
  case Nil
  with assms free show ?thesis by (auto simp: am_ok_def all_bound)
next
  case (Cons p rest)
  obtain b saved where p: "p = (b, saved)" by (cases p)
  with assms Cons have rest: "rest = []" by (cases rest) (auto simp: am_ok_def)
  from assms Cons p rest obtain o' where o': "am_owner a = Some o'" by (auto simp: am_ok_def)
  from assms Cons p rest have ok: "dwf (am_bound a)" "rebinds (dget (am_bound a) CLIENT_MODULE Torchstore) saved (am_bound a)"
      "CLIENT_MODULE \<in> set (dkeys saved)" "set (dkeys saved) \<subseteq> set (dkeys (am_bound a))" "list_all (\<lambda>(m, g). g = Torchstore) saved"
    by (simp_all add: am_ok_def)
  show ?thesis
    using Cons p rest o' ok(3,4,5) ok(2) [unfolded rebinds_iff [OF ok(1)]]
    by (intro held [of b saved o' "dget (am_bound a) CLIENT_MODULE Torchstore"]) blast+
qed

lemma am_ok_free:
  "dwf (am_bound a) \<Longrightarrow> CLIENT_MODULE \<in> set (dkeys (am_bound a)) \<Longrightarrow> am_blocks a = [] \<Longrightarrow> am_owner a = None \<Longrightarrow>
    (\<And>m g. map_of (am_bound a) m = Some g \<Longrightarrow> g = Torchstore) \<Longrightarrow> am_ok a"
  by (auto simp: am_ok_def all_bound)

lemma am_ok_held:
  assumes "dwf (am_bound a)" "am_blocks a = [(b, saved)]" "am_owner a = Some o'" "CLIENT_MODULE \<in> set (dkeys saved)"
    "set (dkeys saved) \<subseteq> set (dkeys (am_bound a))" "list_all (\<lambda>(m, g). g = Torchstore) saved"
    and bound: "\<And>m g. map_of (am_bound a) m = Some g \<Longrightarrow> g = (if m \<in> set (dkeys saved) then f else Torchstore)"
  shows "am_ok a"
proof -
  have client: "CLIENT_MODULE \<in> fst ` set (am_bound a)" using assms(4,5) by auto
  then obtain g where g: "map_of (am_bound a) CLIENT_MODULE = Some g" by (metis map_of_eq_None_iff option.exhaust)
  with bound assms(4) have "dget (am_bound a) CLIENT_MODULE Torchstore = f" by (fastforce simp: dget_def)
  moreover have "rebinds f saved (am_bound a)"
    unfolding rebinds_iff [OF assms(1)] using bound by blast
  ultimately show ?thesis using assms client by (simp add: am_ok_def)
qed

lemma install_keeps:
  assumes "am_ok a" "install b f o' a = Inr a'"
  shows "am_ok a'"
proof -
  from assms(2) have free: "am_owner a = None" by (auto simp: install_def split: option.splits)
  have keys: "dwf (am_bound a)" "CLIENT_MODULE \<in> set (dkeys (am_bound a))" using assms(1) by (auto simp: am_ok_def)
  let ?saved = "map (\<lambda>m. (m, dget (am_bound a) m Torchstore)) (client_modules a)"
  from assms(1) show ?thesis
  proof (cases rule: am_okE)
    case free: free
    have ms: "set (client_modules a) \<subseteq> set (dkeys (am_bound a))" using keys by (auto simp: client_modules_def)
    have a': "a' = a\<lparr>am_owner := Some o', am_bound := fold (\<lambda>m. AList.update m f) (client_modules a) (am_bound a),
        am_blocks := [(b, ?saved)]\<rparr>"
      using assms(2) free by (simp add: install_def Let_def)
    show ?thesis
    proof (rule am_ok_held [where b = b and saved = ?saved and o' = o' and f = f])
      show "list_all (\<lambda>(m, g). g = Torchstore) ?saved"
        using free(3) by (auto simp: list_all_iff dget_def split: option.splits)
      show "set (dkeys ?saved) \<subseteq> set (dkeys (am_bound a'))"
        using ms by (auto simp: a' keys_bind_all comp_def)
      show "CLIENT_MODULE \<in> set (dkeys ?saved)" by (simp add: client_modules_def)
      show "map_of (am_bound a') m = Some g \<Longrightarrow> g = (if m \<in> set (dkeys ?saved) then f else Torchstore)" for m g
        using free(3) by (auto simp: a' bind_all comp_def split: if_splits)
    qed (use keys in \<open>auto simp: a' intro: dwf_bind_all\<close>)
  qed (use free in simp)
qed

lemma leave_keeps:
  assumes "am_ok a" "leave_block b a = Inr a'"
  shows "am_ok a'"
  using assms(1)
proof (cases rule: am_okE)
  case free
  with assms(2) show ?thesis by (simp add: leave_block_def)
next
  case (held b' saved o' f)
  then have a': "a' = a\<lparr>am_bound := fold (\<lambda>(m, g). AList.update m g) saved (am_bound a), am_owner := None, am_blocks := []\<rparr>"
    using assms(2) by (auto simp: leave_block_def split: if_splits)
  have keys: "dwf (am_bound a)" using assms(1) by (simp add: am_ok_def)
  show ?thesis
  proof (rule am_ok_free)
    show "CLIENT_MODULE \<in> set (dkeys (am_bound a'))" using held by (auto simp: a' keys_give_back)
    show "map_of (am_bound a') m = Some g \<Longrightarrow> g = Torchstore" for m g
      using held(5) held(6) [of m g] by (simp add: a' give_back split: if_splits)
  qed (use keys in \<open>auto simp: a' intro: dwf_give_back\<close>)
qed

lemma import_keeps:
  assumes "am_ok a"
  shows "am_ok (import_module m a)"
proof (cases "m \<in> set (dkeys (am_bound a))")
  case False
  have keys: "dwf (am_bound a)" "CLIENT_MODULE \<in> set (dkeys (am_bound a))" using assms by (auto simp: am_ok_def)
  from assms show ?thesis
  proof (cases rule: am_okE)
    case free
    show ?thesis
    proof (rule am_ok_free)
      show "map_of (am_bound (import_module m a)) k = Some g \<Longrightarrow> g = Torchstore" for k g
        using False free(3) [of k g] by (simp add: import_module_def map_add_def split: option.splits if_splits)
    qed (use False keys free in \<open>simp_all add: import_module_def\<close>)
  next
    case (held b saved o' f)
    show ?thesis
    proof (rule am_ok_held [where b = b and saved = saved and o' = o' and f = f])
      show "map_of (am_bound (import_module m a)) k = Some g \<Longrightarrow> g = (if k \<in> set (dkeys saved) then f else Torchstore)" for k g
        using False held(4) held(6) [of k g] by (auto simp: import_module_def map_add_def split: option.splits if_splits)
    qed (use False keys held in \<open>auto simp: import_module_def\<close>)
  qed
qed (use assms in \<open>simp add: import_module_def\<close>)

lemma sources_keep: "am_ok (a\<lparr>am_sources := x\<rparr>) = am_ok a"
  by (simp add: am_ok_def cong: if_cong split: list.split)

lemma next_keeps: "am_ok a \<Longrightarrow> am_ok (am_next e a)"
  by (cases e) (auto simp: am_next_def bind_source_def task_created_def sources_keep split: sum.splits option.splits
      intro: install_keeps leave_keeps import_keeps)

lemma init_ok: "am_ok am_init"
  by (simp add: am_init_def am_ok_def)

text \<open>C37: whatever coroutines install, leave, import and bind in whatever order, at most one block holds the
  substitution. While one does, the modules it rebound all build by its factory and it can give each its own back;
  while none does, nobody owns the substitution and every client module is torchstore's own again.\<close>

theorem substitution_exclusive:
  "am_ok (am_run es am_init)"
proof -
  have "am_ok a \<Longrightarrow> am_ok (am_run es a)" for a
    by (induction es arbitrary: a) (auto simp: am_run_def intro: next_keeps)
  then show ?thesis using init_ok .
qed

text \<open>A second install is refused and moves nothing.\<close>

lemma second_install_refused:
  "am_owner a = Some o1 \<Longrightarrow> install b f o2 a = Inl RuntimeError \<and> am_next (Install b f o2) a = a"
  by (simp add: install_def am_next_def)

subsection \<open>Transfers are charged where their task bound them\<close>

definition stays_open :: "am_event \<Rightarrow> bool" where
  "stays_open e = (case e of Leave b \<Rightarrow> False | _ \<Rightarrow> True)"

definition undisturbed :: "nat \<Rightarrow> am_event \<Rightarrow> bool" where
  "undisturbed t e = (case e of Leave b \<Rightarrow> False | Bind t' ep \<Rightarrow> t' \<noteq> t | Spawn p t' \<Rightarrow> t' \<noteq> t | _ \<Rightarrow> True)"

lemma undisturbed_open: "undisturbed t e \<Longrightarrow> stays_open e"
  by (cases e) (simp_all add: undisturbed_def stays_open_def)

lemma open_step:
  assumes "stays_open e" "am_owner a = Some o'" "map_of (am_bound a) m = Some f"
  shows "am_owner (am_next e a) = Some o' \<and> map_of (am_bound (am_next e a)) m = Some f"
  using assms
  by (cases e) (auto simp: stays_open_def am_next_def install_def import_module_def bind_source_def task_created_def
      map_add_def split: option.splits)

lemma open_run:
  "list_all stays_open es \<Longrightarrow> am_owner a = Some o' \<Longrightarrow> map_of (am_bound a) m = Some f \<Longrightarrow>
    am_owner (am_run es a) = Some o' \<and> map_of (am_bound (am_run es a)) m = Some f"
proof (induction es arbitrary: a)
  case (Cons e es)
  then have "stays_open e" by simp
  from open_step [OF this Cons.prems(2,3)] Cons.prems(1) Cons.IH [of "am_next e a"] show ?case by (simp add: am_run_def)
qed (simp add: am_run_def)

lemma undisturbed_sources:
  "undisturbed t e \<Longrightarrow> map_of (am_sources (am_next e a)) t = map_of (am_sources a) t"
  by (cases e) (auto simp: undisturbed_def am_next_def install_def leave_block_def import_module_def bind_source_def
      task_created_def dict_simps update_conv' delete_conv' Let_def split: option.splits)

lemma undisturbed_run: "list_all (undisturbed t) es \<Longrightarrow> map_of (am_sources (am_run es a)) t = map_of (am_sources a) t"
  by (induction es arbitrary: a) (simp_all add: am_run_def undisturbed_sources)

lemma am_run_append: "am_run (es @ fs) a = am_run fs (am_run es a)"
  by (simp add: am_run_def)

lemma install_binds:
  assumes "install b f o' a = Inr a'" "m \<in> set (client_modules a)"
  shows "am_owner a' = Some o' \<and> map_of (am_bound a') m = Some f"
  using assms by (auto simp: install_def Let_def bind_all split: option.splits)

lemma adapters_found:
  assumes ids: "dwf topology" and ends: "distinct (map snd topology)" and n: "map_of topology n = Some ep"
  shows "\<exists>d. adapters_by_endpoint topology = Inr d \<and> map_of d ep = Some n"
proof -
  let ?ps = "map (\<lambda>v. (the (map_of topology v), v)) (mesh_ids topology)"
  have ids_set: "set (mesh_ids topology) = set (dkeys topology)" "distinct (mesh_ids topology)"
    using ids by (simp_all add: mesh_ids_def)
  have all: "res_map (\<lambda>v. case map_of topology v of None \<Rightarrow> Inl KeyError | Some ep \<Rightarrow> Inr (ep, v)) (mesh_ids topology) = Inr ?ps"
    using ids_set by (intro res_map_total) (auto split: option.splits simp: map_of_eq_None_iff)
  have "inj_on (\<lambda>v. the (map_of topology v)) (set (dkeys topology))"
  proof (rule inj_onI)
    fix x y assume x: "x \<in> set (dkeys topology)" and y: "y \<in> set (dkeys topology)"
      and eq: "the (map_of topology x) = the (map_of topology y)"
    from x y obtain e e' where e: "(x, e) \<in> set topology" and e': "(y, e') \<in> set topology" by auto
    with ids have "map_of topology x = Some e" "map_of topology y = Some e'" by simp_all
    with eq have "snd (x, e) = snd (y, e')" by simp
    from inj_onD [OF _ this e e'] ends show "x = y" by (simp add: distinct_map)
  qed
  with ids_set have "distinct (map (\<lambda>v. the (map_of topology v)) (mesh_ids topology))" by (simp only: distinct_map)
  then have distinct: "distinct (map fst ?ps)" by (simp add: comp_def)
  moreover have "n \<in> set (mesh_ids topology)" unfolding ids_set(1) using map_of_SomeD [OF n] by force
  then have "(ep, n) \<in> set ?ps" using n by (auto intro: rev_image_eqI)
  ultimately have "map_of ?ps ep = Some n" by (simp only: map_of_is_SomeI)
  with all distinct show ?thesis by (simp add: adapters_by_endpoint_def dict_of_distinct del: map_of_eq_None_iff)
qed

text \<open>C38: after a mesh installed its factory and a task bound its node, every operation the task starts
  through a client module that install rebound is charged to that node's client: torchstore's client
  always, its routing client when it had been loaded by the install. It stays so for as long as the
  block is open and the task is not bound again, whatever other tasks bind, spawn, import or try to
  install before the binding and after it. The topology names each id once and gives no two ids
  one endpoint. A routing client first imported while the block is open was not rebound: it
  stays torchstore's own and charges nobody (\<open>late_import_not_substituted\<close> below).\<close>

theorem bound_source_charged:
  assumes topology: "dwf topology" "distinct (map snd topology)"
    and installed: "install b MeshFactory o' a = Inr a'" and rebound: "m \<in> set (client_modules a)"
    and before: "list_all stays_open es" and bound: "mesh_bind_source topology t n = Inr e"
    and others: "list_all (undisturbed t) fs"
  shows "charged_client topology m t (am_run (es @ e # fs) a') = Inr (Some n)"
proof -
  from bound obtain ep where e: "e = Bind t ep" "map_of topology n = Some ep"
    by (auto simp: mesh_bind_source_def split: option.splits)
  have "list_all stays_open (es @ e # fs)"
    using before others by (auto simp: e stays_open_def list_all_iff dest: undisturbed_open [unfolded stays_open_def])
  with open_run install_binds [OF installed rebound]
  have m: "map_of (am_bound (am_run (es @ e # fs) a')) m = Some MeshFactory" by blast
  have "am_run (es @ e # fs) a' = am_run fs (bind_source t ep (am_run es a'))"
    by (simp add: am_run_def am_next_def e)
  then have "map_of (am_sources (am_run (es @ e # fs) a')) t = Some ep"
    by (simp add: undisturbed_run [OF others] bind_source_def)
  with adapters_found [OF topology e(2)] m show ?thesis
    by (auto simp: charged_client_def mesh_build_def current_source_def dget_def)
qed

theorem bound_source_charged_witness:
  "charged_client [(''a'', \<lparr>ep_id = ''a'', ep_host = ''h'', ep_node = ''n''\<rparr>), (''b'', \<lparr>ep_id = ''b'', ep_host = ''h'', ep_node = ''n''\<rparr>)]
     ROUTING_MODULE 1 (am_run ([Spawn 0 1] @ Bind 1 \<lparr>ep_id = ''b'', ep_host = ''h'', ep_node = ''n''\<rparr> #
        [Bind 2 \<lparr>ep_id = ''a'', ep_host = ''h'', ep_node = ''n''\<rparr>, Install 9 (AdapterFactory ''a'') ''adapter'', Spawn 2 3])
      (am_run [Import ROUTING_MODULE, Install 0 MeshFactory ''mesh''] am_init)) = Inr (Some ''b'')"
  by (rule bound_source_charged [where o' = "''mesh''" and b = 0 and a = "am_run [Import ROUTING_MODULE] am_init"])
     (simp_all add: am_run_def am_next_def install_def import_module_def am_init_def client_modules_def mesh_bind_source_def
       undisturbed_def stays_open_def dict_simps CLIENT_MODULE_def ROUTING_MODULE_def Let_def)

text \<open>A module first imported while a block is open is bound to torchstore's own transport and stays so.\<close>

lemma late_import_not_substituted:
  assumes "ROUTING_MODULE \<notin> set (dkeys (am_bound a))"
  shows "charged_client topology ROUTING_MODULE t (import_module ROUTING_MODULE a) = Inr None"
proof -
  from assms have "map_of (am_bound a) ROUTING_MODULE = None" by (simp add: map_of_eq_None_iff)
  with assms show ?thesis by (simp add: charged_client_def import_module_def dget_def map_add_def)
qed

end
