(* ===== verification/Spec2Isabelle.thy ===== *)
theory Spec2Isabelle
  imports AsyncLoop TraceLog ClientFacts StoreReader Directory Runs ReadLoop RenderTree StructureCheck Scales Ambient Substitution
begin

text \<open>
  \<^bold>\<open>toso: topology-aware store operations.\<close> The program decides which copy of a key a reader
  should use and which host should serve a request, and checks those decisions on a deterministic
  discrete-event simulation of a store. This development models its Python core: the simulation's
  clock and costs (\<^verbatim>\<open>src/sim_common\<close>), the decision vocabulary every control plane is built of
  (\<^verbatim>\<open>src/proposed\<close>), the KV-cache and dedup control planes that use it (\<^verbatim>\<open>src/kvcache_sim/control\<close>,
  \<^verbatim>\<open>src/dedup_sim/control\<close>), the engines that serve what it decided (\<^verbatim>\<open>src/kvcache_sim/data\<close>, \<^verbatim>\<open>src/kvcache_sim/workload\<close>) and the volumes that
  hold the bytes (\<^verbatim>\<open>src/realsim/seams\<close>).

  \<^bold>\<open>How the parts meet.\<close> A decision reads sensors (folded from dispatched actions) and the directory,
  runs chains of selectors over the candidates, and answers with two hosts and a plan; accepting it
  dispatches an action the sensors fold. The data plane then fetches, prefills, publishes and decodes
  on the simulated clock, and reports facts back as further actions.

  \<^bold>\<open>Theories, in the order they build on each other.\<close>
  \<^item> \<open>Prelude\<close>: errors as values (\<open>'a res\<close>), floats that may be infinite (\<open>ext\<close>), Python dicts as
    association lists with their insertion order, sums over dicts.
  \<^item> \<open>Topology\<close>, \<open>CostModel\<close>, \<open>LlmModel\<close>: \<^verbatim>\<open>proposed/topology.py\<close>, \<^verbatim>\<open>sim_common/cost_model.py\<close>,
    \<^verbatim>\<open>proposed/environment.py\<close>, \<^verbatim>\<open>domain/llm.py\<close>: tiers and prices, over exact reals.
  \<^item> \<open>EventLoop\<close>, \<open>AsyncLoop\<close>: \<^verbatim>\<open>sim_common/engine.py\<close> and \<^verbatim>\<open>sim_common/async_engine.py\<close>: the heap
    engine and its promises, and the asyncio loop on a virtual clock. Callbacks are functions that
    return what they schedule. \<open>sim_run\<close> takes fuel; the weight of the heap is shown to be enough.
  \<^item> \<open>Resources\<close>: \<^verbatim>\<open>sim_common/resources.py\<close>: both contention channels. The serialized one is proved
    equal to a first-come-first-served reference; the fair one conserves work. \<open>drain\<close> takes the
    number of active transfers as fuel, which its theorem shows is exactly enough.
  \<^item> \<open>TraceLog\<close>: \<^verbatim>\<open>sim_common/trace.py\<close> and \<^verbatim>\<open>sim_common/diverge.py\<close>: the hash chain, a run's fingerprint
    and the first divergence of two runs.
  \<^item> \<open>Ordering\<close>, \<open>Selection\<close>, \<open>Selectors\<close>: \<^verbatim>\<open>proposed/selector.py\<close>: Python's comparison of measured
    values with its errors, selections and their invariant, every combinator. A link of a chain is
    the locale \<open>link\<close>, interpreted on the four kinds of link.
  \<^item> \<open>Dispatch\<close>, \<open>Sensing\<close>: \<^verbatim>\<open>proposed/dispatch.py\<close> and \<^verbatim>\<open>proposed/sensors.py\<close>: folding, gates and how an
    object finds its sensors. Reducers owning disjoint parts of the state are the locale
    \<open>disjoint_owners\<close>.
  \<^item> \<open>KvModel\<close>, \<open>KvSensors\<close>, \<open>KvSelectors\<close>, \<open>KvScheduler\<close>, \<open>KvDecisions\<close> (with the worked cluster of
    \<open>KvDemo\<close>): \<^verbatim>\<open>kvcache_sim/control\<close>: prefixes, the four sensors, the rankings, both presets of the
    scheduler, and what a decision guarantees.
  \<^item> \<open>DedupSensors\<close>, \<open>DedupRouting\<close>, \<open>DedupProgress\<close>: \<^verbatim>\<open>dedup_sim/control\<close>: who reads behind whom, the
    ranking of serving and pending copies, one decision and its gate, and what every run of
    decisions and landings guarantees (\<open>dedup_reach\<close>): no deadlock, no more
    readers than the cap waiting for the volume their plan puts first, no raise.
  \<^item> \<open>ReadLoop\<close>: \<^verbatim>\<open>dedup_sim/data/read_through.py\<close>: the readers, as one step relation over the router's plane
    (\<open>read_step\<close>) that refines \<open>dedup_reach\<close>: they never stall, and their awaits are bounded.
  \<^item> \<open>Retention\<close>, \<open>Volume\<close>: \<^verbatim>\<open>realsim/seams/_retention.py\<close> and \<^verbatim>\<open>realsim/seams/volume_service.py\<close>: the LRU
    ranking behind the locale \<open>retention\<close>, and residency, capacity and eviction of one volume whose calls
    run one after another; what two overlapping puts break is a lemma of its own.
  \<^item> \<open>Accelerator\<close>, \<open>DecodeLoop\<close>: \<^verbatim>\<open>kvcache_sim/workload/_accelerator.py\<close> and
    \<^verbatim>\<open>kvcache_sim/data/_decode.py\<close>: the device's occupancy, its queue of forward passes, and the batched
    decode loop as a state machine. \<open>rounds\<close> takes the tokens owed as fuel, shown to be enough.
  \<^item> \<open>Metrics\<close>: \<^verbatim>\<open>sim_common/report.py\<close> and \<^verbatim>\<open>kvcache_sim/report/metrics.py\<close>: a run's ledger, the joins that
    fill a request's row as its facts arrive, and every reading of it.
  \<^item> \<open>Serving\<close>, \<open>ServingFacts\<close>: \<^verbatim>\<open>kvcache_sim/data/serving.py\<close>, \<^verbatim>\<open>_store.py\<close>, \<^verbatim>\<open>_prefill.py\<close>: both legs of a
    request on its hosts, as bodies over a state that may raise; triples over them, and what a leg
    under the scheduler's own plan leaves behind.
  \<^item> \<open>Workload\<close>, \<open>WorkloadFacts\<close>: \<^verbatim>\<open>kvcache_sim/workload/_generator.py\<close>: the conversations a run offers,
    that each turn continues the one before, and that no two requests generate one key.
  \<^item> \<open>Client\<close>, \<open>ClientFacts\<close>: \<^verbatim>\<open>proposed/routed.py\<close>, \<^verbatim>\<open>realsim/seams/link.py\<close> and the client of
    \<^verbatim>\<open>kvcache_sim/workload/_serving.py\<close>: calls that are sent on, and conversations walked to their end.
    \<open>chase\<close> takes the hops allowed; two are shown to be enough.

  \<^item> \<open>Transport\<close>: the registry of \<^verbatim>\<open>sim_common/resources.py\<close> and \<^verbatim>\<open>realsim/seams/transport.py\<close>: a put and a
    get as coroutines (\<open>proc\<close>), what each is charged, and that a get costs what schedulers price it at.
    A future is awaited with the channel's timers as fuel, which a lone transfer never exhausts.
  \<^item> \<open>Text\<close>, \<open>Directory\<close>, \<open>StoreReader\<close>: numbers printed and read back; \<^verbatim>\<open>realsim/seams/dict_directory.py\<close>, a
    refinement of a finite map; and \<^verbatim>\<open>toso_store_reader.py\<close>: every response a store's terminal interface is
    served. Reading all pages takes one request per row at most, the fuel of its theorem.
  \<^item> \<open>Gather\<close>, \<open>Runs\<close>: \<^verbatim>\<open>asyncio.gather\<close> over coroutines that sleep, \<^verbatim>\<open>realsim/runner.py\<close>, a run of
    \<^verbatim>\<open>realsim/simulation.py\<close> and the burst of \<^verbatim>\<open>putget_sim/workload/put_get.py\<close>, from its key to its last
    reader's row. \<open>gather\<close> takes the number of resumptions as fuel, shown to be enough.
  \<^item> \<open>Ambient\<close>, \<open>Substitution\<close>: \<^verbatim>\<open>sim_common/config.py\<close> and \<^verbatim>\<open>realsim/seams/factory.py\<close> with the factories
    of \<^verbatim>\<open>realsim/mesh.py\<close> and \<^verbatim>\<open>realsim/adapters/real_client.py\<close>: what the process holds for everybody, equal
    to a rule written without the code, and the one substitution any interleaving of coroutines leaves intact.
  \<^item> \<open>RenderTree\<close>: the picture of who served whom of \<^verbatim>\<open>sim_common/report.py\<close>. The depth-first walk takes one
    more than the number of sources as fuel, shown to be enough; the chain, which may not end, is partial.
  \<^item> \<open>TextDiagram\<close>, \<open>ContractCheck\<close>, \<open>StructureCheck\<close>, \<open>Scales\<close>: the tools of \<^verbatim>\<open>realsim/tools\<close> that compute
    something: \<^verbatim>\<open>text_diagram.py\<close> (layout of a drawing and its place in a document), \<^verbatim>\<open>check_contract.py\<close> and
    \<^verbatim>\<open>check_structure.py\<close> (both lints, over syntax trees), and the workloads of the benchmarks
    (\<^verbatim>\<open>_benchmark_harness.py\<close>). The search for ports in \<open>StructureCheck\<close> takes a round for each class and one
    more as fuel, shown to be enough; its closure is the transitive one.

  \<^bold>\<open>Conventions.\<close> An instant or a price is a real number, so the theorems are about the arithmetic the
  code means; rounding of floats is not modelled. Every raise is a value. What the code awaits is
  where a definition ends: one definition is what runs without suspending. Third-party code (torch,
  torchstore, monarch, hashlib) is an argument with its assumptions named.

  \<^bold>\<open>Not modelled.\<close> The terminal interface (Rust), tests, command lines, demos and the wording of the reports'
  tables; how the benchmarks measure (clocks, allocation tracing, hardware counters), the report on prose
  (\<^verbatim>\<open>prose_budget.py\<close>, which needs Python's tokenizer), the parity run and \<^verbatim>\<open>render_diagrams.py\<close>; the regular
  expressions of the README rule; the adapters and handles that only forward to a real torchstore controller;
  the scenarios, which only choose parameters, and the precomputed routes, whose planner is torchstore's;
  Python's class machinery (typing of selector subjects, descriptors).
\<close>

end
